(* ===== verification/Base.thy ===== *)
theory Base
  imports Main "HOL-Library.Word" "HOL-Library.AList"
begin

text \<open>
  The prelude of the development: the constants and types of \<^verbatim>\<open>src/src/common\<close>, the error
  values that stand for the C++ exceptions, and the generic lemmas on lists, association lists
  and optional values that the component theories share.

  Conventions used everywhere:
  \<^item> \<open>int64_t\<close> values that are only compared and copied (keys, page ids, time stamps) are \<open>int\<close>;
    where the width matters (hashing, key encoding, counters that wrap) they are words;
  \<^item> a \<open>std::unordered_map\<close> is an association list with distinct keys, the list order being one
    possible iteration order;
  \<^item> an exception is \<open>Inl e\<close> of a sum; a method that may throw after it has already changed the
    object returns the changed object as well.
\<close>

section \<open>Rule collections\<close>

named_theorems inv_intros \<open>introduction rules for the component invariants\<close>
named_theorems abs_simps \<open>equations of the abstraction functions\<close>

section \<open>Constants and types of \<^verbatim>\<open>common/config.h\<close>\<close>

type_synonym byte = "8 word"
type_synonym page_id_t = int
type_synonym frame_id_t = int
type_synonym KeyType = int

definition PAGE_SIZE :: nat where
  "PAGE_SIZE = 4096"

definition INVALID_PAGE_ID :: page_id_t where
  "INVALID_PAGE_ID = - 1"

definition INVALID_FRAME_ID :: frame_id_t where
  "INVALID_FRAME_ID = - 1"

definition INVALID_KEY :: KeyType where
  "INVALID_KEY = - (2 ^ 63)"

definition INT64_MAX :: int where
  "INT64_MAX = 2 ^ 63 - 1"

definition MAX_VALUE_SIZE :: nat where
  "MAX_VALUE_SIZE = 64"

text \<open>The values an \<open>int64_t\<close> can take.\<close>

definition is_int64 :: "int \<Rightarrow> bool" where
  "is_int64 x \<longleftrightarrow> INVALID_KEY \<le> x \<and> x \<le> INT64_MAX"

lemma PAGE_SIZE_pos [simp]: "0 < PAGE_SIZE"
  by (simp add: PAGE_SIZE_def)

lemma PAGE_SIZE_neq_0 [simp]: "PAGE_SIZE \<noteq> 0"
  by (simp add: PAGE_SIZE_def)

section \<open>Errors\<close>

text \<open>
  The exception classes of the program and of the standard library calls it makes, plus one value
  for an execution that C++ leaves undefined (a null page pointer dereferenced, the front of an
  empty container).
\<close>

datatype db_error =
    IOException string
  | InvalidArgument string
  | RuntimeError string
  | OutOfRange string
  | SqlException string
  | BadVariantAccess
  | UndefinedBehaviour string

type_synonym 'a result = "db_error + 'a"

definition is_ok :: "'a result \<Rightarrow> bool" where
  "is_ok r \<longleftrightarrow> (case r of Inl _ \<Rightarrow> False | Inr _ \<Rightarrow> True)"

lemma is_ok_simps [simp]: "is_ok (Inr x)" "\<not> is_ok (Inl e)"
  by (simp_all add: is_ok_def)

section \<open>Integer division of C++\<close>

text \<open>\<open>/\<close> and \<open>%\<close> round towards zero.\<close>

definition c_div :: "int \<Rightarrow> int \<Rightarrow> int" where
  "c_div a b = sgn a * sgn b * (\<bar>a\<bar> div \<bar>b\<bar>)"

definition c_mod :: "int \<Rightarrow> int \<Rightarrow> int" where
  "c_mod a b = a - b * c_div a b"

lemma c_div_nonneg [simp]: "0 \<le> a \<Longrightarrow> 0 < b \<Longrightarrow> c_div a b = a div b"
  by (cases "a = 0") (simp_all add: c_div_def)

lemma c_mod_nonneg [simp]: "0 \<le> a \<Longrightarrow> 0 < b \<Longrightarrow> c_mod a b = a mod b"
  by (simp add: c_mod_def minus_mult_div_eq_mod)

section \<open>Lists\<close>

lemma take_append_eq [simp]: "length xs = n \<Longrightarrow> take n (xs @ ys) = xs"
  by simp

lemma drop_append_eq [simp]: "length xs = n \<Longrightarrow> drop n (xs @ ys) = ys"
  by simp

lemma list_update_same_length_nth:
  "i < length xs \<Longrightarrow> (xs[i := x]) ! j = (if j = i then x else xs ! j)"
  by (simp add: nth_list_update)

section \<open>Association lists with distinct keys\<close>

text \<open>
  \<open>AList.update\<close> and \<open>AList.delete\<close> of the library keep the keys distinct; the lemmas below are
  the facts on \<open>set\<close> and \<open>map_of\<close> that the invariants of the components need.
\<close>

abbreviation keys_of :: "('k \<times> 'v) list \<Rightarrow> 'k set" where
  "keys_of xs \<equiv> fst ` set xs"

abbreviation distinct_keys :: "('k \<times> 'v) list \<Rightarrow> bool" where
  "distinct_keys xs \<equiv> distinct (map fst xs)"

lemma map_of_Some_in_keys: "map_of xs k = Some v \<Longrightarrow> k \<in> keys_of xs"
  by (force dest: map_of_SomeD)

lemma map_of_eq_None_keys: "map_of xs k = None \<longleftrightarrow> k \<notin> keys_of xs"
  by (simp add: map_of_eq_None_iff)

lemma keys_of_update [simp]: "keys_of (AList.update k v xs) = insert k (keys_of xs)"
  using dom_update[of k v xs] by simp

lemma keys_of_delete [simp]: "keys_of (AList.delete k xs) = keys_of xs - {k}"
  by (auto simp: AList.delete_eq)

lemma distinct_keys_update [simp]: "distinct_keys xs \<Longrightarrow> distinct_keys (AList.update k v xs)"
  by (rule AList.distinct_update)

lemma distinct_keys_delete [simp]: "distinct_keys xs \<Longrightarrow> distinct_keys (AList.delete k xs)"
  by (rule AList.distinct_delete)

lemma map_of_update [simp]:
  "map_of (AList.update k v xs) = (map_of xs)(k \<mapsto> v)"
  by (rule AList.update_conv')

lemma map_of_delete [simp]:
  "map_of (AList.delete k xs) = (map_of xs)(k := None)"
  by (rule AList.delete_conv')

lemma map_of_in_set:
  "distinct_keys xs \<Longrightarrow> (k, v) \<in> set xs \<longleftrightarrow> map_of xs k = Some v"
  by (auto dest: map_of_SomeD)

end
