(* ===== verification/Disk_Manager.thy ===== *)
theory Disk_Manager
  imports Base
begin

text \<open>
  \<^verbatim>\<open>src/src/storage/disk/disk_manager.{h,cpp}\<close>: page-granular I/O on one heap file.

  The file is its byte sequence; \<open>pread\<close> and \<open>pwrite\<close> are modelled on it as POSIX describes them
  for a regular file (a read stops at the end of the file, a write past the end extends the file
  with zero bytes, a negative offset fails with \<open>EINVAL\<close>). \<open>dm_synced\<close> is the content that the
  last \<open>fsync\<close> made durable. The abstract view of the component is the page array \<open>disk_page\<close>.
\<close>

section \<open>The file\<close>

definition posix_pread :: "byte list \<Rightarrow> nat \<Rightarrow> nat \<Rightarrow> byte list" where
  "posix_pread f off n = take n (drop off f)"

definition posix_pwrite :: "byte list \<Rightarrow> nat \<Rightarrow> byte list \<Rightarrow> byte list" where
  "posix_pwrite f off bs =
     take off (f @ replicate (off - length f) 0) @ bs @ drop (off + length bs) f"

section \<open>State and operations\<close>

record disk_manager =
  dm_file :: "byte list"
  dm_synced :: "byte list"
  dm_next_page_id :: page_id_t
  dm_num_reads :: nat
  dm_num_writes :: nat

definition DiskManager_open :: "byte list \<Rightarrow> disk_manager" where
  "DiskManager_open f =
     \<lparr>dm_file = f, dm_synced = f,
      dm_next_page_id = int ((length f + PAGE_SIZE - 1) div PAGE_SIZE),
      dm_num_reads = 0, dm_num_writes = 0\<rparr>"

definition page_offset :: "page_id_t \<Rightarrow> int" where
  "page_offset p = p * int PAGE_SIZE"

definition DiskManager_ReadPage ::
    "page_id_t \<Rightarrow> disk_manager \<Rightarrow> byte list result \<times> disk_manager" where
  "DiskManager_ReadPage p d =
     (let offset = page_offset p in
      if offset < 0 then (Inl (IOException ''DiskManager: read failed''), d)
      else
        let bytes = posix_pread (dm_file d) (nat offset) PAGE_SIZE in
        (Inr (if length bytes < PAGE_SIZE
              then bytes @ replicate (PAGE_SIZE - length bytes) 0 else bytes),
         d\<lparr>dm_num_reads := dm_num_reads d + 1\<rparr>))"

text \<open>The caller's buffer must hold a whole page; \<open>pwrite\<close> reads past a shorter one.\<close>

definition DiskManager_WritePage ::
    "page_id_t \<Rightarrow> byte list \<Rightarrow> disk_manager \<Rightarrow> unit result \<times> disk_manager" where
  "DiskManager_WritePage p page_data d =
     (let offset = page_offset p in
      if length page_data < PAGE_SIZE
      then (Inl (UndefinedBehaviour ''pwrite reads past the caller's buffer''), d)
      else if offset < 0 then (Inl (IOException ''DiskManager: write failed''), d)
      else (Inr (),
            d\<lparr>dm_file := posix_pwrite (dm_file d) (nat offset) (take PAGE_SIZE page_data),
              dm_num_writes := dm_num_writes d + 1\<rparr>))"

definition DiskManager_Sync :: "disk_manager \<Rightarrow> disk_manager" where
  "DiskManager_Sync d = d\<lparr>dm_synced := dm_file d\<rparr>"

definition DiskManager_AllocatePage :: "disk_manager \<Rightarrow> page_id_t \<times> disk_manager" where
  "DiskManager_AllocatePage d =
     (dm_next_page_id d, d\<lparr>dm_next_page_id := dm_next_page_id d + 1\<rparr>)"

definition DiskManager_GetNumPages :: "disk_manager \<Rightarrow> nat" where
  "DiskManager_GetNumPages d = nat (dm_next_page_id d)"

definition DiskManager_GetNumReads :: "disk_manager \<Rightarrow> nat" where
  "DiskManager_GetNumReads d = dm_num_reads d"

definition DiskManager_GetNumWrites :: "disk_manager \<Rightarrow> nat" where
  "DiskManager_GetNumWrites d = dm_num_writes d"

section \<open>The page array\<close>

definition zero_page :: "byte list" where
  "zero_page = replicate PAGE_SIZE 0"

definition file_byte :: "byte list \<Rightarrow> nat \<Rightarrow> byte" where
  "file_byte f i = (if i < length f then f ! i else 0)"

definition disk_page :: "disk_manager \<Rightarrow> page_id_t \<Rightarrow> byte list" where
  "disk_page d p = map (\<lambda>i. file_byte (dm_file d) (nat p * PAGE_SIZE + i)) [0..<PAGE_SIZE]"

text \<open>
  No page at or above the allocation counter was ever written. It holds after \<open>open\<close> and is kept
  by every caller that writes allocated pages only.
\<close>

definition dm_invar :: "disk_manager \<Rightarrow> bool" where
  "dm_invar d \<longleftrightarrow> 0 \<le> dm_next_page_id d \<and> length (dm_file d) \<le> nat (dm_next_page_id d) * PAGE_SIZE"

section \<open>Lemmas\<close>

lemma length_zero_page [simp]: "length zero_page = PAGE_SIZE"
  by (simp add: zero_page_def)

lemma length_disk_page [simp]: "length (disk_page d p) = PAGE_SIZE"
  by (simp add: disk_page_def)

lemma nat_page_offset: "nat (page_offset p) = nat p * PAGE_SIZE"
  by (simp add: page_offset_def nat_mult_distrib PAGE_SIZE_def)

lemma page_offset_nonneg [simp]: "page_offset p < 0 \<longleftrightarrow> p < 0"
  by (simp add: page_offset_def mult_less_0_iff)

lemma file_byte_pwrite:
  "file_byte (posix_pwrite f off bs) i =
     (if off \<le> i \<and> i < off + length bs then bs ! (i - off) else file_byte f i)"
  by (auto simp: file_byte_def posix_pwrite_def nth_append min_def not_less)

lemma pread_pad:
  "posix_pread f off n @ replicate (n - length (posix_pread f off n)) 0
     = map (\<lambda>i. file_byte f (off + i)) [0..<n]"
  by (rule nth_equalityI) (auto simp: posix_pread_def file_byte_def nth_append min_def)

lemma ReadPage_eq:
  "0 \<le> p \<Longrightarrow> DiskManager_ReadPage p d =
     (Inr (disk_page d p), d\<lparr>dm_num_reads := dm_num_reads d + 1\<rparr>)"
  using pread_pad[of "dm_file d" "nat p * PAGE_SIZE" PAGE_SIZE]
  by (auto simp: DiskManager_ReadPage_def Let_def nat_page_offset disk_page_def not_less)

lemma ReadPage_negative:
  "p < 0 \<Longrightarrow> DiskManager_ReadPage p d = (Inl (IOException ''DiskManager: read failed''), d)"
  by (simp add: DiskManager_ReadPage_def Let_def)

lemma disk_page_num_reads [simp]: "disk_page (d\<lparr>dm_num_reads := n\<rparr>) = disk_page d"
  by (simp add: disk_page_def fun_eq_iff)

lemma disk_page_next_page_id [simp]: "disk_page (d\<lparr>dm_next_page_id := n\<rparr>) = disk_page d"
  by (simp add: disk_page_def fun_eq_iff)

lemma disk_page_synced [simp]: "disk_page (d\<lparr>dm_synced := n\<rparr>) = disk_page d"
  by (simp add: disk_page_def fun_eq_iff)

lemma page_interval_disjoint:
  fixes p q :: nat
  assumes "p \<noteq> q" "i < n" "p * n \<le> q * n + i"
  shows "p * n + n \<le> q * n + i"
proof -
  have "q \<noteq> p" "0 < n" using assms by auto
  have "p < q"
  proof (rule ccontr)
    assume "\<not> p < q"
    with \<open>p \<noteq> q\<close> have "q + 1 \<le> p" by simp
    then have "(q + 1) * n \<le> p * n" by (rule mult_le_mono1)
    with assms show False by (simp add: algebra_simps)
  qed
  then have "(p + 1) * n \<le> q * n" by (intro mult_le_mono1) simp
  then show ?thesis by (simp add: algebra_simps)
qed

lemma WritePage_eq:
  assumes "0 \<le> p" "length bs = PAGE_SIZE"
  shows "\<exists>d'. DiskManager_WritePage p bs d = (Inr (), d')
           \<and> (\<forall>q\<ge>0. disk_page d' q = (if q = p then bs else disk_page d q))
           \<and> dm_next_page_id d' = dm_next_page_id d \<and> dm_synced d' = dm_synced d
           \<and> length (dm_file d') = max (length (dm_file d)) (nat p * PAGE_SIZE + PAGE_SIZE)"
proof -
  let ?f = "posix_pwrite (dm_file d) (nat p * PAGE_SIZE) bs"
  let ?d = "d\<lparr>dm_file := ?f, dm_num_writes := dm_num_writes d + 1\<rparr>"
  have "disk_page ?d q = (if q = p then bs else disk_page d q)" if "0 \<le> q" for q
  proof (cases "q = p")
    case True
    then show ?thesis
      using assms by (auto simp: disk_page_def file_byte_pwrite intro: nth_equalityI)
  next
    case False
    with assms that have "nat p \<noteq> nat q" by auto
    then show ?thesis
      using False assms page_interval_disjoint[of "nat p" "nat q" _ PAGE_SIZE]
      by (fastforce simp: disk_page_def file_byte_pwrite)
  qed
  moreover have "length ?f = max (length (dm_file d)) (nat p * PAGE_SIZE + PAGE_SIZE)"
    using assms by (auto simp: posix_pwrite_def)
  ultimately show ?thesis
    using assms by (intro exI[of _ ?d]) (simp add: DiskManager_WritePage_def Let_def nat_page_offset)
qed

text \<open>The write as a single rewrite rule, for the components that write through.\<close>

definition wrote_page :: "disk_manager \<Rightarrow> page_id_t \<Rightarrow> byte list \<Rightarrow> disk_manager" where
  "wrote_page d p bs = snd (DiskManager_WritePage p bs d)"

lemma WritePage_wrote:
  assumes "0 \<le> p" "length bs = PAGE_SIZE"
  shows "DiskManager_WritePage p bs d = (Inr (), wrote_page d p bs)"
  using WritePage_eq[OF assms, of d] by (auto simp: wrote_page_def)

lemma wrote_page_simps:
  assumes "0 \<le> p" "length bs = PAGE_SIZE"
  shows "0 \<le> q \<Longrightarrow> disk_page (wrote_page d p bs) q = (if q = p then bs else disk_page d q)"
    and "dm_next_page_id (wrote_page d p bs) = dm_next_page_id d"
    and "dm_synced (wrote_page d p bs) = dm_synced d"
    and "length (dm_file (wrote_page d p bs)) = max (length (dm_file d)) (nat p * PAGE_SIZE + PAGE_SIZE)"
  using WritePage_eq[OF assms, of d] by (auto simp: wrote_page_def)

lemma disk_page_past_end:
  "length (dm_file d) \<le> nat p * PAGE_SIZE \<Longrightarrow> disk_page d p = zero_page"
  by (rule nth_equalityI) (auto simp: disk_page_def zero_page_def file_byte_def)

lemma dm_invar_unallocated:
  assumes "dm_invar d" "dm_next_page_id d \<le> p"
  shows "disk_page d p = zero_page"
proof -
  have "nat (dm_next_page_id d) * PAGE_SIZE \<le> nat p * PAGE_SIZE"
    using assms by (intro mult_le_mono1) simp
  with assms have "length (dm_file d) \<le> nat p * PAGE_SIZE"
    unfolding dm_invar_def by linarith
  then show ?thesis by (rule disk_page_past_end)
qed

lemma dm_invar_open [inv_intros]: "dm_invar (DiskManager_open f)"
proof -
  have "length f \<le> (length f + PAGE_SIZE - 1) div PAGE_SIZE * PAGE_SIZE"
    by (simp add: PAGE_SIZE_def)
  then show ?thesis by (simp add: dm_invar_def DiskManager_open_def)
qed

lemma dm_invar_allocate [inv_intros]:
  "dm_invar d \<Longrightarrow> dm_invar (d\<lparr>dm_next_page_id := dm_next_page_id d + 1\<rparr>)"
  by (auto simp: dm_invar_def nat_add_distrib)

lemma dm_invar_read [inv_intros]: "dm_invar d \<Longrightarrow> dm_invar (d\<lparr>dm_num_reads := n\<rparr>)"
  by (simp add: dm_invar_def)

lemma dm_invar_write [inv_intros]:
  assumes "dm_invar d" "0 \<le> p" "p < dm_next_page_id d" "length bs = PAGE_SIZE"
  shows "dm_invar (wrote_page d p bs)"
proof -
  have "(nat p + 1) * PAGE_SIZE \<le> nat (dm_next_page_id d) * PAGE_SIZE"
    using assms by (intro mult_le_mono1) simp
  then show ?thesis
    using assms by (simp add: dm_invar_def wrote_page_simps algebra_simps)
qed

end
