(* ===== verification/Replacer.thy ===== *)
theory Replacer
  imports Base
begin

text \<open>
  \<^verbatim>\<open>src/src/buffer/replacer.h\<close>: the interface between the buffer pool and an eviction policy.

  The abstract class is a record of its virtual methods, so that the buffer pool model dispatches
  through it as the code does. The locale \<open>replacer\<close> states the contract of the header's comments
  over two observations of a policy, the frames it tracks and the frames it may evict.
  \<^verbatim>\<open>LRU_Replacer\<close> and \<^verbatim>\<open>LRUK_Replacer\<close> interpret it on the two policies of the source.
\<close>

section \<open>The abstract class\<close>

record 'r replacer_ops =
  op_Evict :: "'r \<Rightarrow> (frame_id_t \<times> 'r) option result"
  op_RecordAccess :: "frame_id_t \<Rightarrow> 'r \<Rightarrow> 'r result"
  op_SetEvictable :: "frame_id_t \<Rightarrow> bool \<Rightarrow> 'r \<Rightarrow> 'r"
  op_Remove :: "frame_id_t \<Rightarrow> 'r \<Rightarrow> 'r result"
  op_Size :: "'r \<Rightarrow> 64 word"

section \<open>The contract\<close>

locale replacer =
  fixes ops :: "'r replacer_ops"
    and rinv :: "nat \<Rightarrow> 'r \<Rightarrow> bool"
    and tracked :: "'r \<Rightarrow> frame_id_t set"
    and evictable :: "'r \<Rightarrow> frame_id_t set"
  assumes finite_tracked: "rinv n r \<Longrightarrow> finite (tracked r)"
    and evictable_tracked: "rinv n r \<Longrightarrow> evictable r \<subseteq> tracked r"
    and evict_none: "rinv n r \<Longrightarrow> evictable r = {} \<Longrightarrow> op_Evict ops r = Inr None"
    and evict_some: "rinv n r \<Longrightarrow> evictable r \<noteq> {} \<Longrightarrow>
          \<exists>f r'. op_Evict ops r = Inr (Some (f, r')) \<and> f \<in> evictable r \<and> rinv n r' \<and>
                 tracked r' = tracked r - {f} \<and> evictable r' = evictable r - {f}"
    and record_access: "rinv n r \<Longrightarrow> 0 \<le> f \<Longrightarrow> f < int n \<Longrightarrow>
          \<exists>r'. op_RecordAccess ops f r = Inr r' \<and> rinv n r' \<and>
               tracked r' = insert f (tracked r) \<and> evictable r' = evictable r"
    and record_access_range: "rinv n r \<Longrightarrow> f < 0 \<or> int n \<le> f \<Longrightarrow>
          \<exists>msg. op_RecordAccess ops f r = Inl (IOException msg)"
    and set_evictable: "rinv n r \<Longrightarrow> f \<in> tracked r \<Longrightarrow>
          rinv n (op_SetEvictable ops f b r) \<and> tracked (op_SetEvictable ops f b r) = tracked r \<and>
          evictable (op_SetEvictable ops f b r) = (if b then insert f (evictable r) else evictable r - {f})"
    and remove_untracked: "rinv n r \<Longrightarrow> f \<notin> tracked r \<Longrightarrow> op_Remove ops f r = Inr r"
    and remove_evictable: "rinv n r \<Longrightarrow> f \<in> evictable r \<Longrightarrow>
          \<exists>r'. op_Remove ops f r = Inr r' \<and> rinv n r' \<and>
               tracked r' = tracked r - {f} \<and> evictable r' = evictable r - {f}"
    and remove_pinned: "rinv n r \<Longrightarrow> f \<in> tracked r \<Longrightarrow> f \<notin> evictable r \<Longrightarrow>
          \<exists>msg. op_Remove ops f r = Inl (IOException msg)"
    and size_evictable: "rinv n r \<Longrightarrow> op_Size ops r = of_nat (card (evictable r))"
begin

lemma finite_evictable: "rinv n r \<Longrightarrow> finite (evictable r)"
  using finite_subset[OF evictable_tracked finite_tracked] by blast

lemma evict_cases:
  assumes "rinv n r"
  obtains (none) "evictable r = {}" "op_Evict ops r = Inr None"
  | (some) f r' where "op_Evict ops r = Inr (Some (f, r'))" "f \<in> evictable r" "rinv n r'"
      "tracked r' = tracked r - {f}" "evictable r' = evictable r - {f}"
proof (cases "evictable r = {}")
  case True
  then show ?thesis using none evict_none[OF assms] by simp
next
  case False
  then show ?thesis using some evict_some[OF assms] by blast
qed

lemma evict_not_pinned:
  assumes "rinv n r" "op_Evict ops r = Inr (Some (f, r'))"
  shows "f \<in> evictable r \<and> f \<notin> tracked r'"
  using assms(2) by (cases rule: evict_cases[OF assms(1)]) auto

text \<open>
  What the buffer pool does when it puts a page in a frame: the access is recorded and the frame
  pinned, whatever was known of the frame before.
\<close>

lemma record_and_pin:
  assumes "rinv n r" "0 \<le> f" "f < int n"
  shows "\<exists>r'. op_RecordAccess ops f r = Inr r' \<and>
              rinv n (op_SetEvictable ops f False r') \<and>
              tracked (op_SetEvictable ops f False r') = insert f (tracked r) \<and>
              evictable (op_SetEvictable ops f False r') = evictable r - {f}"
proof -
  from record_access[OF assms] obtain r' where r': "op_RecordAccess ops f r = Inr r'" "rinv n r'"
      "tracked r' = insert f (tracked r)" "evictable r' = evictable r"
    by blast
  with set_evictable[of n r' f False] show ?thesis by (intro exI[of _ r']) simp
qed

end

end
