(* ===== verification/LRUK_Replacer.thy ===== *)
theory LRUK_Replacer
  imports Replacer
begin

text \<open>
  \<^verbatim>\<open>src/src/buffer/lru_k_replacer.{h,cpp}\<close>: the LRU-K policy, the one the engines run with.

  \<open>frames_\<close> is an association list; \<open>Evict\<close> walks it in list order, which stands for whatever
  iteration order the hash map has. The order does not matter: the victim is characterised by the
  time stamps alone.
\<close>

section \<open>State and operations\<close>

record frame_state =
  fs_history :: "nat list"
  fs_evictable :: bool

record lruk_replacer =
  lruk_num_frames :: nat
  lruk_k :: nat
  lruk_current_timestamp :: nat
  lruk_evictable_count :: "64 word"
  lruk_frames :: "(frame_id_t \<times> frame_state) list"

definition fs_default :: frame_state where
  "fs_default = \<lparr>fs_history = [], fs_evictable = False\<rparr>"

definition LRUKReplacer :: "nat \<Rightarrow> nat \<Rightarrow> lruk_replacer result" where
  "LRUKReplacer num_frames k =
     (if k = 0 then Inl (IOException ''LRUKReplacer: k must be >= 1'')
      else Inr \<lparr>lruk_num_frames = num_frames, lruk_k = k, lruk_current_timestamp = 0,
                lruk_evictable_count = 0, lruk_frames = []\<rparr>)"

definition lruk_state :: "frame_id_t \<Rightarrow> lruk_replacer \<Rightarrow> frame_state" where
  "lruk_state f r = (case map_of (lruk_frames r) f of None \<Rightarrow> fs_default | Some st \<Rightarrow> st)"

definition LRUK_RecordAccess :: "frame_id_t \<Rightarrow> lruk_replacer \<Rightarrow> lruk_replacer result" where
  "LRUK_RecordAccess f r =
     (if f < 0 \<or> nat f \<ge> lruk_num_frames r
      then Inl (IOException ''LRUKReplacer: frame_id out of range'')
      else
        let state = lruk_state f r;
            history = fs_history state @ [lruk_current_timestamp r];
            history = (if length history > lruk_k r then tl history else history)
        in Inr (r\<lparr>lruk_frames := AList.update f (state\<lparr>fs_history := history\<rparr>) (lruk_frames r),
                  lruk_current_timestamp := lruk_current_timestamp r + 1\<rparr>))"

definition LRUK_SetEvictable :: "frame_id_t \<Rightarrow> bool \<Rightarrow> lruk_replacer \<Rightarrow> lruk_replacer" where
  "LRUK_SetEvictable f b r =
     (let state = lruk_state f r;
          count = (if fs_evictable state \<noteq> b
                   then lruk_evictable_count r + (if b then 1 else - 1)
                   else lruk_evictable_count r)
      in r\<lparr>lruk_frames := AList.update f (state\<lparr>fs_evictable := b\<rparr>) (lruk_frames r),
           lruk_evictable_count := count\<rparr>)"

text \<open>
  The loop of \<open>Evict\<close>. The accumulator is \<open>None\<close> while \<open>found\<close> is false, else
  \<open>(best_frame, best_is_inf, best_metric)\<close>. \<open>history.front()\<close> of an empty deque is undefined.
\<close>

definition LRUK_adopt :: "bool \<Rightarrow> nat \<Rightarrow> (frame_id_t \<times> bool \<times> nat) option \<Rightarrow> bool" where
  "LRUK_adopt is_inf metric best =
     (case best of None \<Rightarrow> True
      | Some (_, best_is_inf, best_metric) \<Rightarrow>
          if is_inf \<noteq> best_is_inf then is_inf
          else if is_inf then metric < best_metric else metric > best_metric)"

fun LRUK_Evict_loop :: "nat \<Rightarrow> nat \<Rightarrow> (frame_id_t \<times> frame_state) list \<Rightarrow>
    (frame_id_t \<times> bool \<times> nat) option \<Rightarrow> (frame_id_t \<times> bool \<times> nat) option result" where
  "LRUK_Evict_loop k now [] best = Inr best"
| "LRUK_Evict_loop k now ((fid, state) # rest) best =
     (if \<not> fs_evictable state then LRUK_Evict_loop k now rest best
      else case fs_history state of
          [] \<Rightarrow> Inl (UndefinedBehaviour ''history.front() of an empty deque'')
        | front # _ \<Rightarrow>
            let is_inf = length (fs_history state) < k;
                metric = (if is_inf then front else now - front)
            in LRUK_Evict_loop k now rest
                 (if LRUK_adopt is_inf metric best then Some (fid, is_inf, metric) else best))"

definition LRUK_Evict :: "lruk_replacer \<Rightarrow> (frame_id_t \<times> lruk_replacer) option result" where
  "LRUK_Evict r =
     (case LRUK_Evict_loop (lruk_k r) (lruk_current_timestamp r) (lruk_frames r) None of
        Inl e \<Rightarrow> Inl e
      | Inr None \<Rightarrow> Inr None
      | Inr (Some (best_frame, _, _)) \<Rightarrow>
          Inr (Some (best_frame,
            r\<lparr>lruk_frames := AList.delete best_frame (lruk_frames r),
              lruk_evictable_count := lruk_evictable_count r - 1\<rparr>)))"

definition LRUK_Remove :: "frame_id_t \<Rightarrow> lruk_replacer \<Rightarrow> lruk_replacer result" where
  "LRUK_Remove f r =
     (case map_of (lruk_frames r) f of
        None \<Rightarrow> Inr r
      | Some state \<Rightarrow>
          if \<not> fs_evictable state
          then Inl (IOException ''LRUKReplacer: cannot remove a non-evictable (pinned) frame'')
          else Inr (r\<lparr>lruk_evictable_count := lruk_evictable_count r - 1,
                      lruk_frames := AList.delete f (lruk_frames r)\<rparr>))"

definition LRUK_Size :: "lruk_replacer \<Rightarrow> 64 word" where
  "LRUK_Size r = lruk_evictable_count r"

definition lruk_ops :: "lruk_replacer replacer_ops" where
  "lruk_ops = \<lparr>op_Evict = LRUK_Evict, op_RecordAccess = LRUK_RecordAccess,
     op_SetEvictable = LRUK_SetEvictable, op_Remove = LRUK_Remove, op_Size = LRUK_Size\<rparr>"

section \<open>Observations and invariant\<close>

definition lruk_tracked :: "lruk_replacer \<Rightarrow> frame_id_t set" where
  "lruk_tracked r = keys_of (lruk_frames r)"

definition lruk_evictable :: "lruk_replacer \<Rightarrow> frame_id_t set" where
  "lruk_evictable r = {f. \<exists>st. map_of (lruk_frames r) f = Some st \<and> fs_evictable st}"

text \<open>
  A tracked frame has between one and \<open>k\<close> recorded accesses, in increasing order and all in the
  past; no two frames share a time stamp.
\<close>

definition lruk_history_ok :: "lruk_replacer \<Rightarrow> frame_state \<Rightarrow> bool" where
  "lruk_history_ok r st \<longleftrightarrow>
     fs_history st \<noteq> [] \<and> length (fs_history st) \<le> lruk_k r \<and>
     sorted_wrt (<) (fs_history st) \<and> (\<forall>t\<in>set (fs_history st). t < lruk_current_timestamp r)"

definition lruk_inv :: "nat \<Rightarrow> lruk_replacer \<Rightarrow> bool" where
  "lruk_inv n r \<longleftrightarrow>
     lruk_num_frames r = n \<and> 0 < lruk_k r \<and> distinct_keys (lruk_frames r) \<and>
     (\<forall>f st. map_of (lruk_frames r) f = Some st \<longrightarrow> lruk_history_ok r st) \<and>
     (\<forall>f g st st'. map_of (lruk_frames r) f = Some st \<longrightarrow> map_of (lruk_frames r) g = Some st' \<longrightarrow>
        f \<noteq> g \<longrightarrow> set (fs_history st) \<inter> set (fs_history st') = {}) \<and>
     lruk_evictable_count r = of_nat (card (lruk_evictable r))"

text \<open>
  The eviction priority of a frame: smaller is evicted first. Frames with fewer than \<open>k\<close> accesses
  come before all others; within each group the frame whose oldest remembered access lies
  furthest back comes first.
\<close>

definition lruk_rank :: "nat \<Rightarrow> frame_state \<Rightarrow> nat \<times> nat" where
  "lruk_rank k st = (if length (fs_history st) < k then 0 else 1, hd (fs_history st))"

definition rank_less :: "nat \<times> nat \<Rightarrow> nat \<times> nat \<Rightarrow> bool" where
  "rank_less a b \<longleftrightarrow> fst a < fst b \<or> fst a = fst b \<and> snd a < snd b"

section \<open>The victim\<close>

lemma lruk_evictable_subset: "lruk_evictable r \<subseteq> lruk_tracked r"
  by (auto simp: lruk_evictable_def lruk_tracked_def dest: map_of_Some_in_keys)

lemma finite_lruk_evictable [simp]: "finite (lruk_evictable r)"
  by (rule finite_subset[OF lruk_evictable_subset]) (simp add: lruk_tracked_def)

text \<open>What the accumulator of the loop says of the frames walked so far.\<close>

definition best_entry :: "nat \<Rightarrow> nat \<Rightarrow> (frame_id_t \<times> frame_state) list \<Rightarrow> (frame_id_t \<times> bool \<times> nat) \<Rightarrow> bool" where
  "best_entry k now seen b \<longleftrightarrow>
     (\<exists>st. (fst b, st) \<in> set seen \<and> fs_evictable st \<and>
       fst (snd b) = (length (fs_history st) < k) \<and>
       snd (snd b) = (if fst (snd b) then hd (fs_history st) else now - hd (fs_history st)) \<and>
       (\<forall>(g, st') \<in> set seen. fs_evictable st' \<longrightarrow> \<not> rank_less (lruk_rank k st') (lruk_rank k st)))"

definition loop_result :: "nat \<Rightarrow> nat \<Rightarrow> (frame_id_t \<times> frame_state) list \<Rightarrow> (frame_id_t \<times> bool \<times> nat) option \<Rightarrow> bool" where
  "loop_result k now seen best \<longleftrightarrow>
     (case best of None \<Rightarrow> \<forall>(g, st) \<in> set seen. \<not> fs_evictable st
      | Some b \<Rightarrow> best_entry k now seen b)"

lemma rank_less_trans: "rank_less a b \<Longrightarrow> rank_less b c \<Longrightarrow> rank_less a c"
  by (auto simp: rank_less_def)

lemma loop_result_skip:
  "loop_result k now seen best \<Longrightarrow> \<not> fs_evictable st \<Longrightarrow> loop_result k now (seen @ [(f, st)]) best"
  by (auto simp: loop_result_def best_entry_def split: option.splits)

lemma loop_result_step:
  assumes best: "loop_result k now seen best"
    and past: "\<forall>(g, st) \<in> set (seen @ [(f, st)]). fs_evictable st \<longrightarrow> hd (fs_history st) < now"
    and ev: "fs_evictable st"
    and inf: "is_inf = (length (fs_history st) < k)"
    and met: "metric = (if is_inf then hd (fs_history st) else now - hd (fs_history st))"
  shows "loop_result k now (seen @ [(f, st)])
           (if LRUK_adopt is_inf metric best then Some (f, is_inf, metric) else best)"
proof (cases best)
  case None
  with best ev inf met show ?thesis
    by (auto simp: loop_result_def best_entry_def LRUK_adopt_def rank_less_def)
next
  case (Some b)
  obtain g bi bm where b: "b = (g, bi, bm)" by (cases b)
  from best Some b obtain sg where sg: "(g, sg) \<in> set seen" "fs_evictable sg"
      "bi = (length (fs_history sg) < k)"
      "bm = (if bi then hd (fs_history sg) else now - hd (fs_history sg))"
      "\<And>h st'. (h, st') \<in> set seen \<Longrightarrow> fs_evictable st' \<Longrightarrow> \<not> rank_less (lruk_rank k st') (lruk_rank k sg)"
    by (auto simp: loop_result_def best_entry_def)
  have now: "hd (fs_history st) < now" "hd (fs_history sg) < now"
    using past ev sg by auto
  have adopt: "LRUK_adopt is_inf metric best \<longleftrightarrow> rank_less (lruk_rank k st) (lruk_rank k sg)"
    using now inf met sg by (auto simp: Some b LRUK_adopt_def rank_less_def lruk_rank_def)
  have irrefl: "\<not> rank_less (lruk_rank k st) (lruk_rank k st)"
    by (simp add: rank_less_def)
  show ?thesis
  proof (cases "LRUK_adopt is_inf metric best")
    case True
    then have less: "rank_less (lruk_rank k st) (lruk_rank k sg)" by (simp add: adopt)
    have min: "\<not> rank_less (lruk_rank k st') (lruk_rank k st)"
      if "(h, st') \<in> set (seen @ [(f, st)])" "fs_evictable st'" for h st'
      using that sg(5)[of h st'] irrefl rank_less_trans[OF _ less, of "lruk_rank k st'"]
      by (cases "(h, st') \<in> set seen") auto
    have "best_entry k now (seen @ [(f, st)]) (f, is_inf, metric)"
      unfolding best_entry_def by (rule exI[of _ st]) (use ev inf met min in auto)
    with True show ?thesis by (simp add: loop_result_def)
  next
    case False
    have "best_entry k now (seen @ [(f, st)]) b"
      unfolding best_entry_def by (rule exI[of _ sg]) (use sg b adopt False in auto)
    with False Some show ?thesis by (simp add: loop_result_def)
  qed
qed

lemma LRUK_Evict_loop_result:
  assumes "\<forall>(f, st) \<in> set (seen @ rest). fs_evictable st \<longrightarrow> fs_history st \<noteq> [] \<and> hd (fs_history st) < now"
    and "loop_result k now seen best"
  shows "\<exists>out. LRUK_Evict_loop k now rest best = Inr out \<and> loop_result k now (seen @ rest) out"
  using assms
proof (induction rest arbitrary: seen best)
  case Nil
  then show ?case by simp
next
  case (Cons p rest)
  obtain f st where p: "p = (f, st)" by (cases p)
  show ?case
  proof (cases "fs_evictable st")
    case False
    have "loop_result k now (seen @ [(f, st)]) best"
      by (rule loop_result_skip[OF Cons.prems(2) False])
    with Cons.IH[of "seen @ [(f, st)]" best] Cons.prems False show ?thesis by (simp add: p)
  next
    case True
    with Cons.prems p obtain h hs where h: "fs_history st = h # hs"
      by (cases "fs_history st") auto
    define is_inf where "is_inf = (length (fs_history st) < k)"
    define metric where "metric = (if is_inf then h else now - h)"
    define best' where "best' = (if LRUK_adopt is_inf metric best then Some (f, is_inf, metric) else best)"
    have "loop_result k now (seen @ [(f, st)]) best'"
      unfolding best'_def
      by (rule loop_result_step[OF Cons.prems(2) _ True is_inf_def])
         (use Cons.prems p True h in \<open>auto simp: metric_def\<close>)
    moreover have "LRUK_Evict_loop k now (p # rest) best = LRUK_Evict_loop k now rest best'"
      using True h by (simp add: p Let_def best'_def metric_def is_inf_def)
    ultimately show ?thesis
      using Cons.IH[of "seen @ [(f, st)]" best'] Cons.prems(1) by (simp add: p)
  qed
qed


section \<open>The contract holds\<close>

lemma lruk_historyD:
  assumes "lruk_inv n r" "map_of (lruk_frames r) f = Some st"
  shows "fs_history st \<noteq> []" "length (fs_history st) \<le> lruk_k r"
    "sorted_wrt (<) (fs_history st)" "t \<in> set (fs_history st) \<Longrightarrow> t < lruk_current_timestamp r"
  using assms by (auto simp: lruk_inv_def lruk_history_ok_def)

lemma lruk_disjoint:
  assumes "lruk_inv n r" "map_of (lruk_frames r) f = Some st" "map_of (lruk_frames r) g = Some st'" "f \<noteq> g"
  shows "set (fs_history st) \<inter> set (fs_history st') = {}"
  using assms by (simp add: lruk_inv_def)

lemma lruk_hd_distinct:
  assumes "lruk_inv n r" "map_of (lruk_frames r) f = Some st" "map_of (lruk_frames r) g = Some st'" "f \<noteq> g"
  shows "hd (fs_history st) \<noteq> hd (fs_history st')"
proof -
  note lruk_disjoint[OF assms]
  moreover have "hd (fs_history st) \<in> set (fs_history st)" "hd (fs_history st') \<in> set (fs_history st')"
    using assms lruk_historyD(1) by (blast intro: hd_in_set)+
  ultimately show ?thesis by auto
qed

lemma LRUK_Evict_victim:
  assumes inv: "lruk_inv n r" and ne: "lruk_evictable r \<noteq> {}"
  shows "\<exists>f st. map_of (lruk_frames r) f = Some st \<and> fs_evictable st \<and>
     (\<forall>g st'. map_of (lruk_frames r) g = Some st' \<longrightarrow> fs_evictable st' \<longrightarrow> g \<noteq> f \<longrightarrow>
        rank_less (lruk_rank (lruk_k r) st) (lruk_rank (lruk_k r) st')) \<and>
     LRUK_Evict r = Inr (Some (f, r\<lparr>lruk_frames := AList.delete f (lruk_frames r),
                                    lruk_evictable_count := lruk_evictable_count r - 1\<rparr>))"
proof -
  let ?k = "lruk_k r" and ?now = "lruk_current_timestamp r"
  have dk: "distinct_keys (lruk_frames r)" using inv by (simp add: lruk_inv_def)
  have "\<forall>(f, st) \<in> set ([] @ lruk_frames r). fs_evictable st \<longrightarrow> fs_history st \<noteq> [] \<and> hd (fs_history st) < ?now"
    using lruk_historyD[OF inv] map_of_in_set[OF dk] by fastforce
  from LRUK_Evict_loop_result[OF this, of ?k None] obtain out where
    out: "LRUK_Evict_loop ?k ?now (lruk_frames r) None = Inr out" "loop_result ?k ?now (lruk_frames r) out"
    by (auto simp: loop_result_def)
  from ne obtain g sg where "(g, sg) \<in> set (lruk_frames r)" "fs_evictable sg"
    by (auto simp: lruk_evictable_def dest: map_of_SomeD)
  with out(2) have "out \<noteq> None" by (cases out) (auto simp: loop_result_def)
  then obtain f i m where f: "out = Some (f, i, m)" by (cases out) auto
  with out(2) obtain st where st: "(f, st) \<in> set (lruk_frames r)" "fs_evictable st"
    and min: "\<And>g st'. (g, st') \<in> set (lruk_frames r) \<Longrightarrow> fs_evictable st' \<Longrightarrow>
        \<not> rank_less (lruk_rank ?k st') (lruk_rank ?k st)"
    by (auto simp: loop_result_def best_entry_def)
  have "rank_less (lruk_rank ?k st) (lruk_rank ?k st')"
    if "map_of (lruk_frames r) g = Some st'" "fs_evictable st'" "g \<noteq> f" for g st'
    using that st min[of g st'] lruk_hd_distinct[OF inv, of f st g st'] map_of_in_set[OF dk]
    by (auto simp: rank_less_def lruk_rank_def split: if_splits)
  with st out f map_of_in_set[OF dk] show ?thesis by (auto simp: LRUK_Evict_def)
qed

lemma LRUK_Evict_none:
  assumes inv: "lruk_inv n r" and e: "lruk_evictable r = {}"
  shows "LRUK_Evict r = Inr None"
proof -
  have dk: "distinct_keys (lruk_frames r)" using inv by (simp add: lruk_inv_def)
  have "LRUK_Evict_loop k now xs None = Inr None" if "\<forall>(f, st) \<in> set xs. \<not> fs_evictable st" for k now xs
    using that by (induction xs) auto
  moreover have "\<forall>(f, st) \<in> set (lruk_frames r). \<not> fs_evictable st"
    using e dk by (auto simp: lruk_evictable_def)
  ultimately show ?thesis by (simp add: LRUK_Evict_def)
qed

lemma lruk_inv_delete:
  assumes inv: "lruk_inv n r" and f: "f \<in> lruk_evictable r"
  defines "r' \<equiv> r\<lparr>lruk_frames := AList.delete f (lruk_frames r),
                lruk_evictable_count := lruk_evictable_count r - 1\<rparr>"
  shows "lruk_inv n r'" "lruk_tracked r' = lruk_tracked r - {f}" "lruk_evictable r' = lruk_evictable r - {f}"
proof -
  show ev: "lruk_evictable r' = lruk_evictable r - {f}"
    by (auto simp: r'_def lruk_evictable_def)
  show "lruk_tracked r' = lruk_tracked r - {f}"
    by (simp add: r'_def lruk_tracked_def)
  have "card (lruk_evictable r) = Suc (card (lruk_evictable r - {f}))"
    by (rule card.remove[OF finite_lruk_evictable f])
  then have "lruk_evictable_count r' = of_nat (card (lruk_evictable r'))"
    using inv unfolding ev by (simp add: r'_def lruk_inv_def)
  then show "lruk_inv n r'"
    using inv by (auto simp: lruk_inv_def r'_def lruk_history_ok_def split: if_splits)
qed

lemma lruk_state_tracked: "map_of (lruk_frames r) f = Some st \<Longrightarrow> lruk_state f r = st"
  by (simp add: lruk_state_def)

lemma lruk_inv_set_evictable:
  assumes inv: "lruk_inv n r" and f: "f \<in> lruk_tracked r"
  shows "lruk_inv n (LRUK_SetEvictable f b r)"
    "lruk_tracked (LRUK_SetEvictable f b r) = lruk_tracked r"
    "lruk_evictable (LRUK_SetEvictable f b r)
       = (if b then insert f (lruk_evictable r) else lruk_evictable r - {f})"
proof -
  let ?r = "LRUK_SetEvictable f b r"
  from f obtain st where st: "map_of (lruk_frames r) f = Some st"
    by (cases "map_of (lruk_frames r) f") (auto simp: lruk_tracked_def map_of_eq_None_keys)
  show ev: "lruk_evictable ?r = (if b then insert f (lruk_evictable r) else lruk_evictable r - {f})"
    using st by (auto simp: LRUK_SetEvictable_def lruk_evictable_def Let_def lruk_state_def)
  show "lruk_tracked ?r = lruk_tracked r"
    using f by (auto simp: LRUK_SetEvictable_def lruk_tracked_def Let_def)
  have mem: "f \<in> lruk_evictable r \<longleftrightarrow> fs_evictable st"
    using st by (simp add: lruk_evictable_def)
  have cnt: "lruk_evictable_count r = of_nat (card (lruk_evictable r))"
    using inv by (simp add: lruk_inv_def)
  have cnt': "lruk_evictable_count ?r = (if fs_evictable st \<noteq> b
      then lruk_evictable_count r + (if b then 1 else - 1) else lruk_evictable_count r)"
    by (simp add: LRUK_SetEvictable_def Let_def lruk_state_tracked[OF st])
  have "lruk_evictable_count ?r = of_nat (card (lruk_evictable ?r))"
  proof (cases "fs_evictable st")
    case True
    with mem have fin: "f \<in> lruk_evictable r" by simp
    from card.remove[OF finite_lruk_evictable fin] True fin show ?thesis
      unfolding cnt' ev cnt by (simp add: insert_absorb)
  next
    case False
    with mem show ?thesis unfolding cnt' ev cnt by simp
  qed
  moreover have "map_of (lruk_frames ?r) = (map_of (lruk_frames r))(f \<mapsto> st\<lparr>fs_evictable := b\<rparr>)"
    using st by (simp add: LRUK_SetEvictable_def Let_def lruk_state_def)
  moreover have "lruk_num_frames ?r = lruk_num_frames r" "lruk_k ?r = lruk_k r"
      "lruk_current_timestamp ?r = lruk_current_timestamp r"
      "distinct_keys (lruk_frames r) \<Longrightarrow> distinct_keys (lruk_frames ?r)"
    by (simp_all add: LRUK_SetEvictable_def Let_def)
  ultimately show "lruk_inv n ?r"
    using inv st by (auto simp: lruk_inv_def lruk_history_ok_def split: if_splits)
qed

lemma lruk_new_history:
  assumes "sorted_wrt (<) h" "\<forall>t\<in>set h. t < now" "length h \<le> k" "0 < k"
  defines "h' \<equiv> (if length (h @ [now]) > k then tl (h @ [now]) else h @ [now])"
  shows "h' \<noteq> []" "length h' \<le> k" "sorted_wrt (<) h'" "set h' \<subseteq> insert now (set h)"
  using assms by (cases h; auto simp: sorted_wrt_append)+

lemma lruk_record_access:
  assumes inv: "lruk_inv n r" and f: "0 \<le> f" "f < int n"
  shows "\<exists>r'. LRUK_RecordAccess f r = Inr r' \<and> lruk_inv n r' \<and>
               lruk_tracked r' = insert f (lruk_tracked r) \<and> lruk_evictable r' = lruk_evictable r"
proof -
  define st where "st = lruk_state f r"
  define now where "now = lruk_current_timestamp r"
  define h where "h = (if length (fs_history st @ [now]) > lruk_k r
                       then tl (fs_history st @ [now]) else fs_history st @ [now])"
  define r' where "r' = r\<lparr>lruk_frames := AList.update f (st\<lparr>fs_history := h\<rparr>) (lruk_frames r),
                          lruk_current_timestamp := now + 1\<rparr>"
  have st: "map_of (lruk_frames r) f = Some st \<or> map_of (lruk_frames r) f = None \<and> st = fs_default"
    by (auto simp: st_def lruk_state_def split: option.splits)
  have old: "sorted_wrt (<) (fs_history st)" "\<forall>t\<in>set (fs_history st). t < now" "length (fs_history st) \<le> lruk_k r"
    using st lruk_historyD[OF inv] by (auto simp: fs_default_def now_def)
  have k: "0 < lruk_k r" using inv by (simp add: lruk_inv_def)
  note new = lruk_new_history[OF old k, folded h_def]
  have frames: "map_of (lruk_frames r') = (map_of (lruk_frames r))(f \<mapsto> st\<lparr>fs_history := h\<rparr>)"
    by (simp add: r'_def)
  have ok: "lruk_history_ok r' st'" if "map_of (lruk_frames r') g = Some st'" for g st'
  proof (cases "g = f")
    case True
    with that have "st' = st\<lparr>fs_history := h\<rparr>" by (simp add: frames)
    moreover have "\<forall>t\<in>set h. t < now + 1" using new(4) old(2) by (fastforce simp: less_Suc_eq)
    ultimately show ?thesis using new(1-3) by (simp add: lruk_history_ok_def r'_def)
  next
    case False
    with that have "map_of (lruk_frames r) g = Some st'" by (simp add: frames)
    then have "lruk_history_ok r st'" using inv by (simp add: lruk_inv_def)
    then show ?thesis by (auto simp: lruk_history_ok_def r'_def now_def)
  qed
  have apart: "set h \<inter> set (fs_history st') = {}" if "map_of (lruk_frames r) g = Some st'" "g \<noteq> f" for g st'
  proof -
    have "set (fs_history st) \<inter> set (fs_history st') = {}"
      using st lruk_disjoint[OF inv _ that(1), of f st] that(2) by (auto simp: fs_default_def)
    moreover have "now \<notin> set (fs_history st')"
      using lruk_historyD(4)[OF inv that(1), of now] by (auto simp: now_def)
    ultimately show ?thesis using new(4) by auto
  qed
  have disj: "set (fs_history s1) \<inter> set (fs_history s2) = {}"
    if "map_of (lruk_frames r') g1 = Some s1" "map_of (lruk_frames r') g2 = Some s2" "g1 \<noteq> g2" for g1 g2 s1 s2
  proof (cases "g1 = f \<or> g2 = f")
    case True
    with that apart[of g1 s1] apart[of g2 s2] show ?thesis by (auto simp: frames disjoint_iff)
  next
    case False
    with that show ?thesis by (intro lruk_disjoint[OF inv]) (auto simp: frames)
  qed
  have ev: "lruk_evictable r' = lruk_evictable r"
    using st by (auto simp: lruk_evictable_def frames fs_default_def)
  have misc: "lruk_num_frames r' = n" "0 < lruk_k r'" "distinct_keys (lruk_frames r')"
      "lruk_evictable_count r' = of_nat (card (lruk_evictable r))"
    using inv by (simp_all add: r'_def lruk_inv_def)
  have "lruk_inv n r'"
    unfolding lruk_inv_def ev using misc ok disj by blast
  moreover have "LRUK_RecordAccess f r = Inr r'"
    using f inv by (simp add: LRUK_RecordAccess_def Let_def r'_def h_def st_def now_def lruk_inv_def)
  moreover have "lruk_tracked r' = insert f (lruk_tracked r)"
    by (simp add: r'_def lruk_tracked_def)
  ultimately show ?thesis using ev by blast
qed

lemma lruk_inv_init [inv_intros]:
  "LRUKReplacer n k = Inr r \<Longrightarrow> lruk_inv n r \<and> lruk_tracked r = {} \<and> lruk_evictable r = {}"
  by (auto simp: LRUKReplacer_def lruk_inv_def lruk_evictable_def lruk_tracked_def split: if_splits)

interpretation lruk: replacer lruk_ops lruk_inv lruk_tracked lruk_evictable
proof (unfold_locales, goal_cases)
  case (1 n r) show ?case by (simp add: lruk_tracked_def)
next
  case (2 n r) show ?case by (rule lruk_evictable_subset)
next
  case (3 n r) then show ?case by (simp add: lruk_ops_def LRUK_Evict_none)
next
  case (4 n r)
  from LRUK_Evict_victim[OF 4] obtain f st where
    f: "map_of (lruk_frames r) f = Some st" "fs_evictable st"
      "LRUK_Evict r = Inr (Some (f, r\<lparr>lruk_frames := AList.delete f (lruk_frames r),
                                   lruk_evictable_count := lruk_evictable_count r - 1\<rparr>))"
    by blast
  then have "f \<in> lruk_evictable r" by (simp add: lruk_evictable_def)
  with lruk_inv_delete[OF 4(1) this] f(3) show ?case by (auto simp: lruk_ops_def)
next
  case (5 n r f) then show ?case by (simp add: lruk_ops_def lruk_record_access)
next
  case (6 n r f) then show ?case by (auto simp: lruk_ops_def LRUK_RecordAccess_def lruk_inv_def)
next
  case (7 n r f b) then show ?case
    using lruk_inv_set_evictable[of n r f b] by (simp add: lruk_ops_def)
next
  case (8 n r f)
  then have "map_of (lruk_frames r) f = None" by (simp add: lruk_tracked_def map_of_eq_None_keys)
  then show ?case by (simp add: lruk_ops_def LRUK_Remove_def)
next
  case (9 n r f)
  then obtain st where "map_of (lruk_frames r) f = Some st" "fs_evictable st"
    by (auto simp: lruk_evictable_def)
  then have "LRUK_Remove f r = Inr (r\<lparr>lruk_frames := AList.delete f (lruk_frames r),
      lruk_evictable_count := lruk_evictable_count r - 1\<rparr>)"
    by (simp add: LRUK_Remove_def)
  with lruk_inv_delete[OF 9] show ?case by (simp add: lruk_ops_def)
next
  case (10 n r f)
  then obtain st where "map_of (lruk_frames r) f = Some st" "\<not> fs_evictable st"
    by (cases "map_of (lruk_frames r) f") (auto simp: lruk_tracked_def lruk_evictable_def map_of_eq_None_keys)
  then show ?case by (simp add: lruk_ops_def LRUK_Remove_def)
next
  case (11 n r) then show ?case by (simp add: lruk_ops_def LRUK_Size_def lruk_inv_def)
qed

end
