(* ===== verification/LRU_Replacer.thy ===== *)
theory LRU_Replacer
  imports Replacer
begin

text \<open>
  \<^verbatim>\<open>src/src/buffer/lru_replacer.{h,cpp}\<close>: plain LRU, the baseline policy.

  A node of \<open>std::list\<close> keeps its identity while other nodes come and go, and an iterator names a
  node. The list is therefore a list of nodes, each a handle and the frame stored in it; an
  iterator is a handle and \<open>push_back\<close> takes the next unused one. The handles also record the
  order of the last accesses, which is what the policy is about.
\<close>

section \<open>State and operations\<close>

record lru_frame_state =
  lfs_pos :: nat
  lfs_evictable :: bool

record lru_replacer =
  lru_num_frames :: nat
  lru_evictable_count :: "64 word"
  lru_list :: "(nat \<times> frame_id_t) list"
  lru_next_node :: nat
  lru_frames :: "(frame_id_t \<times> lru_frame_state) list"

definition LRUReplacer :: "nat \<Rightarrow> lru_replacer" where
  "LRUReplacer num_frames =
     \<lparr>lru_num_frames = num_frames, lru_evictable_count = 0, lru_list = [], lru_next_node = 0,
      lru_frames = []\<rparr>"

definition lru_erase :: "nat \<Rightarrow> (nat \<times> frame_id_t) list \<Rightarrow> (nat \<times> frame_id_t) list" where
  "lru_erase pos xs = filter (\<lambda>node. fst node \<noteq> pos) xs"

definition LRU_RecordAccess :: "frame_id_t \<Rightarrow> lru_replacer \<Rightarrow> lru_replacer result" where
  "LRU_RecordAccess f r =
     (if f < 0 \<or> nat f \<ge> lru_num_frames r
      then Inl (IOException ''LRUReplacer: frame_id out of range'')
      else
        let nodes = (case map_of (lru_frames r) f of
                       None \<Rightarrow> lru_list r
                     | Some st \<Rightarrow> lru_erase (lfs_pos st) (lru_list r));
            evictable = (case map_of (lru_frames r) f of
                           None \<Rightarrow> False | Some st \<Rightarrow> lfs_evictable st);
            pos = lru_next_node r
        in Inr (r\<lparr>lru_list := nodes @ [(pos, f)],
                  lru_next_node := pos + 1,
                  lru_frames := AList.update f \<lparr>lfs_pos = pos, lfs_evictable = evictable\<rparr>
                    (lru_frames r)\<rparr>))"

definition LRU_SetEvictable :: "frame_id_t \<Rightarrow> bool \<Rightarrow> lru_replacer \<Rightarrow> lru_replacer" where
  "LRU_SetEvictable f b r =
     (let (r, st) = (case map_of (lru_frames r) f of
            Some st \<Rightarrow> (r, st)
          | None \<Rightarrow> (r\<lparr>lru_list := lru_list r @ [(lru_next_node r, f)],
                       lru_next_node := lru_next_node r + 1\<rparr>,
                     \<lparr>lfs_pos = lru_next_node r, lfs_evictable = False\<rparr>));
          count = (if lfs_evictable st \<noteq> b
                   then lru_evictable_count r + (if b then 1 else - 1)
                   else lru_evictable_count r)
      in r\<lparr>lru_evictable_count := count,
           lru_frames := AList.update f (st\<lparr>lfs_evictable := b\<rparr>) (lru_frames r)\<rparr>)"

fun LRU_Evict_loop :: "(nat \<times> frame_id_t) list \<Rightarrow> lru_replacer \<Rightarrow> (frame_id_t \<times> lru_replacer) option" where
  "LRU_Evict_loop [] r = None"
| "LRU_Evict_loop ((node, f) # rest) r =
     (case map_of (lru_frames r) f of
        Some st \<Rightarrow>
          if lfs_evictable st
          then Some (f, r\<lparr>lru_list := lru_erase node (lru_list r),
                          lru_frames := AList.delete f (lru_frames r),
                          lru_evictable_count := lru_evictable_count r - 1\<rparr>)
          else LRU_Evict_loop rest r
      | None \<Rightarrow> LRU_Evict_loop rest r)"

definition LRU_Evict :: "lru_replacer \<Rightarrow> (frame_id_t \<times> lru_replacer) option result" where
  "LRU_Evict r = Inr (LRU_Evict_loop (lru_list r) r)"

definition LRU_Remove :: "frame_id_t \<Rightarrow> lru_replacer \<Rightarrow> lru_replacer result" where
  "LRU_Remove f r =
     (case map_of (lru_frames r) f of
        None \<Rightarrow> Inr r
      | Some st \<Rightarrow>
          if \<not> lfs_evictable st
          then Inl (IOException ''LRUReplacer: cannot remove a non-evictable (pinned) frame'')
          else Inr (r\<lparr>lru_list := lru_erase (lfs_pos st) (lru_list r),
                      lru_evictable_count := lru_evictable_count r - 1,
                      lru_frames := AList.delete f (lru_frames r)\<rparr>))"

definition LRU_Size :: "lru_replacer \<Rightarrow> 64 word" where
  "LRU_Size r = lru_evictable_count r"

definition lru_ops :: "lru_replacer replacer_ops" where
  "lru_ops = \<lparr>op_Evict = LRU_Evict, op_RecordAccess = LRU_RecordAccess,
     op_SetEvictable = LRU_SetEvictable, op_Remove = LRU_Remove, op_Size = LRU_Size\<rparr>"

section \<open>Observations and invariant\<close>

definition lru_tracked :: "lru_replacer \<Rightarrow> frame_id_t set" where
  "lru_tracked r = keys_of (lru_frames r)"

definition lru_evictable :: "lru_replacer \<Rightarrow> frame_id_t set" where
  "lru_evictable r = {f. \<exists>st. map_of (lru_frames r) f = Some st \<and> lfs_evictable st}"

text \<open>
  The list and the map describe the same frames: the nodes are exactly the positions the map
  stores. Nodes stand in the order in which they were created.
\<close>

definition lru_inv :: "nat \<Rightarrow> lru_replacer \<Rightarrow> bool" where
  "lru_inv n r \<longleftrightarrow>
     lru_num_frames r = n \<and> distinct_keys (lru_frames r) \<and>
     sorted_wrt (<) (map fst (lru_list r)) \<and> (\<forall>h\<in>keys_of (lru_list r). h < lru_next_node r) \<and>
     (\<forall>h f. (h, f) \<in> set (lru_list r) \<longleftrightarrow> (\<exists>st. map_of (lru_frames r) f = Some st \<and> lfs_pos st = h)) \<and>
     lru_evictable_count r = of_nat (card (lru_evictable r))"

section \<open>Lemmas\<close>

lemma set_lru_erase [simp]: "set (lru_erase h xs) = {x \<in> set xs. fst x \<noteq> h}"
  by (auto simp: lru_erase_def)

lemma sorted_lru_erase [simp]:
  "sorted_wrt (<) (map fst xs) \<Longrightarrow> sorted_wrt (<) (map fst (lru_erase h xs))"
  by (induction xs) (auto simp: lru_erase_def)

lemma lru_evictable_subset: "lru_evictable r \<subseteq> lru_tracked r"
  by (auto simp: lru_evictable_def lru_tracked_def dest: map_of_Some_in_keys)

lemma finite_lru_tracked [simp]: "finite (lru_tracked r)"
  by (simp add: lru_tracked_def)

lemma finite_lru_evictable [simp]: "finite (lru_evictable r)"
  by (rule finite_subset[OF lru_evictable_subset finite_lru_tracked])

lemma lru_tracked_map_of: "f \<in> lru_tracked r \<longleftrightarrow> (\<exists>st. map_of (lru_frames r) f = Some st)"
  using map_of_eq_None_keys[of "lru_frames r" f] by (auto simp: lru_tracked_def)

lemma lru_inv_nodes:
  "lru_inv n r \<Longrightarrow> (h, f) \<in> set (lru_list r) \<longleftrightarrow>
     (\<exists>st. map_of (lru_frames r) f = Some st \<and> lfs_pos st = h)"
  by (simp add: lru_inv_def)

lemma lru_distinct_nodes: "lru_inv n r \<Longrightarrow> distinct (map fst (lru_list r))"
  by (auto simp: lru_inv_def strict_sorted_iff)

lemma lru_node_unique:
  assumes "lru_inv n r" "(h, f) \<in> set (lru_list r)" "(h, g) \<in> set (lru_list r)"
  shows "f = g"
  using map_of_in_set[OF lru_distinct_nodes[OF assms(1)]] assms(2,3) by force

lemma card_minus_word:
  "finite A \<Longrightarrow> f \<in> A \<Longrightarrow> (of_nat (card (A - {f})) :: 64 word) = of_nat (card A) - 1"
  by (subst card.remove[of A f]) simp_all


text \<open>Taking a frame out of both structures, the common part of \<open>Evict\<close> and \<open>Remove\<close>.\<close>

definition lru_drop :: "frame_id_t \<Rightarrow> nat \<Rightarrow> lru_replacer \<Rightarrow> lru_replacer" where
  "lru_drop f h r = r\<lparr>lru_list := lru_erase h (lru_list r),
     lru_frames := AList.delete f (lru_frames r), lru_evictable_count := lru_evictable_count r - 1\<rparr>"

lemma lru_drop_sel [simp]:
  "lru_num_frames (lru_drop f h r) = lru_num_frames r"
  "lru_next_node (lru_drop f h r) = lru_next_node r"
  "lru_list (lru_drop f h r) = lru_erase h (lru_list r)"
  "lru_frames (lru_drop f h r) = AList.delete f (lru_frames r)"
  by (simp_all add: lru_drop_def)

lemma lru_drop_obs [simp]:
  "lru_tracked (lru_drop f h r) = lru_tracked r - {f}"
  "lru_evictable (lru_drop f h r) = lru_evictable r - {f}"
  by (auto simp: lru_drop_def lru_tracked_def lru_evictable_def)

lemma lru_inv_drop:
  assumes inv: "lru_inv n r" and st: "map_of (lru_frames r) f = Some st" "lfs_evictable st"
  shows "lru_inv n (lru_drop f (lfs_pos st) r)"
proof -
  have f: "f \<in> lru_evictable r" using st by (auto simp: lru_evictable_def)
  have node: "(lfs_pos st, f) \<in> set (lru_list r)" using st lru_inv_nodes[OF inv] by blast
  have "lru_evictable_count (lru_drop f (lfs_pos st) r) = of_nat (card (lru_evictable r - {f}))"
    using inv card_minus_word[OF finite_lru_evictable f] by (simp add: lru_drop_def lru_inv_def)
  moreover have "(h, g) \<in> set (lru_list (lru_drop f (lfs_pos st) r)) \<longleftrightarrow>
      (\<exists>st'. map_of (lru_frames (lru_drop f (lfs_pos st) r)) g = Some st' \<and> lfs_pos st' = h)" for h g
    using lru_inv_nodes[OF inv, of h g] lru_node_unique[OF inv node] st by auto
  ultimately show ?thesis
    using inv by (simp add: lru_inv_def)
qed

lemma LRU_Evict_loop_Some:
  assumes "LRU_Evict_loop nodes r = Some (f, r')"
  shows "\<exists>pre h post st. nodes = pre @ (h, f) # post \<and> map_of (lru_frames r) f = Some st \<and>
     lfs_evictable st \<and> r' = lru_drop f h r \<and> (\<forall>(h', g)\<in>set pre. g \<notin> lru_evictable r)"
  using assms
proof (induction nodes)
  case (Cons node nodes)
  obtain h g where [simp]: "node = (h, g)" by (cases node)
  show ?case
  proof (cases "g \<in> lru_evictable r")
    case True
    then show ?thesis using Cons.prems
      by (intro exI[of _ "[]"]) (auto simp: lru_evictable_def lru_drop_def)
  next
    case False
    then have "LRU_Evict_loop nodes r = Some (f, r')"
      using Cons.prems by (auto simp: lru_evictable_def split: option.splits)
    from Cons.IH[OF this] obtain pre h' post st where
      ih: "nodes = pre @ (h', f) # post" "map_of (lru_frames r) f = Some st" "lfs_evictable st"
        "r' = lru_drop f h' r" "\<forall>(h', g)\<in>set pre. g \<notin> lru_evictable r" by blast
    then show ?thesis using False
      by (intro exI[of _ "(h, g) # pre"] exI[of _ h'] exI[of _ post] exI[of _ st]) simp
  qed
qed simp

lemma LRU_Evict_loop_None:
  "LRU_Evict_loop nodes r = None \<longleftrightarrow> (\<forall>(h, g)\<in>set nodes. g \<notin> lru_evictable r)"
  by (induction nodes) (auto simp: lru_evictable_def split: option.splits if_splits)

text \<open>The frame that \<open>Evict\<close> takes is the evictable one whose last access lies furthest back.\<close>

lemma LRU_Evict_victim:
  assumes inv: "lru_inv n r" and ev: "LRU_Evict r = Inr (Some (f, r'))"
  shows "\<exists>st. map_of (lru_frames r) f = Some st \<and> lfs_evictable st \<and> r' = lru_drop f (lfs_pos st) r \<and>
     (\<forall>g st'. map_of (lru_frames r) g = Some st' \<longrightarrow> lfs_evictable st' \<longrightarrow> g \<noteq> f \<longrightarrow>
        lfs_pos st < lfs_pos st')"
proof -
  from ev have "LRU_Evict_loop (lru_list r) r = Some (f, r')" by (simp add: LRU_Evict_def)
  from LRU_Evict_loop_Some[OF this] obtain pre h post st where
    nodes: "lru_list r = pre @ (h, f) # post" and st: "map_of (lru_frames r) f = Some st"
      "lfs_evictable st" and r': "r' = lru_drop f h r"
    and pre: "\<forall>(h', g)\<in>set pre. g \<notin> lru_evictable r" by blast
  have h: "lfs_pos st = h" using lru_inv_nodes[OF inv, of h f] nodes st by simp
  have "lfs_pos st < lfs_pos st'"
    if g: "map_of (lru_frames r) g = Some st'" "lfs_evictable st'" "g \<noteq> f" for g st'
  proof -
    have "(lfs_pos st', g) \<in> set (lru_list r)" using g lru_inv_nodes[OF inv] by blast
    with nodes g pre have "(lfs_pos st', g) \<in> set post" by (auto simp: lru_evictable_def)
    moreover have "sorted_wrt (<) (map fst (lru_list r))" using inv by (simp add: lru_inv_def)
    ultimately show ?thesis unfolding nodes h by (auto simp: sorted_wrt_append)
  qed
  then show ?thesis using st r' h by auto
qed

lemma LRU_Evict_none:
  assumes "lru_inv n r"
  shows "LRU_Evict r = Inr None \<longleftrightarrow> lru_evictable r = {}"
proof -
  have "(\<forall>(h, g)\<in>set (lru_list r). g \<notin> lru_evictable r) \<longleftrightarrow> lru_evictable r = {}"
    using lru_inv_nodes[OF assms] by (fastforce simp: lru_evictable_def)
  then show ?thesis by (simp add: LRU_Evict_def LRU_Evict_loop_None)
qed

lemma lru_set_evictable:
  assumes inv: "lru_inv n r" and f: "f \<in> lru_tracked r"
  shows "lru_inv n (LRU_SetEvictable f b r) \<and> lru_tracked (LRU_SetEvictable f b r) = lru_tracked r \<and>
    lru_evictable (LRU_SetEvictable f b r) = (if b then insert f (lru_evictable r) else lru_evictable r - {f})"
proof -
  from f obtain st where st: "map_of (lru_frames r) f = Some st" by (auto simp: lru_tracked_map_of)
  let ?r = "LRU_SetEvictable f b r"
  have fr: "lru_frames ?r = AList.update f (st\<lparr>lfs_evictable := b\<rparr>) (lru_frames r)"
    and rest: "lru_list ?r = lru_list r" "lru_next_node ?r = lru_next_node r"
      "lru_num_frames ?r = lru_num_frames r"
    and cnt: "lru_evictable_count ?r = (if lfs_evictable st \<noteq> b
      then lru_evictable_count r + (if b then 1 else - 1) else lru_evictable_count r)"
    using st by (simp_all add: LRU_SetEvictable_def Let_def)
  have fe: "f \<in> lru_evictable r \<longleftrightarrow> lfs_evictable st" using st by (simp add: lru_evictable_def)
  have tr: "lru_tracked ?r = lru_tracked r"
    using f by (auto simp: lru_tracked_def fr)
  have ev: "lru_evictable ?r = (if b then insert f (lru_evictable r) else lru_evictable r - {f})"
    by (auto simp: lru_evictable_def fr)
  have "lru_evictable_count ?r = of_nat (card (lru_evictable ?r))"
    using inv fe card_minus_word[OF finite_lru_evictable, of f r]
    unfolding ev cnt by (auto simp: lru_inv_def insert_absorb)
  moreover have "(h, g) \<in> set (lru_list r) \<longleftrightarrow>
      (\<exists>st'. map_of (lru_frames ?r) g = Some st' \<and> lfs_pos st' = h)" for h g
    using lru_inv_nodes[OF inv, of h g] st by (auto simp: fr)
  ultimately have "lru_inv n ?r" using inv by (simp add: lru_inv_def rest) (simp add: fr)
  with tr ev show ?thesis by simp
qed

lemma lru_record_access:
  assumes inv: "lru_inv n r" and f: "0 \<le> f" "f < int n"
  shows "\<exists>r'. LRU_RecordAccess f r = Inr r' \<and> lru_inv n r' \<and>
    lru_tracked r' = insert f (lru_tracked r) \<and> lru_evictable r' = lru_evictable r"
proof -
  define e where "e = (case map_of (lru_frames r) f of None \<Rightarrow> False | Some st \<Rightarrow> lfs_evictable st)"
  define nodes where "nodes = (case map_of (lru_frames r) f of
      None \<Rightarrow> lru_list r | Some st \<Rightarrow> lru_erase (lfs_pos st) (lru_list r))"
  define r' where "r' = r\<lparr>lru_list := nodes @ [(lru_next_node r, f)],
      lru_next_node := lru_next_node r + 1,
      lru_frames := AList.update f \<lparr>lfs_pos = lru_next_node r, lfs_evictable = e\<rparr> (lru_frames r)\<rparr>"
  have eq: "LRU_RecordAccess f r = Inr r'"
    using inv f by (simp add: LRU_RecordAccess_def lru_inv_def r'_def nodes_def e_def Let_def nat_less_iff)
  have tr: "lru_tracked r' = insert f (lru_tracked r)" by (simp add: lru_tracked_def r'_def)
  have ev: "lru_evictable r' = lru_evictable r"
    by (auto simp: lru_evictable_def r'_def e_def split: option.splits)
  have set_nodes: "set nodes = {x \<in> set (lru_list r). snd x \<noteq> f}"
  proof (cases "map_of (lru_frames r) f")
    case None
    then show ?thesis using lru_inv_nodes[OF inv] by (auto simp: nodes_def)
  next
    case (Some st)
    then have "(lfs_pos st, f) \<in> set (lru_list r)" using lru_inv_nodes[OF inv] by blast
    then show ?thesis using Some lru_inv_nodes[OF inv] lru_node_unique[OF inv]
      by (auto simp: nodes_def)
  qed
  have "sorted_wrt (<) (map fst nodes)"
    using inv by (simp add: nodes_def lru_inv_def split: option.split)
  moreover have old: "h < lru_next_node r" if "h \<in> keys_of nodes" for h
    using inv that by (auto simp: lru_inv_def set_nodes)
  moreover have "(h, g) \<in> set (lru_list r') \<longleftrightarrow>
      (\<exists>st. map_of (lru_frames r') g = Some st \<and> lfs_pos st = h)" for h g
    using lru_inv_nodes[OF inv, of h g] by (auto simp: r'_def set_nodes)
  ultimately have "lru_inv n r'"
    using inv ev unfolding lru_inv_def
    by (auto simp: r'_def sorted_wrt_append less_Suc_eq)
  with eq tr ev show ?thesis by blast
qed

lemma lru_inv_init [inv_intros]: "lru_inv n (LRUReplacer n)"
  by (simp add: lru_inv_def LRUReplacer_def lru_evictable_def)

lemma lru_observations_init [simp]:
  "lru_tracked (LRUReplacer n) = {}" "lru_evictable (LRUReplacer n) = {}"
  by (simp_all add: LRUReplacer_def lru_tracked_def lru_evictable_def)

interpretation lru: replacer lru_ops lru_inv lru_tracked lru_evictable
proof (unfold_locales, goal_cases)
  case (1 n r)
  then show ?case by simp
next
  case (2 n r)
  then show ?case by (intro lru_evictable_subset)
next
  case (3 n r)
  then show ?case by (simp add: lru_ops_def LRU_Evict_none)
next
  case (4 n r)
  with LRU_Evict_none[OF 4(1)] obtain f r' where ev: "LRU_Evict r = Inr (Some (f, r'))"
    by (cases "LRU_Evict r") (auto simp: LRU_Evict_def)
  from LRU_Evict_victim[OF 4(1) ev] obtain st where
    st: "map_of (lru_frames r) f = Some st" "lfs_evictable st" "r' = lru_drop f (lfs_pos st) r"
    by blast
  with lru_inv_drop[OF 4(1) st(1,2)] ev show ?case
    by (intro exI[of _ f] exI[of _ r']) (simp add: lru_ops_def, simp add: lru_evictable_def)
next
  case (5 n r f)
  from lru_record_access[OF 5] show ?case by (simp add: lru_ops_def)
next
  case (6 n r f)
  then show ?case by (auto simp: lru_ops_def LRU_RecordAccess_def lru_inv_def)
next
  case (7 n r f b)
  from lru_set_evictable[OF 7] show ?case by (simp add: lru_ops_def)
next
  case (8 n r f)
  then have "map_of (lru_frames r) f = None" by (simp add: lru_tracked_def map_of_eq_None_keys)
  then show ?case by (simp add: lru_ops_def LRU_Remove_def)
next
  case (9 n r f)
  then obtain st where st: "map_of (lru_frames r) f = Some st" "lfs_evictable st"
    by (auto simp: lru_evictable_def)
  then have "LRU_Remove f r = Inr (lru_drop f (lfs_pos st) r)"
    by (simp add: LRU_Remove_def lru_drop_def)
  with lru_inv_drop[OF 9(1) st] show ?case by (simp add: lru_ops_def)
next
  case (10 n r f)
  then show ?case by (auto simp: lru_ops_def LRU_Remove_def lru_tracked_map_of lru_evictable_def)
next
  case (11 n r)
  then show ?case by (simp add: lru_ops_def LRU_Size_def lru_inv_def)
qed

end
