(* ===== verification/Buffer_Pool.thy ===== *)
theory Buffer_Pool
  imports Disk_Manager LRUK_Replacer LRU_Replacer
begin

text \<open>
  \<^verbatim>\<open>src/src/buffer/page.h\<close> and \<^verbatim>\<open>src/src/buffer/buffer_pool_manager.{h,cpp}\<close>: a fixed number of
  frames between the engines and the disk manager.

  The methods dispatch to the replacer through its record of virtual methods. A \<open>Page*\<close> is the
  index of its frame, \<open>nullptr\<close> is \<open>None\<close>; indexing \<open>pages_\<close> outside its bounds is undefined. The
  single latch makes every method atomic, so a method is a state transformer. The promise of the
  component is the page array \<open>bpm_view\<close>: which pages are cached and which frames get evicted must
  not be observable through it. The proofs are done once, over the contract of \<open>replacer\<close>.
\<close>

section \<open>State\<close>

record page =
  pg_data :: "byte list"
  pg_page_id :: page_id_t
  pg_pin_count :: int
  pg_is_dirty :: bool

definition Page_init :: page where
  "Page_init = \<lparr>pg_data = zero_page, pg_page_id = INVALID_PAGE_ID, pg_pin_count = 0, pg_is_dirty = False\<rparr>"

definition Page_ResetMemory :: "page \<Rightarrow> page" where
  "Page_ResetMemory pg = pg\<lparr>pg_data := zero_page, pg_page_id := INVALID_PAGE_ID,
     pg_pin_count := 0, pg_is_dirty := False\<rparr>"

record 'r buffer_pool =
  bpm_pool_size :: nat
  bpm_disk :: disk_manager
  bpm_replacer :: 'r
  bpm_pages :: "page list"
  bpm_page_table :: "(page_id_t \<times> frame_id_t) list"
  bpm_free_list :: "frame_id_t list"
  bpm_num_hits :: nat
  bpm_num_misses :: nat

definition BufferPoolManager :: "nat \<Rightarrow> disk_manager \<Rightarrow> 'r \<Rightarrow> 'r buffer_pool" where
  "BufferPoolManager pool_size disk rep =
     \<lparr>bpm_pool_size = pool_size, bpm_disk = disk, bpm_replacer = rep,
      bpm_pages = replicate pool_size Page_init, bpm_page_table = [],
      bpm_free_list = map int [0..<pool_size], bpm_num_hits = 0, bpm_num_misses = 0\<rparr>"

definition page_of :: "'r buffer_pool \<Rightarrow> frame_id_t \<Rightarrow> page" where
  "page_of s f = bpm_pages s ! nat f"

definition frame_ok :: "'r buffer_pool \<Rightarrow> frame_id_t \<Rightarrow> bool" where
  "frame_ok s f \<longleftrightarrow> 0 \<le> f \<and> nat f < length (bpm_pages s)"

definition upd_page :: "frame_id_t \<Rightarrow> (page \<Rightarrow> page) \<Rightarrow> 'r buffer_pool \<Rightarrow> 'r buffer_pool" where
  "upd_page f g s = s\<lparr>bpm_pages := (bpm_pages s)[nat f := g (page_of s f)]\<rparr>"

abbreviation bad_frame :: "'a result" where
  "bad_frame \<equiv> Inl (UndefinedBehaviour ''pages_ indexed out of range'')"

section \<open>Operations\<close>

definition BPM_AcquireFrame ::
    "'r replacer_ops \<Rightarrow> 'r buffer_pool \<Rightarrow> frame_id_t option result \<times> 'r buffer_pool" where
  "BPM_AcquireFrame ops s =
     (case bpm_free_list s of
        f # rest \<Rightarrow> (Inr (Some f), s\<lparr>bpm_free_list := rest\<rparr>)
      | [] \<Rightarrow>
          (case op_Evict ops (bpm_replacer s) of
             Inl e \<Rightarrow> (Inl e, s)
           | Inr None \<Rightarrow> (Inr None, s)
           | Inr (Some (f, r')) \<Rightarrow>
               let s = s\<lparr>bpm_replacer := r'\<rparr> in
               if \<not> frame_ok s f then (bad_frame, s) else
               let victim = page_of s f;
                   (w, disk) = (if pg_is_dirty victim
                                then DiskManager_WritePage (pg_page_id victim) (pg_data victim) (bpm_disk s)
                                else (Inr (), bpm_disk s));
                   s = s\<lparr>bpm_disk := disk\<rparr>
               in case w of
                    Inl e \<Rightarrow> (Inl e, s)
                  | Inr _ \<Rightarrow>
                      (Inr (Some f),
                       upd_page f Page_ResetMemory
                         (s\<lparr>bpm_page_table := AList.delete (pg_page_id victim) (bpm_page_table s)\<rparr>))))"

text \<open>The two calls that end \<open>NewPage\<close> and both branches of \<open>FetchPage\<close>.\<close>

definition BPM_pin_in_replacer ::
    "'r replacer_ops \<Rightarrow> frame_id_t \<Rightarrow> 'r buffer_pool \<Rightarrow> frame_id_t option result \<times> 'r buffer_pool" where
  "BPM_pin_in_replacer ops f s =
     (case op_RecordAccess ops f (bpm_replacer s) of
        Inl e \<Rightarrow> (Inl e, s)
      | Inr r' \<Rightarrow> (Inr (Some f), s\<lparr>bpm_replacer := op_SetEvictable ops f False r'\<rparr>))"

definition BPM_NewPage ::
    "'r replacer_ops \<Rightarrow> 'r buffer_pool \<Rightarrow> (page_id_t \<times> frame_id_t) option result \<times> 'r buffer_pool" where
  "BPM_NewPage ops s =
     (case BPM_AcquireFrame ops s of
        (Inl e, s) \<Rightarrow> (Inl e, s)
      | (Inr None, s) \<Rightarrow> (Inr None, s)
      | (Inr (Some f), s) \<Rightarrow>
          let (p, disk) = DiskManager_AllocatePage (bpm_disk s); s = s\<lparr>bpm_disk := disk\<rparr> in
          if \<not> frame_ok s f then (bad_frame, s) else
          let s = upd_page f (\<lambda>pg. pg\<lparr>pg_page_id := p, pg_pin_count := 1, pg_is_dirty := False\<rparr>) s;
              s = s\<lparr>bpm_page_table := AList.update p f (bpm_page_table s)\<rparr>
          in case BPM_pin_in_replacer ops f s of
               (Inl e, s) \<Rightarrow> (Inl e, s)
             | (Inr _, s) \<Rightarrow> (Inr (Some (p, f)), s))"

definition BPM_FetchPage ::
    "'r replacer_ops \<Rightarrow> page_id_t \<Rightarrow> 'r buffer_pool \<Rightarrow> frame_id_t option result \<times> 'r buffer_pool" where
  "BPM_FetchPage ops p s =
     (case map_of (bpm_page_table s) p of
        Some f \<Rightarrow>
          if \<not> frame_ok s f then (bad_frame, s) else
          (case BPM_pin_in_replacer ops f (upd_page f (\<lambda>pg. pg\<lparr>pg_pin_count := pg_pin_count pg + 1\<rparr>) s) of
             (Inl e, s) \<Rightarrow> (Inl e, s)
           | (Inr _, s) \<Rightarrow> (Inr (Some f), s\<lparr>bpm_num_hits := bpm_num_hits s + 1\<rparr>))
      | None \<Rightarrow>
          let s = s\<lparr>bpm_num_misses := bpm_num_misses s + 1\<rparr> in
          (case BPM_AcquireFrame ops s of
             (Inl e, s) \<Rightarrow> (Inl e, s)
           | (Inr None, s) \<Rightarrow> (Inr None, s)
           | (Inr (Some f), s) \<Rightarrow>
               if \<not> frame_ok s f then (bad_frame, s) else
               let (rd, disk) = DiskManager_ReadPage p (bpm_disk s); s = s\<lparr>bpm_disk := disk\<rparr> in
               case rd of
                 Inl e \<Rightarrow> (Inl e, s)
               | Inr bytes \<Rightarrow>
                   let s = upd_page f (\<lambda>pg. pg\<lparr>pg_data := bytes, pg_page_id := p, pg_pin_count := 1,
                             pg_is_dirty := False\<rparr>) s;
                       s = s\<lparr>bpm_page_table := AList.update p f (bpm_page_table s)\<rparr>
                   in BPM_pin_in_replacer ops f s))"

definition BPM_UnpinPage ::
    "'r replacer_ops \<Rightarrow> page_id_t \<Rightarrow> bool \<Rightarrow> 'r buffer_pool \<Rightarrow> bool result \<times> 'r buffer_pool" where
  "BPM_UnpinPage ops p is_dirty s =
     (case map_of (bpm_page_table s) p of
        None \<Rightarrow> (Inr False, s)
      | Some f \<Rightarrow>
          if \<not> frame_ok s f then (bad_frame, s)
          else if pg_pin_count (page_of s f) \<le> 0 then (Inr False, s)
          else
            let s = (if is_dirty then upd_page f (\<lambda>pg. pg\<lparr>pg_is_dirty := True\<rparr>) s else s);
                s = upd_page f (\<lambda>pg. pg\<lparr>pg_pin_count := pg_pin_count pg - 1\<rparr>) s;
                s = (if pg_pin_count (page_of s f) = 0
                     then s\<lparr>bpm_replacer := op_SetEvictable ops f True (bpm_replacer s)\<rparr> else s)
            in (Inr True, s))"

definition BPM_FlushPage :: "page_id_t \<Rightarrow> 'r buffer_pool \<Rightarrow> bool result \<times> 'r buffer_pool" where
  "BPM_FlushPage p s =
     (case map_of (bpm_page_table s) p of
        None \<Rightarrow> (Inr False, s)
      | Some f \<Rightarrow>
          if \<not> frame_ok s f then (bad_frame, s) else
          let (w, disk) = DiskManager_WritePage (pg_page_id (page_of s f)) (pg_data (page_of s f)) (bpm_disk s);
              s = s\<lparr>bpm_disk := disk\<rparr>
          in case w of
               Inl e \<Rightarrow> (Inl e, s)
             | Inr _ \<Rightarrow> (Inr True, upd_page f (\<lambda>pg. pg\<lparr>pg_is_dirty := False\<rparr>) s))"

fun BPM_FlushAll_loop ::
    "(page_id_t \<times> frame_id_t) list \<Rightarrow> 'r buffer_pool \<Rightarrow> unit result \<times> 'r buffer_pool" where
  "BPM_FlushAll_loop [] s = (Inr (), s)"
| "BPM_FlushAll_loop ((p, f) # rest) s =
     (if \<not> frame_ok s f then (bad_frame, s)
      else if pg_is_dirty (page_of s f) then
        (case DiskManager_WritePage p (pg_data (page_of s f)) (bpm_disk s) of
           (Inl e, disk) \<Rightarrow> (Inl e, s\<lparr>bpm_disk := disk\<rparr>)
         | (Inr _, disk) \<Rightarrow>
             BPM_FlushAll_loop rest
               (upd_page f (\<lambda>pg. pg\<lparr>pg_is_dirty := False\<rparr>) (s\<lparr>bpm_disk := disk\<rparr>)))
      else BPM_FlushAll_loop rest s)"

definition BPM_FlushAllPages :: "'r buffer_pool \<Rightarrow> unit result \<times> 'r buffer_pool" where
  "BPM_FlushAllPages s = BPM_FlushAll_loop (bpm_page_table s) s"

definition BPM_DeletePage ::
    "'r replacer_ops \<Rightarrow> page_id_t \<Rightarrow> 'r buffer_pool \<Rightarrow> bool result \<times> 'r buffer_pool" where
  "BPM_DeletePage ops p s =
     (case map_of (bpm_page_table s) p of
        None \<Rightarrow> (Inr True, s)
      | Some f \<Rightarrow>
          if \<not> frame_ok s f then (bad_frame, s)
          else if pg_pin_count (page_of s f) > 0 then (Inr False, s)
          else
            let s = s\<lparr>bpm_replacer := op_SetEvictable ops f True (bpm_replacer s)\<rparr> in
            case op_Remove ops f (bpm_replacer s) of
              Inl e \<Rightarrow> (Inl e, s)
            | Inr r' \<Rightarrow>
                let s = s\<lparr>bpm_replacer := r', bpm_page_table := AList.delete p (bpm_page_table s)\<rparr>;
                    s = upd_page f Page_ResetMemory s
                in (Inr True, s\<lparr>bpm_free_list := bpm_free_list s @ [f]\<rparr>))"

text \<open>A caller that holds a pinned frame writes through \<open>Page::GetData\<close>.\<close>

definition Page_write :: "frame_id_t \<Rightarrow> byte list \<Rightarrow> 'r buffer_pool \<Rightarrow> 'r buffer_pool" where
  "Page_write f bytes = upd_page f (\<lambda>pg. pg\<lparr>pg_data := bytes\<rparr>)"

section \<open>The page array and the invariant\<close>

definition bpm_view :: "'r buffer_pool \<Rightarrow> page_id_t \<Rightarrow> byte list" where
  "bpm_view s p = (case map_of (bpm_page_table s) p of
      Some f \<Rightarrow> pg_data (page_of s f) | None \<Rightarrow> disk_page (bpm_disk s) p)"

text \<open>What is known of a frame that caches page \<open>p\<close>: a frame nobody holds agrees with the disk or is dirty.\<close>

definition cached_ok :: "'r buffer_pool \<Rightarrow> page_id_t \<Rightarrow> frame_id_t \<Rightarrow> bool" where
  "cached_ok s p f \<longleftrightarrow>
     0 \<le> f \<and> f < int (bpm_pool_size s) \<and> 0 \<le> p \<and> p < dm_next_page_id (bpm_disk s) \<and>
     pg_page_id (page_of s f) = p \<and> 0 \<le> pg_pin_count (page_of s f) \<and>
     length (pg_data (page_of s f)) = PAGE_SIZE \<and>
     (pg_is_dirty (page_of s f) \<or> 0 < pg_pin_count (page_of s f) \<or>
      pg_data (page_of s f) = disk_page (bpm_disk s) p)"

text \<open>
  The invariant, with a set \<open>held\<close> of frames that an operation has acquired and not yet filled;
  between operations it is empty. The replacer tracks exactly the frames of the page table, and
  its evictable frames are exactly the unpinned ones.
\<close>

definition bpm_inv_held ::
    "(nat \<Rightarrow> 'r \<Rightarrow> bool) \<Rightarrow> ('r \<Rightarrow> frame_id_t set) \<Rightarrow> ('r \<Rightarrow> frame_id_t set) \<Rightarrow>
     frame_id_t set \<Rightarrow> 'r buffer_pool \<Rightarrow> bool" where
  "bpm_inv_held rinv tracked evictable held s \<longleftrightarrow>
     length (bpm_pages s) = bpm_pool_size s \<and> rinv (bpm_pool_size s) (bpm_replacer s) \<and>
     dm_invar (bpm_disk s) \<and> distinct_keys (bpm_page_table s) \<and>
     (\<forall>p f. map_of (bpm_page_table s) p = Some f \<longrightarrow> cached_ok s p f) \<and>
     distinct (bpm_free_list s) \<and> set (bpm_free_list s) \<inter> held = {} \<and>
     (\<forall>f\<in>set (bpm_free_list s) \<union> held. page_of s f = Page_init) \<and>
     tracked (bpm_replacer s) = ran (map_of (bpm_page_table s)) \<and>
     evictable (bpm_replacer s) = {f \<in> ran (map_of (bpm_page_table s)). pg_pin_count (page_of s f) = 0} \<and>
     set (bpm_free_list s) \<union> held = {0..<int (bpm_pool_size s)} - ran (map_of (bpm_page_table s))"

definition bpm_inv ::
    "(nat \<Rightarrow> 'r \<Rightarrow> bool) \<Rightarrow> ('r \<Rightarrow> frame_id_t set) \<Rightarrow> ('r \<Rightarrow> frame_id_t set) \<Rightarrow> 'r buffer_pool \<Rightarrow> bool" where
  "bpm_inv rinv tracked evictable s \<longleftrightarrow> bpm_inv_held rinv tracked evictable {} s"

text \<open>
  What an operation that brings page \<open>p\<close> in, and may evict another one for it, guarantees: the page
  array is unchanged, a caller's pinned page stays where it is, and every other page that is cached
  afterwards is cached as it was.
\<close>

definition bpm_keeps :: "page_id_t \<Rightarrow> 'r buffer_pool \<Rightarrow> 'r buffer_pool \<Rightarrow> bool" where
  "bpm_keeps p s s' \<longleftrightarrow> bpm_pool_size s' = bpm_pool_size s \<and> (\<forall>q\<ge>0. bpm_view s' q = bpm_view s q) \<and>
     (\<forall>q g. map_of (bpm_page_table s) q = Some g \<longrightarrow> 0 < pg_pin_count (page_of s g) \<longrightarrow>
        map_of (bpm_page_table s') q = Some g \<and> pg_data (page_of s' g) = pg_data (page_of s g) \<and>
        pg_pin_count (page_of s g) \<le> pg_pin_count (page_of s' g)) \<and>
     (\<forall>q g. q \<noteq> p \<longrightarrow> map_of (bpm_page_table s') q = Some g \<longrightarrow>
        map_of (bpm_page_table s) q = Some g \<and> page_of s' g = page_of s g)"

text \<open>A flush moves no page and changes no pin count.\<close>

definition bpm_same_frames :: "'r buffer_pool \<Rightarrow> 'r buffer_pool \<Rightarrow> bool" where
  "bpm_same_frames s s' \<longleftrightarrow> bpm_page_table s' = bpm_page_table s \<and> bpm_pool_size s' = bpm_pool_size s \<and>
     dm_next_page_id (bpm_disk s') = dm_next_page_id (bpm_disk s) \<and>
     (\<forall>g\<ge>0. pg_pin_count (page_of s' g) = pg_pin_count (page_of s g))"

section \<open>Lemmas on the state\<close>

lemma bpm_same_frames_refl [simp]: "bpm_same_frames s s"
  by (simp add: bpm_same_frames_def)

lemma bpm_same_frames_trans:
  "bpm_same_frames s s1 \<Longrightarrow> bpm_same_frames s1 s2 \<Longrightarrow> bpm_same_frames s s2"
  by (simp add: bpm_same_frames_def)

lemma bpm_keeps_install:
  assumes sz: "bpm_pool_size s' = bpm_pool_size s" and "\<And>q. 0 \<le> q \<Longrightarrow> bpm_view s' q = bpm_view s q"
    and "\<And>q g. map_of (bpm_page_table s) q = Some g \<Longrightarrow> 0 < pg_pin_count (page_of s g) \<Longrightarrow>
       map_of (bpm_page_table s1) q = Some g"
    and "\<And>q g. map_of (bpm_page_table s1) q = Some g \<Longrightarrow>
       map_of (bpm_page_table s) q = Some g \<and> page_of s1 g = page_of s g"
    and "\<And>q g. map_of (bpm_page_table s1) q = Some g \<Longrightarrow>
       map_of (bpm_page_table s') q = Some g \<and> page_of s' g = page_of s1 g"
    and "\<And>q g. q \<noteq> p \<Longrightarrow> map_of (bpm_page_table s') q = Some g \<Longrightarrow> map_of (bpm_page_table s1) q = Some g"
  shows "bpm_keeps p s s'"
  unfolding bpm_keeps_def
proof (intro conjI allI impI)
  fix q g assume q: "map_of (bpm_page_table s) q = Some g" "0 < pg_pin_count (page_of s g)"
  note s1 = assms(3)[OF q]
  show "map_of (bpm_page_table s') q = Some g" "pg_data (page_of s' g) = pg_data (page_of s g)"
    "pg_pin_count (page_of s g) \<le> pg_pin_count (page_of s' g)"
    using assms(4)[OF s1] assms(5)[OF s1] by simp_all
next
  fix q g assume q: "q \<noteq> p" "map_of (bpm_page_table s') q = Some g"
  note s1 = assms(6)[OF q]
  show "map_of (bpm_page_table s) q = Some g" "page_of s' g = page_of s g"
    using assms(4)[OF s1] assms(5)[OF s1] by simp_all
qed (use assms(1,2) in simp_all)

lemma upd_page_sel [simp]:
  "bpm_pool_size (upd_page f g s) = bpm_pool_size s" "bpm_disk (upd_page f g s) = bpm_disk s"
  "bpm_replacer (upd_page f g s) = bpm_replacer s" "bpm_page_table (upd_page f g s) = bpm_page_table s"
  "bpm_free_list (upd_page f g s) = bpm_free_list s" "length (bpm_pages (upd_page f g s)) = length (bpm_pages s)"
  "bpm_num_hits (upd_page f g s) = bpm_num_hits s" "bpm_num_misses (upd_page f g s) = bpm_num_misses s"
  by (simp_all add: upd_page_def)

lemma page_of_upd [simp]:
  "frame_ok s f \<Longrightarrow> 0 \<le> f' \<Longrightarrow> page_of (upd_page f g s) f' = (if f' = f then g (page_of s f) else page_of s f')"
  by (auto simp: upd_page_def page_of_def frame_ok_def nth_list_update)

lemma page_of_other_fields [simp]:
  "page_of (s\<lparr>bpm_disk := d\<rparr>) f = page_of s f" "page_of (s\<lparr>bpm_replacer := r\<rparr>) f = page_of s f"
  "page_of (s\<lparr>bpm_page_table := pt\<rparr>) f = page_of s f" "page_of (s\<lparr>bpm_free_list := fl\<rparr>) f = page_of s f"
  "page_of (s\<lparr>bpm_num_hits := h\<rparr>) f = page_of s f" "page_of (s\<lparr>bpm_num_misses := h\<rparr>) f = page_of s f"
  by (simp_all add: page_of_def)

lemma frame_ok_other_fields [simp]:
  "frame_ok (upd_page g k s) f = frame_ok s f"
  "frame_ok (s\<lparr>bpm_disk := d\<rparr>) f = frame_ok s f" "frame_ok (s\<lparr>bpm_replacer := r\<rparr>) f = frame_ok s f"
  "frame_ok (s\<lparr>bpm_page_table := pt\<rparr>) f = frame_ok s f" "frame_ok (s\<lparr>bpm_free_list := fl\<rparr>) f = frame_ok s f"
  "frame_ok (s\<lparr>bpm_num_hits := h\<rparr>) f = frame_ok s f" "frame_ok (s\<lparr>bpm_num_misses := h\<rparr>) f = frame_ok s f"
  by (simp_all add: frame_ok_def)

lemma ResetMemory_init [simp]: "Page_ResetMemory pg = Page_init"
  by (simp add: Page_ResetMemory_def Page_init_def)

lemma Page_init_sel [simp]:
  "pg_data Page_init = zero_page" "pg_pin_count Page_init = 0" "\<not> pg_is_dirty Page_init"
  by (simp_all add: Page_init_def)

lemma page_assign_all [simp]:
  "(pg :: page)\<lparr>pg_data := a, pg_page_id := b, pg_pin_count := c, pg_is_dirty := e\<rparr> =
     \<lparr>pg_data = a, pg_page_id = b, pg_pin_count = c, pg_is_dirty = e\<rparr>"
  by (cases pg) simp

lemma ran_map_of_delete:
  assumes "\<And>q. map_of xs q = Some f \<longleftrightarrow> q = p"
  shows "ran ((map_of xs)(p := None)) = ran (map_of xs) - {f}"
  using assms by (auto simp: ran_def) (metis option.inject)

context replacer
begin

abbreviation binv :: "frame_id_t set \<Rightarrow> 'r buffer_pool \<Rightarrow> bool" where
  "binv \<equiv> bpm_inv_held rinv tracked evictable"

lemma binv_frame_ok: "binv H s \<Longrightarrow> 0 \<le> f \<Longrightarrow> f < int (bpm_pool_size s) \<Longrightarrow> frame_ok s f"
  by (auto simp: bpm_inv_held_def frame_ok_def)

lemma binv_disk_counters:
  assumes inv: "binv H s" and d: "dm_invar d" "dm_next_page_id (bpm_disk s) \<le> dm_next_page_id d"
    "disk_page d = disk_page (bpm_disk s)"
  shows "binv H (s\<lparr>bpm_disk := d\<rparr>)"
proof -
  have "cached_ok (s\<lparr>bpm_disk := d\<rparr>) p f" if "cached_ok s p f" for p f
    using that d by (simp add: cached_ok_def)
  then show ?thesis using inv d(1) unfolding bpm_inv_held_def by simp
qed

lemma binv_held:
  assumes "binv H s" "f \<in> H"
  shows "0 \<le> f" "f < int (bpm_pool_size s)" "f \<notin> ran (map_of (bpm_page_table s))" "frame_ok s f"
proof -
  from assms have "f \<in> {0..<int (bpm_pool_size s)} - ran (map_of (bpm_page_table s))"
    unfolding bpm_inv_held_def by blast
  then show "0 \<le> f" "f < int (bpm_pool_size s)" "f \<notin> ran (map_of (bpm_page_table s))" "frame_ok s f"
    using binv_frame_ok[OF assms(1)] by auto
qed

lemma binv_cached:
  "binv H s \<Longrightarrow> map_of (bpm_page_table s) p = Some f \<Longrightarrow> cached_ok s p f"
  by (simp add: bpm_inv_held_def)

lemma binv_inj:
  assumes "binv H s" "map_of (bpm_page_table s) p = Some f"
  shows "map_of (bpm_page_table s) q = Some f \<longleftrightarrow> q = p"
  using binv_cached[OF assms] binv_cached[OF assms(1), of q f] assms(2) by (auto simp: cached_ok_def)

lemma binv_evictable:
  assumes "binv H s" "f \<in> evictable (bpm_replacer s)"
  obtains p where "map_of (bpm_page_table s) p = Some f" "pg_pin_count (page_of s f) = 0"
  using assms by (auto simp: bpm_inv_held_def ran_def)

text \<open>Writing a cached page back changes no page of the array.\<close>

lemma binv_write_back:
  assumes inv: "binv H s" and p: "map_of (bpm_page_table s) p = Some f"
  defines "d \<equiv> wrote_page (bpm_disk s) p (pg_data (page_of s f))"
  shows "DiskManager_WritePage p (pg_data (page_of s f)) (bpm_disk s) = (Inr (), d)"
    and "dm_invar d" and "dm_next_page_id d = dm_next_page_id (bpm_disk s)"
    and "0 \<le> q \<Longrightarrow> disk_page d q = (if q = p then pg_data (page_of s f) else disk_page (bpm_disk s) q)"
proof -
  have c: "cached_ok s p f" using binv_cached[OF inv p] .
  have i: "dm_invar (bpm_disk s)" using inv by (simp add: bpm_inv_held_def)
  show "DiskManager_WritePage p (pg_data (page_of s f)) (bpm_disk s) = (Inr (), d)"
    "dm_next_page_id d = dm_next_page_id (bpm_disk s)"
    "0 \<le> q \<Longrightarrow> disk_page d q = (if q = p then pg_data (page_of s f) else disk_page (bpm_disk s) q)"
    using c by (simp_all add: d_def WritePage_wrote wrote_page_simps cached_ok_def)
  show "dm_invar d" unfolding d_def using c i by (intro dm_invar_write) (simp_all add: cached_ok_def)
qed

text \<open>The eviction branch: the victim's page moves to the disk and the frame is held.\<close>

lemma binv_evict:
  assumes inv: "binv {} s" and p: "map_of (bpm_page_table s) p = Some f"
    and r': "rinv (bpm_pool_size s) r'" "tracked r' = tracked (bpm_replacer s) - {f}"
      "evictable r' = evictable (bpm_replacer s) - {f}"
    and d: "dm_invar d" "dm_next_page_id d = dm_next_page_id (bpm_disk s)"
      "\<And>q. 0 \<le> q \<Longrightarrow> disk_page d q = (if q = p then pg_data (page_of s f) else disk_page (bpm_disk s) q)"
    and free: "bpm_free_list s = []"
  defines "s' \<equiv> upd_page f Page_ResetMemory (s\<lparr>bpm_replacer := r', bpm_disk := d,
      bpm_page_table := AList.delete p (bpm_page_table s)\<rparr>)"
  shows "binv {f} s'" and "0 \<le> q \<Longrightarrow> bpm_view s' q = bpm_view s q"
proof -
  have c: "cached_ok s p f" using binv_cached[OF inv p] .
  have ok: "frame_ok s f" using c inv by (auto intro: binv_frame_ok simp: cached_ok_def)
  have pg: "page_of s' g = (if g = f then Page_init else page_of s g)" if "0 \<le> g" for g
    using ok that by (simp add: s'_def)
  have other: "g \<noteq> f \<and> cached_ok s q g \<and> 0 \<le> g" if "map_of (bpm_page_table s) q = Some g" "q \<noteq> p" for q g
    using binv_inj[OF inv p, of q] binv_cached[OF inv that(1)] that by (auto simp: cached_ok_def)
  have ran: "ran ((map_of (bpm_page_table s))(p := None)) = ran (map_of (bpm_page_table s)) - {f}"
    using ran_map_of_delete[OF binv_inj[OF inv p]] .
  have pos: "0 \<le> g" if "g \<in> ran (map_of (bpm_page_table s))" for g
    using that binv_cached[OF inv] by (auto simp: ran_def cached_ok_def)
  have "cached_ok s' q g" if "map_of (bpm_page_table s) q = Some g" "q \<noteq> p" for q g
    using other[OF that] pg[of g] d that by (auto simp: cached_ok_def s'_def)
  moreover have "f \<in> ran (map_of (bpm_page_table s))" using p by (auto simp: ran_def)
  ultimately show "binv {f} s'"
    using inv r' d free pg c pos
    by (auto simp: bpm_inv_held_def s'_def ran cached_ok_def split: if_splits)
  show "bpm_view s' q = bpm_view s q" if "0 \<le> q"
    using other[of q] pg d that p by (auto simp: bpm_view_def s'_def split: option.split)
qed

lemma acquire_cases:
  assumes inv: "binv {} s"
  obtains (none) "bpm_free_list s = []" "evictable (bpm_replacer s) = {}"
      "BPM_AcquireFrame ops s = (Inr None, s)"
  | (some) f s' where "BPM_AcquireFrame ops s = (Inr (Some f), s')" "binv {f} s'"
      "\<And>q. 0 \<le> q \<Longrightarrow> bpm_view s' q = bpm_view s q" "bpm_pool_size s' = bpm_pool_size s"
      "dm_next_page_id (bpm_disk s') = dm_next_page_id (bpm_disk s)"
      "\<And>q. map_of (bpm_page_table s) q = None \<Longrightarrow> map_of (bpm_page_table s') q = None"
      "\<And>q g. map_of (bpm_page_table s) q = Some g \<Longrightarrow> 0 < pg_pin_count (page_of s g) \<Longrightarrow>
         map_of (bpm_page_table s') q = Some g"
      "\<And>q g. map_of (bpm_page_table s') q = Some g \<Longrightarrow>
         map_of (bpm_page_table s) q = Some g \<and> page_of s' g = page_of s g"
proof (cases "bpm_free_list s")
  case (Cons f rest)
  let ?s = "s\<lparr>bpm_free_list := rest\<rparr>"
  have "binv {f} ?s" using inv Cons by (auto simp: bpm_inv_held_def cached_ok_def)
  then show ?thesis using Cons by (intro some[of f ?s]) (simp_all add: BPM_AcquireFrame_def bpm_view_def cong: option.case_cong)
next
  case Nil
  have ri: "rinv (bpm_pool_size s) (bpm_replacer s)" using inv by (simp add: bpm_inv_held_def)
  show ?thesis
  proof (cases rule: evict_cases[OF ri])
    case 1
    with Nil show ?thesis by (intro none) (simp_all add: BPM_AcquireFrame_def)
  next
    case (2 f r')
    from binv_evictable[OF inv 2(2)] obtain p where
      p: "map_of (bpm_page_table s) p = Some f" and pin: "pg_pin_count (page_of s f) = 0" .
    have c: "cached_ok s p f" using binv_cached[OF inv p] .
    have ok: "frame_ok s f" using c inv by (auto intro: binv_frame_ok simp: cached_ok_def)
    define d where "d = (if pg_is_dirty (page_of s f) then wrote_page (bpm_disk s) p (pg_data (page_of s f))
                         else bpm_disk s)"
    have d: "dm_invar d" "dm_next_page_id d = dm_next_page_id (bpm_disk s)"
      using binv_write_back[OF inv p] inv by (auto simp: d_def bpm_inv_held_def)
    have dp: "disk_page d q = (if q = p then pg_data (page_of s f) else disk_page (bpm_disk s) q)" if "0 \<le> q" for q
      using binv_write_back(4)[OF inv p] c pin that by (auto simp: d_def cached_ok_def)
    let ?s = "upd_page f Page_ResetMemory (s\<lparr>bpm_replacer := r', bpm_disk := d,
      bpm_page_table := AList.delete p (bpm_page_table s)\<rparr>)"
    have eq: "BPM_AcquireFrame ops s = (Inr (Some f), ?s)"
      using Nil 2 ok c binv_write_back(1)[OF inv p]
      by (auto simp: BPM_AcquireFrame_def d_def cached_ok_def)
    have keep: "map_of (bpm_page_table ?s) q = Some g"
      if "map_of (bpm_page_table s) q = Some g" "0 < pg_pin_count (page_of s g)" for q g
      using that pin p by auto
    have orig: "map_of (bpm_page_table s) q = Some g \<and> page_of ?s g = page_of s g"
      if q: "map_of (bpm_page_table ?s) q = Some g" for q g
    proof -
      from q have q': "map_of (bpm_page_table s) q = Some g" "q \<noteq> p" by (auto split: if_splits)
      then show ?thesis using binv_inj[OF inv p, of q] binv_cached[OF inv q'(1)] ok
        by (auto simp: cached_ok_def)
    qed
    note ev = binv_evict[OF inv p 2(3,4,5) d dp Nil]
    show ?thesis by (rule some[OF eq ev _ _ _ keep orig]) (use d(2) in simp_all)
  qed
qed

text \<open>Filling a held frame with the page the disk has at \<open>p\<close>.\<close>

lemma binv_install:
  assumes inv: "binv {f} s" and p: "map_of (bpm_page_table s) p = None"
    and alloc: "0 \<le> p" "p < dm_next_page_id (bpm_disk s)"
  defines "s1 \<equiv> upd_page f (\<lambda>_. \<lparr>pg_data = disk_page (bpm_disk s) p, pg_page_id = p, pg_pin_count = 1,
      pg_is_dirty = False\<rparr>) s\<lparr>bpm_page_table := AList.update p f (bpm_page_table s)\<rparr>"
  obtains s' where "BPM_pin_in_replacer ops f s1 = (Inr (Some f), s')" "binv {} s'"
    "\<And>q. bpm_view s' q = bpm_view s q" "map_of (bpm_page_table s') p = Some f"
    "page_of s' f = \<lparr>pg_data = disk_page (bpm_disk s) p, pg_page_id = p, pg_pin_count = 1, pg_is_dirty = False\<rparr>"
    "bpm_disk s' = bpm_disk s" "bpm_pool_size s' = bpm_pool_size s"
    "\<And>q g. map_of (bpm_page_table s) q = Some g \<Longrightarrow>
        map_of (bpm_page_table s') q = Some g \<and> page_of s' g = page_of s g"
    "\<And>q g. q \<noteq> p \<Longrightarrow> map_of (bpm_page_table s') q = Some g \<Longrightarrow> map_of (bpm_page_table s) q = Some g"
proof -
  have f: "0 \<le> f" "f < int (bpm_pool_size s)" "f \<notin> ran (map_of (bpm_page_table s))"
    and ok: "frame_ok s f" using binv_held[OF inv] by simp_all
  have "rinv (bpm_pool_size s) (bpm_replacer s)" using inv by (simp add: bpm_inv_held_def)
  from record_and_pin[OF this f(1,2)] obtain r' where
    r': "op_RecordAccess ops f (bpm_replacer s) = Inr r'"
      "rinv (bpm_pool_size s) (op_SetEvictable ops f False r')"
      "tracked (op_SetEvictable ops f False r') = insert f (tracked (bpm_replacer s))"
      "evictable (op_SetEvictable ops f False r') = evictable (bpm_replacer s) - {f}" by blast
  let ?s = "s1\<lparr>bpm_replacer := op_SetEvictable ops f False r'\<rparr>"
  have pg: "page_of ?s g = (if g = f then \<lparr>pg_data = disk_page (bpm_disk s) p, pg_page_id = p,
      pg_pin_count = 1, pg_is_dirty = False\<rparr> else page_of s g)" if "0 \<le> g" for g
    using ok that by (simp add: s1_def)
  have ran: "ran (map_of (bpm_page_table ?s)) = insert f (ran (map_of (bpm_page_table s)))"
    using p by (simp add: s1_def)
  have old: "g \<noteq> f \<and> 0 \<le> g" if "map_of (bpm_page_table s) q = Some g" for q g
    using that f(3) binv_cached[OF inv that] by (auto simp: ran_def cached_ok_def)
  have "cached_ok ?s q g" if "map_of (bpm_page_table ?s) q = Some g" for q g
  proof (cases "q = p")
    case True
    with that pg f alloc show ?thesis by (auto simp: s1_def cached_ok_def)
  next
    case False
    with that have q: "map_of (bpm_page_table s) q = Some g" by (simp add: s1_def)
    from old[OF q] pg[of g] binv_cached[OF inv q] show ?thesis by (simp add: s1_def cached_ok_def)
  qed
  moreover have "g \<noteq> f \<and> page_of ?s g = page_of s g"
    if "g \<in> ran (map_of (bpm_page_table s)) \<union> set (bpm_free_list s)" for g
  proof -
    have "0 \<le> g" "g \<noteq> f" using that old inv by (auto simp: ran_def bpm_inv_held_def)
    then show ?thesis using pg by simp
  qed
  moreover have "pg_pin_count (page_of ?s f) = 1" using pg[OF f(1)] by simp
  moreover have "bpm_free_list ?s = bpm_free_list s" "bpm_disk ?s = bpm_disk s"
    "bpm_pool_size ?s = bpm_pool_size s" "length (bpm_pages ?s) = length (bpm_pages s)"
    "distinct_keys (bpm_page_table s) \<Longrightarrow> distinct_keys (bpm_page_table ?s)"
    "bpm_replacer ?s = op_SetEvictable ops f False r'" by (simp_all add: s1_def)
  ultimately have inv': "binv {} ?s"
    using inv r' f unfolding bpm_inv_held_def ran by auto
  have eq: "BPM_pin_in_replacer ops f s1 = (Inr (Some f), ?s)"
    using r' by (simp add: BPM_pin_in_replacer_def s1_def)
  have view: "bpm_view ?s q = bpm_view s q" for q
    using old[of q] pg f p by (auto simp: bpm_view_def s1_def split: option.split)
  show ?thesis
  proof (rule that[OF eq inv' view], goal_cases)
    case (5 q g)
    with old[OF 5] pg p show ?case by (auto simp: s1_def)
  qed (use pg f in \<open>auto simp: s1_def\<close>)
qed

text \<open>Changing a cached page in place: the rule behind pinning, unpinning, flushing and writing.\<close>

lemma binv_update_cached:
  assumes inv: "binv {} s" and p: "map_of (bpm_page_table s) p = Some f"
    and g: "pg_page_id (g (page_of s f)) = p" "0 \<le> pg_pin_count (g (page_of s f))"
      "length (pg_data (g (page_of s f))) = PAGE_SIZE"
      "pg_is_dirty (g (page_of s f)) \<or> 0 < pg_pin_count (g (page_of s f)) \<or>
       pg_data (g (page_of s f)) = disk_page d p"
    and r: "rinv (bpm_pool_size s) r" "tracked r = tracked (bpm_replacer s)"
      "evictable r = (if pg_pin_count (g (page_of s f)) = 0 then insert f (evictable (bpm_replacer s))
                      else evictable (bpm_replacer s) - {f})"
    and d: "dm_invar d" "dm_next_page_id d = dm_next_page_id (bpm_disk s)"
      "\<And>q. 0 \<le> q \<Longrightarrow> q \<noteq> p \<Longrightarrow> disk_page d q = disk_page (bpm_disk s) q"
  defines "s' \<equiv> upd_page f g s\<lparr>bpm_replacer := r, bpm_disk := d\<rparr>"
  shows "binv {} s'"
    and "0 \<le> q \<Longrightarrow> bpm_view s' q = (if q = p then pg_data (g (page_of s f)) else bpm_view s q)"
proof -
  have c: "cached_ok s p f" using binv_cached[OF inv p] .
  have ok: "frame_ok s f" using c inv by (auto intro: binv_frame_ok simp: cached_ok_def)
  have pg: "page_of s' h = (if h = f then g (page_of s f) else page_of s h)" if "0 \<le> h" for h
    using ok that by (simp add: s'_def)
  have pf: "page_of s' f = g (page_of s f)" using pg[of f] c by (simp add: cached_ok_def)
  have other: "h \<noteq> f \<and> page_of s' h = page_of s h" if "map_of (bpm_page_table s) q = Some h" "q \<noteq> p" for q h
    using binv_inj[OF inv p, of q] binv_cached[OF inv that(1)] pg[of h] that by (auto simp: cached_ok_def)
  have "cached_ok s' q h" if q: "map_of (bpm_page_table s') q = Some h" for q h
  proof (cases "q = p")
    case True
    with q p have "h = f" by (simp add: s'_def)
    with True c g pf d(2) show ?thesis by (simp add: cached_ok_def) (simp add: s'_def)
  next
    case False
    with q have q': "map_of (bpm_page_table s) q = Some h" by (simp add: s'_def)
    with other[OF q' False] binv_cached[OF inv q'] d False show ?thesis
      by (simp add: cached_ok_def) (simp add: s'_def)
  qed
  moreover have "page_of s' h = page_of s h \<and> h \<noteq> f"
    if "h \<in> set (bpm_free_list s)" for h
  proof -
    have "f \<in> ran (map_of (bpm_page_table s))" using p by (auto simp: ran_def)
    with that inv have "0 \<le> h" "h \<noteq> f" by (auto simp: bpm_inv_held_def)
    with pg show ?thesis by simp
  qed
  moreover have "evictable r = {h \<in> ran (map_of (bpm_page_table s)). pg_pin_count (page_of s' h) = 0}"
  proof -
    have "f \<in> ran (map_of (bpm_page_table s))" using p by (auto simp: ran_def)
    moreover have "page_of s' h = (if h = f then g (page_of s f) else page_of s h)"
      if "h \<in> ran (map_of (bpm_page_table s))" for h
      using that binv_cached[OF inv] pg by (auto simp: ran_def cached_ok_def)
    moreover have "evictable (bpm_replacer s) =
        {h \<in> ran (map_of (bpm_page_table s)). pg_pin_count (page_of s h) = 0}"
      using inv by (simp add: bpm_inv_held_def)
    ultimately show ?thesis unfolding r(3) by (auto split: if_splits)
  qed
  moreover have "bpm_free_list s' = bpm_free_list s" "bpm_disk s' = d" "bpm_replacer s' = r"
    "bpm_pool_size s' = bpm_pool_size s" "length (bpm_pages s') = length (bpm_pages s)"
    "bpm_page_table s' = bpm_page_table s" by (simp_all add: s'_def)
  ultimately show "binv {} s'" using inv r(1,2) d(1) unfolding bpm_inv_held_def by simp
  show "bpm_view s' q = (if q = p then pg_data (g (page_of s f)) else bpm_view s q)" if "0 \<le> q"
    using other[of q] pf d(3)[of q] that p by (auto simp: bpm_view_def s'_def split: option.split)
qed

lemma binv_counters [simp]:
  "binv H (s\<lparr>bpm_num_hits := n\<rparr>) = binv H s" "binv H (s\<lparr>bpm_num_misses := n\<rparr>) = binv H s"
  by (simp_all add: bpm_inv_held_def cached_ok_def)

lemma fetch_hit:
  assumes inv: "binv {} s" and p: "map_of (bpm_page_table s) p = Some f"
  shows "\<exists>s'. BPM_FetchPage ops p s = (Inr (Some f), s') \<and> binv {} s' \<and> bpm_keeps p s s' \<and>
     page_of s' f = (page_of s f)\<lparr>pg_pin_count := pg_pin_count (page_of s f) + 1\<rparr> \<and>
     bpm_page_table s' = bpm_page_table s \<and> bpm_disk s' = bpm_disk s"
proof -
  let ?g = "\<lambda>pg. pg\<lparr>pg_pin_count := pg_pin_count pg + 1\<rparr>"
  have c: "cached_ok s p f" using binv_cached[OF inv p] .
  have ok: "frame_ok s f" using c inv by (auto intro: binv_frame_ok simp: cached_ok_def)
  have ri: "rinv (bpm_pool_size s) (bpm_replacer s)" and f: "0 \<le> f" "f < int (bpm_pool_size s)"
    and di: "dm_invar (bpm_disk s)" and tr: "insert f (tracked (bpm_replacer s)) = tracked (bpm_replacer s)"
    using inv c p by (auto simp: bpm_inv_held_def cached_ok_def ran_def)
  from record_and_pin[OF ri f] obtain r' where
    r': "op_RecordAccess ops f (bpm_replacer s) = Inr r'"
      "rinv (bpm_pool_size s) (op_SetEvictable ops f False r')"
      "tracked (op_SetEvictable ops f False r') = tracked (bpm_replacer s)"
      "evictable (op_SetEvictable ops f False r') = evictable (bpm_replacer s) - {f}"
    unfolding tr by blast
  let ?r = "op_SetEvictable ops f False r'"
  let ?s1 = "upd_page f ?g s\<lparr>bpm_replacer := ?r, bpm_disk := bpm_disk s\<rparr>"
  let ?s = "upd_page f ?g s\<lparr>bpm_replacer := ?r, bpm_num_hits := bpm_num_hits s + 1\<rparr>"
  have s1: "upd_page f ?g s\<lparr>bpm_replacer := ?r\<rparr> = ?s1" by (simp add: upd_page_def)
  have "BPM_FetchPage ops p s = (Inr (Some f), ?s)"
    using p ok r' by (simp add: BPM_FetchPage_def BPM_pin_in_replacer_def)
  moreover note upd = binv_update_cached[OF inv p, of ?g "bpm_disk s" ?r]
  have "binv {} ?s1" using upd(1) c r' di by (simp add: cached_ok_def)
  then have "binv {} ?s" using s1 by simp
  moreover have "bpm_view ?s q = bpm_view s q" if "0 \<le> q" for q
    using upd(2)[OF _ _ _ _ _ _ _ di _ _ that] c r' s1 p that
    by (simp add: cached_ok_def bpm_view_def cong: option.case_cong)
  moreover have "page_of ?s g = (if g = f then ?g (page_of s f) else page_of s g)" if "0 \<le> g" for g
    using ok that by simp
  moreover have "0 \<le> g" if "map_of (bpm_page_table s) q = Some g" for q g
    using binv_cached[OF inv that] by (simp add: cached_ok_def)
  moreover have "map_of (bpm_page_table s) q = Some f \<longleftrightarrow> q = p" for q
    using binv_inj[OF inv p] .
  ultimately show ?thesis using f(1) by (intro exI[of _ ?s]) (auto simp: bpm_keeps_def)
qed

lemma fetch_page:
  assumes inv: "binv {} s" and alloc: "0 \<le> p" "p < dm_next_page_id (bpm_disk s)"
  obtains (full) "map_of (bpm_page_table s) p = None" "bpm_free_list s = []"
      "evictable (bpm_replacer s) = {}"
      "BPM_FetchPage ops p s = (Inr None, s\<lparr>bpm_num_misses := bpm_num_misses s + 1\<rparr>)"
  | (fetched) f s' where "BPM_FetchPage ops p s = (Inr (Some f), s')" "binv {} s'" "bpm_keeps p s s'"
      "map_of (bpm_page_table s') p = Some f" "pg_data (page_of s' f) = bpm_view s p"
      "pg_pin_count (page_of s' f) =
         (case map_of (bpm_page_table s) p of None \<Rightarrow> 1 | Some g \<Rightarrow> pg_pin_count (page_of s g) + 1)"
      "pg_is_dirty (page_of s' f) \<or> 1 < pg_pin_count (page_of s' f) \<or>
         pg_data (page_of s' f) = disk_page (bpm_disk s') p"
      "dm_next_page_id (bpm_disk s') = dm_next_page_id (bpm_disk s)"
proof (cases "map_of (bpm_page_table s) p")
  case (Some f)
  from fetch_hit[OF inv Some] binv_cached[OF inv Some] show ?thesis
    using Some by (auto simp: bpm_view_def cached_ok_def intro!: fetched)
next
  case None
  let ?s0 = "s\<lparr>bpm_num_misses := bpm_num_misses s + 1\<rparr>"
  have inv0: "binv {} ?s0" using inv by simp
  show ?thesis
  proof (cases rule: acquire_cases[OF inv0])
    case 1
    then show ?thesis using None by (intro full) (simp_all add: BPM_FetchPage_def)
  next
    case (2 f s1)
    let ?d = "bpm_disk s1\<lparr>dm_num_reads := dm_num_reads (bpm_disk s1) + 1\<rparr>"
    let ?s1 = "s1\<lparr>bpm_disk := ?d\<rparr>"
    have "dm_invar (bpm_disk s1)" using 2(2) by (simp add: bpm_inv_held_def)
    then have inv1: "binv {f} ?s1" using binv_disk_counters[OF 2(2)] dm_invar_read by simp
    have p1: "map_of (bpm_page_table ?s1) p = None" using 2(6)[of p] None by simp
    have v1: "bpm_view ?s1 q = bpm_view s q" if "0 \<le> q" for q
      using 2(3)[OF that] by (simp add: bpm_view_def cong: option.case_cong)
    have n1: "p < dm_next_page_id (bpm_disk ?s1)" using 2(5) alloc by simp
    have ok: "frame_ok s1 f" using binv_held(4)[OF 2(2)] by simp
    show ?thesis
    proof (rule binv_install[OF inv1 p1 alloc(1) n1], goal_cases)
      case (1 s')
      have "BPM_FetchPage ops p s = (Inr (Some f), s')"
        using None 2(1) ok 1(1) alloc
        by (simp add: BPM_FetchPage_def ReadPage_eq upd_page_def page_of_def Let_def)
      moreover have "bpm_keeps p s s'"
      proof (rule bpm_keeps_install[of s' s s1])
        show "bpm_pool_size s' = bpm_pool_size s" using 1(7) 2(4) by simp
        show "0 \<le> q \<Longrightarrow> bpm_view s' q = bpm_view s q" for q using 1(3)[of q] v1[of q] by simp
        show "map_of (bpm_page_table s1) q = Some g"
          if "map_of (bpm_page_table s) q = Some g" "0 < pg_pin_count (page_of s g)" for q g
          by (rule 2(7)) (simp_all add: that)
        show "map_of (bpm_page_table s) q = Some g \<and> page_of s1 g = page_of s g"
          if "map_of (bpm_page_table s1) q = Some g" for q g
          using 2(8)[OF that] by simp
        show "map_of (bpm_page_table s') q = Some g \<and> page_of s' g = page_of s1 g"
          if "map_of (bpm_page_table s1) q = Some g" for q g
          using 1(8)[of q g] that by simp
        show "map_of (bpm_page_table s1) q = Some g"
          if "q \<noteq> p" "map_of (bpm_page_table s') q = Some g" for q g
          using 1(9)[OF that] by simp
      qed
      moreover have "disk_page (bpm_disk s1) p = bpm_view s p"
        using v1[OF alloc(1)] p1 by (simp add: bpm_view_def)
      ultimately show ?thesis using 1 None 2(5) by (intro fetched[of f s']) simp_all
    qed
  qed
qed

lemma fetch_full:
  assumes "binv {} s" "map_of (bpm_page_table s) p = None" "bpm_free_list s = []"
    "evictable (bpm_replacer s) = {}"
  shows "BPM_FetchPage ops p s = (Inr None, s\<lparr>bpm_num_misses := bpm_num_misses s + 1\<rparr>)"
proof -
  have "op_Evict ops (bpm_replacer s) = Inr None"
    using assms by (intro evict_none[of "bpm_pool_size s"]) (simp_all add: bpm_inv_held_def)
  with assms show ?thesis by (simp add: BPM_FetchPage_def BPM_AcquireFrame_def)
qed

lemma fetched_pinned:
  assumes "binv {} s"
    and "pin = (case map_of (bpm_page_table s) p of None \<Rightarrow> 1 | Some g \<Rightarrow> pg_pin_count (page_of s g) + 1)"
  shows "0 < pin"
proof (cases "map_of (bpm_page_table s) p")
  case (Some g)
  with binv_cached[OF assms(1) Some] assms(2) show ?thesis by (simp add: cached_ok_def)
qed (use assms(2) in simp)

lemma new_page:
  assumes inv: "binv {} s"
  obtains (full) "bpm_free_list s = []" "evictable (bpm_replacer s) = {}" "BPM_NewPage ops s = (Inr None, s)"
  | (created) f s' where "BPM_NewPage ops s = (Inr (Some (dm_next_page_id (bpm_disk s), f)), s')"
      "binv {} s'" "bpm_keeps (dm_next_page_id (bpm_disk s)) s s'"
      "map_of (bpm_page_table s) (dm_next_page_id (bpm_disk s)) = None"
      "map_of (bpm_page_table s') (dm_next_page_id (bpm_disk s)) = Some f"
      "pg_data (page_of s' f) = zero_page" "pg_pin_count (page_of s' f) = 1"
      "dm_next_page_id (bpm_disk s') = dm_next_page_id (bpm_disk s) + 1"
      "disk_page (bpm_disk s') (dm_next_page_id (bpm_disk s)) = zero_page"
proof (cases rule: acquire_cases[OF inv])
  case 1
  then show ?thesis by (intro full) (simp_all add: BPM_NewPage_def)
next
  case (2 f s1)
  let ?p = "dm_next_page_id (bpm_disk s)"
  let ?d = "bpm_disk s1\<lparr>dm_next_page_id := ?p + 1\<rparr>"
  let ?s1 = "s1\<lparr>bpm_disk := ?d\<rparr>"
  have di: "dm_invar (bpm_disk s1)" using 2(2) by (simp add: bpm_inv_held_def)
  have inv1: "binv {f} ?s1"
    using binv_disk_counters[OF 2(2)] 2(5) dm_invar_allocate[OF di] by simp
  have np: "map_of (bpm_page_table s) ?p = None" using binv_cached[OF inv, of ?p]
    by (cases "map_of (bpm_page_table s) ?p") (auto simp: cached_ok_def)
  have p1: "map_of (bpm_page_table ?s1) ?p = None" using 2(6)[OF np] by simp
  have v1: "bpm_view ?s1 q = bpm_view s q" if "0 \<le> q" for q
    using 2(3)[OF that] by (simp add: bpm_view_def cong: option.case_cong)
  have p0: "0 \<le> ?p" using inv by (simp add: bpm_inv_held_def dm_invar_def)
  have z: "disk_page (bpm_disk s1) ?p = zero_page" using dm_invar_unallocated[OF di] 2(5) by simp
  have init: "page_of s1 f = Page_init" using 2(2) by (simp add: bpm_inv_held_def)
  have ok: "frame_ok s1 f" using binv_held(4)[OF 2(2)] by simp
  have p2: "?p < dm_next_page_id (bpm_disk ?s1)" by simp
  show ?thesis
  proof (rule binv_install[OF inv1 p1 p0 p2], goal_cases)
    case (1 s')
    have "BPM_NewPage ops s = (Inr (Some (?p, f)), s')"
      using 2(1,5) ok 1(1) init z
      by (simp add: BPM_NewPage_def DiskManager_AllocatePage_def upd_page_def page_of_def Let_def Page_init_def)
    moreover have "bpm_keeps ?p s s'"
    proof (rule bpm_keeps_install[of s' s s1])
      show "bpm_pool_size s' = bpm_pool_size s" using 1(7) 2(4) by simp
      show "0 \<le> q \<Longrightarrow> bpm_view s' q = bpm_view s q" for q using 1(3)[of q] v1[of q] by simp
      show "map_of (bpm_page_table s1) q = Some g"
        if "map_of (bpm_page_table s) q = Some g" "0 < pg_pin_count (page_of s g)" for q g
        by (rule 2(7)) (simp_all add: that)
      show "map_of (bpm_page_table s) q = Some g \<and> page_of s1 g = page_of s g"
        if "map_of (bpm_page_table s1) q = Some g" for q g
        using 2(8)[OF that] by simp
      show "map_of (bpm_page_table s') q = Some g \<and> page_of s' g = page_of s1 g"
        if "map_of (bpm_page_table s1) q = Some g" for q g
        using 1(8)[of q g] that by simp
      show "map_of (bpm_page_table s1) q = Some g"
        if "q \<noteq> ?p" "map_of (bpm_page_table s') q = Some g" for q g
        using 1(9)[OF that] by simp
    qed
    ultimately show ?thesis using 1 np z by (intro created[of f s']) simp_all
  qed
qed

lemma bpm_unpin:
  assumes inv: "binv {} s" and p: "map_of (bpm_page_table s) p = Some f" "0 < pg_pin_count (page_of s f)"
    and clean: "dirty \<or> pg_is_dirty (page_of s f) \<or> 1 < pg_pin_count (page_of s f) \<or>
      pg_data (page_of s f) = disk_page (bpm_disk s) p"
  shows "\<exists>s'. BPM_UnpinPage ops p dirty s = (Inr True, s') \<and> binv {} s' \<and>
     (\<forall>q\<ge>0. bpm_view s' q = bpm_view s q) \<and> bpm_page_table s' = bpm_page_table s \<and>
     bpm_disk s' = bpm_disk s \<and> bpm_pool_size s' = bpm_pool_size s \<and>
     (\<forall>g\<ge>0. g \<noteq> f \<longrightarrow> page_of s' g = page_of s g) \<and> page_of s' f = (page_of s f)
       \<lparr>pg_is_dirty := pg_is_dirty (page_of s f) \<or> dirty, pg_pin_count := pg_pin_count (page_of s f) - 1\<rparr>"
proof -
  define g where "g = (\<lambda>pg :: page. pg\<lparr>pg_is_dirty := pg_is_dirty pg \<or> dirty, pg_pin_count := pg_pin_count pg - 1\<rparr>)"
  define r where "r = (if pg_pin_count (page_of s f) = 1 then op_SetEvictable ops f True (bpm_replacer s)
                       else bpm_replacer s)"
  let ?s = "upd_page f g s\<lparr>bpm_replacer := r, bpm_disk := bpm_disk s\<rparr>"
  have c: "cached_ok s p f" using binv_cached[OF inv p(1)] .
  have ok: "frame_ok s f" and f0: "0 \<le> f" using c inv by (auto intro: binv_frame_ok simp: cached_ok_def)
  have ri: "rinv (bpm_pool_size s) (bpm_replacer s)" and f: "f \<in> tracked (bpm_replacer s)"
    "f \<notin> evictable (bpm_replacer s)" and di: "dm_invar (bpm_disk s)"
    using inv p by (auto simp: bpm_inv_held_def ran_def)
  have r: "rinv (bpm_pool_size s) r" "tracked r = tracked (bpm_replacer s)"
    "evictable r = (if pg_pin_count (g (page_of s f)) = 0 then insert f (evictable (bpm_replacer s))
                    else evictable (bpm_replacer s) - {f})"
    using set_evictable[OF ri f(1), of True] ri f(2) by (auto simp: r_def g_def)
  have eq: "BPM_UnpinPage ops p dirty s = (Inr True, ?s)"
    using p ok f0 by (simp add: BPM_UnpinPage_def upd_page_def page_of_def frame_ok_def g_def r_def Let_def)
  have "binv {} ?s" and "0 \<le> q \<Longrightarrow> bpm_view ?s q = bpm_view s q" for q
    using binv_update_cached[OF inv p(1), of g "bpm_disk s" r] r c p clean di
    by (auto simp: g_def cached_ok_def bpm_view_def)
  with eq ok f0 show ?thesis by (intro exI[of _ ?s]) (simp add: g_def)
qed

lemma write_pinned:
  assumes inv: "binv {} s" and p: "map_of (bpm_page_table s) p = Some f" "0 < pg_pin_count (page_of s f)"
    and bytes: "length bytes = PAGE_SIZE"
  shows "binv {} (Page_write f bytes s)"
    and "0 \<le> q \<Longrightarrow> bpm_view (Page_write f bytes s) q = (if q = p then bytes else bpm_view s q)"
proof -
  let ?g = "\<lambda>pg :: page. pg\<lparr>pg_data := bytes\<rparr>"
  have c: "cached_ok s p f" using binv_cached[OF inv p(1)] .
  have r: "rinv (bpm_pool_size s) (bpm_replacer s)" "dm_invar (bpm_disk s)" "f \<notin> evictable (bpm_replacer s)"
    using inv p by (auto simp: bpm_inv_held_def)
  have eq: "Page_write f bytes s = upd_page f ?g s\<lparr>bpm_replacer := bpm_replacer s, bpm_disk := bpm_disk s\<rparr>"
    by (simp add: Page_write_def upd_page_def)
  show "binv {} (Page_write f bytes s)"
    "0 \<le> q \<Longrightarrow> bpm_view (Page_write f bytes s) q = (if q = p then bytes else bpm_view s q)"
    unfolding eq using binv_update_cached[OF inv p(1), of ?g "bpm_disk s" "bpm_replacer s"] r c p bytes
    by (simp_all add: cached_ok_def)
qed

text \<open>Writing one cached page back and clearing its dirty flag.\<close>

lemma flush_one:
  assumes inv: "binv {} s" and p: "map_of (bpm_page_table s) p = Some f"
  defines "d \<equiv> wrote_page (bpm_disk s) p (pg_data (page_of s f))"
  defines "s' \<equiv> upd_page f (\<lambda>pg. pg\<lparr>pg_is_dirty := False\<rparr>) (s\<lparr>bpm_disk := d\<rparr>)"
  shows "binv {} s'" and "0 \<le> q \<Longrightarrow> bpm_view s' q = bpm_view s q"
    and "0 \<le> q \<Longrightarrow> disk_page (bpm_disk s') q = (if q = p then bpm_view s p else disk_page (bpm_disk s) q)"
    and "bpm_same_frames s s'"
proof -
  let ?g = "\<lambda>pg :: page. pg\<lparr>pg_is_dirty := False\<rparr>"
  have c: "cached_ok s p f" using binv_cached[OF inv p] .
  have r: "rinv (bpm_pool_size s) (bpm_replacer s)"
    "f \<in> evictable (bpm_replacer s) \<longleftrightarrow> pg_pin_count (page_of s f) = 0"
    using inv p by (auto simp: bpm_inv_held_def ran_def)
  have d: "dm_invar d" "dm_next_page_id d = dm_next_page_id (bpm_disk s)"
    "\<And>q. 0 \<le> q \<Longrightarrow> disk_page d q = (if q = p then pg_data (page_of s f) else disk_page (bpm_disk s) q)"
    using binv_write_back(2,3,4)[OF inv p] by (simp_all add: d_def)
  have eq: "s' = upd_page f ?g s\<lparr>bpm_replacer := bpm_replacer s, bpm_disk := d\<rparr>"
    by (simp add: s'_def upd_page_def page_of_def)
  show "binv {} s'" "0 \<le> q \<Longrightarrow> bpm_view s' q = bpm_view s q"
    unfolding eq using binv_update_cached[OF inv p, of ?g d "bpm_replacer s"] r c p d
    by (auto simp: cached_ok_def bpm_view_def insert_absorb)
  show "0 \<le> q \<Longrightarrow> disk_page (bpm_disk s') q = (if q = p then bpm_view s p else disk_page (bpm_disk s) q)"
    using d p by (simp_all add: s'_def bpm_view_def)
  have "frame_ok s f" using c inv by (auto intro: binv_frame_ok simp: cached_ok_def)
  then show "bpm_same_frames s s'" using d(2) by (simp add: bpm_same_frames_def s'_def)
qed

lemma flush_page:
  assumes inv: "binv {} s" and p: "map_of (bpm_page_table s) p = Some f"
  shows "\<exists>s'. BPM_FlushPage p s = (Inr True, s') \<and> binv {} s' \<and>
     (\<forall>q\<ge>0. bpm_view s' q = bpm_view s q) \<and> disk_page (bpm_disk s') p = bpm_view s p \<and> bpm_same_frames s s'"
proof -
  have c: "cached_ok s p f" using binv_cached[OF inv p] .
  then have "frame_ok s f" using inv by (auto intro: binv_frame_ok simp: cached_ok_def)
  then show ?thesis using flush_one[OF inv p] binv_write_back(1)[OF inv p] p c
    by (intro exI[of _ "upd_page f (\<lambda>pg. pg\<lparr>pg_is_dirty := False\<rparr>)
          (s\<lparr>bpm_disk := wrote_page (bpm_disk s) p (pg_data (page_of s f))\<rparr>)"])
       (simp add: BPM_FlushPage_def cached_ok_def)
qed

lemma flush_all_loop:
  assumes "binv {} s" "\<And>p f. (p, f) \<in> set entries \<Longrightarrow> map_of (bpm_page_table s) p = Some f"
    "\<And>p f. (p, f) \<in> set entries \<Longrightarrow> pg_is_dirty (page_of s f) \<or> disk_page (bpm_disk s) p = bpm_view s p"
  shows "\<exists>s'. BPM_FlushAll_loop entries s = (Inr (), s') \<and> binv {} s' \<and>
     (\<forall>q\<ge>0. bpm_view s' q = bpm_view s q) \<and> bpm_same_frames s s' \<and>
     (\<forall>q\<ge>0. q \<in> keys_of entries \<or> disk_page (bpm_disk s) q = bpm_view s q \<longrightarrow>
        disk_page (bpm_disk s') q = bpm_view s q)"
  using assms
proof (induction entries arbitrary: s)
  case (Cons entry entries)
  obtain p f where [simp]: "entry = (p, f)" by (cases entry)
  have p: "map_of (bpm_page_table s) p = Some f" using Cons.prems(2) by simp
  have c: "cached_ok s p f" using binv_cached[OF Cons.prems(1) p] .
  then have ok: "frame_ok s f" "0 \<le> p"
    using Cons.prems(1) by (auto intro: binv_frame_ok simp: cached_ok_def)
  show ?case
  proof (cases "pg_is_dirty (page_of s f)")
    case True
    let ?s = "upd_page f (\<lambda>pg. pg\<lparr>pg_is_dirty := False\<rparr>)
          (s\<lparr>bpm_disk := wrote_page (bpm_disk s) p (pg_data (page_of s f))\<rparr>)"
    note one = flush_one[OF Cons.prems(1) p]
    have "pg_is_dirty (page_of ?s g) \<or> disk_page (bpm_disk ?s) q = bpm_view ?s q"
      if "(q, g) \<in> set entries" for q g
    proof -
      have q: "map_of (bpm_page_table s) q = Some g" using Cons.prems(2) that by simp
      then have "0 \<le> q" "0 \<le> g" using binv_cached[OF Cons.prems(1) q] by (auto simp: cached_ok_def)
      then show ?thesis
        using one(2,3)[of q] Cons.prems(3)[of q g] that binv_inj[OF Cons.prems(1) p, of q] q ok by auto
    qed
    moreover have "bpm_page_table ?s = bpm_page_table s" by simp
    ultimately obtain s' where
      s': "BPM_FlushAll_loop entries ?s = (Inr (), s')" "binv {} s'"
        "\<forall>q\<ge>0. bpm_view s' q = bpm_view ?s q" "bpm_same_frames ?s s'"
        "\<forall>q\<ge>0. q \<in> keys_of entries \<or> disk_page (bpm_disk ?s) q = bpm_view ?s q \<longrightarrow>
          disk_page (bpm_disk s') q = bpm_view ?s q"
      using Cons.IH[OF one(1)] Cons.prems(2) by auto
    have "bpm_same_frames s s'" using bpm_same_frames_trans[OF one(4) s'(4)] .
    moreover
    have "BPM_FlushAll_loop (entry # entries) s = (Inr (), s')"
      using True ok s'(1) binv_write_back(1)[OF Cons.prems(1) p] by simp
    ultimately show ?thesis using s' one(2,3) by (intro exI[of _ s']) auto
  next
    case False
    with Cons.IH[OF Cons.prems(1)] Cons.prems(2,3) ok show ?thesis by fastforce
  qed
qed simp

lemma flush_all:
  assumes inv: "binv {} s" and quiet: "\<And>p f. map_of (bpm_page_table s) p = Some f \<Longrightarrow>
      pg_is_dirty (page_of s f) \<or> pg_data (page_of s f) = disk_page (bpm_disk s) p"
  shows "\<exists>s'. BPM_FlushAllPages s = (Inr (), s') \<and> binv {} s' \<and>
     (\<forall>q\<ge>0. bpm_view s' q = bpm_view s q \<and> disk_page (bpm_disk s') q = bpm_view s q) \<and>
     bpm_same_frames s s'"
proof -
  have dk: "distinct_keys (bpm_page_table s)" using inv by (simp add: bpm_inv_held_def)
  have "map_of (bpm_page_table s) p = Some f" if "(p, f) \<in> set (bpm_page_table s)" for p f
    using map_of_in_set[OF dk] that by blast
  moreover from this have "pg_is_dirty (page_of s f) \<or> disk_page (bpm_disk s) p = bpm_view s p"
    if "(p, f) \<in> set (bpm_page_table s)" for p f
    using quiet[of p f] that by (auto simp: bpm_view_def)
  ultimately obtain s' where s': "BPM_FlushAll_loop (bpm_page_table s) s = (Inr (), s')" "binv {} s'"
    "\<forall>q\<ge>0. bpm_view s' q = bpm_view s q"
    "\<forall>q\<ge>0. q \<in> keys_of (bpm_page_table s) \<or> disk_page (bpm_disk s) q = bpm_view s q \<longrightarrow>
        disk_page (bpm_disk s') q = bpm_view s q" "bpm_same_frames s s'"
    using flush_all_loop[OF inv, of "bpm_page_table s"] by blast
  have "disk_page (bpm_disk s) q = bpm_view s q" if "q \<notin> keys_of (bpm_page_table s)" for q
    using that by (simp add: bpm_view_def flip: map_of_eq_None_keys)
  with s'(4) have "disk_page (bpm_disk s') q = bpm_view s q" if "0 \<le> q" for q
    using that by (cases "q \<in> keys_of (bpm_page_table s)") simp_all
  with s' show ?thesis by (intro exI[of _ s']) (simp add: BPM_FlushAllPages_def)
qed

lemma delete_page:
  assumes inv: "binv {} s" and p: "map_of (bpm_page_table s) p = Some f" "pg_pin_count (page_of s f) = 0"
  shows "\<exists>s'. BPM_DeletePage ops p s = (Inr True, s') \<and> binv {} s' \<and> f \<in> set (bpm_free_list s') \<and>
     bpm_disk s' = bpm_disk s \<and> map_of (bpm_page_table s') = (map_of (bpm_page_table s))(p := None) \<and>
     (\<forall>q\<ge>0. q \<noteq> p \<longrightarrow> bpm_view s' q = bpm_view s q)"
proof -
  have c: "cached_ok s p f" using binv_cached[OF inv p(1)] .
  have ok: "frame_ok s f" and f0: "0 \<le> f" using c inv by (auto intro: binv_frame_ok simp: cached_ok_def)
  have ri: "rinv (bpm_pool_size s) (bpm_replacer s)" and f: "f \<in> tracked (bpm_replacer s)"
    "insert f (evictable (bpm_replacer s)) = evictable (bpm_replacer s)"
    using inv p by (auto simp: bpm_inv_held_def ran_def)
  let ?r = "op_SetEvictable ops f True (bpm_replacer s)"
  have r: "rinv (bpm_pool_size s) ?r" "tracked ?r = tracked (bpm_replacer s)"
    "evictable ?r = evictable (bpm_replacer s)" "f \<in> evictable ?r"
    using set_evictable[OF ri f(1), of True] f(2) by auto
  from remove_evictable[OF r(1,4)] obtain r' where r': "op_Remove ops f ?r = Inr r'"
    "rinv (bpm_pool_size s) r'" "tracked r' = tracked (bpm_replacer s) - {f}"
    "evictable r' = evictable (bpm_replacer s) - {f}" unfolding r(2,3) by blast
  let ?s = "upd_page f Page_ResetMemory (s\<lparr>bpm_replacer := r',
      bpm_page_table := AList.delete p (bpm_page_table s)\<rparr>)\<lparr>bpm_free_list := bpm_free_list s @ [f]\<rparr>"
  have eq: "BPM_DeletePage ops p s = (Inr True, ?s)"
    using p ok r'(1) by (simp add: BPM_DeletePage_def upd_page_def page_of_def)
  have pg: "page_of ?s g = (if g = f then Page_init else page_of s g)" if "0 \<le> g" for g
    using ok that by simp
  have ran: "ran ((map_of (bpm_page_table s))(p := None)) = ran (map_of (bpm_page_table s)) - {f}"
    using ran_map_of_delete[OF binv_inj[OF inv p(1)]] .
  have other: "g \<noteq> f \<and> cached_ok s q g \<and> 0 \<le> g" if "map_of (bpm_page_table s) q = Some g" "q \<noteq> p" for q g
    using binv_inj[OF inv p(1), of q] binv_cached[OF inv that(1)] that by (auto simp: cached_ok_def)
  have "cached_ok ?s q g" if "map_of (bpm_page_table ?s) q = Some g" for q g
    using other[of q g] pg[of g] that by (auto simp: cached_ok_def split: if_splits)
  moreover have fr: "f \<in> ran (map_of (bpm_page_table s))" using p by (auto simp: ran_def)
  have "page_of ?s g = Page_init" if "g \<in> set (bpm_free_list ?s)" for g
    using that inv pg f0 by (auto simp: bpm_inv_held_def)
  moreover have "page_of ?s g = page_of s g" if "g \<in> ran (map_of (bpm_page_table s)) - {f}" for g
    using that binv_cached[OF inv] pg by (auto simp: ran_def cached_ok_def)
  then have "evictable r' = {g \<in> ran (map_of (bpm_page_table s)) - {f}. pg_pin_count (page_of ?s g) = 0}"
    using inv unfolding r'(4) bpm_inv_held_def by auto
  moreover have "f \<notin> set (bpm_free_list s)" "insert f (set (bpm_free_list s)) =
      {0..<int (bpm_pool_size s)} - (ran (map_of (bpm_page_table s)) - {f})"
    using inv fr f0 c by (auto simp: bpm_inv_held_def cached_ok_def)
  ultimately have "binv {} ?s"
    using inv r'(2,3) unfolding bpm_inv_held_def by (simp add: ran)
  with eq other pg show ?thesis
    by (intro exI[of _ ?s]) (auto simp: bpm_view_def split: option.split)
qed

lemma bpm_init:
  assumes "rinv n r" "tracked r = {}" "dm_invar d"
  shows "binv {} (BufferPoolManager n d r)" and "bpm_view (BufferPoolManager n d r) q = disk_page d q"
proof -
  have "evictable r = {}" using evictable_tracked[OF assms(1)] assms(2) by simp
  moreover have "int ` {0..<n} = {0..<int n}" by (auto simp: image_int_atLeastLessThan)
  ultimately show "binv {} (BufferPoolManager n d r)"
    using assms by (auto simp: bpm_inv_held_def BufferPoolManager_def page_of_def distinct_map inj_on_def)
qed (simp add: bpm_view_def BufferPoolManager_def)

end

end
