(* ===== verification/Buffer_Pool_Client.thy ===== *)
theory Buffer_Pool_Client
  imports Buffer_Pool
begin

text \<open>
  The buffer pool as its callers use it. Every caller in the program fetches or creates a page,
  reads or overwrites its bytes while it is pinned, and unpins it, dirty if it was written. A
  session of such calls is a list of commands; the specification is a plain array of pages. The
  refinement theorem says that the pool and the array give the same answers whatever the number of
  frames, the policy and the evictions, and that no call ever fails for want of a frame.
\<close>

section \<open>Sessions and the page array they are compared with\<close>

datatype pool_cmd =
    CmdRead page_id_t
  | CmdWrite page_id_t "byte list"
  | CmdNew
  | CmdFlush page_id_t
  | CmdFlushAll

datatype pool_out = OutBytes "byte list" | OutPage page_id_t | OutFlag bool | OutDone

abbreviation no_frame :: "'a result" where
  "no_frame \<equiv> Inl (RuntimeError ''nullptr'')"

definition pool_unpin :: "'r replacer_ops \<Rightarrow> page_id_t \<Rightarrow> bool \<Rightarrow> pool_out \<Rightarrow> 'r buffer_pool \<Rightarrow>
    pool_out result \<times> 'r buffer_pool" where
  "pool_unpin ops p dirty out s =
     (case BPM_UnpinPage ops p dirty s of (Inl e, s) \<Rightarrow> (Inl e, s) | (Inr _, s) \<Rightarrow> (Inr out, s))"

fun pool_exec :: "'r replacer_ops \<Rightarrow> pool_cmd \<Rightarrow> 'r buffer_pool \<Rightarrow> pool_out result \<times> 'r buffer_pool" where
  "pool_exec ops (CmdRead p) s =
     (case BPM_FetchPage ops p s of
        (Inl e, s) \<Rightarrow> (Inl e, s)
      | (Inr None, s) \<Rightarrow> (no_frame, s)
      | (Inr (Some f), s) \<Rightarrow> pool_unpin ops p False (OutBytes (pg_data (page_of s f))) s)"
| "pool_exec ops (CmdWrite p bytes) s =
     (case BPM_FetchPage ops p s of
        (Inl e, s) \<Rightarrow> (Inl e, s)
      | (Inr None, s) \<Rightarrow> (no_frame, s)
      | (Inr (Some f), s) \<Rightarrow> pool_unpin ops p True OutDone (Page_write f bytes s))"
| "pool_exec ops CmdNew s =
     (case BPM_NewPage ops s of
        (Inl e, s) \<Rightarrow> (Inl e, s)
      | (Inr None, s) \<Rightarrow> (no_frame, s)
      | (Inr (Some (p, f)), s) \<Rightarrow> pool_unpin ops p False (OutPage p) s)"
| "pool_exec ops (CmdFlush p) s =
     (case BPM_FlushPage p s of (Inl e, s) \<Rightarrow> (Inl e, s) | (Inr _, s) \<Rightarrow> (Inr OutDone, s))"
| "pool_exec ops CmdFlushAll s =
     (case BPM_FlushAllPages s of (Inl e, s) \<Rightarrow> (Inl e, s) | (Inr _, s) \<Rightarrow> (Inr OutDone, s))"

fun pool_run :: "'r replacer_ops \<Rightarrow> pool_cmd list \<Rightarrow> 'r buffer_pool \<Rightarrow>
    pool_out list result \<times> 'r buffer_pool" where
  "pool_run ops [] s = (Inr [], s)"
| "pool_run ops (cmd # cmds) s =
     (case pool_exec ops cmd s of
        (Inl e, s) \<Rightarrow> (Inl e, s)
      | (Inr out, s) \<Rightarrow>
          (case pool_run ops cmds s of
             (Inl e, s) \<Rightarrow> (Inl e, s)
           | (Inr outs, s) \<Rightarrow> (Inr (out # outs), s)))"

type_synonym page_array = "(page_id_t \<Rightarrow> byte list) \<times> page_id_t"

fun array_exec :: "pool_cmd \<Rightarrow> page_array \<Rightarrow> pool_out \<times> page_array" where
  "array_exec (CmdRead p) (a, n) = (OutBytes (a p), a, n)"
| "array_exec (CmdWrite p bytes) (a, n) = (OutDone, a(p := bytes), n)"
| "array_exec CmdNew (a, n) = (OutPage n, a(n := zero_page), n + 1)"
| "array_exec (CmdFlush p) (a, n) = (OutDone, a, n)"
| "array_exec CmdFlushAll (a, n) = (OutDone, a, n)"

fun array_run :: "pool_cmd list \<Rightarrow> page_array \<Rightarrow> pool_out list \<times> page_array" where
  "array_run [] st = ([], st)"
| "array_run (cmd # cmds) st =
     (let (out, st) = array_exec cmd st; (outs, st) = array_run cmds st in (out # outs, st))"

text \<open>A caller touches allocated pages only and writes whole pages.\<close>

fun cmd_ok :: "page_id_t \<Rightarrow> pool_cmd \<Rightarrow> bool" where
  "cmd_ok n (CmdRead p) \<longleftrightarrow> 0 \<le> p \<and> p < n"
| "cmd_ok n (CmdWrite p bytes) \<longleftrightarrow> 0 \<le> p \<and> p < n \<and> length bytes = PAGE_SIZE"
| "cmd_ok n _ \<longleftrightarrow> True"

fun cmds_ok :: "pool_cmd list \<Rightarrow> page_array \<Rightarrow> bool" where
  "cmds_ok [] st \<longleftrightarrow> True"
| "cmds_ok (cmd # cmds) st \<longleftrightarrow> cmd_ok (snd st) cmd \<and> cmds_ok cmds (snd (array_exec cmd st))"

definition pool_idle :: "'r buffer_pool \<Rightarrow> bool" where
  "pool_idle s \<longleftrightarrow> 0 < bpm_pool_size s \<and>
     (\<forall>p f. map_of (bpm_page_table s) p = Some f \<longrightarrow> pg_pin_count (page_of s f) = 0)"

text \<open>The pages an opened file holds, and the pool that starts on it.\<close>

definition file_array :: "byte list \<Rightarrow> page_array" where
  "file_array file = (disk_page (DiskManager_open file), dm_next_page_id (DiskManager_open file))"

definition idle_but :: "page_id_t \<Rightarrow> 'r buffer_pool \<Rightarrow> bool" where
  "idle_but p s \<longleftrightarrow> 0 < bpm_pool_size s \<and>
     (\<forall>q f. q \<noteq> p \<longrightarrow> map_of (bpm_page_table s) q = Some f \<longrightarrow> pg_pin_count (page_of s f) = 0)"

definition pool_matches :: "'r buffer_pool \<Rightarrow> page_array \<Rightarrow> bool" where
  "pool_matches s st \<longleftrightarrow> (\<forall>q\<ge>0. bpm_view s q = fst st q) \<and> dm_next_page_id (bpm_disk s) = snd st"

section \<open>Refinement\<close>

context replacer
begin

lemma idle_has_frame:
  assumes "binv {} s" "pool_idle s" "bpm_free_list s = []"
  shows "evictable (bpm_replacer s) \<noteq> {}"
proof -
  have "0 \<in> {0..<int (bpm_pool_size s)}" using assms(2) by (simp add: pool_idle_def)
  then have "0 \<in> ran (map_of (bpm_page_table s))"
    using assms(1,3) by (auto simp: bpm_inv_held_def)
  moreover from this have "pg_pin_count (page_of s 0) = 0"
    using assms(2) by (auto simp: pool_idle_def ran_def)
  ultimately show ?thesis using assms(1) unfolding bpm_inv_held_def by blast
qed

lemma exec_fetch:
  assumes inv: "binv {} s" and idle: "pool_idle s" and alloc: "0 \<le> p" "p < dm_next_page_id (bpm_disk s)"
  obtains f s' where "BPM_FetchPage ops p s = (Inr (Some f), s')" "binv {} s'" "bpm_keeps p s s'"
      "map_of (bpm_page_table s') p = Some f" "pg_data (page_of s' f) = bpm_view s p"
      "pg_pin_count (page_of s' f) = 1"
      "pg_is_dirty (page_of s' f) \<or> pg_data (page_of s' f) = disk_page (bpm_disk s') p"
      "dm_next_page_id (bpm_disk s') = dm_next_page_id (bpm_disk s)"
proof (rule fetch_page[OF inv alloc], goal_cases)
  case 1
  with idle_has_frame[OF inv idle] show ?thesis by simp
next
  case (2 f s')
  have "pg_pin_count (page_of s' f) = 1"
    using 2(6,7) idle by (simp add: pool_idle_def split: option.splits)
  with 2 show ?thesis by (intro that[of f s']) simp_all
qed

lemma exec_unpin:
  assumes inv: "binv {} s" and idle: "idle_but p s" and p: "map_of (bpm_page_table s) p = Some f"
    and pin: "pg_pin_count (page_of s f) = 1"
    and clean: "dirty \<or> pg_is_dirty (page_of s f) \<or> pg_data (page_of s f) = disk_page (bpm_disk s) p"
  obtains s' where "pool_unpin ops p dirty out s = (Inr out, s')" "binv {} s'" "pool_idle s'"
    "\<And>q. 0 \<le> q \<Longrightarrow> bpm_view s' q = bpm_view s q" "bpm_disk s' = bpm_disk s"
proof -
  from bpm_unpin[OF inv p, of dirty] pin clean obtain s' where
    s': "BPM_UnpinPage ops p dirty s = (Inr True, s')" "binv {} s'" "\<forall>q\<ge>0. bpm_view s' q = bpm_view s q"
      "bpm_page_table s' = bpm_page_table s" "bpm_disk s' = bpm_disk s" "pg_pin_count (page_of s' f) = 0"
      "\<forall>g\<ge>0. g \<noteq> f \<longrightarrow> page_of s' g = page_of s g" "bpm_pool_size s' = bpm_pool_size s"
    by auto
  have "pg_pin_count (page_of s' g) = 0" if q: "map_of (bpm_page_table s) q = Some g" for q g
  proof (cases "q = p")
    case True
    with q p s'(6) show ?thesis by simp
  next
    case False
    then have "g \<noteq> f" "0 \<le> g"
      using binv_inj[OF inv p, of q] binv_cached[OF inv q] q by (auto simp: cached_ok_def)
    then show ?thesis using s'(7) idle q False by (simp add: idle_but_def)
  qed
  then have "pool_idle s'" using idle s'(4,8) by (simp add: pool_idle_def idle_but_def)
  with s' show ?thesis by (intro that[of s']) (simp_all add: pool_unpin_def)
qed

lemma idle_but_keeps:
  assumes "pool_idle s" "bpm_keeps p s s'"
  shows "idle_but p s'"
proof -
  have "pg_pin_count (page_of s' f) = 0" if "q \<noteq> p" "map_of (bpm_page_table s') q = Some f" for q f
  proof -
    have "map_of (bpm_page_table s) q = Some f \<and> page_of s' f = page_of s f"
      using assms(2) that unfolding bpm_keeps_def by blast
    with assms(1) show ?thesis unfolding pool_idle_def by metis
  qed
  with assms show ?thesis by (simp add: idle_but_def pool_idle_def bpm_keeps_def)
qed

lemma idle_same_frames:
  assumes "binv {} s" "pool_idle s" "bpm_same_frames s s'"
  shows "pool_idle s'"
proof -
  have "0 \<le> f" if "map_of (bpm_page_table s) p = Some f" for p f
    using binv_cached[OF assms(1) that] by (simp add: cached_ok_def)
  with assms(2,3) show ?thesis by (simp add: pool_idle_def bpm_same_frames_def)
qed

definition refines_step :: "pool_cmd \<Rightarrow> 'r buffer_pool \<Rightarrow> page_array \<Rightarrow> bool" where
  "refines_step cmd s st \<longleftrightarrow> (\<exists>s'. pool_exec ops cmd s = (Inr (fst (array_exec cmd st)), s') \<and>
     binv {} s' \<and> pool_idle s' \<and> pool_matches s' (snd (array_exec cmd st)))"

lemma refines_read:
  assumes inv: "binv {} s" and idle: "pool_idle s" and st: "pool_matches s (a, n)"
    and p: "cmd_ok n (CmdRead p)"
  shows "refines_step (CmdRead p) s (a, n)"
proof -
  have p': "0 \<le> p" "p < dm_next_page_id (bpm_disk s)" using p st by (simp_all add: pool_matches_def)
  from exec_fetch[OF inv idle p'] obtain f s1 where s1: "BPM_FetchPage ops p s = (Inr (Some f), s1)"
      "binv {} s1" "bpm_keeps p s s1" "map_of (bpm_page_table s1) p = Some f"
      "pg_data (page_of s1 f) = bpm_view s p" "pg_pin_count (page_of s1 f) = 1"
      "pg_is_dirty (page_of s1 f) \<or> pg_data (page_of s1 f) = disk_page (bpm_disk s1) p"
      "dm_next_page_id (bpm_disk s1) = dm_next_page_id (bpm_disk s)" by metis
  have clean: "False \<or> pg_is_dirty (page_of s1 f) \<or> pg_data (page_of s1 f) = disk_page (bpm_disk s1) p"
    using s1(7) by simp
  from exec_unpin[OF s1(2) idle_but_keeps[OF idle s1(3)] s1(4,6) clean, of "OutBytes (bpm_view s p)"]
  obtain s2 where s2: "pool_unpin ops p False (OutBytes (bpm_view s p)) s1 = (Inr (OutBytes (bpm_view s p)), s2)"
      "binv {} s2" "pool_idle s2" "\<And>q. 0 \<le> q \<Longrightarrow> bpm_view s2 q = bpm_view s1 q" "bpm_disk s2 = bpm_disk s1"
    by metis
  show ?thesis
    using s1 s2 st p' by (simp add: refines_step_def pool_matches_def bpm_keeps_def)
qed

lemma refines_write:
  assumes inv: "binv {} s" and idle: "pool_idle s" and st: "pool_matches s (a, n)"
    and p: "cmd_ok n (CmdWrite p bytes)"
  shows "refines_step (CmdWrite p bytes) s (a, n)"
proof -
  have p': "0 \<le> p" "p < dm_next_page_id (bpm_disk s)" and len: "length bytes = PAGE_SIZE"
    using p st by (simp_all add: pool_matches_def)
  from exec_fetch[OF inv idle p'] obtain f s1 where s1: "BPM_FetchPage ops p s = (Inr (Some f), s1)"
      "binv {} s1" "bpm_keeps p s s1" "map_of (bpm_page_table s1) p = Some f"
      "pg_pin_count (page_of s1 f) = 1"
      "dm_next_page_id (bpm_disk s1) = dm_next_page_id (bpm_disk s)" by metis
  let ?s = "Page_write f bytes s1"
  have "0 < pg_pin_count (page_of s1 f)" using s1(5) by simp
  note w = write_pinned[OF s1(2,4) this len]
  have f: "frame_ok s1 f" "0 \<le> f"
    using binv_cached[OF s1(2,4)] by (auto intro: binv_frame_ok[OF s1(2)] simp: cached_ok_def)
  have pos: "0 \<le> g" if "map_of (bpm_page_table s1) q = Some g" for q g
    using binv_cached[OF s1(2) that] by (simp add: cached_ok_def)
  have pg: "pg_pin_count (page_of ?s g) = pg_pin_count (page_of s1 g)" if "0 \<le> g" for g
    using f that by (simp add: Page_write_def)
  then have "idle_but p ?s"
    using idle_but_keeps[OF idle s1(3)] pos by (simp add: idle_but_def Page_write_def)
  moreover have "map_of (bpm_page_table ?s) p = Some f" "pg_pin_count (page_of ?s f) = 1"
    using s1(4,5) pg[OF f(2)] by (simp_all add: Page_write_def)
  ultimately obtain s2 where s2: "pool_unpin ops p True OutDone ?s = (Inr OutDone, s2)"
      "binv {} s2" "pool_idle s2" "\<And>q. 0 \<le> q \<Longrightarrow> bpm_view s2 q = bpm_view ?s q" "bpm_disk s2 = bpm_disk ?s"
    using exec_unpin[OF w(1), of p f True OutDone] by metis
  have "dm_next_page_id (bpm_disk ?s) = n" using s1(6) st by (simp add: Page_write_def pool_matches_def)
  then show ?thesis
    using s1(1,3) s2 st w(2) by (simp add: refines_step_def pool_matches_def bpm_keeps_def)
qed

lemma refines_new:
  assumes inv: "binv {} s" and idle: "pool_idle s" and st: "pool_matches s (a, n)"
  shows "refines_step CmdNew s (a, n)"
proof (rule new_page[OF inv], goal_cases)
  case 1
  with idle_has_frame[OF inv idle] show ?case by simp
next
  case (2 f s1)
  have n: "dm_next_page_id (bpm_disk s) = n" using st by (simp add: pool_matches_def)
  note s1 = 2[unfolded n]
  have v: "bpm_view s1 q = bpm_view s q" if "0 \<le> q" for q using s1(3) that by (simp add: bpm_keeps_def)
  have n0: "0 \<le> n" and di: "dm_invar (bpm_disk s1)"
    using binv_cached[OF s1(2,5)] s1(2) by (auto simp: cached_ok_def bpm_inv_held_def)
  have z: "bpm_view s n = zero_page" using v[OF n0] s1(5,6) by (simp add: bpm_view_def)
  have "False \<or> pg_is_dirty (page_of s1 f) \<or> pg_data (page_of s1 f) = disk_page (bpm_disk s1) n"
    using s1(6,9) by simp
  from exec_unpin[OF s1(2) idle_but_keeps[OF idle s1(3)] s1(5,7) this, of "OutPage n"]
  obtain s2 where s2: "pool_unpin ops n False (OutPage n) s1 = (Inr (OutPage n), s2)" "binv {} s2"
      "pool_idle s2" "\<And>q. 0 \<le> q \<Longrightarrow> bpm_view s2 q = bpm_view s1 q" "bpm_disk s2 = bpm_disk s1" by metis
  show ?case using s1 s2 st v z n0 by (auto simp: refines_step_def pool_matches_def)
qed

lemma refines_flush:
  assumes inv: "binv {} s" and idle: "pool_idle s" and st: "pool_matches s (a, n)"
  shows "refines_step (CmdFlush p) s (a, n)"
proof (cases "map_of (bpm_page_table s) p")
  case None
  then show ?thesis using assms by (simp add: refines_step_def BPM_FlushPage_def)
next
  case (Some f)
  from flush_page[OF inv Some] obtain s' where s': "BPM_FlushPage p s = (Inr True, s')" "binv {} s'"
    "\<forall>q\<ge>0. bpm_view s' q = bpm_view s q" "bpm_same_frames s s'" by blast
  then show ?thesis using st idle_same_frames[OF inv idle s'(4)]
    by (simp add: refines_step_def pool_matches_def bpm_same_frames_def)
qed

lemma refines_flush_all:
  assumes inv: "binv {} s" and idle: "pool_idle s" and st: "pool_matches s (a, n)"
  shows "refines_step CmdFlushAll s (a, n)"
proof -
  have "pg_is_dirty (page_of s f) \<or> pg_data (page_of s f) = disk_page (bpm_disk s) p"
    if "map_of (bpm_page_table s) p = Some f" for p f
    using binv_cached[OF inv that] idle that by (simp add: cached_ok_def pool_idle_def)
  from flush_all[OF inv this] obtain s' where s': "BPM_FlushAllPages s = (Inr (), s')" "binv {} s'"
    "\<forall>q\<ge>0. bpm_view s' q = bpm_view s q" "bpm_same_frames s s'" by blast
  then show ?thesis using st idle_same_frames[OF inv idle s'(4)]
    by (simp add: refines_step_def pool_matches_def bpm_same_frames_def)
qed

lemma refines_exec:
  assumes "binv {} s" "pool_idle s" "pool_matches s st" "cmd_ok (snd st) cmd"
  shows "refines_step cmd s st"
  using assms refines_read refines_write refines_new refines_flush refines_flush_all
  by (cases st; cases cmd) simp_all

lemma refines_run:
  assumes "binv {} s" "pool_idle s" "pool_matches s st" "cmds_ok cmds st"
  shows "\<exists>s'. pool_run ops cmds s = (Inr (fst (array_run cmds st)), s') \<and>
     binv {} s' \<and> pool_idle s' \<and> pool_matches s' (snd (array_run cmds st))"
  using assms
proof (induction cmds arbitrary: s st)
  case (Cons cmd cmds)
  from refines_exec[of s st cmd] Cons.prems obtain s1 where
    s1: "pool_exec ops cmd s = (Inr (fst (array_exec cmd st)), s1)" "binv {} s1" "pool_idle s1"
      "pool_matches s1 (snd (array_exec cmd st))"
    by (auto simp: refines_step_def)
  from Cons.IH[OF s1(2-4)] Cons.prems(4) s1(1) show ?case
    by (auto simp: Let_def split: prod.split)
qed simp

lemma refines_session:
  assumes "rinv n r" "tracked r = {}" "0 < n" "cmds_ok cmds (file_array file)"
  shows "\<exists>s' s''. pool_run ops cmds (BufferPoolManager n (DiskManager_open file) r)
       = (Inr (fst (array_run cmds (file_array file))), s') \<and>
     BPM_FlushAllPages s' = (Inr (), s'') \<and>
     (\<forall>q\<ge>0. disk_page (bpm_disk s'') q = fst (snd (array_run cmds (file_array file))) q)"
proof -
  let ?s = "BufferPoolManager n (DiskManager_open file) r"
  have init: "binv {} ?s" using bpm_init(1)[OF assms(1,2) dm_invar_open] .
  have "pool_idle ?s" using assms(3) by (simp add: pool_idle_def BufferPoolManager_def)
  moreover have "pool_matches ?s (file_array file)"
    using bpm_init(2)[OF assms(1,2) dm_invar_open]
    by (simp add: pool_matches_def file_array_def) (simp add: BufferPoolManager_def)
  ultimately obtain s' where s': "pool_run ops cmds ?s = (Inr (fst (array_run cmds (file_array file))), s')"
      "binv {} s'" "pool_idle s'" "pool_matches s' (snd (array_run cmds (file_array file)))"
    using refines_run[OF init] assms(4) by blast
  have "pg_is_dirty (page_of s' f) \<or> pg_data (page_of s' f) = disk_page (bpm_disk s') p"
    if "map_of (bpm_page_table s') p = Some f" for p f
    using binv_cached[OF s'(2) that] s'(3) that by (simp add: cached_ok_def pool_idle_def)
  from flush_all[OF s'(2) this] obtain s'' where "BPM_FlushAllPages s' = (Inr (), s'')"
    "\<forall>q\<ge>0. disk_page (bpm_disk s'') q = bpm_view s' q" by blast
  with s'(1,4) show ?thesis by (simp add: pool_matches_def)
qed

end

section \<open>Properties\<close>

text \<open>
  C11. A buffer pool with the LRU-K policy and at least one frame, opened on any file, is
  transparent: for every session of reads, whole-page writes, allocations and flushes on allocated
  pages, no call fails or runs out of frames, every answer is the one a plain array of pages would
  give, and the \<open>FlushAllPages\<close> of the destructor leaves on disk exactly that array.
\<close>

theorem lruk_pool_refines_array:
  assumes "0 < n" "LRUKReplacer n k = Inr r" "cmds_ok cmds (file_array file)"
  shows "\<exists>s' s''. pool_run lruk_ops cmds (BufferPoolManager n (DiskManager_open file) r)
       = (Inr (fst (array_run cmds (file_array file))), s') \<and>
     BPM_FlushAllPages s' = (Inr (), s'') \<and>
     (\<forall>q\<ge>0. disk_page (bpm_disk s'') q = fst (snd (array_run cmds (file_array file))) q)"
proof -
  have "lruk_inv n r" "lruk_tracked r = {}" using lruk_inv_init[OF assms(2)] by simp_all
  then show ?thesis using lruk.refines_session[OF _ _ assms(1,3)] by blast
qed

theorem lruk_pool_refines_array_witness:
  "\<exists>s' s''. pool_run lruk_ops [CmdNew, CmdNew, CmdWrite 0 (replicate PAGE_SIZE 7), CmdRead 1, CmdRead 0]
       (BufferPoolManager 1 (DiskManager_open [])
         \<lparr>lruk_num_frames = 1, lruk_k = 2, lruk_current_timestamp = 0, lruk_evictable_count = 0, lruk_frames = []\<rparr>)
       = (Inr [OutPage 0, OutPage 1, OutDone, OutBytes zero_page, OutBytes (replicate PAGE_SIZE 7)], s') \<and>
     BPM_FlushAllPages s' = (Inr (), s'') \<and>
     (\<forall>q\<ge>0. disk_page (bpm_disk s'') q = (if q = 0 then replicate PAGE_SIZE 7 else zero_page))"
proof -
  let ?cmds = "[CmdNew, CmdNew, CmdWrite 0 (replicate PAGE_SIZE 7), CmdRead 1, CmdRead 0]"
  have arr: "file_array [] = (\<lambda>_. zero_page, 0)"
    by (simp add: file_array_def DiskManager_open_def PAGE_SIZE_def disk_page_past_end fun_eq_iff)
  have "LRUKReplacer 1 2 = Inr \<lparr>lruk_num_frames = 1, lruk_k = 2, lruk_current_timestamp = 0,
      lruk_evictable_count = 0, lruk_frames = []\<rparr>" by (simp add: LRUKReplacer_def)
  from lruk_pool_refines_array[OF _ this, of ?cmds "[]"] show ?thesis
    unfolding arr by (simp add: fun_upd_def)
qed

text \<open>
  C22. The eviction policy and the number of frames cannot be observed: a session gives the same
  answers on a pool with plain LRU and on a pool with LRU-K, whatever their sizes.
\<close>

theorem pool_policy_transparent:
  assumes "0 < n" "0 < m" "LRUKReplacer n k = Inr r" "cmds_ok cmds (file_array file)"
  shows "fst (pool_run lru_ops cmds (BufferPoolManager m (DiskManager_open file) (LRUReplacer m)))
       = fst (pool_run lruk_ops cmds (BufferPoolManager n (DiskManager_open file) r))"
proof -
  have "lruk_inv n r" "lruk_tracked r = {}" using lruk_inv_init[OF assms(3)] by simp_all
  from lruk.refines_session[OF this assms(1,4)] lru.refines_session[OF lru_inv_init _ assms(2,4)]
  show ?thesis by auto
qed

theorem pool_policy_transparent_witness:
  "fst (pool_run lru_ops [CmdNew, CmdNew, CmdRead 0]
      (BufferPoolManager 1 (DiskManager_open []) (LRUReplacer 1))) =
   fst (pool_run lruk_ops [CmdNew, CmdNew, CmdRead 0] (BufferPoolManager 2 (DiskManager_open [])
         \<lparr>lruk_num_frames = 2, lruk_k = 3, lruk_current_timestamp = 0, lruk_evictable_count = 0, lruk_frames = []\<rparr>))"
  by (rule pool_policy_transparent[where k = 3])
     (simp_all add: LRUKReplacer_def file_array_def DiskManager_open_def PAGE_SIZE_def)

text \<open>
  C25. With any number of pages pinned by callers, fetching an allocated page gives \<open>nullptr\<close> exactly
  when the page is not cached, no frame is free and none is evictable, and then nothing but the
  miss counter changes. Otherwise the frame returned is pinned and holds the page's current
  content, no page of the array changes, and every pinned page stays in its frame.
\<close>

theorem FetchPage_correct:
  assumes "bpm_inv lruk_inv lruk_tracked lruk_evictable s" "0 \<le> p" "p < dm_next_page_id (bpm_disk s)"
  shows "if map_of (bpm_page_table s) p = None \<and> bpm_free_list s = [] \<and> lruk_evictable (bpm_replacer s) = {}
     then BPM_FetchPage lruk_ops p s = (Inr None, s\<lparr>bpm_num_misses := bpm_num_misses s + 1\<rparr>)
     else \<exists>f s'. BPM_FetchPage lruk_ops p s = (Inr (Some f), s') \<and>
        bpm_inv lruk_inv lruk_tracked lruk_evictable s' \<and> bpm_keeps p s s' \<and>
        pg_data (page_of s' f) = bpm_view s p \<and> 0 < pg_pin_count (page_of s' f)"
  (is "if ?full then ?none else ?some")
proof (cases ?full)
  case True
  then show ?thesis using lruk.fetch_full[OF assms(1)[unfolded bpm_inv_def]] by simp
next
  case False
  have ?some
  proof (rule lruk.fetch_page[OF assms[unfolded bpm_inv_def]], goal_cases)
    case (2 f s')
    then show ?case using lruk.fetched_pinned[OF assms(1)[unfolded bpm_inv_def]]
      by (intro exI[of _ f] exI[of _ s']) (simp add: bpm_inv_def)
  qed (use False in simp)
  with False show ?thesis by (simp only: if_False)
qed

theorem FetchPage_correct_witness:
  "\<exists>f s'. BPM_FetchPage lruk_ops 0 (BufferPoolManager 1 (DiskManager_open (replicate PAGE_SIZE 5))
         \<lparr>lruk_num_frames = 1, lruk_k = 2, lruk_current_timestamp = 0, lruk_evictable_count = 0, lruk_frames = []\<rparr>)
       = (Inr (Some f), s') \<and> 0 < pg_pin_count (page_of s' f)"
proof -
  let ?d = "DiskManager_open (replicate PAGE_SIZE 5)"
  let ?r = "\<lparr>lruk_num_frames = 1, lruk_k = 2, lruk_current_timestamp = 0, lruk_evictable_count = 0, lruk_frames = []\<rparr>"
  have "LRUKReplacer 1 2 = Inr ?r" by (simp add: LRUKReplacer_def)
  from lruk_inv_init[OF this] have "bpm_inv lruk_inv lruk_tracked lruk_evictable (BufferPoolManager 1 ?d ?r)"
    unfolding bpm_inv_def by (intro lruk.bpm_init dm_invar_open) simp_all
  from FetchPage_correct[OF this, of 0] show ?thesis
    by (auto simp: BufferPoolManager_def DiskManager_open_def PAGE_SIZE_def)
qed

text \<open>
  C32. A fetch of a page id the disk manager refuses (\<open>INVALID_PAGE_ID\<close>, or any negative id) throws
  after its frame has been taken from the free list, and nothing gives the frame back: after as
  many such fetches as the pool has frames, \<open>NewPage\<close> returns \<open>nullptr\<close> although no page is cached
  and nothing is pinned.
\<close>

theorem FetchPage_invalid_id_leaks_frames:
  assumes "p < 0" "LRUKReplacer n k = Inr r"
  shows "let s = ((\<lambda>s. snd (BPM_FetchPage lruk_ops p s)) ^^ n) (BufferPoolManager n d r)
     in bpm_page_table s = [] \<and> BPM_NewPage lruk_ops s = (Inr None, s)"
proof -
  let ?s0 = "BufferPoolManager n d r"
  let ?fetch = "\<lambda>s. snd (BPM_FetchPage lruk_ops p s)"
  have step: "?fetch s = s\<lparr>bpm_num_misses := bpm_num_misses s + 1, bpm_free_list := rest\<rparr>"
    if "bpm_page_table s = []" "bpm_free_list s = f # rest" "frame_ok s f" for s :: "lruk_replacer buffer_pool" and f rest
    using that assms(1) by (simp add: BPM_FetchPage_def BPM_AcquireFrame_def ReadPage_negative)
  have "(?fetch ^^ i) ?s0 = ?s0\<lparr>bpm_num_misses := i, bpm_free_list := map int [i..<n]\<rparr>" if "i \<le> n" for i
    using that
  proof (induction i)
    case 0
    then show ?case by (simp add: BufferPoolManager_def)
  next
    case (Suc i)
    then show ?case
      by (simp add: step[of _ "int i" "map int [Suc i..<n]"] upt_conv_Cons BufferPoolManager_def frame_ok_def)
  qed
  from this[of n] assms(2) show ?thesis
    by (auto simp: BufferPoolManager_def BPM_NewPage_def BPM_AcquireFrame_def lruk_ops_def LRUK_Evict_def
        LRUKReplacer_def split: if_splits)
qed

theorem FetchPage_invalid_id_leaks_frames_witness:
  "let s = ((\<lambda>s. snd (BPM_FetchPage lruk_ops (- 1) s)) ^^ 2) (BufferPoolManager 2 (DiskManager_open [])
       \<lparr>lruk_num_frames = 2, lruk_k = 2, lruk_current_timestamp = 0, lruk_evictable_count = 0, lruk_frames = []\<rparr>)
   in bpm_page_table s = [] \<and> BPM_NewPage lruk_ops s = (Inr None, s)"
  by (rule FetchPage_invalid_id_leaks_frames[where k = 2]) (simp_all add: LRUKReplacer_def)

end
