(* ===== verification/MVCC_Store.thy ===== *)
theory MVCC_Store
  imports Base
begin

text \<open>
  \<^verbatim>\<open>src/src/mvcc/mvcc_store.{h,cpp}\<close>: multi-version concurrency control over an in-memory table.

  Each public method is one atomic step of the store. That is what the latches give for \<open>Read\<close>,
  \<open>Write\<close>, \<open>Delete\<close> and \<open>Abort\<close> on one chain; \<open>Begin\<close> is also given as the two steps it really
  consists of (taking the time stamp, registering the transaction). A node of the \<open>std::list\<close> of
  versions keeps its identity, and the iterator in a \<open>WriteRecord\<close> is the handle of its node.
  Chains are never removed from the table, so the chain pointer of a \<open>WriteRecord\<close> is its key.
\<close>

section \<open>State\<close>

datatype IsolationLevel = READ_UNCOMMITTED | READ_COMMITTED | SNAPSHOT | SERIALIZABLE_SNAPSHOT

record version =
  v_node :: nat
  v_txn_id :: int
  v_seq :: int
  v_commit_ts :: int
  v_committed :: bool
  v_deleted :: bool
  v_value :: string

record write_record =
  wr_key :: KeyType
  wr_node :: nat

record transaction =
  t_isolation :: IsolationLevel
  t_start_ts :: int
  t_write_records :: "write_record list"
  t_write_set :: "KeyType list"
  t_read_set :: "KeyType list"

record mvcc_store =
  mv_global_ts :: int
  mv_next_txn_id :: int
  mv_next_node :: nat
  mv_table :: "(KeyType \<times> version list) list"
  mv_shards :: "(int \<times> transaction) list list"

definition kTxnShardCount :: nat where
  "kTxnShardCount = 16"

definition MVCCStore :: mvcc_store where
  "MVCCStore = \<lparr>mv_global_ts = 0, mv_next_txn_id = 0, mv_next_node = 0, mv_table = [],
     mv_shards = replicate kTxnShardCount []\<rparr>"

text \<open>The cast to \<open>uint64_t\<close> adds a multiple of \<open>2 ^ 64\<close>, which 16 divides.\<close>

definition ShardFor :: "int \<Rightarrow> nat" where
  "ShardFor txn_id = nat (txn_id mod int kTxnShardCount)"

definition txn_find :: "int \<Rightarrow> mvcc_store \<Rightarrow> transaction option" where
  "txn_find txn_id s = map_of (mv_shards s ! ShardFor txn_id) txn_id"

definition txn_set :: "int \<Rightarrow> transaction \<Rightarrow> mvcc_store \<Rightarrow> mvcc_store" where
  "txn_set txn_id txn s = s\<lparr>mv_shards := (mv_shards s)[ShardFor txn_id :=
     AList.update txn_id txn (mv_shards s ! ShardFor txn_id)]\<rparr>"

definition txn_erase :: "int \<Rightarrow> mvcc_store \<Rightarrow> mvcc_store" where
  "txn_erase txn_id s = s\<lparr>mv_shards := (mv_shards s)[ShardFor txn_id :=
     AList.delete txn_id (mv_shards s ! ShardFor txn_id)]\<rparr>"

definition chain_of :: "mvcc_store \<Rightarrow> KeyType \<Rightarrow> version list" where
  "chain_of s key = (case map_of (mv_table s) key of None \<Rightarrow> [] | Some vs \<Rightarrow> vs)"

definition set_chain :: "KeyType \<Rightarrow> version list \<Rightarrow> mvcc_store \<Rightarrow> mvcc_store" where
  "set_chain key vs s = s\<lparr>mv_table := AList.update key vs (mv_table s)\<rparr>"

section \<open>Operations\<close>

definition MVCC_Begin_stamp :: "mvcc_store \<Rightarrow> (int \<times> int) \<times> mvcc_store" where
  "MVCC_Begin_stamp s = ((mv_next_txn_id s, mv_global_ts s),
     s\<lparr>mv_next_txn_id := mv_next_txn_id s + 1, mv_global_ts := mv_global_ts s + 1\<rparr>)"

definition MVCC_Begin_register :: "IsolationLevel \<Rightarrow> int \<Rightarrow> int \<Rightarrow> mvcc_store \<Rightarrow> mvcc_store" where
  "MVCC_Begin_register level txn_id start_ts s =
     txn_set txn_id \<lparr>t_isolation = level, t_start_ts = start_ts, t_write_records = [],
       t_write_set = [], t_read_set = []\<rparr> s"

definition MVCC_Begin :: "IsolationLevel \<Rightarrow> mvcc_store \<Rightarrow> int \<times> mvcc_store" where
  "MVCC_Begin level s =
     (let ((txn_id, start_ts), s) = MVCC_Begin_stamp s
      in (txn_id, MVCC_Begin_register level txn_id start_ts s))"

definition MVCC_GetTransaction :: "int \<Rightarrow> mvcc_store \<Rightarrow> transaction result" where
  "MVCC_GetTransaction txn_id s =
     (case txn_find txn_id s of None \<Rightarrow> Inl (OutOfRange ''unordered_map::at'') | Some txn \<Rightarrow> Inr txn)"

text \<open>\<open>None\<close> is \<open>nullptr\<close>; otherwise the chain's key, and the table with the chain in it.\<close>

definition MVCC_GetOrCreateChain :: "KeyType \<Rightarrow> bool \<Rightarrow> mvcc_store \<Rightarrow> KeyType option \<times> mvcc_store" where
  "MVCC_GetOrCreateChain key create s =
     (case map_of (mv_table s) key of
        Some _ \<Rightarrow> (Some key, s)
      | None \<Rightarrow> if \<not> create then (None, s) else (Some key, set_chain key [] s))"

definition IsVisible :: "version \<Rightarrow> IsolationLevel \<Rightarrow> int \<Rightarrow> bool" where
  "IsVisible v isolation start_ts =
     (case isolation of
        READ_COMMITTED \<Rightarrow> True
      | SNAPSHOT \<Rightarrow> v_commit_ts v \<le> start_ts
      | SERIALIZABLE_SNAPSHOT \<Rightarrow> v_commit_ts v \<le> start_ts
      | READ_UNCOMMITTED \<Rightarrow> True)"

fun best_version :: "(version \<Rightarrow> int) \<Rightarrow> version option \<Rightarrow> version list \<Rightarrow> version option" where
  "best_version rank best [] = best"
| "best_version rank best (v # vs) =
     best_version rank
       (case best of None \<Rightarrow> Some v | Some b \<Rightarrow> if rank v > rank b then Some v else Some b) vs"

definition is_pending :: "int \<Rightarrow> version \<Rightarrow> bool" where
  "is_pending txn_id v \<longleftrightarrow> v_txn_id v = txn_id \<and> \<not> v_committed v"

text \<open>What a version that was picked gives to the caller: nothing if it is a deletion.\<close>

definition version_value :: "version option \<Rightarrow> string option" where
  "version_value best = (case best of None \<Rightarrow> None | Some v \<Rightarrow> if v_deleted v then None else Some (v_value v))"

definition read_chain :: "int \<Rightarrow> transaction \<Rightarrow> version list \<Rightarrow> string option" where
  "read_chain txn_id txn vs =
     (case List.find (is_pending txn_id) vs of
        Some v \<Rightarrow> version_value (Some v)
      | None \<Rightarrow>
          if t_isolation txn = READ_UNCOMMITTED then version_value (best_version v_seq None vs)
          else version_value (best_version v_commit_ts None
                 (filter (\<lambda>v. v_committed v \<and> IsVisible v (t_isolation txn) (t_start_ts txn)) vs)))"

definition MVCC_Read :: "int \<Rightarrow> KeyType \<Rightarrow> mvcc_store \<Rightarrow> string option result \<times> mvcc_store" where
  "MVCC_Read txn_id key s =
     (case MVCC_GetTransaction txn_id s of
        Inl e \<Rightarrow> (Inl e, s)
      | Inr txn \<Rightarrow>
          let s = txn_set txn_id (txn\<lparr>t_read_set := List.insert key (t_read_set txn)\<rparr>) s in
          (case MVCC_GetOrCreateChain key False s of
             (None, s) \<Rightarrow> (Inr None, s)
           | (Some chain, s) \<Rightarrow> (Inr (read_chain txn_id txn (chain_of s chain)), s)))"

fun rewrite_pending :: "int \<Rightarrow> (version \<Rightarrow> version) \<Rightarrow> version list \<Rightarrow> version list option" where
  "rewrite_pending txn_id f [] = None"
| "rewrite_pending txn_id f (v # vs) =
     (if is_pending txn_id v then Some (f v # vs)
      else map_option (\<lambda>vs'. v # vs') (rewrite_pending txn_id f vs))"

definition MVCC_WriteInternal ::
    "transaction \<Rightarrow> int \<Rightarrow> KeyType \<Rightarrow> bool \<Rightarrow> string \<Rightarrow> mvcc_store \<Rightarrow> mvcc_store" where
  "MVCC_WriteInternal txn txn_id key deleted value s =
     (let (_, s) = MVCC_GetOrCreateChain key True s;
          stored = (if deleted then [] else value);
          seq = mv_global_ts s
      in case rewrite_pending txn_id
             (\<lambda>v. v\<lparr>v_deleted := deleted, v_value := stored, v_seq := seq\<rparr>) (chain_of s key) of
           Some vs \<Rightarrow> (set_chain key vs s)\<lparr>mv_global_ts := seq + 1\<rparr>
         | None \<Rightarrow>
             let v = \<lparr>v_node = mv_next_node s, v_txn_id = txn_id, v_seq = seq, v_commit_ts = - 1,
                      v_committed = False, v_deleted = deleted, v_value = stored\<rparr>;
                 s = (set_chain key (chain_of s key @ [v]) s)\<lparr>mv_global_ts := seq + 1,
                        mv_next_node := mv_next_node s + 1\<rparr>
             in txn_set txn_id (txn\<lparr>t_write_records := t_write_records txn @ [\<lparr>wr_key = key, wr_node = v_node v\<rparr>],
                                   t_write_set := List.insert key (t_write_set txn)\<rparr>) s)"

definition MVCC_Write :: "int \<Rightarrow> KeyType \<Rightarrow> string \<Rightarrow> mvcc_store \<Rightarrow> unit result \<times> mvcc_store" where
  "MVCC_Write txn_id key value s =
     (case MVCC_GetTransaction txn_id s of
        Inl e \<Rightarrow> (Inl e, s)
      | Inr txn \<Rightarrow> (Inr (), MVCC_WriteInternal txn txn_id key False value s))"

definition MVCC_Delete :: "int \<Rightarrow> KeyType \<Rightarrow> mvcc_store \<Rightarrow> bool result \<times> mvcc_store" where
  "MVCC_Delete txn_id key s =
     (case MVCC_Read txn_id key s of
        (Inl e, s) \<Rightarrow> (Inl e, s)
      | (Inr existed, s) \<Rightarrow>
          (case MVCC_GetTransaction txn_id s of
             Inl e \<Rightarrow> (Inl e, s)
           | Inr txn \<Rightarrow> (Inr (existed \<noteq> None), MVCC_WriteInternal txn txn_id key True [] s)))"

definition erase_node :: "nat \<Rightarrow> version list \<Rightarrow> version list" where
  "erase_node node vs = filter (\<lambda>v. v_node v \<noteq> node) vs"

fun MVCC_AbortInternal :: "write_record list \<Rightarrow> mvcc_store \<Rightarrow> mvcc_store" where
  "MVCC_AbortInternal [] s = s"
| "MVCC_AbortInternal (wr # wrs) s =
     MVCC_AbortInternal wrs (set_chain (wr_key wr) (erase_node (wr_node wr) (chain_of s (wr_key wr))) s)"

definition MVCC_Abort :: "int \<Rightarrow> mvcc_store \<Rightarrow> mvcc_store" where
  "MVCC_Abort txn_id s =
     (case txn_find txn_id s of
        None \<Rightarrow> s
      | Some txn \<Rightarrow> MVCC_AbortInternal (t_write_records txn) (txn_erase txn_id s))"

definition check_keys :: "transaction \<Rightarrow> KeyType list" where
  "check_keys txn = remdups (sort (t_write_set txn @
     (if t_isolation txn = SERIALIZABLE_SNAPSHOT then t_read_set txn else [])))"

definition conflicts_with :: "int \<Rightarrow> int \<Rightarrow> version \<Rightarrow> bool" where
  "conflicts_with txn_id start_ts v \<longleftrightarrow> v_committed v \<and> v_txn_id v \<noteq> txn_id \<and> v_commit_ts v > start_ts"

fun commit_records :: "int \<Rightarrow> write_record list \<Rightarrow> mvcc_store \<Rightarrow> mvcc_store" where
  "commit_records commit_ts [] s = s"
| "commit_records commit_ts (wr # wrs) s =
     commit_records commit_ts wrs
       (set_chain (wr_key wr)
          (map (\<lambda>v. if v_node v = wr_node wr then v\<lparr>v_committed := True, v_commit_ts := commit_ts\<rparr> else v)
             (chain_of s (wr_key wr))) s)"

definition MVCC_Commit :: "int \<Rightarrow> mvcc_store \<Rightarrow> bool result \<times> mvcc_store" where
  "MVCC_Commit txn_id s =
     (case MVCC_GetTransaction txn_id s of
        Inl e \<Rightarrow> (Inl e, s)
      | Inr txn \<Rightarrow>
          let chains = filter (\<lambda>k. map_of (mv_table s) k \<noteq> None) (check_keys txn);
              conflict = list_ex (\<lambda>k. list_ex (conflicts_with txn_id (t_start_ts txn)) (chain_of s k)) chains
          in if conflict
             then (Inr False, txn_erase txn_id (MVCC_AbortInternal (t_write_records txn) s))
             else
               let commit_ts = mv_global_ts s;
                   s = s\<lparr>mv_global_ts := mv_global_ts s + 1\<rparr>
               in (Inr True, txn_erase txn_id (commit_records commit_ts (t_write_records txn) s)))"

definition MVCC_GetVersionCount :: "KeyType \<Rightarrow> mvcc_store \<Rightarrow> nat" where
  "MVCC_GetVersionCount key s =
     (case map_of (mv_table s) key of None \<Rightarrow> 0 | Some vs \<Rightarrow> length vs)"

text \<open>The loop over the committed versions of one chain, oldest first: the nodes that are reclaimed.\<close>

fun gc_reclaim :: "int list \<Rightarrow> version list \<Rightarrow> nat list" where
  "gc_reclaim starts (v # w # vs) =
     (if list_ex (\<lambda>t. t \<ge> v_commit_ts v \<and> t < v_commit_ts w) starts then [] else [v_node v])
       @ gc_reclaim starts (w # vs)"
| "gc_reclaim starts _ = []"

definition gc_chain :: "int list \<Rightarrow> version list \<Rightarrow> version list \<times> nat" where
  "gc_chain starts vs =
     (if length vs \<le> 1 then (vs, 0) else
      let committed = filter v_committed vs in
      if length committed \<le> 1 then (vs, 0) else
      let dead = gc_reclaim starts (sort_key v_commit_ts committed)
      in (filter (\<lambda>v. v_node v \<notin> set dead) vs, length dead))"

definition active_starts :: "mvcc_store \<Rightarrow> int list" where
  "active_starts s = sort (map (\<lambda>(_, txn). t_start_ts txn) (concat (mv_shards s)))"

definition MVCC_RunGarbageCollection :: "mvcc_store \<Rightarrow> nat \<times> mvcc_store" where
  "MVCC_RunGarbageCollection s =
     (sum_list (map (\<lambda>(_, vs). snd (gc_chain (active_starts s) vs)) (mv_table s)),
      s\<lparr>mv_table := map (\<lambda>(k, vs). (k, fst (gc_chain (active_starts s) vs))) (mv_table s)\<rparr>)"

section \<open>Invariant\<close>

definition shard_ok :: "nat \<Rightarrow> (int \<times> transaction) list \<Rightarrow> bool" where
  "shard_ok j txns \<longleftrightarrow> distinct_keys txns \<and> keys_of txns \<subseteq> {i. ShardFor i = j}"

definition shards_ok :: "mvcc_store \<Rightarrow> bool" where
  "shards_ok s \<longleftrightarrow> length (mv_shards s) = kTxnShardCount \<and> (\<forall>j<kTxnShardCount. shard_ok j (mv_shards s ! j))"

text \<open>
  Time stamps are never reused, so a commit never carries the start stamp of an active
  transaction. A pending version belongs to an active transaction that has it in its write
  records; a committed one belongs to a transaction that is gone.
\<close>

definition version_ok :: "mvcc_store \<Rightarrow> KeyType \<Rightarrow> version \<Rightarrow> bool" where
  "version_ok s k v \<longleftrightarrow>
     v_node v < mv_next_node s \<and> v_seq v < mv_global_ts s \<and> v_txn_id v < mv_next_txn_id s \<and>
     (if v_committed v
      then 0 \<le> v_commit_ts v \<and> v_commit_ts v < mv_global_ts s \<and> v_seq v < v_commit_ts v \<and> txn_find (v_txn_id v) s = None \<and>
           (\<forall>i t. txn_find i s = Some t \<longrightarrow> t_start_ts t \<noteq> v_commit_ts v)
      else \<exists>t. txn_find (v_txn_id v) s = Some t \<and> t_start_ts t < v_seq v \<and>
           \<lparr>wr_key = k, wr_node = v_node v\<rparr> \<in> set (t_write_records t))"

definition chain_ok :: "mvcc_store \<Rightarrow> KeyType \<Rightarrow> version list \<Rightarrow> bool" where
  "chain_ok s k vs \<longleftrightarrow> distinct (map v_node vs) \<and> (\<forall>v\<in>set vs. version_ok s k v) \<and>
     (\<forall>v\<in>set vs. \<forall>w\<in>set vs. \<not> v_committed v \<longrightarrow> \<not> v_committed w \<longrightarrow> v_txn_id v = v_txn_id w \<longrightarrow> v = w) \<and>
     (\<forall>v\<in>set vs. \<forall>w\<in>set vs. v_committed v \<longrightarrow> v_committed w \<longrightarrow> v_commit_ts v = v_commit_ts w \<longrightarrow> v = w) \<and>
     (\<forall>v\<in>set vs. \<forall>w\<in>set vs. v_committed v \<longrightarrow> v_committed w \<longrightarrow> v_commit_ts v < v_commit_ts w \<longrightarrow> v_seq v < v_seq w)"

definition txn_ok :: "mvcc_store \<Rightarrow> int \<Rightarrow> transaction \<Rightarrow> bool" where
  "txn_ok s i t \<longleftrightarrow>
     0 \<le> t_start_ts t \<and> t_start_ts t < mv_global_ts s \<and> i < mv_next_txn_id s \<and>
     distinct (map wr_key (t_write_records t)) \<and> set (t_write_set t) = wr_key ` set (t_write_records t) \<and>
     (\<forall>wr\<in>set (t_write_records t).
        \<exists>v\<in>set (chain_of s (wr_key wr)). v_node v = wr_node wr \<and> is_pending i v)"

definition mv_inv :: "mvcc_store \<Rightarrow> bool" where
  "mv_inv s \<longleftrightarrow> shards_ok s \<and> 0 \<le> mv_global_ts s \<and> (\<forall>k. chain_ok s k (chain_of s k)) \<and>
     (\<forall>i t. txn_find i s = Some t \<longrightarrow> txn_ok s i t)"

section \<open>Access lemmas\<close>

lemma ShardFor_less: "ShardFor i < kTxnShardCount"
proof -
  have "0 \<le> i mod 16 \<and> i mod 16 < 16" by simp
  then show ?thesis by (simp add: ShardFor_def kTxnShardCount_def nat_less_iff)
qed

lemma chain_of_set_chain [simp]: "chain_of (set_chain k vs s) = (chain_of s)(k := vs)"
  by (auto simp: chain_of_def set_chain_def fun_eq_iff)

lemma chain_of_other [simp]:
  "chain_of (txn_set i t s) = chain_of s" "chain_of (txn_erase i s) = chain_of s"
  "chain_of (s\<lparr>mv_global_ts := n\<rparr>) = chain_of s" "chain_of (s\<lparr>mv_next_node := m\<rparr>) = chain_of s"
  "chain_of (s\<lparr>mv_next_txn_id := n\<rparr>) = chain_of s"
  by (simp_all add: chain_of_def txn_set_def txn_erase_def fun_eq_iff)

lemma set_chain_sel [simp]:
  "mv_global_ts (set_chain k vs s) = mv_global_ts s" "mv_next_txn_id (set_chain k vs s) = mv_next_txn_id s"
  "mv_next_node (set_chain k vs s) = mv_next_node s" "mv_shards (set_chain k vs s) = mv_shards s"
  by (simp_all add: set_chain_def)

lemma txn_set_sel [simp]:
  "mv_global_ts (txn_set i t s) = mv_global_ts s" "mv_next_txn_id (txn_set i t s) = mv_next_txn_id s"
  "mv_next_node (txn_set i t s) = mv_next_node s" "mv_table (txn_set i t s) = mv_table s"
  "mv_global_ts (txn_erase i s) = mv_global_ts s" "mv_next_txn_id (txn_erase i s) = mv_next_txn_id s"
  "mv_next_node (txn_erase i s) = mv_next_node s" "mv_table (txn_erase i s) = mv_table s"
  by (simp_all add: txn_set_def txn_erase_def)

lemma txn_find_other [simp]:
  "txn_find i (set_chain k vs s) = txn_find i s" "txn_find i (s\<lparr>mv_global_ts := n\<rparr>) = txn_find i s"
  "txn_find i (s\<lparr>mv_next_node := m\<rparr>) = txn_find i s" "txn_find i (s\<lparr>mv_next_txn_id := n\<rparr>) = txn_find i s"
  "txn_find i (s\<lparr>mv_table := tab\<rparr>) = txn_find i s"
  by (simp_all add: txn_find_def)

lemma txn_find_set:
  assumes "shards_ok s"
  shows "txn_find j (txn_set i t s) = (if j = i then Some t else txn_find j s)"
  using assms ShardFor_less[of i] ShardFor_less[of j]
  by (auto simp: txn_find_def txn_set_def shards_ok_def nth_list_update)

lemma txn_find_erase:
  assumes "shards_ok s"
  shows "txn_find j (txn_erase i s) = (if j = i then None else txn_find j s)"
  using assms ShardFor_less[of i] ShardFor_less[of j]
  by (auto simp: txn_find_def txn_erase_def shards_ok_def nth_list_update)

lemma shards_ok_other [simp]:
  "shards_ok (set_chain k vs s) = shards_ok s" "shards_ok (s\<lparr>mv_global_ts := n\<rparr>) = shards_ok s"
  "shards_ok (s\<lparr>mv_next_node := m\<rparr>) = shards_ok s" "shards_ok (s\<lparr>mv_next_txn_id := n\<rparr>) = shards_ok s"
  "shards_ok (s\<lparr>mv_table := tab\<rparr>) = shards_ok s"
  by (simp_all add: shards_ok_def)

lemma shard_ok_update: "shard_ok (ShardFor i) txns \<Longrightarrow> shard_ok (ShardFor i) (AList.update i t txns)"
  unfolding shard_ok_def keys_of_update by auto

lemma shard_ok_delete: "shard_ok j txns \<Longrightarrow> shard_ok j (AList.delete i txns)"
  unfolding shard_ok_def keys_of_delete by auto

lemma shards_ok_txn_set [simp]: "shards_ok s \<Longrightarrow> shards_ok (txn_set i t s)"
  using ShardFor_less[of i]
  by (simp add: shards_ok_def txn_set_def nth_list_update shard_ok_update)

lemma shards_ok_txn_erase [simp]: "shards_ok s \<Longrightarrow> shards_ok (txn_erase i s)"
  using ShardFor_less[of i]
  by (simp add: shards_ok_def txn_erase_def nth_list_update shard_ok_delete)

lemma active_starts_set:
  assumes "shards_ok s"
  shows "set (active_starts s) = {t_start_ts t | i t. txn_find i s = Some t}"
proof (intro set_eqI iffI)
  fix x assume "x \<in> set (active_starts s)"
  then obtain sh i t where sh: "sh \<in> set (mv_shards s)" "(i, t) \<in> set sh" "x = t_start_ts t"
    by (auto simp: active_starts_def)
  then obtain j where j: "j < kTxnShardCount" "(i, t) \<in> set (mv_shards s ! j)" "x = t_start_ts t"
    using assms by (metis in_set_conv_nth shards_ok_def)
  have ok: "shard_ok j (mv_shards s ! j)" using assms j(1) by (simp add: shards_ok_def)
  have "i \<in> keys_of (mv_shards s ! j)" using j(2) by force
  with ok have "ShardFor i = j" unfolding shard_ok_def by blast
  moreover have "map_of (mv_shards s ! j) i = Some t"
    using ok j(2) by (intro map_of_is_SomeI) (simp_all add: shard_ok_def)
  ultimately show "x \<in> {t_start_ts t | i t. txn_find i s = Some t}"
    using j(3) by (auto simp: txn_find_def)
next
  fix x assume "x \<in> {t_start_ts t | i t. txn_find i s = Some t}"
  then obtain i t where t: "map_of (mv_shards s ! ShardFor i) i = Some t" "x = t_start_ts t"
    by (auto simp: txn_find_def)
  moreover have "mv_shards s ! ShardFor i \<in> set (mv_shards s)"
    using assms ShardFor_less[of i] by (simp add: shards_ok_def)
  ultimately show "x \<in> set (active_starts s)"
    by (force simp: active_starts_def dest: map_of_SomeD)
qed

section \<open>Picking a version\<close>

lemma best_version_Some:
  assumes "best_version rank b vs = Some v"
  shows "(v \<in> set vs \<or> b = Some v) \<and> (\<forall>w\<in>set vs. rank w \<le> rank v) \<and> (\<forall>w. b = Some w \<longrightarrow> rank w \<le> rank v)"
  using assms
proof (induction vs arbitrary: b)
  case (Cons u vs)
  show ?case
    using Cons.IH[OF Cons.prems[simplified]] by (cases b) (auto split: if_splits)
qed simp

lemma best_version_None [simp]: "best_version rank b vs = None \<longleftrightarrow> vs = [] \<and> b = None"
  by (induction vs arbitrary: b) (auto split: option.splits)

text \<open>Among versions with different ranks the order of the chain does not matter.\<close>

lemma best_version_eqI:
  assumes "v \<in> set vs" "\<And>w. w \<in> set vs \<Longrightarrow> w \<noteq> v \<Longrightarrow> rank w < rank v"
  shows "best_version rank None vs = Some v"
proof (cases "best_version rank None vs")
  case None
  then show ?thesis using assms(1) by simp
next
  case (Some u)
  with best_version_Some[OF Some] assms show ?thesis by fastforce
qed

lemma best_version_cong:
  assumes "set vs = set ws" "inj_on rank (set vs)"
  shows "best_version rank None vs = best_version rank None ws"
proof (cases "best_version rank None vs")
  case None
  then have "vs = []" by simp
  with assms(1) have "ws = []" by simp
  with \<open>vs = []\<close> show ?thesis by simp
next
  case (Some v)
  from best_version_Some[OF Some] have v: "v \<in> set vs" "\<forall>w\<in>set vs. rank w \<le> rank v" by auto
  then have "rank w < rank v" if "w \<in> set ws" "w \<noteq> v" for w
    using that assms inj_onD[OF assms(2), of w v] by fastforce
  then have "best_version rank None ws = Some v" using v(1) assms(1) by (intro best_version_eqI) auto
  with Some show ?thesis by simp
qed

section \<open>The operations on chains and transactions\<close>

lemma mv_inv_chain: "mv_inv s \<Longrightarrow> chain_ok s k (chain_of s k)"
  by (simp add: mv_inv_def)

lemma mv_inv_version: "mv_inv s \<Longrightarrow> v \<in> set (chain_of s k) \<Longrightarrow> version_ok s k v"
  by (simp add: mv_inv_def chain_ok_def)

lemma mv_inv_txn: "mv_inv s \<Longrightarrow> txn_find i s = Some t \<Longrightarrow> txn_ok s i t"
  by (simp add: mv_inv_def)

lemma mv_inv_shards: "mv_inv s \<Longrightarrow> shards_ok s"
  by (simp add: mv_inv_def)

lemma pending_unique:
  assumes "mv_inv s" "v \<in> set (chain_of s k)" "w \<in> set (chain_of s k)" "is_pending i v" "is_pending i w"
  shows "v = w"
proof -
  have "\<forall>v\<in>set (chain_of s k). \<forall>w\<in>set (chain_of s k).
      \<not> v_committed v \<longrightarrow> \<not> v_committed w \<longrightarrow> v_txn_id v = v_txn_id w \<longrightarrow> v = w"
    using mv_inv_chain[OF assms(1), of k] unfolding chain_ok_def by blast
  with assms(2-5) show ?thesis unfolding is_pending_def by blast
qed

lemma commit_ts_inj: "mv_inv s \<Longrightarrow> inj_on v_commit_ts {v \<in> set (chain_of s k). v_committed v}"
  using mv_inv_chain[of s k] unfolding chain_ok_def inj_on_def by blast

lemma seq_order:
  "mv_inv s \<Longrightarrow> v \<in> set (chain_of s k) \<Longrightarrow> w \<in> set (chain_of s k) \<Longrightarrow> v_committed v \<Longrightarrow> v_committed w \<Longrightarrow>
     v_commit_ts v < v_commit_ts w \<Longrightarrow> v_seq v < v_seq w"
  using mv_inv_chain[of s k] unfolding chain_ok_def by blast

lemma node_inj: "mv_inv s \<Longrightarrow> inj_on v_node (set (chain_of s k))"
  using mv_inv_chain[of s k] by (simp add: chain_ok_def distinct_map)

text \<open>The records of a transaction are the pending versions it owns.\<close>

lemma record_iff_pending:
  assumes inv: "mv_inv s" and t: "txn_find i s = Some t" and v: "v \<in> set (chain_of s k)"
  shows "(\<exists>wr\<in>set (t_write_records t). wr_key wr = k \<and> wr_node wr = v_node v) \<longleftrightarrow> is_pending i v"
proof
  assume "\<exists>wr\<in>set (t_write_records t). wr_key wr = k \<and> wr_node wr = v_node v"
  then obtain w where "w \<in> set (chain_of s k)" "v_node w = v_node v" "is_pending i w"
    using mv_inv_txn[OF inv t] by (auto simp: txn_ok_def)
  then show "is_pending i v" using inj_onD[OF node_inj[OF inv], of w v k] v by simp
next
  assume p: "is_pending i v"
  then have "\<lparr>wr_key = k, wr_node = v_node v\<rparr> \<in> set (t_write_records t)"
    using mv_inv_version[OF inv v] t by (auto simp: version_ok_def is_pending_def)
  then show "\<exists>wr\<in>set (t_write_records t). wr_key wr = k \<and> wr_node wr = v_node v" by force
qed

lemma pending_owner:
  assumes "mv_inv s" "v \<in> set (chain_of s k)" "is_pending i v"
  shows "\<exists>t. txn_find i s = Some t \<and> k \<in> set (t_write_set t)"
proof -
  from assms mv_inv_version[OF assms(1,2)] obtain t where t: "txn_find i s = Some t"
    "\<lparr>wr_key = k, wr_node = v_node v\<rparr> \<in> set (t_write_records t)"
    by (auto simp: version_ok_def is_pending_def)
  with mv_inv_txn[OF assms(1) t(1)] show ?thesis by (force simp: txn_ok_def)
qed

lemma AbortInternal_chain:
  "chain_of (MVCC_AbortInternal wrs s) k =
     filter (\<lambda>v. \<not> (\<exists>wr\<in>set wrs. wr_key wr = k \<and> wr_node wr = v_node v)) (chain_of s k)"
  by (induction wrs arbitrary: s) (auto simp: erase_node_def intro!: filter_cong)

lemma AbortInternal_sel [simp]:
  "mv_global_ts (MVCC_AbortInternal wrs s) = mv_global_ts s"
  "mv_next_txn_id (MVCC_AbortInternal wrs s) = mv_next_txn_id s"
  "mv_next_node (MVCC_AbortInternal wrs s) = mv_next_node s"
  "mv_shards (MVCC_AbortInternal wrs s) = mv_shards s"
  by (induction wrs arbitrary: s) simp_all

lemma commit_records_chain:
  "chain_of (commit_records ts wrs s) k =
     map (\<lambda>v. if \<exists>wr\<in>set wrs. wr_key wr = k \<and> wr_node wr = v_node v
               then v\<lparr>v_committed := True, v_commit_ts := ts\<rparr> else v) (chain_of s k)"
  by (induction wrs arbitrary: s) auto

lemma commit_records_sel [simp]:
  "mv_global_ts (commit_records ts wrs s) = mv_global_ts s"
  "mv_next_txn_id (commit_records ts wrs s) = mv_next_txn_id s"
  "mv_next_node (commit_records ts wrs s) = mv_next_node s"
  "mv_shards (commit_records ts wrs s) = mv_shards s"
  by (induction wrs arbitrary: s) simp_all

lemma shards_only:
  "mv_shards s' = mv_shards s \<Longrightarrow> txn_find i s' = txn_find i s \<and> shards_ok s' = shards_ok s"
  by (simp add: txn_find_def shards_ok_def)

lemma read_chain_Nil [simp]: "read_chain i t [] = None"
  by (simp add: read_chain_def version_value_def)

lemma Read_eq:
  "txn_find i s = Some t \<Longrightarrow> MVCC_Read i k s =
     (Inr (read_chain i t (chain_of s k)), txn_set i (t\<lparr>t_read_set := List.insert k (t_read_set t)\<rparr>) s)"
  by (auto simp: MVCC_Read_def MVCC_GetTransaction_def MVCC_GetOrCreateChain_def chain_of_def Let_def
      split: option.split)

text \<open>A conflict: some key to check has a version committed after the transaction started.\<close>

definition has_conflict :: "int \<Rightarrow> transaction \<Rightarrow> mvcc_store \<Rightarrow> bool" where
  "has_conflict i t s \<longleftrightarrow>
     (\<exists>k\<in>set (check_keys t). \<exists>v\<in>set (chain_of s k). conflicts_with i (t_start_ts t) v)"

lemma Commit_eq:
  assumes "txn_find i s = Some t"
  shows "MVCC_Commit i s =
    (if has_conflict i t s then (Inr False, txn_erase i (MVCC_AbortInternal (t_write_records t) s))
     else (Inr True, txn_erase i (commit_records (mv_global_ts s) (t_write_records t)
            (s\<lparr>mv_global_ts := mv_global_ts s + 1\<rparr>))))"
proof -
  have ne: "map_of (mv_table s) k \<noteq> None" if "v \<in> set (chain_of s k)" for v k
    using that by (cases "map_of (mv_table s) k") (simp_all add: chain_of_def)
  have "list_ex (\<lambda>k. list_ex (conflicts_with i (t_start_ts t)) (chain_of s k))
          (filter (\<lambda>k. map_of (mv_table s) k \<noteq> None) (check_keys t)) \<longleftrightarrow> has_conflict i t s"
    unfolding has_conflict_def list_ex_iff set_filter using ne by blast
  with assms show ?thesis by (simp add: MVCC_Commit_def MVCC_GetTransaction_def Let_def)
qed

lemma check_keys_set:
  "set (check_keys t) = set (t_write_set t) \<union>
     (if t_isolation t = SERIALIZABLE_SNAPSHOT then set (t_read_set t) else {})"
  by (simp add: check_keys_def)

lemma rewrite_pending_eq:
  assumes "\<And>v w. v \<in> set vs \<Longrightarrow> w \<in> set vs \<Longrightarrow> is_pending i v \<Longrightarrow> is_pending i w \<Longrightarrow> v = w"
    and "distinct vs"
  shows "rewrite_pending i f vs = (if \<exists>v\<in>set vs. is_pending i v
      then Some (map (\<lambda>v. if is_pending i v then f v else v) vs) else None)"
  using assms
proof (induction vs)
  case (Cons u vs)
  have ih: "rewrite_pending i f vs = (if \<exists>v\<in>set vs. is_pending i v
      then Some (map (\<lambda>v. if is_pending i v then f v else v) vs) else None)"
    using Cons.prems by (intro Cons.IH) simp_all
  have "map (\<lambda>v. if is_pending i v then f v else v) vs = vs" if "is_pending i u"
    using Cons.prems that by (intro map_idI) auto
  then show ?case by (simp add: ih)
qed simp

text \<open>The store after a write, without and with an earlier pending version.\<close>

definition pending_version :: "mvcc_store \<Rightarrow> int \<Rightarrow> bool \<Rightarrow> string \<Rightarrow> version" where
  "pending_version s i deleted value = \<lparr>v_node = mv_next_node s, v_txn_id = i, v_seq = mv_global_ts s,
     v_commit_ts = - 1, v_committed = False, v_deleted = deleted, v_value = (if deleted then [] else value)\<rparr>"

lemma WriteInternal_cases:
  assumes inv: "mv_inv s" and t: "txn_find i s = Some t"
  obtains (rewritten) s' f where "MVCC_WriteInternal t i k deleted value s = s'"
      "\<exists>v\<in>set (chain_of s k). is_pending i v"
      "f = (\<lambda>v. v\<lparr>v_deleted := deleted, v_value := (if deleted then [] else value), v_seq := mv_global_ts s\<rparr>)"
      "chain_of s' = (chain_of s)(k := map (\<lambda>v. if is_pending i v then f v else v) (chain_of s k))"
      "mv_shards s' = mv_shards s" "mv_global_ts s' = mv_global_ts s + 1"
      "mv_next_txn_id s' = mv_next_txn_id s" "mv_next_node s' = mv_next_node s"
  | (appended) s' where "MVCC_WriteInternal t i k deleted value s = s'"
      "\<forall>v\<in>set (chain_of s k). \<not> is_pending i v"
      "chain_of s' = (chain_of s)(k := chain_of s k @ [pending_version s i deleted value])"
      "shards_ok s'" "\<And>j. txn_find j s' = (if j = i then Some (t\<lparr>t_write_records := t_write_records t @
          [\<lparr>wr_key = k, wr_node = mv_next_node s\<rparr>], t_write_set := List.insert k (t_write_set t)\<rparr>)
          else txn_find j s)"
      "mv_global_ts s' = mv_global_ts s + 1" "mv_next_txn_id s' = mv_next_txn_id s"
      "mv_next_node s' = mv_next_node s + 1"
proof -
  define s1 where "s1 = snd (MVCC_GetOrCreateChain k True s)"
  have s1: "chain_of s1 = chain_of s" "mv_shards s1 = mv_shards s" "mv_global_ts s1 = mv_global_ts s"
    "mv_next_txn_id s1 = mv_next_txn_id s" "mv_next_node s1 = mv_next_node s"
    by (auto simp: s1_def MVCC_GetOrCreateChain_def fun_upd_idem chain_of_def[of s k] split: option.split)
  have sh: "shards_ok s1" and fnd: "txn_find j s1 = txn_find j s" for j
    using mv_inv_shards[OF inv] shards_only[OF s1(2)] by auto
  have "distinct (chain_of s k)" using mv_inv_chain[OF inv, of k] by (auto simp: chain_ok_def distinct_map)
  note rw = rewrite_pending_eq[OF pending_unique[OF inv] this]
  show thesis
  proof (cases "\<exists>v\<in>set (chain_of s k). is_pending i v")
    case True
    then show thesis
      by (intro rewritten[of "MVCC_WriteInternal t i k deleted value s"])
         (auto simp: MVCC_WriteInternal_def Let_def case_prod_beta rw s1 simp flip: s1_def)
  next
    case False
    then have eq: "MVCC_WriteInternal t i k deleted value s =
       txn_set i (t\<lparr>t_write_records := t_write_records t @ [\<lparr>wr_key = k, wr_node = mv_next_node s\<rparr>],
           t_write_set := List.insert k (t_write_set t)\<rparr>)
         (set_chain k (chain_of s k @ [pending_version s i deleted value]) s1
           \<lparr>mv_global_ts := mv_global_ts s + 1, mv_next_node := mv_next_node s + 1\<rparr>)"
      by (simp add: MVCC_WriteInternal_def Let_def case_prod_beta rw s1 pending_version_def flip: s1_def)
    show thesis
      by (rule appended[OF eq]) (use False sh in \<open>simp_all add: s1 fnd txn_find_set\<close>)
  qed
qed

section \<open>Every operation keeps the invariant\<close>

lemma mv_invI:
  assumes "shards_ok s" "0 \<le> mv_global_ts s" "\<And>k. distinct (map v_node (chain_of s k))"
    and "\<And>k v. v \<in> set (chain_of s k) \<Longrightarrow> version_ok s k v"
    and "\<And>k v w i. v \<in> set (chain_of s k) \<Longrightarrow> w \<in> set (chain_of s k) \<Longrightarrow> is_pending i v \<Longrightarrow> is_pending i w \<Longrightarrow> v = w"
    and "\<And>k. inj_on v_commit_ts {v \<in> set (chain_of s k). v_committed v}"
    and "\<And>k v w. v \<in> set (chain_of s k) \<Longrightarrow> w \<in> set (chain_of s k) \<Longrightarrow> v_committed v \<Longrightarrow> v_committed w \<Longrightarrow>
       v_commit_ts v < v_commit_ts w \<Longrightarrow> v_seq v < v_seq w"
    and "\<And>i t. txn_find i s = Some t \<Longrightarrow> txn_ok s i t"
  shows "mv_inv s"
proof -
  have "v = w" if "v \<in> set (chain_of s k)" "w \<in> set (chain_of s k)" "\<not> v_committed v" "\<not> v_committed w"
    "v_txn_id v = v_txn_id w" for k v w
    using assms(5)[OF that(1,2), of "v_txn_id v"] that(3-5) by (simp add: is_pending_def)
  moreover have "v = w" if "v \<in> set (chain_of s k)" "w \<in> set (chain_of s k)" "v_committed v" "v_committed w"
    "v_commit_ts v = v_commit_ts w" for k v w
    using inj_onD[OF assms(6)[of k] that(5)] that(1-4) by simp
  ultimately show ?thesis using assms(1-4,7,8) unfolding mv_inv_def chain_ok_def by blast
qed

lemma mv_inv_init [inv_intros]: "mv_inv MVCCStore"
proof -
  have "ShardFor i < 16" for i using ShardFor_less[of i] by (simp add: kTxnShardCount_def)
  then show ?thesis
    by (intro mv_invI)
       (simp_all add: MVCCStore_def shards_ok_def shard_ok_def chain_of_def txn_find_def kTxnShardCount_def)
qed

text \<open>Changing a transaction's read set only.\<close>

lemma mv_inv_txn_set:
  assumes inv: "mv_inv s" and t: "txn_find i s = Some t"
    and t': "t_start_ts t' = t_start_ts t" "t_write_records t' = t_write_records t" "t_write_set t' = t_write_set t"
  shows "mv_inv (txn_set i t' s)"
proof -
  note sh = mv_inv_shards[OF inv]
  have "version_ok (txn_set i t' s) k v" if "version_ok s k v" for k v
    using that t t' by (auto simp: version_ok_def txn_find_set[OF sh] split: if_splits)
  moreover have "txn_ok (txn_set i t' s) j u" if "txn_find j (txn_set i t' s) = Some u" for j u
    using mv_inv_txn[OF inv t] mv_inv_txn[OF inv, of j] that t'
    by (auto simp: txn_find_set[OF sh] txn_ok_def split: if_splits)
  moreover have "0 \<le> mv_global_ts s" "chain_ok s k (chain_of s k)" for k
    using inv by (simp_all add: mv_inv_def)
  ultimately show ?thesis using sh by (simp add: mv_inv_def chain_ok_def)
qed

text \<open>Dropping versions: aborting and garbage collection.\<close>

lemma mv_inv_filter:
  assumes inv: "mv_inv s" and sh: "shards_ok s'"
    and ch: "\<And>k. chain_of s' k = filter (P k) (chain_of s k)"
    and cnt: "mv_global_ts s' = mv_global_ts s" "mv_next_txn_id s' = mv_next_txn_id s" "mv_next_node s' = mv_next_node s"
    and sub: "\<And>j t. txn_find j s' = Some t \<Longrightarrow> txn_find j s = Some t"
    and own: "\<And>k v. v \<in> set (chain_of s k) \<Longrightarrow> \<not> v_committed v \<Longrightarrow> P k v \<Longrightarrow>
        txn_find (v_txn_id v) s' = txn_find (v_txn_id v) s"
    and keep: "\<And>j t k v. txn_find j s' = Some t \<Longrightarrow> v \<in> set (chain_of s k) \<Longrightarrow> is_pending j v \<Longrightarrow> P k v"
  shows "mv_inv s'"
proof (rule mv_invI[OF sh])
  show "0 \<le> mv_global_ts s'" using inv cnt by (simp add: mv_inv_def)
  show "distinct (map v_node (chain_of s' k))" for k
    using mv_inv_chain[OF inv, of k] by (simp add: ch chain_ok_def distinct_map_filter)
  show "version_ok s' k v" if "v \<in> set (chain_of s' k)" for k v
  proof -
    have v: "v \<in> set (chain_of s k)" "P k v" using that by (simp_all add: ch)
    show ?thesis
    proof (cases "v_committed v")
      case True
      have "txn_find (v_txn_id v) s' = None"
        using mv_inv_version[OF inv v(1)] True sub[of "v_txn_id v"]
        by (cases "txn_find (v_txn_id v) s'") (auto simp: version_ok_def)
      then show ?thesis using mv_inv_version[OF inv v(1)] True cnt sub by (auto simp: version_ok_def)
    next
      case False
      with mv_inv_version[OF inv v(1)] own[OF v(1) False v(2)] cnt show ?thesis by (simp add: version_ok_def)
    qed
  qed
  show "v = w" if "v \<in> set (chain_of s' k)" "w \<in> set (chain_of s' k)" "is_pending i v" "is_pending i w" for k v w i
    using pending_unique[OF inv, of v k w i] that by (simp add: ch)
  show "inj_on v_commit_ts {v \<in> set (chain_of s' k). v_committed v}" for k
    by (rule inj_on_subset[OF commit_ts_inj[OF inv, of k]]) (auto simp: ch)
  show "v_seq v < v_seq w" if "v \<in> set (chain_of s' k)" "w \<in> set (chain_of s' k)" "v_committed v" "v_committed w"
    "v_commit_ts v < v_commit_ts w" for k v w
    using seq_order[OF inv, of v k w] that by (simp add: ch)
  show "txn_ok s' j t" if "txn_find j s' = Some t" for j t
    using mv_inv_txn[OF inv sub[OF that]] keep[OF that] cnt by (fastforce simp: txn_ok_def ch)
qed

lemma Begin_eq:
  assumes "shards_ok s"
  shows "fst (MVCC_Begin level s) = mv_next_txn_id s"
    and "chain_of (snd (MVCC_Begin level s)) = chain_of s"
    and "txn_find j (snd (MVCC_Begin level s)) = (if j = mv_next_txn_id s
      then Some \<lparr>t_isolation = level, t_start_ts = mv_global_ts s, t_write_records = [], t_write_set = [],
        t_read_set = []\<rparr> else txn_find j s)"
    and "shards_ok (snd (MVCC_Begin level s))"
    and "mv_global_ts (snd (MVCC_Begin level s)) = mv_global_ts s + 1"
    and "mv_next_txn_id (snd (MVCC_Begin level s)) = mv_next_txn_id s + 1"
    and "mv_next_node (snd (MVCC_Begin level s)) = mv_next_node s"
  using assms by (simp_all add: MVCC_Begin_def MVCC_Begin_stamp_def MVCC_Begin_register_def txn_find_set)

lemma mv_inv_Begin [inv_intros]:
  assumes inv: "mv_inv s"
  shows "mv_inv (snd (MVCC_Begin level s))"
proof -
  note sh = mv_inv_shards[OF inv] and eq = Begin_eq[OF mv_inv_shards[OF inv], where level = level]
  show ?thesis
  proof (rule mv_invI[OF eq(4)])
    show "0 \<le> mv_global_ts (snd (MVCC_Begin level s))" using inv by (simp add: eq mv_inv_def)
    show "version_ok (snd (MVCC_Begin level s)) k v" if "v \<in> set (chain_of (snd (MVCC_Begin level s)) k)" for k v
      using that mv_inv_version[OF inv, of v k] by (auto simp: eq version_ok_def)
    show "txn_ok (snd (MVCC_Begin level s)) j t" if "txn_find j (snd (MVCC_Begin level s)) = Some t" for j t
    proof (cases "j = mv_next_txn_id s")
      case True
      then show ?thesis using that inv by (auto simp: eq txn_ok_def mv_inv_def)
    next
      case False
      then have "txn_ok s j t" using that mv_inv_txn[OF inv] by (simp add: eq)
      then show ?thesis by (auto simp: eq txn_ok_def)
    qed
  qed (use mv_inv_chain[OF inv] pending_unique[OF inv] commit_ts_inj[OF inv] seq_order[OF inv] in \<open>simp_all add: eq chain_ok_def\<close>)
qed

lemma Read_unknown:
  "txn_find i s = None \<Longrightarrow> MVCC_Read i k s = (Inl (OutOfRange ''unordered_map::at''), s)"
  by (simp add: MVCC_Read_def MVCC_GetTransaction_def)

lemma mv_inv_Read [inv_intros]: "mv_inv s \<Longrightarrow> mv_inv (snd (MVCC_Read i k s))"
  by (cases "txn_find i s") (simp_all add: Read_unknown Read_eq mv_inv_txn_set)

text \<open>The two ways a transaction ends without effect give the same chains.\<close>

lemma abort_chain:
  assumes "mv_inv s" "txn_find i s = Some t"
  shows "chain_of (MVCC_AbortInternal (t_write_records t) s) k = filter (\<lambda>v. \<not> is_pending i v) (chain_of s k)"
  unfolding AbortInternal_chain using record_iff_pending[OF assms] by (intro filter_cong) auto

lemma mv_inv_aborted:
  assumes inv: "mv_inv s" and t: "txn_find i s = Some t" and sh: "shards_ok s'"
    and ch: "chain_of s' = chain_of (MVCC_AbortInternal (t_write_records t) s)"
    and fnd: "\<And>j. txn_find j s' = (if j = i then None else txn_find j s)"
    and cnt: "mv_global_ts s' = mv_global_ts s" "mv_next_txn_id s' = mv_next_txn_id s" "mv_next_node s' = mv_next_node s"
  shows "mv_inv s'"
  by (rule mv_inv_filter[OF inv sh, of "\<lambda>_ v. \<not> is_pending i v"])
     (use abort_chain[OF inv t] ch fnd cnt in \<open>auto simp: is_pending_def split: if_splits\<close>)

definition aborted :: "int \<Rightarrow> transaction \<Rightarrow> mvcc_store \<Rightarrow> mvcc_store \<Rightarrow> bool" where
  "aborted i t s s' \<longleftrightarrow> mv_inv s' \<and> (\<forall>k. chain_of s' k = filter (\<lambda>v. \<not> is_pending i v) (chain_of s k)) \<and>
     (\<forall>j. txn_find j s' = (if j = i then None else txn_find j s)) \<and> mv_global_ts s' = mv_global_ts s"

lemma Abort_aborted:
  assumes inv: "mv_inv s" and t: "txn_find i s = Some t"
  shows "aborted i t s (MVCC_Abort i s)"
proof -
  let ?s = "MVCC_AbortInternal (t_write_records t) (txn_erase i s)"
  have eq: "MVCC_Abort i s = ?s" using t by (simp add: MVCC_Abort_def)
  have ch: "chain_of ?s = chain_of (MVCC_AbortInternal (t_write_records t) s)"
    by (simp add: fun_eq_iff AbortInternal_chain)
  have sh: "shards_ok ?s" "\<And>j. txn_find j ?s = (if j = i then None else txn_find j s)"
    using shards_only[of ?s "txn_erase i s"] mv_inv_shards[OF inv] by (simp_all add: txn_find_erase)
  show ?thesis
    unfolding aborted_def eq using mv_inv_aborted[OF inv t sh(1) ch sh(2)] abort_chain[OF inv t] sh(2)
    by (simp add: ch)
qed

lemma Commit_aborted:
  assumes inv: "mv_inv s" and t: "txn_find i s = Some t" and "has_conflict i t s"
  shows "fst (MVCC_Commit i s) = Inr False" and "aborted i t s (snd (MVCC_Commit i s))"
proof -
  let ?s = "txn_erase i (MVCC_AbortInternal (t_write_records t) s)"
  have eq: "MVCC_Commit i s = (Inr False, ?s)" using Commit_eq[OF t] assms(3) by simp
  have sh: "shards_ok (MVCC_AbortInternal (t_write_records t) s)"
    "\<And>j. txn_find j (MVCC_AbortInternal (t_write_records t) s) = txn_find j s"
    using shards_only[of "MVCC_AbortInternal (t_write_records t) s" s] mv_inv_shards[OF inv] by simp_all
  show "fst (MVCC_Commit i s) = Inr False" by (simp add: eq)
  show "aborted i t s (snd (MVCC_Commit i s))"
    unfolding aborted_def eq using mv_inv_aborted[OF inv t, of ?s] abort_chain[OF inv t] sh
    by (simp add: txn_find_erase)
qed

abbreviation commit_version :: "int \<Rightarrow> version \<Rightarrow> version" where
  "commit_version ts v \<equiv> v\<lparr>v_committed := True, v_commit_ts := ts\<rparr>"

definition committed :: "int \<Rightarrow> transaction \<Rightarrow> mvcc_store \<Rightarrow> mvcc_store \<Rightarrow> bool" where
  "committed i t s s' \<longleftrightarrow> mv_inv s' \<and>
     (\<forall>k. chain_of s' k = map (\<lambda>v. if is_pending i v then commit_version (mv_global_ts s) v else v) (chain_of s k)) \<and>
     (\<forall>j. txn_find j s' = (if j = i then None else txn_find j s)) \<and> mv_global_ts s' = mv_global_ts s + 1"

lemma mv_inv_committed:
  assumes inv: "mv_inv s" and t: "txn_find i s = Some t" and nc: "\<not> has_conflict i t s" and sh: "shards_ok s'"
    and ch: "\<And>k. chain_of s' k =
        map (\<lambda>v. if is_pending i v then commit_version (mv_global_ts s) v else v) (chain_of s k)"
    and fnd: "\<And>j. txn_find j s' = (if j = i then None else txn_find j s)"
    and cnt: "mv_global_ts s' = mv_global_ts s + 1" "mv_next_txn_id s' = mv_next_txn_id s" "mv_next_node s' = mv_next_node s"
  shows "mv_inv s'"
proof (rule mv_invI[OF sh])
  let ?g = "\<lambda>v. if is_pending i v then commit_version (mv_global_ts s) v else v"
  have old: "v_commit_ts v < mv_global_ts s" if "v \<in> set (chain_of s k)" "v_committed v" for v k
    using mv_inv_version[OF inv that(1)] that(2) by (simp add: version_ok_def)
  have ts: "0 \<le> mv_global_ts s" using inv by (simp add: mv_inv_def)
  then show "0 \<le> mv_global_ts s'" using cnt by simp
  have "map v_node (chain_of s' k) = map v_node (chain_of s k)" for k by (simp add: ch)
  then show "distinct (map v_node (chain_of s' k))" for k
    using mv_inv_chain[OF inv, of k] by (simp add: chain_ok_def)
  show "version_ok s' k v" if "v \<in> set (chain_of s' k)" for k v
  proof -
    from that obtain u where u: "u \<in> set (chain_of s k)" "v = ?g u" by (auto simp: ch)
    note ok = mv_inv_version[OF inv u(1)]
    show ?thesis
    proof (cases "is_pending i u")
      case True
      have "t_start_ts t' < mv_global_ts s" if "txn_find j s = Some t'" for j t'
        using mv_inv_txn[OF inv that] by (simp add: txn_ok_def)
      with True ok u(2) ts cnt show ?thesis by (fastforce simp: version_ok_def fnd is_pending_def)
    next
      case False
      with ok u(2) cnt show ?thesis by (auto simp: version_ok_def fnd is_pending_def split: if_splits)
    qed
  qed
  show "v = w" if "v \<in> set (chain_of s' k)" "w \<in> set (chain_of s' k)" "is_pending j v" "is_pending j w" for k v w j
  proof -
    have "u \<in> set (chain_of s k)" if "u \<in> set (chain_of s' k)" "is_pending j u" for u
      using that by (auto simp: ch is_pending_def split: if_splits)
    then show ?thesis using pending_unique[OF inv] that by blast
  qed
  show "inj_on v_commit_ts {v \<in> set (chain_of s' k). v_committed v}" for k
  proof (rule inj_onI, clarify)
    fix v w assume vw: "v \<in> set (chain_of s' k)" "w \<in> set (chain_of s' k)" "v_committed v" "v_committed w"
      "v_commit_ts v = v_commit_ts w"
    have img: "set (chain_of s' k) = ?g ` set (chain_of s k)" by (simp add: ch)
    from vw(1,2) obtain a b where ab: "a \<in> set (chain_of s k)" "v = ?g a" "b \<in> set (chain_of s k)" "w = ?g b"
      unfolding img by blast
    show "v = w"
      using vw ab old pending_unique[OF inv ab(1,3), of i] inj_onD[OF commit_ts_inj[OF inv, of k], of a b]
      by (fastforce split: if_splits)
  qed
  show "v_seq v < v_seq w" if vw: "v \<in> set (chain_of s' k)" "w \<in> set (chain_of s' k)" "v_committed v" "v_committed w"
    "v_commit_ts v < v_commit_ts w" for k v w
  proof -
    have img: "set (chain_of s' k) = ?g ` set (chain_of s k)" by (simp add: ch)
    from vw(1,2) obtain a b where ab: "a \<in> set (chain_of s k)" "v = ?g a" "b \<in> set (chain_of s k)" "w = ?g b"
      unfolding img by blast
    have a: "\<not> is_pending i a"
    proof
      assume "is_pending i a"
      then have "mv_global_ts s < v_commit_ts w" using vw(5) ab(2) by simp
      then show False using ab(3,4) vw(4) old[of b k] by (auto split: if_splits)
    qed
    show ?thesis
    proof (cases "is_pending i b")
      case False
      then show ?thesis using seq_order[OF inv ab(1,3)] a ab vw by simp
    next
      case True
      then have "k \<in> set (check_keys t)"
        using pending_owner[OF inv ab(3) True] t by (auto simp: check_keys_set)
      then have "\<not> conflicts_with i (t_start_ts t) a" using nc ab(1) unfolding has_conflict_def by blast
      moreover have "v_committed a" using vw(3) ab(2) a by simp
      moreover from this have "v_txn_id a \<noteq> i" "v_seq a < v_commit_ts a"
        using mv_inv_version[OF inv ab(1)] t by (auto simp: version_ok_def)
      moreover have "t_start_ts t < v_seq b"
        using mv_inv_version[OF inv ab(3)] True t by (auto simp: version_ok_def is_pending_def)
      ultimately show ?thesis using a True ab(2,4) by (auto simp: conflicts_with_def)
    qed
  qed
  show "txn_ok s' j u" if "txn_find j s' = Some u" for j u
  proof -
    have j: "j \<noteq> i" "txn_find j s = Some u" using that by (auto simp: fnd split: if_splits)
    have "\<exists>v\<in>set (chain_of s' (wr_key wr)). v_node v = wr_node wr \<and> is_pending j v"
      if "wr \<in> set (t_write_records u)" for wr
    proof -
      from mv_inv_txn[OF inv j(2)] that obtain v where
        v: "v \<in> set (chain_of s (wr_key wr))" "v_node v = wr_node wr" "is_pending j v"
        by (auto simp: txn_ok_def)
      then have g: "?g v = v" using j(1) by (auto simp: is_pending_def)
      have "?g v \<in> set (chain_of s' (wr_key wr))" unfolding ch set_map using v(1) by (rule imageI)
      then show ?thesis unfolding g using v(2,3) by blast
    qed
    with mv_inv_txn[OF inv j(2)] cnt show ?thesis by (auto simp: txn_ok_def)
  qed
qed

lemma Commit_committed:
  assumes inv: "mv_inv s" and t: "txn_find i s = Some t" and "\<not> has_conflict i t s"
  shows "fst (MVCC_Commit i s) = Inr True" and "committed i t s (snd (MVCC_Commit i s))"
proof -
  let ?s1 = "commit_records (mv_global_ts s) (t_write_records t) (s\<lparr>mv_global_ts := mv_global_ts s + 1\<rparr>)"
  let ?s = "txn_erase i ?s1"
  have eq: "MVCC_Commit i s = (Inr True, ?s)" using Commit_eq[OF t] assms(3) by simp
  have sh: "shards_ok ?s1" "\<And>j. txn_find j ?s1 = txn_find j s"
    using shards_only[of ?s1 s] mv_inv_shards[OF inv] by simp_all
  have ch: "chain_of ?s k = map (\<lambda>v. if is_pending i v then commit_version (mv_global_ts s) v else v) (chain_of s k)" for k
    using record_iff_pending[OF inv t] by (simp add: commit_records_chain)
  show "fst (MVCC_Commit i s) = Inr True" by (simp add: eq)
  show "committed i t s (snd (MVCC_Commit i s))"
    unfolding committed_def eq using mv_inv_committed[OF inv t assms(3) _ ch] sh ch by (simp add: txn_find_erase)
qed

lemma mv_inv_map_pending:
  assumes inv: "mv_inv s" and sh: "shards_ok s'" "\<And>j. txn_find j s' = txn_find j s"
    and ch: "\<And>l. chain_of s' l = map (h l) (chain_of s l)"
    and h: "\<And>l v. v_node (h l v) = v_node v" "\<And>l v. v_txn_id (h l v) = v_txn_id v"
      "\<And>l v. v_committed (h l v) = v_committed v" "\<And>l v. v_commit_ts (h l v) = v_commit_ts v"
      "\<And>l v. v_seq (h l v) = v_seq v \<or> v_seq (h l v) = mv_global_ts s" "\<And>l v. v_committed v \<Longrightarrow> h l v = v"
    and cnt: "mv_global_ts s' = mv_global_ts s + 1" "mv_next_txn_id s' = mv_next_txn_id s" "mv_next_node s' = mv_next_node s"
  shows "mv_inv s'"
proof (rule mv_invI[OF sh(1)])
  have pend: "is_pending j (h l v) = is_pending j v" for j l v by (simp add: is_pending_def h)
  show "0 \<le> mv_global_ts s'" using inv cnt(1) by (simp add: mv_inv_def)
  have "map v_node (chain_of s' l) = map v_node (chain_of s l)" for l by (simp add: ch h(1))
  then show "distinct (map v_node (chain_of s' l))" for l
    using mv_inv_chain[OF inv, of l] by (simp add: chain_ok_def)
  show "version_ok s' l v" if "v \<in> set (chain_of s' l)" for l v
  proof -
    from that obtain u where u: "u \<in> set (chain_of s l)" "v = h l u" by (auto simp: ch)
    have ok: "version_ok s l u" using mv_inv_version[OF inv u(1)] .
    show ?thesis
    proof (cases "v_committed u")
      case True
      then show ?thesis using ok u(2) h(6) cnt by (simp add: version_ok_def sh)
    next
      case False
      then obtain t where t: "txn_find (v_txn_id u) s = Some t" "t_start_ts t < v_seq u"
        "\<lparr>wr_key = l, wr_node = v_node u\<rparr> \<in> set (t_write_records t)"
        using ok by (auto simp: version_ok_def)
      moreover have "t_start_ts t < mv_global_ts s" using mv_inv_txn[OF inv t(1)] by (simp add: txn_ok_def)
      ultimately show ?thesis using ok h(5)[of l u] False cnt by (auto simp: version_ok_def u(2) h(1-4) sh)
    qed
  qed
  show "v = w" if "v \<in> set (chain_of s' l)" "w \<in> set (chain_of s' l)" "is_pending j v" "is_pending j w" for l v w j
  proof -
    from that(1,2) obtain a b where ab: "a \<in> set (chain_of s l)" "b \<in> set (chain_of s l)" "v = h l a" "w = h l b"
      by (auto simp: ch)
    then show ?thesis using pending_unique[OF inv ab(1,2), of j] that(3,4) by (simp add: pend)
  qed
  show "inj_on v_commit_ts {v \<in> set (chain_of s' l). v_committed v}" for l
  proof (rule inj_on_subset[OF commit_ts_inj[OF inv, of l]], clarsimp simp: ch)
    fix u assume "u \<in> set (chain_of s l)" "v_committed (h l u)"
    then show "h l u \<in> set (chain_of s l)" by (simp add: h(3,6))
  qed
  show "v_seq v < v_seq w" if "v \<in> set (chain_of s' l)" "w \<in> set (chain_of s' l)" "v_committed v" "v_committed w"
    "v_commit_ts v < v_commit_ts w" for l v w
  proof -
    have "x \<in> set (chain_of s l)" if "x \<in> set (chain_of s' l)" "v_committed x" for x
      using that by (auto simp: ch h(3,6))
    then show ?thesis using seq_order[OF inv, of v l w] that by blast
  qed
  show "txn_ok s' j u" if "txn_find j s' = Some u" for j u
  proof -
    have u: "txn_ok s j u" using that mv_inv_txn[OF inv] by (simp add: sh)
    then show ?thesis using cnt by (auto simp: txn_ok_def ch h(1) pend)
  qed
qed

lemma mv_inv_append_pending:
  assumes inv: "mv_inv s" and t: "txn_find i s = Some t" and sh: "shards_ok s'"
    and new: "\<forall>v\<in>set (chain_of s k). \<not> is_pending i v"
    and ch: "chain_of s' = (chain_of s)(k := chain_of s k @ [pending_version s i deleted value])"
    and fnd: "\<And>j. txn_find j s' = (if j = i then Some (t\<lparr>t_write_records := t_write_records t @
          [\<lparr>wr_key = k, wr_node = mv_next_node s\<rparr>], t_write_set := List.insert k (t_write_set t)\<rparr>)
          else txn_find j s)"
    and cnt: "mv_global_ts s' = mv_global_ts s + 1" "mv_next_txn_id s' = mv_next_txn_id s" "mv_next_node s' = mv_next_node s + 1"
  shows "mv_inv s'"
proof (rule mv_invI[OF sh])
  let ?v = "pending_version s i deleted value"
  have v: "v_node ?v = mv_next_node s" "\<not> v_committed ?v" "v_txn_id ?v = i" "v_seq ?v = mv_global_ts s"
    "is_pending j ?v \<longleftrightarrow> j = i" for j
    by (auto simp: pending_version_def is_pending_def)
  note ti = mv_inv_txn[OF inv t]
  have old: "version_ok s' l u" if "u \<in> set (chain_of s l)" for l u
    using mv_inv_version[OF inv that] cnt t by (auto simp: version_ok_def fnd split: if_splits)
  have fresh: "version_ok s' k ?v"
    using ti cnt by (simp add: version_ok_def v fnd txn_ok_def)
  have k: "k \<notin> wr_key ` set (t_write_records t)"
  proof
    assume "k \<in> wr_key ` set (t_write_records t)"
    with ti obtain u where "u \<in> set (chain_of s k)" "is_pending i u" by (auto simp: txn_ok_def)
    with new show False by blast
  qed
  show "0 \<le> mv_global_ts s'" using inv cnt(1) by (simp add: mv_inv_def)
  show "distinct (map v_node (chain_of s' l))" for l
    using mv_inv_chain[OF inv, of l] by (auto simp: ch v chain_ok_def version_ok_def)
  show "version_ok s' l u" if "u \<in> set (chain_of s' l)" for l u
    using that old fresh by (auto simp: ch split: if_splits)
  show "a = b" if "a \<in> set (chain_of s' l)" "b \<in> set (chain_of s' l)" "is_pending j a" "is_pending j b" for l a b j
    using that pending_unique[OF inv, of a l b j] new v(5) by (auto simp: ch split: if_splits)
  show "inj_on v_commit_ts {u \<in> set (chain_of s' l). v_committed u}" for l
    by (rule inj_on_subset[OF commit_ts_inj[OF inv, of l]]) (auto simp: ch v split: if_splits)
  show "v_seq a < v_seq b" if "a \<in> set (chain_of s' l)" "b \<in> set (chain_of s' l)" "v_committed a" "v_committed b"
    "v_commit_ts a < v_commit_ts b" for l a b
    using that seq_order[OF inv, of a l b] v(2) by (auto simp: ch split: if_splits)
  show "txn_ok s' j u" if "txn_find j s' = Some u" for j u
  proof (cases "j = i")
    case True
    have "\<exists>x\<in>set (chain_of s' (wr_key wr)). v_node x = wr_node wr \<and> is_pending i x"
      if "wr = \<lparr>wr_key = k, wr_node = mv_next_node s\<rparr> \<or> wr \<in> set (t_write_records t)" for wr
      using that
    proof
      assume "wr = \<lparr>wr_key = k, wr_node = mv_next_node s\<rparr>"
      then show ?thesis using v(1,5) by (simp add: ch)
    next
      assume "wr \<in> set (t_write_records t)"
      then show ?thesis using ti by (auto simp: ch txn_ok_def)
    qed
    then show ?thesis using that True ti k cnt by (simp add: fnd) (auto simp: txn_ok_def)
  next
    case False
    then have "txn_ok s j u" using that mv_inv_txn[OF inv] by (simp add: fnd)
    then show ?thesis using cnt by (fastforce simp: txn_ok_def ch)
  qed
qed

lemma mv_inv_WriteInternal [inv_intros]:
  assumes inv: "mv_inv s" and t: "txn_find i s = Some t"
  shows "mv_inv (MVCC_WriteInternal t i k deleted value s)"
proof (rule WriteInternal_cases[OF inv t, of k deleted "value"], goal_cases)
  case (1 s' f)
  have sh: "shards_ok s'" "\<And>j. txn_find j s' = txn_find j s"
    using shards_only[OF 1(5)] mv_inv_shards[OF inv] by auto
  have "mv_inv s'"
    by (rule mv_inv_map_pending[OF inv sh, of "\<lambda>l v. if l = k \<and> is_pending i v then f v else v"])
       (use 1(3-8) in \<open>simp_all add: is_pending_def\<close>)
  then show ?case using 1(1) by simp
next
  case (2 s')
  from mv_inv_append_pending[OF inv t 2(4,2,3,5-8)] 2(1) show ?case by simp
qed

section \<open>Garbage collection\<close>

text \<open>A version may go if a later committed one replaces it for every active start stamp.\<close>

definition gc_dead :: "int list \<Rightarrow> version list \<Rightarrow> version \<Rightarrow> bool" where
  "gc_dead starts vs v \<longleftrightarrow> v_committed v \<and>
     (\<exists>w\<in>set vs. v_committed w \<and> v_commit_ts v < v_commit_ts w \<and>
        (\<forall>t\<in>set starts. v_commit_ts v \<le> t \<longrightarrow> v_commit_ts w \<le> t))"

lemma gc_reclaim_sound:
  assumes "sorted_wrt (\<lambda>a b. v_commit_ts a < v_commit_ts b) cs" "n \<in> set (gc_reclaim starts cs)"
  shows "\<exists>v\<in>set cs. v_node v = n \<and> (\<exists>w\<in>set cs. v_commit_ts v < v_commit_ts w \<and>
           (\<forall>t\<in>set starts. v_commit_ts v \<le> t \<longrightarrow> v_commit_ts w \<le> t))"
  using assms
proof (induction starts cs rule: gc_reclaim.induct)
  case (1 starts v w vs)
  show ?case
  proof (cases "n \<in> set (gc_reclaim starts (w # vs))")
    case True
    have "sorted_wrt (\<lambda>a b. v_commit_ts a < v_commit_ts b) (w # vs)" using 1(2) by simp
    from 1(1)[OF this True] show ?thesis by (meson list.set_intros(2))
  next
    case False
    with 1(3) have "n = v_node v" "\<forall>t\<in>set starts. \<not> (v_commit_ts v \<le> t \<and> t < v_commit_ts w)"
      by (auto simp: list_ex_iff split: if_splits)
    moreover have "v_commit_ts v < v_commit_ts w" using 1(2) by simp
    ultimately show ?thesis by (intro bexI[of _ v] conjI bexI[of _ w]) auto
  qed
qed simp_all

lemma gc_chain_filter:
  assumes nodes: "inj_on v_node (set vs)" "distinct vs" and ts: "inj_on v_commit_ts {v \<in> set vs. v_committed v}"
  shows "\<exists>P. fst (gc_chain starts vs) = filter P vs \<and> (\<forall>v\<in>set vs. \<not> P v \<longrightarrow> gc_dead starts vs v)"
proof -
  define cs where "cs = sort_key v_commit_ts (filter v_committed vs)"
  define dead where "dead = (if length vs \<le> 1 \<or> length (filter v_committed vs) \<le> 1 then [] else gc_reclaim starts cs)"
  have eq: "fst (gc_chain starts vs) = filter (\<lambda>v. v_node v \<notin> set dead) vs"
    by (simp add: gc_chain_def dead_def cs_def Let_def)
  have set_cs: "set cs = {v \<in> set vs. v_committed v}" by (simp add: cs_def)
  have "distinct (map v_commit_ts cs)"
    using ts nodes(2) by (simp add: distinct_map set_cs) (simp add: cs_def)
  then have "sorted_wrt (<) (map v_commit_ts cs)"
    by (simp add: strict_sorted_iff) (simp add: cs_def)
  then have sorted: "sorted_wrt (\<lambda>a b. v_commit_ts a < v_commit_ts b) cs" by (simp add: sorted_wrt_map)
  have "gc_dead starts vs v" if "v \<in> set vs" "v_node v \<in> set dead" for v
  proof -
    from that(2) have "v_node v \<in> set (gc_reclaim starts cs)" by (auto simp: dead_def split: if_splits)
    from gc_reclaim_sound[OF sorted this] obtain u w where
      uw: "u \<in> set cs" "v_node u = v_node v" "w \<in> set cs" "v_commit_ts u < v_commit_ts w"
        "\<forall>t\<in>set starts. v_commit_ts u \<le> t \<longrightarrow> v_commit_ts w \<le> t" by blast
    then have "u = v" using inj_onD[OF nodes(1)] that(1) by (simp add: set_cs)
    with uw show ?thesis by (auto simp: gc_dead_def set_cs)
  qed
  with eq show ?thesis by (intro exI[of _ "\<lambda>v. v_node v \<notin> set dead"]) auto
qed

lemma chain_of_GC: "chain_of (snd (MVCC_RunGarbageCollection s)) k = fst (gc_chain (active_starts s) (chain_of s k))"
  by (simp add: MVCC_RunGarbageCollection_def chain_of_def map_of_map gc_chain_def split: option.split)

lemma GC_sel [simp]:
  "mv_global_ts (snd (MVCC_RunGarbageCollection s)) = mv_global_ts s"
  "mv_next_txn_id (snd (MVCC_RunGarbageCollection s)) = mv_next_txn_id s"
  "mv_next_node (snd (MVCC_RunGarbageCollection s)) = mv_next_node s"
  "mv_shards (snd (MVCC_RunGarbageCollection s)) = mv_shards s"
  by (simp_all add: MVCC_RunGarbageCollection_def)

lemma GC_filter:
  assumes inv: "mv_inv s"
  obtains P where "\<And>k. chain_of (snd (MVCC_RunGarbageCollection s)) k = filter (P k) (chain_of s k)"
    "\<And>k v. v \<in> set (chain_of s k) \<Longrightarrow> \<not> P k v \<Longrightarrow> gc_dead (active_starts s) (chain_of s k) v"
proof -
  have "\<forall>k. \<exists>P. fst (gc_chain (active_starts s) (chain_of s k)) = filter P (chain_of s k) \<and>
      (\<forall>v\<in>set (chain_of s k). \<not> P v \<longrightarrow> gc_dead (active_starts s) (chain_of s k) v)"
    using gc_chain_filter[OF node_inj[OF inv] _ commit_ts_inj[OF inv]] mv_inv_chain[OF inv]
    by (simp add: chain_ok_def distinct_map)
  then obtain P where "\<forall>k. fst (gc_chain (active_starts s) (chain_of s k)) = filter (P k) (chain_of s k) \<and>
      (\<forall>v\<in>set (chain_of s k). \<not> P k v \<longrightarrow> gc_dead (active_starts s) (chain_of s k) v)"
    by metis
  then show thesis by (intro that[of P]) (simp_all add: chain_of_GC)
qed

lemma mv_inv_GC [inv_intros]:
  assumes inv: "mv_inv s"
  shows "mv_inv (snd (MVCC_RunGarbageCollection s))"
proof -
  from GC_filter[OF inv] obtain P where P: "\<And>k. chain_of (snd (MVCC_RunGarbageCollection s)) k = filter (P k) (chain_of s k)"
    "\<And>k v. v \<in> set (chain_of s k) \<Longrightarrow> \<not> P k v \<Longrightarrow> gc_dead (active_starts s) (chain_of s k) v" by blast
  have sh: "shards_ok (snd (MVCC_RunGarbageCollection s))"
    "\<And>j. txn_find j (snd (MVCC_RunGarbageCollection s)) = txn_find j s"
    using shards_only[of "snd (MVCC_RunGarbageCollection s)" s] mv_inv_shards[OF inv] by auto
  show ?thesis
    by (rule mv_inv_filter[OF inv sh(1) P(1)])
       (use sh(2) P(2) in \<open>auto simp: is_pending_def gc_dead_def\<close>)
qed

end
