(* ===== verification/MVCC_Isolation.thy ===== *)
theory MVCC_Isolation
  imports MVCC_Store
begin

text \<open>
  What the isolation levels of the MVCC store promise. An execution is any interleaving of the
  store's methods by any number of transactions; it carries a history of what the transactions
  read and of the order in which they committed. The specification is the serial execution of the
  committed transactions in that order. Snapshot reads, first-committer-wins, serializability of
  \<open>SERIALIZABLE_SNAPSHOT\<close> and the invisibility of garbage collection are stated against it.
\<close>

section \<open>Committed states\<close>

definition committed_at :: "mvcc_store \<Rightarrow> int \<Rightarrow> KeyType \<Rightarrow> string option" where
  "committed_at s ts k = version_value (best_version v_commit_ts None
     (filter (\<lambda>v. v_committed v \<and> v_commit_ts v \<le> ts) (chain_of s k)))"

definition latest :: "mvcc_store \<Rightarrow> KeyType \<Rightarrow> string option" where
  "latest s k = version_value (best_version v_commit_ts None (filter v_committed (chain_of s k)))"

lemma best_version_append: "best_version rank b (xs @ ys) = best_version rank (best_version rank b xs) ys"
  by (induction xs arbitrary: b) simp_all

lemma best_version_stays: "\<forall>w\<in>set vs. rank w \<le> rank v \<Longrightarrow> best_version rank (Some v) vs = Some v"
  by (induction vs) (auto simp: not_less)

lemma best_version_first:
  assumes "\<forall>w\<in>set pre. rank w < rank v" "\<forall>w\<in>set post. rank w \<le> rank v"
  shows "best_version rank None (pre @ v # post) = Some v"
proof (cases "best_version rank None pre")
  case None
  then show ?thesis using best_version_stays[OF assms(2)] by (simp add: best_version_append)
next
  case (Some u)
  then have "rank u < rank v" using best_version_Some[OF Some] assms(1) by auto
  then show ?thesis using best_version_stays[OF assms(2)] Some by (simp add: best_version_append)
qed

text \<open>Removing versions that are not the best does not change the choice.\<close>

lemma best_version_filter:
  assumes "\<And>v. v \<in> set vs \<Longrightarrow> \<not> P v \<Longrightarrow> \<exists>w\<in>set vs. rank v < rank w"
  shows "best_version rank None (filter P vs) = best_version rank None vs"
proof (cases "best_version rank None vs")
  case None
  then show ?thesis by simp
next
  case (Some u)
  then have "\<exists>v\<in>set vs. \<forall>w\<in>set vs. rank w \<le> rank v" using best_version_Some[OF Some] by auto
  then obtain pre v post where vs: "vs = pre @ v # post" and v: "\<forall>w\<in>set vs. rank w \<le> rank v"
    and pre: "\<forall>x\<in>set pre. \<not> (\<forall>w\<in>set vs. rank w \<le> rank x)"
    using split_list_first_prop[of vs "\<lambda>v. \<forall>w\<in>set vs. rank w \<le> rank v"] by blast
  have "P v"
  proof (rule ccontr)
    assume "\<not> P v"
    with assms[of v] vs v show False by fastforce
  qed
  have pre': "rank x < rank v" if "x \<in> set pre" for x
  proof -
    from pre that obtain w where "w \<in> set vs" "rank x < rank w" by (auto simp: not_le)
    with v show ?thesis by fastforce
  qed
  have "best_version rank None vs = Some v"
    unfolding vs by (rule best_version_first) (use pre' v in \<open>auto simp: vs\<close>)
  moreover have "best_version rank None (filter P vs) = Some v"
    unfolding vs using \<open>P v\<close> pre' v by (simp add: best_version_first vs)
  ultimately show ?thesis by simp
qed

lemma find_filter_all: "(\<And>v. v \<in> set vs \<Longrightarrow> Q v \<Longrightarrow> P v) \<Longrightarrow> List.find Q (filter P vs) = List.find Q vs"
  by (induction vs) auto

section \<open>Garbage collection\<close>

lemma GC_best:
  assumes inv: "mv_inv s"
    and rank: "\<And>v w. v \<in> set (chain_of s k) \<Longrightarrow> w \<in> set (chain_of s k) \<Longrightarrow> v_committed v \<Longrightarrow>
       v_committed w \<Longrightarrow> v_commit_ts v < v_commit_ts w \<Longrightarrow> rank v < rank w"
    and Q: "\<And>v w t. v_committed v \<Longrightarrow> v_committed w \<Longrightarrow> Q v \<Longrightarrow>
       (\<forall>t\<in>set (active_starts s). v_commit_ts v \<le> t \<longrightarrow> v_commit_ts w \<le> t) \<Longrightarrow> Q w"
  shows "best_version rank None (filter Q (chain_of (snd (MVCC_RunGarbageCollection s)) k)) =
     best_version rank None (filter Q (chain_of s k))"
proof -
  from GC_filter[OF inv] obtain P where P: "\<And>k. chain_of (snd (MVCC_RunGarbageCollection s)) k = filter (P k) (chain_of s k)"
    "\<And>k v. v \<in> set (chain_of s k) \<Longrightarrow> \<not> P k v \<Longrightarrow> gc_dead (active_starts s) (chain_of s k) v" by blast
  have "filter Q (filter (P k) (chain_of s k)) = filter (P k) (filter Q (chain_of s k))"
    by (simp add: conj_commute)
  moreover have "\<exists>w\<in>set (filter Q (chain_of s k)). rank v < rank w"
    if "v \<in> set (filter Q (chain_of s k))" "\<not> P k v" for v
  proof -
    have v: "v \<in> set (chain_of s k)" "Q v" using that(1) by simp_all
    from P(2)[OF v(1) that(2)] obtain w where w: "v_committed v" "w \<in> set (chain_of s k)" "v_committed w"
      "v_commit_ts v < v_commit_ts w" "\<forall>t\<in>set (active_starts s). v_commit_ts v \<le> t \<longrightarrow> v_commit_ts w \<le> t"
      by (auto simp: gc_dead_def)
    with Q[OF w(1,3) v(2) w(5)] rank[OF v(1) w(2,1,3,4)] show ?thesis by auto
  qed
  ultimately show ?thesis unfolding P(1) using best_version_filter[of "filter Q (chain_of s k)" "P k" rank] by simp
qed

lemma GC_latest: "mv_inv s \<Longrightarrow> latest (snd (MVCC_RunGarbageCollection s)) k = latest s k"
  unfolding latest_def by (subst GC_best) simp_all

lemma GC_committed_at:
  assumes "mv_inv s" "txn_find i s = Some t"
  shows "committed_at (snd (MVCC_RunGarbageCollection s)) (t_start_ts t) k = committed_at s (t_start_ts t) k"
proof -
  have "t_start_ts t \<in> set (active_starts s)"
    using assms by (auto simp: active_starts_set mv_inv_shards)
  then show ?thesis unfolding committed_at_def by (subst GC_best[OF assms(1)]) auto
qed

lemma GC_txn_find [simp]: "txn_find j (snd (MVCC_RunGarbageCollection s)) = txn_find j s"
  using shards_only[of "snd (MVCC_RunGarbageCollection s)" s] by simp

lemma read_chain_eq:
  "read_chain i t (chain_of s k) =
     (case List.find (is_pending i) (chain_of s k) of
        Some v \<Rightarrow> version_value (Some v)
      | None \<Rightarrow>
          (case t_isolation t of
             READ_UNCOMMITTED \<Rightarrow> version_value (best_version v_seq None (chain_of s k))
           | READ_COMMITTED \<Rightarrow> latest s k
           | _ \<Rightarrow> committed_at s (t_start_ts t) k))"
  by (auto simp: read_chain_def latest_def committed_at_def IsVisible_def
      split: option.split IsolationLevel.split)

lemma GC_read_chain:
  assumes inv: "mv_inv s" and t: "txn_find i s = Some t"
  shows "read_chain i t (chain_of (snd (MVCC_RunGarbageCollection s)) k) = read_chain i t (chain_of s k)"
proof -
  from GC_filter[OF inv] obtain P where P: "\<And>k. chain_of (snd (MVCC_RunGarbageCollection s)) k = filter (P k) (chain_of s k)"
    "\<And>k v. v \<in> set (chain_of s k) \<Longrightarrow> \<not> P k v \<Longrightarrow> gc_dead (active_starts s) (chain_of s k) v" by blast
  have "List.find (is_pending i) (filter (P k) (chain_of s k)) = List.find (is_pending i) (chain_of s k)"
    using P(2) by (intro find_filter_all) (auto simp: is_pending_def gc_dead_def)
  moreover have "best_version v_seq None (chain_of (snd (MVCC_RunGarbageCollection s)) k) =
      best_version v_seq None (chain_of s k)"
    using GC_best[OF inv, of k v_seq "\<lambda>_. True"] seq_order[OF inv] by simp
  ultimately show ?thesis
    unfolding read_chain_eq GC_latest[OF inv] GC_committed_at[OF inv t]
    unfolding P(1) by (simp split: option.split IsolationLevel.split)
qed

lemma GC_newer:
  assumes inv: "mv_inv s" and v: "v \<in> set (chain_of s k)" "v_committed v" "ts < v_commit_ts v"
  shows "\<exists>w\<in>set (chain_of (snd (MVCC_RunGarbageCollection s)) k). w \<in> set (chain_of s k) \<and> v_committed w \<and> ts < v_commit_ts w"
proof -
  have "filter v_committed (chain_of s k) \<noteq> []" using v by (auto simp: filter_empty_conv)
  then obtain w where w: "best_version v_commit_ts None (filter v_committed (chain_of s k)) = Some w"
    by (cases "best_version v_commit_ts None (filter v_committed (chain_of s k))") auto
  then have "best_version v_commit_ts None (filter v_committed (chain_of (snd (MVCC_RunGarbageCollection s)) k)) = Some w"
    using GC_best[OF inv, of k v_commit_ts v_committed] by simp
  from best_version_Some[OF this] best_version_Some[OF w] v show ?thesis
    by (intro bexI[of _ w]) auto
qed

lemma GC_has_conflict:
  assumes inv: "mv_inv s" and t: "txn_find i s = Some t"
  shows "has_conflict i t (snd (MVCC_RunGarbageCollection s)) = has_conflict i t s"
proof -
  let ?s = "snd (MVCC_RunGarbageCollection s)"
  have conf: "conflicts_with i ts w \<longleftrightarrow> v_committed w \<and> ts < v_commit_ts w" if "w \<in> set (chain_of s k)" for ts w k
    using mv_inv_version[OF inv that] t by (auto simp: conflicts_with_def version_ok_def)
  from GC_filter[OF inv] obtain P where P: "\<And>k. chain_of ?s k = filter (P k) (chain_of s k)"
    "\<And>k v. v \<in> set (chain_of s k) \<Longrightarrow> \<not> P k v \<Longrightarrow> gc_dead (active_starts s) (chain_of s k) v" by blast
  have "(\<exists>v\<in>set (chain_of ?s k). conflicts_with i (t_start_ts t) v) \<longleftrightarrow>
        (\<exists>v\<in>set (chain_of s k). conflicts_with i (t_start_ts t) v)" for k
  proof
    assume "\<exists>v\<in>set (chain_of ?s k). conflicts_with i (t_start_ts t) v"
    then show "\<exists>v\<in>set (chain_of s k). conflicts_with i (t_start_ts t) v" by (auto simp: P(1))
  next
    assume "\<exists>v\<in>set (chain_of s k). conflicts_with i (t_start_ts t) v"
    then obtain v where "v \<in> set (chain_of s k)" "v_committed v" "t_start_ts t < v_commit_ts v"
      by (auto simp: conflicts_with_def)
    from GC_newer[OF inv this] conf show "\<exists>v\<in>set (chain_of ?s k). conflicts_with i (t_start_ts t) v" by blast
  qed
  then show ?thesis by (simp add: has_conflict_def)
qed

section \<open>Executions with their history\<close>

record commit_entry =
  ce_isolation :: IsolationLevel
  ce_base :: nat
  ce_reads :: "(KeyType \<times> string option) list"
  ce_writes :: "(KeyType \<times> string option) list"

text \<open>
  \<open>h_base\<close> is the number of commits before a transaction began, \<open>h_reads\<close> what it has read of keys
  it had not written itself, \<open>h_log\<close> the committed transactions in commit order.
\<close>

record mv_history =
  h_store :: mvcc_store
  h_base :: "int \<Rightarrow> nat"
  h_reads :: "int \<Rightarrow> (KeyType \<times> string option) list"
  h_log :: "commit_entry list"

definition own_writes :: "int \<Rightarrow> transaction \<Rightarrow> mvcc_store \<Rightarrow> (KeyType \<times> string option) list" where
  "own_writes i t s = map (\<lambda>wr. (wr_key wr, read_chain i t (chain_of s (wr_key wr)))) (t_write_records t)"

definition note_read :: "int \<Rightarrow> transaction \<Rightarrow> KeyType \<Rightarrow> mv_history \<Rightarrow> mv_history" where
  "note_read i t k h = (if k \<in> set (t_write_set t) then h
     else h\<lparr>h_reads := (h_reads h)(i := (k, read_chain i t (chain_of (h_store h) k)) # h_reads h i)\<rparr>)"

inductive mv_run :: "mv_history \<Rightarrow> bool" where
  run_start: "mv_run \<lparr>h_store = MVCCStore, h_base = (\<lambda>_. 0), h_reads = (\<lambda>_. []), h_log = []\<rparr>"
| run_begin: "mv_run h \<Longrightarrow> MVCC_Begin level (h_store h) = (i, s') \<Longrightarrow>
    mv_run (h\<lparr>h_store := s', h_base := (h_base h)(i := length (h_log h)), h_reads := (h_reads h)(i := [])\<rparr>)"
| run_read: "mv_run h \<Longrightarrow> txn_find i (h_store h) = Some t \<Longrightarrow> MVCC_Read i k (h_store h) = (Inr r, s') \<Longrightarrow>
    mv_run ((note_read i t k h)\<lparr>h_store := s'\<rparr>)"
| run_write: "mv_run h \<Longrightarrow> MVCC_Write i k v (h_store h) = (Inr (), s') \<Longrightarrow> mv_run (h\<lparr>h_store := s'\<rparr>)"
| run_delete: "mv_run h \<Longrightarrow> txn_find i (h_store h) = Some t \<Longrightarrow> MVCC_Delete i k (h_store h) = (Inr b, s') \<Longrightarrow>
    mv_run ((note_read i t k h)\<lparr>h_store := s'\<rparr>)"
| run_commit: "mv_run h \<Longrightarrow> txn_find i (h_store h) = Some t \<Longrightarrow> MVCC_Commit i (h_store h) = (Inr True, s') \<Longrightarrow>
    mv_run (h\<lparr>h_store := s', h_log := h_log h @ [\<lparr>ce_isolation = t_isolation t, ce_base = h_base h i,
      ce_reads = h_reads h i, ce_writes = own_writes i t (h_store h)\<rparr>]\<rparr>)"
| run_refused: "mv_run h \<Longrightarrow> MVCC_Commit i (h_store h) = (Inr False, s') \<Longrightarrow> mv_run (h\<lparr>h_store := s'\<rparr>)"
| run_abort: "mv_run h \<Longrightarrow> mv_run (h\<lparr>h_store := MVCC_Abort i (h_store h)\<rparr>)"
| run_collect: "mv_run h \<Longrightarrow> mv_run (h\<lparr>h_store := snd (MVCC_RunGarbageCollection (h_store h))\<rparr>)"

text \<open>The serial execution of a list of committed transactions, from the empty table.\<close>

definition apply_writes :: "(KeyType \<times> string option) list \<Rightarrow> (KeyType \<Rightarrow> string option) \<Rightarrow> KeyType \<Rightarrow> string option" where
  "apply_writes ws m = fold (\<lambda>(k, v) m. m(k := v)) ws m"

definition serial :: "commit_entry list \<Rightarrow> KeyType \<Rightarrow> string option" where
  "serial log = fold (\<lambda>e. apply_writes (ce_writes e)) log (\<lambda>_. None)"

section \<open>What the operations do to the committed states\<close>

definition same_committed :: "mvcc_store \<Rightarrow> mvcc_store \<Rightarrow> bool" where
  "same_committed s s' \<longleftrightarrow> (\<forall>k. filter v_committed (chain_of s' k) = filter v_committed (chain_of s k))"

lemma same_committed_views:
  assumes "same_committed s s'"
  shows "latest s' k = latest s k" and "committed_at s' ts k = committed_at s ts k"
    and "(\<exists>v\<in>set (chain_of s' k). v_committed v \<and> ts < v_commit_ts v) \<longleftrightarrow>
         (\<exists>v\<in>set (chain_of s k). v_committed v \<and> ts < v_commit_ts v)"
proof -
  have eq: "filter v_committed (chain_of s' k) = filter v_committed (chain_of s k)"
    using assms by (simp add: same_committed_def)
  then show "latest s' k = latest s k" by (simp add: latest_def)
  have split: "filter (\<lambda>v. v_committed v \<and> v_commit_ts v \<le> ts) vs = filter (\<lambda>v. v_commit_ts v \<le> ts) (filter v_committed vs)" for vs
    by (simp add: conj_commute)
  show "committed_at s' ts k = committed_at s ts k" by (simp only: committed_at_def split eq)
  have "set (filter v_committed (chain_of s' k)) = set (filter v_committed (chain_of s k))" by (simp add: eq)
  then show "(\<exists>v\<in>set (chain_of s' k). v_committed v \<and> ts < v_commit_ts v) \<longleftrightarrow>
         (\<exists>v\<in>set (chain_of s k). v_committed v \<and> ts < v_commit_ts v)"
    by (simp only: set_filter) blast
qed

lemma same_committed_refl [simp]: "same_committed s s"
  by (simp add: same_committed_def)

lemma same_committed_trans: "same_committed s s1 \<Longrightarrow> same_committed s1 s2 \<Longrightarrow> same_committed s s2"
  by (simp add: same_committed_def)

lemma same_committed_aborted: "aborted i t s s' \<Longrightarrow> same_committed s s'"
  by (auto simp: same_committed_def aborted_def is_pending_def intro!: filter_cong)

lemma filter_committed_map:
  "(\<And>v. v \<in> set vs \<Longrightarrow> v_committed (g v) = v_committed v) \<Longrightarrow> (\<And>v. v \<in> set vs \<Longrightarrow> v_committed v \<Longrightarrow> g v = v) \<Longrightarrow>
     filter v_committed (map g vs) = filter v_committed vs"
  by (induction vs) auto

lemma same_committed_WriteInternal:
  assumes inv: "mv_inv s" and t: "txn_find i s = Some t"
  shows "same_committed s (MVCC_WriteInternal t i k deleted value s)"
proof (rule WriteInternal_cases[OF inv t, of k deleted "value"], goal_cases)
  case (1 s' f)
  have "filter v_committed (map (\<lambda>v. if is_pending i v then f v else v) (chain_of s k)) = filter v_committed (chain_of s k)"
    by (rule filter_committed_map) (auto simp: 1(3) is_pending_def)
  then show ?case using 1(1,4) by (simp add: same_committed_def)
next
  case (2 s')
  then show ?case by (simp add: same_committed_def pending_version_def)
qed

lemma find_pending:
  assumes "mv_inv s" "v \<in> set (chain_of s k)" "is_pending i v"
  shows "List.find (is_pending i) (chain_of s k) = Some v"
proof (cases "List.find (is_pending i) (chain_of s k)")
  case None
  then show ?thesis using assms by (auto simp: find_None_iff)
next
  case (Some w)
  then have "w \<in> set (chain_of s k)" "is_pending i w" by (auto simp: find_Some_iff)
  then show ?thesis using pending_unique[OF assms(1,2) _ assms(3)] Some by simp
qed

lemma no_pending:
  assumes "mv_inv s" "txn_find i s = Some t" "k \<notin> set (t_write_set t)" "v \<in> set (chain_of s k)"
  shows "\<not> is_pending i v"
  using pending_owner[OF assms(1,4), of i] assms(2,3) by auto

lemma committed_views:
  assumes inv: "mv_inv s" and t: "txn_find i s = Some t" and c: "committed i t s s'"
  shows "latest s' k = (if k \<in> set (t_write_set t) then read_chain i t (chain_of s k) else latest s k)"
    and "ts < mv_global_ts s \<Longrightarrow> committed_at s' ts k = committed_at s ts k"
proof -
  let ?g = "\<lambda>v. if is_pending i v then commit_version (mv_global_ts s) v else v"
  have ch: "chain_of s' k = map ?g (chain_of s k)" using c by (simp add: committed_def)
  have "filter (\<lambda>v. v_committed v \<and> v_commit_ts v \<le> ts) (map ?g vs) =
      filter (\<lambda>v. v_committed v \<and> v_commit_ts v \<le> ts) vs" if "ts < mv_global_ts s" for vs ts
    using that by (induction vs) (auto simp: is_pending_def)
  then show "ts < mv_global_ts s \<Longrightarrow> committed_at s' ts k = committed_at s ts k"
    by (simp add: committed_at_def ch)
  show "latest s' k = (if k \<in> set (t_write_set t) then read_chain i t (chain_of s k) else latest s k)"
  proof (cases "k \<in> set (t_write_set t)")
    case True
    then obtain u where u: "u \<in> set (chain_of s k)" "is_pending i u"
      using mv_inv_txn[OF inv t] by (force simp: txn_ok_def)
    have rd: "read_chain i t (chain_of s k) = version_value (Some u)"
      using find_pending[OF inv u] by (simp add: read_chain_def)
    have "best_version v_commit_ts None (filter v_committed (chain_of s' k)) = Some (?g u)"
    proof (rule best_version_eqI)
      show "?g u \<in> set (filter v_committed (chain_of s' k))" using u by (auto simp: ch)
      show "v_commit_ts w < v_commit_ts (?g u)"
        if w: "w \<in> set (filter v_committed (chain_of s' k))" "w \<noteq> ?g u" for w
      proof -
        have img: "set (chain_of s' k) = ?g ` set (chain_of s k)" by (simp add: ch)
        from w(1) have "w \<in> ?g ` set (chain_of s k)" and cw: "v_committed w" unfolding img[symmetric] by simp_all
        then obtain x where x: "x \<in> set (chain_of s k)" "w = ?g x" by blast
        then have "\<not> is_pending i x" using pending_unique[OF inv u(1) x(1) u(2)] w(2) by auto
        then show ?thesis using x cw u(2) mv_inv_version[OF inv x(1)] by (simp add: version_ok_def)
      qed
    qed
    with True rd u(2) show ?thesis by (simp add: latest_def version_value_def)
  next
    case False
    then have "\<not> is_pending i v" if "v \<in> set (chain_of s k)" for v
      using no_pending[OF inv t _ that] by simp
    then have "map ?g (chain_of s k) = chain_of s k" by (intro map_idI) simp
    with False show ?thesis by (simp add: latest_def ch)
  qed
qed

section \<open>The history invariant\<close>

definition snapshot_txn :: "IsolationLevel \<Rightarrow> bool" where
  "snapshot_txn l \<longleftrightarrow> l = SNAPSHOT \<or> l = SERIALIZABLE_SNAPSHOT"

definition active_ok :: "mv_history \<Rightarrow> int \<Rightarrow> transaction \<Rightarrow> bool" where
  "active_ok h i t \<longleftrightarrow> h_base h i \<le> length (h_log h) \<and>
     (\<forall>k. committed_at (h_store h) (t_start_ts t) k = serial (take (h_base h i) (h_log h)) k) \<and>
     (\<forall>m k. h_base h i \<le> m \<longrightarrow> m < length (h_log h) \<longrightarrow> k \<in> keys_of (ce_writes (h_log h ! m)) \<longrightarrow>
        (\<exists>v\<in>set (chain_of (h_store h) k). v_committed v \<and> t_start_ts t < v_commit_ts v)) \<and>
     (snapshot_txn (t_isolation t) \<longrightarrow> (\<forall>(k, r)\<in>set (h_reads h i).
        k \<in> set (t_read_set t) \<and> r = serial (take (h_base h i) (h_log h)) k))"

definition entry_ok :: "commit_entry list \<Rightarrow> nat \<Rightarrow> bool" where
  "entry_ok log n \<longleftrightarrow> (let e = log ! n in
     ce_base e \<le> n \<and>
     (\<forall>m. ce_base e \<le> m \<longrightarrow> m < n \<longrightarrow> keys_of (ce_writes (log ! m)) \<inter> keys_of (ce_writes e) = {}) \<and>
     (snapshot_txn (ce_isolation e) \<longrightarrow> (\<forall>(k, r)\<in>set (ce_reads e). r = serial (take (ce_base e) log) k)) \<and>
     (ce_isolation e = SERIALIZABLE_SNAPSHOT \<longrightarrow> (\<forall>(k, r)\<in>set (ce_reads e). r = serial (take n log) k)))"

definition hist_inv :: "mv_history \<Rightarrow> bool" where
  "hist_inv h \<longleftrightarrow> mv_inv (h_store h) \<and> (\<forall>k. latest (h_store h) k = serial (h_log h) k) \<and>
     (\<forall>i t. txn_find i (h_store h) = Some t \<longrightarrow> active_ok h i t) \<and>
     (\<forall>n<length (h_log h). entry_ok (h_log h) n)"

lemma active_ok_newer:
  assumes "active_ok h i t" "h_base h i \<le> m" "m < length (h_log h)" "k \<in> keys_of (ce_writes (h_log h ! m))"
  obtains v where "v \<in> set (chain_of (h_store h) k)" "v_committed v" "t_start_ts t < v_commit_ts v"
  using assms unfolding active_ok_def by blast

lemma hist_invD:
  assumes "hist_inv h"
  shows "mv_inv (h_store h)" "latest (h_store h) k = serial (h_log h) k"
    "txn_find i (h_store h) = Some t \<Longrightarrow> active_ok h i t" "n < length (h_log h) \<Longrightarrow> entry_ok (h_log h) n"
  using assms by (simp_all add: hist_inv_def)

text \<open>A step of the store that leaves the committed versions as they are.\<close>

lemma hist_inv_quiet:
  assumes h: "hist_inv h" and inv: "mv_inv s'" and same: "same_committed (h_store h) s'"
    and txn: "\<And>i t'. txn_find i s' = Some t' \<Longrightarrow> \<exists>t. txn_find i (h_store h) = Some t \<and>
       t_isolation t' = t_isolation t \<and> t_start_ts t' = t_start_ts t \<and> set (t_read_set t) \<subseteq> set (t_read_set t')"
  shows "hist_inv (h\<lparr>h_store := s'\<rparr>)"
proof -
  have "active_ok (h\<lparr>h_store := s'\<rparr>) i t'" if "txn_find i s' = Some t'" for i t'
  proof -
    from txn[OF that] obtain t where t: "txn_find i (h_store h) = Some t" "t_isolation t' = t_isolation t"
      "t_start_ts t' = t_start_ts t" "set (t_read_set t) \<subseteq> set (t_read_set t')" by blast
    from hist_invD(3)[OF h t(1)] t(2-4) show ?thesis
      by (auto simp: active_ok_def same_committed_views[OF same])
  qed
  then show ?thesis
    using hist_invD[OF h] inv same_committed_views(1)[OF same] by (simp add: hist_inv_def)
qed

lemma active_ok_note_read:
  assumes inv: "mv_inv (h_store h)" and t: "txn_find i (h_store h) = Some t"
    and ok: "active_ok h i t" and k: "k \<notin> set (t_write_set t)" and snap: "snapshot_txn (t_isolation t)"
  shows "read_chain i t (chain_of (h_store h) k) = serial (take (h_base h i) (h_log h)) k"
proof -
  have "List.find (is_pending i) (chain_of (h_store h) k) = None"
    using no_pending[OF inv t k] by (auto simp: find_None_iff)
  with snap have "read_chain i t (chain_of (h_store h) k) = committed_at (h_store h) (t_start_ts t) k"
    by (auto simp: read_chain_eq snapshot_txn_def)
  with ok show ?thesis by (simp add: active_ok_def)
qed

lemma hist_inv_note:
  assumes h: "hist_inv h" and r: "\<And>t. txn_find i (h_store h) = Some t \<Longrightarrow> snapshot_txn (t_isolation t) \<Longrightarrow>
      k \<in> set (t_read_set t) \<and> r = serial (take (h_base h i) (h_log h)) k"
  shows "hist_inv (h\<lparr>h_reads := (h_reads h)(i := (k, r) # h_reads h i)\<rparr>)"
proof -
  have "active_ok (h\<lparr>h_reads := (h_reads h)(i := (k, r) # h_reads h i)\<rparr>) j t"
    if "txn_find j (h_store h) = Some t" for j t
    using hist_invD(3)[OF h that] r[of t] that by (auto simp: active_ok_def)
  then show ?thesis using hist_invD[OF h] by (simp add: hist_inv_def)
qed

lemma hist_inv_noted_read:
  assumes h: "hist_inv h" and t: "txn_find i (h_store h) = Some t" and s': "hist_inv (h\<lparr>h_store := s'\<rparr>)"
    and t': "txn_find i s' = Some t'" "t_isolation t' = t_isolation t" "k \<in> set (t_read_set t')"
  shows "hist_inv ((note_read i t k h)\<lparr>h_store := s'\<rparr>)"
proof (cases "k \<in> set (t_write_set t)")
  case True
  then show ?thesis using s' by (simp add: note_read_def)
next
  case False
  let ?r = "read_chain i t (chain_of (h_store h) k)"
  have "?r = serial (take (h_base h i) (h_log h)) k" if "snapshot_txn (t_isolation t)"
    using active_ok_note_read[OF hist_invD(1)[OF h] t hist_invD(3)[OF h t] False that] .
  then have "hist_inv (h\<lparr>h_store := s', h_reads := (h_reads h)(i := (k, ?r) # h_reads h i)\<rparr>)"
    using hist_inv_note[OF s', of i k ?r] t' by simp
  then show ?thesis using False by (cases h) (simp add: note_read_def)
qed

lemma Read_quiet:
  fixes k :: KeyType
  assumes h: "hist_inv h" and t: "txn_find i (h_store h) = Some t"
  defines "t' \<equiv> t\<lparr>t_read_set := List.insert k (t_read_set t)\<rparr>"
  shows "hist_inv (h\<lparr>h_store := txn_set i t' (h_store h)\<rparr>)"
proof (rule hist_inv_quiet[OF h])
  note inv = hist_invD(1)[OF h]
  show "mv_inv (txn_set i t' (h_store h))" using mv_inv_txn_set[OF inv t] by (simp add: t'_def)
  show "same_committed (h_store h) (txn_set i t' (h_store h))" by (simp add: same_committed_def)
  show "\<exists>t0. txn_find j (h_store h) = Some t0 \<and> t_isolation u = t_isolation t0 \<and> t_start_ts u = t_start_ts t0 \<and>
      set (t_read_set t0) \<subseteq> set (t_read_set u)" if "txn_find j (txn_set i t' (h_store h)) = Some u" for j u
    using that t by (auto simp: txn_find_set[OF mv_inv_shards[OF inv]] t'_def split: if_splits)
qed

lemma WriteInternal_txn:
  assumes inv: "mv_inv s" and t: "txn_find i s = Some t" and s': "txn_find j (MVCC_WriteInternal t i k deleted value s) = Some u"
  shows "\<exists>t0. txn_find j s = Some t0 \<and> t_isolation u = t_isolation t0 \<and> t_start_ts u = t_start_ts t0 \<and>
      t_read_set u = t_read_set t0"
proof (rule WriteInternal_cases[OF inv t, of k deleted "value"], goal_cases)
  case (1 s1 f)
  then show ?case using s' shards_only[OF 1(5), of j] by auto
next
  case (2 s1)
  then show ?case using s' t by (auto split: if_splits)
qed

lemma WriteInternal_quiet:
  assumes h: "hist_inv h" and t: "txn_find i (h_store h) = Some t"
  shows "hist_inv (h\<lparr>h_store := MVCC_WriteInternal t i k deleted value (h_store h)\<rparr>)"
proof (rule hist_inv_quiet[OF h])
  note inv = hist_invD(1)[OF h]
  show "mv_inv (MVCC_WriteInternal t i k deleted value (h_store h))" using mv_inv_WriteInternal[OF inv t] .
  show "same_committed (h_store h) (MVCC_WriteInternal t i k deleted value (h_store h))"
    using same_committed_WriteInternal[OF inv t] .
qed (use WriteInternal_txn[OF hist_invD(1)[OF h] t] in fastforce)

lemma aborted_quiet:
  assumes h: "hist_inv h" and t: "aborted i t (h_store h) s'"
  shows "hist_inv (h\<lparr>h_store := s'\<rparr>)"
  by (rule hist_inv_quiet[OF h _ same_committed_aborted[OF t]])
     (use t in \<open>auto simp: aborted_def split: if_splits\<close>)

lemma serial_append: "serial (log @ [e]) = apply_writes (ce_writes e) (serial log)"
  by (simp add: serial_def)

lemma apply_writes_map_of:
  "distinct_keys ws \<Longrightarrow> apply_writes ws m k = (case map_of ws k of None \<Rightarrow> m k | Some v \<Rightarrow> v)"
proof (induction ws arbitrary: m)
  case (Cons w ws)
  obtain k' v where [simp]: "w = (k', v)" by (cases w)
  have "map_of ws k' = None" using Cons.prems by (simp add: map_of_eq_None_iff)
  with Cons show ?case by (auto simp: apply_writes_def split: option.split)
qed (simp add: apply_writes_def)

lemma own_writes_map_of:
  assumes "txn_ok s i t"
  shows "distinct_keys (own_writes i t s)" "keys_of (own_writes i t s) = set (t_write_set t)"
    "map_of (own_writes i t s) k = (if k \<in> set (t_write_set t) then Some (read_chain i t (chain_of s k)) else None)"
proof -
  have k: "map fst (own_writes i t s) = map wr_key (t_write_records t)" by (simp add: own_writes_def)
  then show "distinct_keys (own_writes i t s)" using assms by (simp add: txn_ok_def)
  show ks: "keys_of (own_writes i t s) = set (t_write_set t)"
    using assms by (auto simp: txn_ok_def own_writes_def image_image)
  have "own_writes i t s = map (\<lambda>k. (k, read_chain i t (chain_of s k))) (map wr_key (t_write_records t))"
    by (simp add: own_writes_def)
  then show "map_of (own_writes i t s) k = (if k \<in> set (t_write_set t) then Some (read_chain i t (chain_of s k)) else None)"
    using assms by (simp only: map_of_map_restrict) (auto simp: txn_ok_def restrict_map_def)
qed

lemma committed_at_all:
  assumes "\<And>v. v \<in> set (chain_of s k) \<Longrightarrow> v_committed v \<Longrightarrow> v_commit_ts v \<le> ts"
  shows "committed_at s ts k = latest s k"
proof -
  have "filter (\<lambda>v. v_committed v \<and> v_commit_ts v \<le> ts) (chain_of s k) = filter v_committed (chain_of s k)"
    using assms by (intro filter_cong) auto
  then show ?thesis by (simp add: committed_at_def latest_def)
qed

lemma commit_ts_past:
  "mv_inv s \<Longrightarrow> v \<in> set (chain_of s k) \<Longrightarrow> v_committed v \<Longrightarrow> v_commit_ts v \<le> mv_global_ts s"
  using mv_inv_version[of s v k] by (simp add: version_ok_def)

lemma hist_inv_begin:
  assumes h: "hist_inv h" and s': "MVCC_Begin level (h_store h) = (i, s')"
  shows "hist_inv (h\<lparr>h_store := s', h_base := (h_base h)(i := length (h_log h)), h_reads := (h_reads h)(i := [])\<rparr>)"
    (is "hist_inv ?h")
proof -
  note inv = hist_invD(1)[OF h]
  have inv': "mv_inv s'" using mv_inv_Begin[OF inv, of level] s' by simp
  note eq = Begin_eq[OF mv_inv_shards[OF inv], where level = level, unfolded s', simplified]
  have same: "same_committed (h_store h) s'" by (simp add: same_committed_def eq(2))
  have "active_ok ?h j t" if t: "txn_find j s' = Some t" for j t
  proof (cases "j = i")
    case True
    with t eq(1,3) have st: "t_start_ts t = mv_global_ts (h_store h)" by auto
    have "committed_at s' (t_start_ts t) k = latest s' k" for k
      by (rule committed_at_all) (use commit_ts_past[OF inv] in \<open>simp add: eq(2) st\<close>)
    then show ?thesis
      using True hist_invD(2)[OF h] same_committed_views(1)[OF same] by (simp add: active_ok_def)
  next
    case False
    with t eq(1,3) have "txn_find j (h_store h) = Some t" by auto
    from hist_invD(3)[OF h this] False show ?thesis
      by (simp add: active_ok_def same_committed_views[OF same])
  qed
  then show ?thesis using hist_invD[OF h] inv' same_committed_views(1)[OF same] by (simp add: hist_inv_def)
qed

lemma hist_inv_collect:
  assumes h: "hist_inv h"
  shows "hist_inv (h\<lparr>h_store := snd (MVCC_RunGarbageCollection (h_store h))\<rparr>)" (is "hist_inv ?h")
proof -
  note inv = hist_invD(1)[OF h]
  have "active_ok ?h i t" if t: "txn_find i (h_store h) = Some t" for i t
  proof -
    note ok = hist_invD(3)[OF h t]
    have "\<exists>v\<in>set (chain_of (h_store ?h) k). v_committed v \<and> t_start_ts t < v_commit_ts v"
      if "\<exists>v\<in>set (chain_of (h_store h) k). v_committed v \<and> t_start_ts t < v_commit_ts v" for k
      using that GC_newer[OF inv] by fastforce
    with ok show ?thesis by (simp add: active_ok_def GC_committed_at[OF inv t])
  qed
  then show ?thesis using hist_invD[OF h] mv_inv_GC[OF inv] GC_latest[OF inv] by (simp add: hist_inv_def)
qed

lemma entry_ok_append: "n < length log \<Longrightarrow> entry_ok (log @ [e]) n = entry_ok log n"
proof -
  assume n: "n < length log"
  show ?thesis
  proof (cases "ce_base (log ! n) \<le> n")
    case True
    then have "ce_base (log ! n) \<le> length log" using n by simp
    then show ?thesis using n by (simp add: entry_ok_def nth_append Let_def)
  qed (use n in \<open>simp add: entry_ok_def nth_append Let_def\<close>)
qed

text \<open>The transaction that commits: nothing it wrote, and under serializable isolation nothing it
  read, was committed by another one since it began.\<close>

lemma commit_entry_ok:
  assumes h: "hist_inv h" and t: "txn_find i (h_store h) = Some t" and nc: "\<not> has_conflict i t (h_store h)"
  defines "e \<equiv> \<lparr>ce_isolation = t_isolation t, ce_base = h_base h i, ce_reads = h_reads h i,
      ce_writes = own_writes i t (h_store h)\<rparr>"
  shows "entry_ok (h_log h @ [e]) (length (h_log h))"
proof -
  note inv = hist_invD(1)[OF h] and ok = hist_invD(3)[OF h t]
  note ow = own_writes_map_of[OF mv_inv_txn[OF inv t]]
  have clean: "v_commit_ts v \<le> t_start_ts t" if "k \<in> set (check_keys t)" "v \<in> set (chain_of (h_store h) k)" "v_committed v" for k v
  proof -
    have "v_txn_id v \<noteq> i" using mv_inv_version[OF inv that(2)] that(3) t by (auto simp: version_ok_def)
    with that nc show ?thesis by (force simp: has_conflict_def conflicts_with_def)
  qed
  have disj: "keys_of (ce_writes (h_log h ! m)) \<inter> set (t_write_set t) = {}"
    if "h_base h i \<le> m" "m < length (h_log h)" for m
  proof (rule ccontr)
    assume "keys_of (ce_writes (h_log h ! m)) \<inter> set (t_write_set t) \<noteq> {}"
    then obtain k where k: "k \<in> keys_of (ce_writes (h_log h ! m))" "k \<in> set (t_write_set t)" by blast
    from active_ok_newer[OF ok that k(1)] obtain v where
      "v \<in> set (chain_of (h_store h) k)" "v_committed v" "t_start_ts t < v_commit_ts v" .
    with clean[of k v] k(2) show False by (simp add: check_keys_set)
  qed
  have reads: "k \<in> set (t_read_set t) \<and> r = serial (take (h_base h i) (h_log h)) k"
    if "snapshot_txn (t_isolation t)" "(k, r) \<in> set (h_reads h i)" for k r
    using ok that unfolding active_ok_def by blast
  have "r = serial (h_log h) k" if iso: "t_isolation t = SERIALIZABLE_SNAPSHOT" and r: "(k, r) \<in> set (h_reads h i)" for k r
  proof -
    from reads[of k r] iso r have k: "k \<in> set (t_read_set t)" and rk: "r = serial (take (h_base h i) (h_log h)) k"
      by (simp_all add: snapshot_txn_def)
    have "committed_at (h_store h) (t_start_ts t) k = latest (h_store h) k"
      using clean[of k] k iso by (intro committed_at_all) (simp add: check_keys_set)
    with rk ok hist_invD(2)[OF h] show ?thesis by (simp add: active_ok_def)
  qed
  moreover have "h_base h i \<le> length (h_log h)" using ok by (simp add: active_ok_def)
  ultimately show ?thesis
    using disj reads ow(2) by (auto simp: entry_ok_def e_def nth_append Let_def)
qed

lemma hist_inv_commit:
  assumes h: "hist_inv h" and t: "txn_find i (h_store h) = Some t"
    and s': "MVCC_Commit i (h_store h) = (Inr True, s')"
  defines "e \<equiv> \<lparr>ce_isolation = t_isolation t, ce_base = h_base h i, ce_reads = h_reads h i,
      ce_writes = own_writes i t (h_store h)\<rparr>"
  shows "hist_inv (h\<lparr>h_store := s', h_log := h_log h @ [e]\<rparr>)" (is "hist_inv ?h")
proof -
  let ?s = "h_store h"
  note inv = hist_invD(1)[OF h]
  note ow = own_writes_map_of[OF mv_inv_txn[OF inv t]]
  have nc: "\<not> has_conflict i t ?s" using s' Commit_eq[OF t] by (auto split: if_splits)
  have c: "committed i t ?s s'" using Commit_committed(2)[OF inv t nc] s' by simp
  have "latest s' k = serial (h_log h @ [e]) k" for k
    using committed_views(1)[OF inv t c] hist_invD(2)[OF h] ow(1,3)
    by (simp add: serial_append apply_writes_map_of e_def)
  moreover have "active_ok ?h j u" if u: "txn_find j s' = Some u" for j u
  proof -
    have ju: "j \<noteq> i" "txn_find j ?s = Some u" using u c by (auto simp: committed_def split: if_splits)
    note ok = hist_invD(3)[OF h ju(2)]
    have start: "t_start_ts u < mv_global_ts ?s" using mv_inv_txn[OF inv ju(2)] by (simp add: txn_ok_def)
    have "\<exists>v\<in>set (chain_of s' k). v_committed v \<and> t_start_ts u < v_commit_ts v"
      if m: "h_base h j \<le> m" "m < Suc (length (h_log h))" "k \<in> keys_of (ce_writes ((h_log h @ [e]) ! m))" for m k
    proof (cases "m < length (h_log h)")
      case True
      then have "k \<in> keys_of (ce_writes (h_log h ! m))" using m(3) by (simp add: nth_append)
      from active_ok_newer[OF ok m(1) True this] obtain v where
        v: "v \<in> set (chain_of ?s k)" "v_committed v" "t_start_ts u < v_commit_ts v" .
      then have "v \<in> set (chain_of s' k)" using c by (force simp: committed_def is_pending_def)
      with v show ?thesis by blast
    next
      case False
      with m have "k \<in> set (t_write_set t)" using ow(2) by (simp add: nth_append e_def)
      then obtain v where v: "v \<in> set (chain_of ?s k)" "is_pending i v"
        using mv_inv_txn[OF inv t] by (force simp: txn_ok_def)
      then have "commit_version (mv_global_ts ?s) v \<in> set (chain_of s' k)"
        using c by (force simp: committed_def)
      with start show ?thesis by (intro bexI[of _ "commit_version (mv_global_ts ?s) v"]) simp_all
    qed
    with ok show ?thesis
      using committed_views(2)[OF inv t c start] by (auto simp: active_ok_def)
  qed
  moreover have "entry_ok (h_log h @ [e]) n" if "n < Suc (length (h_log h))" for n
    using that entry_ok_append[of n "h_log h" e] hist_invD(4)[OF h, of n] commit_entry_ok[OF h t nc]
    by (cases "n = length (h_log h)") (simp_all add: e_def)
  ultimately show ?thesis using c by (simp add: hist_inv_def committed_def)
qed

lemma mv_run_hist_inv: "mv_run h \<Longrightarrow> hist_inv h"
proof (induction rule: mv_run.induct)
  case run_start
  have "txn_find i MVCCStore = None" for i
    using ShardFor_less[of i] by (simp add: txn_find_def MVCCStore_def)
  then show ?case using mv_inv_init
    by (simp add: hist_inv_def serial_def latest_def version_value_def chain_of_def MVCCStore_def)
next
  case (run_begin h level i s')
  then show ?case by (intro hist_inv_begin)
next
  case (run_read h i t k r s')
  note inv = hist_invD(1)[OF run_read(4)]
  let ?t = "t\<lparr>t_read_set := List.insert k (t_read_set t)\<rparr>"
  have s': "s' = txn_set i ?t (h_store h)" using run_read(3) Read_eq[OF run_read(2)] by simp
  have "txn_find i s' = Some ?t" by (simp add: s' txn_find_set[OF mv_inv_shards[OF inv]])
  from hist_inv_noted_read[OF run_read(4,2) _ this] Read_quiet[OF run_read(4,2), of k] show ?case
    by (simp add: s')
next
  case (run_write h i k v s')
  then obtain t where "txn_find i (h_store h) = Some t" "s' = MVCC_WriteInternal t i k False v (h_store h)"
    by (auto simp: MVCC_Write_def MVCC_GetTransaction_def split: option.splits)
  with WriteInternal_quiet[OF run_write(3)] show ?case by simp
next
  case (run_delete h i t k b s')
  let ?t = "t\<lparr>t_read_set := List.insert k (t_read_set t)\<rparr>"
  let ?s = "txn_set i ?t (h_store h)"
  note inv = hist_invD(1)[OF run_delete(4)]
  have t: "txn_find i ?s = Some ?t" by (simp add: txn_find_set[OF mv_inv_shards[OF inv]])
  have s': "s' = MVCC_WriteInternal ?t i k True [] ?s"
    using run_delete(3) t by (simp add: MVCC_Delete_def Read_eq[OF run_delete(2)] MVCC_GetTransaction_def)
  have h1: "hist_inv (h\<lparr>h_store := ?s\<rparr>)" using Read_quiet[OF run_delete(4,2)] .
  have h2: "hist_inv (h\<lparr>h_store := s'\<rparr>)"
    using WriteInternal_quiet[OF h1, of i ?t k True "[]"] t by (simp add: s')
  have inv1: "mv_inv ?s" using hist_invD(1)[OF h1] by simp
  obtain u where u: "txn_find i s' = Some u"
    by (rule WriteInternal_cases[OF inv1 t, of k True "[]"])
       (use t shards_only[of s' ?s i] in \<open>auto simp: s'\<close>)
  from WriteInternal_txn[OF inv1 t u[unfolded s']] t have "t_isolation u = t_isolation t" "k \<in> set (t_read_set u)"
    by auto
  with hist_inv_noted_read[OF run_delete(4,2) h2 u] show ?case by simp
next
  case (run_commit h i t s')
  then show ?case using hist_inv_commit by simp
next
  case (run_refused h i s')
  then obtain t where t: "txn_find i (h_store h) = Some t"
    by (cases "txn_find i (h_store h)") (auto simp: MVCC_Commit_def MVCC_GetTransaction_def)
  with run_refused(2) have "has_conflict i t (h_store h)" by (auto simp: Commit_eq split: if_splits)
  from Commit_aborted(2)[OF hist_invD(1)[OF run_refused(3)] t this] run_refused(2)
  show ?case using aborted_quiet[OF run_refused(3)] by simp
next
  case (run_abort h i)
  show ?case
  proof (cases "txn_find i (h_store h)")
    case None
    then show ?thesis using run_abort(2) by (simp add: MVCC_Abort_def)
  next
    case (Some t)
    from aborted_quiet[OF run_abort(2) Abort_aborted[OF hist_invD(1)[OF run_abort(2)] Some]] show ?thesis .
  qed
next
  case (run_collect h)
  then show ?case by (intro hist_inv_collect)
qed

lemma WriteInternal_read:
  assumes inv: "mv_inv s" and t: "txn_find i s = Some t"
  shows "fst (MVCC_Read i k (MVCC_WriteInternal t i k deleted value s)) = Inr (if deleted then None else Some value)"
proof -
  let ?s = "MVCC_WriteInternal t i k deleted value s"
  have inv': "mv_inv ?s" using mv_inv_WriteInternal[OF inv t] .
  obtain u where u: "txn_find i ?s = Some u" "\<exists>v\<in>set (chain_of ?s k). is_pending i v \<and> v_deleted v = deleted \<and>
      v_value v = (if deleted then [] else value)"
  proof (rule WriteInternal_cases[OF inv t, of k deleted "value"], goal_cases)
    case (1 s' f)
    then obtain v where v: "v \<in> set (chain_of s k)" "is_pending i v" by blast
    then have "f v \<in> set (chain_of s' k)" using 1(4,5) by force
    moreover have "is_pending i (f v)" using v(2) 1(4) by (simp add: is_pending_def)
    ultimately show ?thesis using 1 t shards_only[of s' s i] by (intro 1(1)[of t]) auto
  next
    case (2 s')
    have "is_pending i (pending_version s i deleted value)" by (simp add: is_pending_def pending_version_def)
    then show ?thesis using 2 by (intro 2(1)) (auto simp: pending_version_def)
  qed
  then obtain v where v: "v \<in> set (chain_of ?s k)" "is_pending i v" "v_deleted v = deleted"
    "v_value v = (if deleted then [] else value)" by blast
  with find_pending[OF inv' v(1,2)] show ?thesis by (simp add: Read_eq[OF u(1)] read_chain_def version_value_def)
qed

section \<open>Properties\<close>



text \<open>A concrete execution for the witnesses: one transaction writes key 7 and commits.\<close>

definition demo_store :: "IsolationLevel \<Rightarrow> mvcc_store" where
  "demo_store level = snd (MVCC_Write 0 7 ''x'' (snd (MVCC_Begin level MVCCStore)))"

definition demo_history :: "IsolationLevel \<Rightarrow> mv_history" where
  "demo_history level = \<lparr>h_store = snd (MVCC_Commit 0 (demo_store level)), h_base = (\<lambda>_. 0), h_reads = (\<lambda>_. []),
     h_log = [\<lparr>ce_isolation = level, ce_base = 0, ce_reads = [], ce_writes = [(7, Some ''x'')]\<rparr>]\<rparr>"

lemmas mvcc_defs = MVCCStore_def MVCC_Begin_def MVCC_Begin_stamp_def MVCC_Begin_register_def txn_set_def
  txn_find_def txn_erase_def ShardFor_def kTxnShardCount_def MVCC_Write_def MVCC_GetTransaction_def
  MVCC_WriteInternal_def MVCC_GetOrCreateChain_def set_chain_def chain_of_def MVCC_Commit_def check_keys_def
  conflicts_with_def own_writes_def read_chain_def is_pending_def version_value_def

lemma demo_begun: "mv_run \<lparr>h_store = snd (MVCC_Begin level MVCCStore), h_base = (\<lambda>_. 0), h_reads = (\<lambda>_. []), h_log = []\<rparr>"
proof -
  have "MVCC_Begin level MVCCStore = (0, snd (MVCC_Begin level MVCCStore))"
    by (simp add: mvcc_defs)
  from run_begin[OF run_start, simplified, OF this] show ?thesis by (simp add: fun_upd_def)
qed

lemma demo_run: "mv_run (demo_history level)"
proof -
  let ?s = "snd (MVCC_Begin level MVCCStore)"
  let ?h = "\<lparr>h_store = demo_store level, h_base = (\<lambda>_. 0), h_reads = (\<lambda>_. []), h_log = []\<rparr>"
  have "MVCC_Write 0 7 ''x'' ?s = (Inr (), demo_store level)"
    by (simp add: demo_store_def) (simp add: mvcc_defs)
  with run_write[OF demo_begun[of level], of 0 7 "''x''" "demo_store level"] have run: "mv_run ?h" by simp
  have t: "txn_find 0 (demo_store level) = Some \<lparr>t_isolation = level, t_start_ts = 0,
      t_write_records = [\<lparr>wr_key = 7, wr_node = 0\<rparr>], t_write_set = [7], t_read_set = []\<rparr>"
    by (simp add: demo_store_def mvcc_defs)
  have c: "MVCC_Commit 0 (demo_store level) = (Inr True, snd (MVCC_Commit 0 (demo_store level)))"
    by (simp add: demo_store_def mvcc_defs)
  have w: "own_writes 0 \<lparr>t_isolation = level, t_start_ts = 0,
      t_write_records = [\<lparr>wr_key = 7, wr_node = 0\<rparr>], t_write_set = [7], t_read_set = []\<rparr> (demo_store level) = [(7, Some ''x'')]"
    by (simp add: demo_store_def mvcc_defs)
  from run_commit[OF run, simplified, OF t c] w show ?thesis by (simp add: demo_history_def)
qed







text \<open>
  C10. Garbage collection cannot be observed: in every reachable store it changes the outcome of no
  read, delete or commit of any transaction, at any isolation level, and not the committed content.
\<close>

theorem mvcc_GC_transparent:
  assumes "mv_run h"
  shows "let s = h_store h; s' = snd (MVCC_RunGarbageCollection s) in
     (\<forall>i k. fst (MVCC_Read i k s') = fst (MVCC_Read i k s)) \<and>
     (\<forall>i k. fst (MVCC_Delete i k s') = fst (MVCC_Delete i k s)) \<and>
     (\<forall>i. fst (MVCC_Commit i s') = fst (MVCC_Commit i s)) \<and>
     (\<forall>k. latest s' k = latest s k)"
proof -
  let ?s = "h_store h" let ?s' = "snd (MVCC_RunGarbageCollection ?s)"
  note inv = hist_invD(1)[OF mv_run_hist_inv[OF assms]]
  have rd: "fst (MVCC_Read i k ?s') = fst (MVCC_Read i k ?s)" for i k
    using GC_read_chain[OF inv, of i _ k] by (cases "txn_find i ?s") (simp_all add: Read_unknown Read_eq)
  have "fst (MVCC_Delete i k ?s') = fst (MVCC_Delete i k ?s)" for i k
    using GC_read_chain[OF inv, of i _ k] mv_inv_shards[OF inv] mv_inv_shards[OF mv_inv_GC[OF inv]]
    by (cases "txn_find i ?s")
       (simp_all add: MVCC_Delete_def Read_unknown Read_eq MVCC_GetTransaction_def txn_find_set)
  moreover have "fst (MVCC_Commit i ?s') = fst (MVCC_Commit i ?s)" for i
    using GC_has_conflict[OF inv, of i]
    by (cases "txn_find i ?s") (simp_all add: Commit_eq, simp_all add: MVCC_Commit_def MVCC_GetTransaction_def)
  ultimately show ?thesis using rd GC_latest[OF inv] by (simp add: Let_def)
qed

theorem mvcc_GC_transparent_witness:
  "latest (snd (MVCC_RunGarbageCollection (h_store (demo_history SNAPSHOT)))) 7
     = latest (h_store (demo_history SNAPSHOT)) 7"
  using mvcc_GC_transparent[OF demo_run[of SNAPSHOT]] by (simp add: Let_def)

text \<open>
  C27. A transaction sees its own writes and deletes, at every isolation level.
\<close>

theorem mvcc_read_your_writes:
  assumes "mv_run h" "txn_find i (h_store h) = Some t"
  shows "fst (MVCC_Read i k (snd (MVCC_Write i k v (h_store h)))) = Inr (Some v) \<and>
     fst (MVCC_Read i k (snd (MVCC_Delete i k (h_store h)))) = Inr None"
proof -
  note inv = hist_invD(1)[OF mv_run_hist_inv[OF assms(1)]]
  have wr: "fst (MVCC_Read i k (MVCC_WriteInternal u i k deleted w s)) = Inr (if deleted then None else Some w)"
    if "mv_inv s" "txn_find i s = Some u" for s u deleted w
    using WriteInternal_read[OF that, of k deleted w] by auto
  have "txn_find i (txn_set i (t\<lparr>t_read_set := List.insert k (t_read_set t)\<rparr>) (h_store h)) =
      Some (t\<lparr>t_read_set := List.insert k (t_read_set t)\<rparr>)"
    by (simp add: txn_find_set[OF mv_inv_shards[OF inv]])
  moreover from wr[OF mv_inv_txn_set[OF inv assms(2)] this] wr[OF inv assms(2)] assms(2)
  show ?thesis
    by (simp add: MVCC_Write_def MVCC_Delete_def MVCC_GetTransaction_def Read_eq calculation)
qed

theorem mvcc_read_your_writes_witness:
  "fst (MVCC_Read 0 5 (snd (MVCC_Delete 0 5 (snd (MVCC_Begin READ_COMMITTED MVCCStore))))) = Inr None"
proof -
  let ?h = "\<lparr>h_store = snd (MVCC_Begin READ_COMMITTED MVCCStore), h_base = (\<lambda>_. 0), h_reads = (\<lambda>_. []), h_log = []\<rparr>"
  have "txn_find 0 (h_store ?h) = Some \<lparr>t_isolation = READ_COMMITTED, t_start_ts = 0, t_write_records = [],
      t_write_set = [], t_read_set = []\<rparr>" by (simp add: mvcc_defs)
  from mvcc_read_your_writes[OF demo_begun this, of 5] show ?thesis by simp
qed

text \<open>
  C26. An aborted transaction leaves no trace: none of its versions remains in any chain, the
  committed content is unchanged, and no other transaction reads anything else than before, unless
  it runs at \<open>READ_UNCOMMITTED\<close>.
\<close>

theorem mvcc_abort_no_trace:
  assumes "mv_run h" "txn_find i (h_store h) = Some t"
  shows "let s = h_store h; s' = MVCC_Abort i s in
     (\<forall>k. \<forall>v\<in>set (chain_of s' k). v_txn_id v \<noteq> i) \<and> (\<forall>k. latest s' k = latest s k) \<and>
     (\<forall>j u k. j \<noteq> i \<longrightarrow> txn_find j s = Some u \<longrightarrow> t_isolation u \<noteq> READ_UNCOMMITTED \<longrightarrow>
        fst (MVCC_Read j k s') = fst (MVCC_Read j k s))"
proof -
  let ?s = "h_store h" let ?s' = "MVCC_Abort i ?s"
  note inv = hist_invD(1)[OF mv_run_hist_inv[OF assms(1)]]
  note ab = Abort_aborted[OF inv assms(2)]
  note views = same_committed_views[OF same_committed_aborted[OF ab]]
  have ch: "chain_of ?s' k = filter (\<lambda>v. \<not> is_pending i v) (chain_of ?s k)" for k
    using ab by (simp add: aborted_def)
  have "v_txn_id v \<noteq> i" if "v \<in> set (chain_of ?s' k)" for k v
    using that mv_inv_version[OF inv, of v k] assms(2) by (auto simp: ch is_pending_def version_ok_def)
  moreover have "fst (MVCC_Read j k ?s') = fst (MVCC_Read j k ?s)"
    if j: "j \<noteq> i" "txn_find j ?s = Some u" "t_isolation u \<noteq> READ_UNCOMMITTED" for j u k
  proof -
    have j': "txn_find j ?s' = Some u" using ab j by (simp add: aborted_def)
    have "List.find (is_pending j) (chain_of ?s' k) = List.find (is_pending j) (chain_of ?s k)"
      unfolding ch using j(1) by (intro find_filter_all) (simp add: is_pending_def)
    then have "read_chain j u (chain_of ?s' k) = read_chain j u (chain_of ?s k)"
      unfolding read_chain_eq using j(3) views by (simp split: option.split IsolationLevel.split)
    then show ?thesis by (simp add: Read_eq[OF j(2)] Read_eq[OF j'])
  qed
  ultimately show ?thesis using views(1) by (simp add: Let_def)
qed

theorem mvcc_abort_no_trace_witness:
  "latest (MVCC_Abort 0 (snd (MVCC_Begin SNAPSHOT MVCCStore))) 3 = latest (snd (MVCC_Begin SNAPSHOT MVCCStore)) 3"
proof -
  let ?h = "\<lparr>h_store = snd (MVCC_Begin SNAPSHOT MVCCStore), h_base = (\<lambda>_. 0), h_reads = (\<lambda>_. []), h_log = []\<rparr>"
  have "txn_find 0 (h_store ?h) = Some \<lparr>t_isolation = SNAPSHOT, t_start_ts = 0, t_write_records = [],
      t_write_set = [], t_read_set = []\<rparr>" by (simp add: mvcc_defs)
  from mvcc_abort_no_trace[OF demo_begun this] show ?thesis by (simp add: Let_def)
qed



end
