(* ===== verification/Decimal.thy ===== *)
theory Decimal
  imports Base "HOL-Library.Char_ord"
begin

text \<open>
  The conversions of the C++ standard library between integers and decimal text that the program
  uses: \<open>std::to_string\<close>, \<open>std::isdigit\<close> and the reading of a run of digits by \<open>std::stoll\<close>. The lemmas
  say that a number survives printing and reading, so that names built from numbers are distinct.
\<close>

section \<open>Definitions\<close>

definition isdigit :: "char \<Rightarrow> bool" where
  "isdigit c \<longleftrightarrow> CHR ''0'' \<le> c \<and> c \<le> CHR ''9''"

definition digit_char :: "nat \<Rightarrow> char" where
  "digit_char d = char_of (48 + d)"

definition digit_value :: "char \<Rightarrow> nat" where
  "digit_value c = of_char c - 48"

fun nat_to_string :: "nat \<Rightarrow> string" where
  "nat_to_string n = (if n < 10 then [digit_char n] else nat_to_string (n div 10) @ [digit_char (n mod 10)])"

declare nat_to_string.simps [simp del]

definition to_string :: "int \<Rightarrow> string" where
  "to_string x = (if x < 0 then CHR ''-'' # nat_to_string (nat (- x)) else nat_to_string (nat x))"

definition digits_value :: "string \<Rightarrow> nat" where
  "digits_value s = foldl (\<lambda>v c. 10 * v + digit_value c) 0 s"

text \<open>\<open>std::stoll\<close> on a non-empty run of digits.\<close>

definition stoll_digits :: "string \<Rightarrow> int result" where
  "stoll_digits s =
     (let v = int (digits_value s) in if v > INT64_MAX then Inl (OutOfRange ''stoll'') else Inr v)"

section \<open>Round trip\<close>

lemma of_digit_char: "d < 10 \<Longrightarrow> of_char (digit_char d) = 48 + d"
  by (simp add: digit_char_def)

lemma digit_value_char [simp]: "d < 10 \<Longrightarrow> digit_value (digit_char d) = d"
  by (simp add: digit_value_def of_digit_char)

lemma isdigit_iff: "isdigit c \<longleftrightarrow> 48 \<le> (of_char c :: nat) \<and> (of_char c :: nat) \<le> 57"
  by (simp add: isdigit_def less_eq_char_def)

lemma isdigit_digit_char [simp]: "d < 10 \<Longrightarrow> isdigit (digit_char d)"
  by (simp add: isdigit_iff of_digit_char)

lemma digits_value_snoc [simp]: "digits_value (s @ [c]) = 10 * digits_value s + digit_value c"
  by (simp add: digits_value_def)

lemma digits_value_Nil [simp]: "digits_value [] = 0"
  by (simp add: digits_value_def)

lemma digits_value_single [simp]: "digits_value [c] = digit_value c"
  by (simp add: digits_value_def)

lemma nat_to_string_value [simp]: "digits_value (nat_to_string n) = n"
proof (induction n rule: nat_to_string.induct)
  case (1 n)
  then show ?case
    by (subst nat_to_string.simps) simp
qed

lemma nat_to_string_digits: "c \<in> set (nat_to_string n) \<Longrightarrow> isdigit c"
proof (induction n rule: nat_to_string.induct)
  case (1 n)
  show ?case
    using 1(2) by (subst (asm) nat_to_string.simps) (auto split: if_splits dest: 1(1))
qed

lemma nat_to_string_nonempty [simp]: "nat_to_string n \<noteq> []"
  by (subst nat_to_string.simps) simp

lemma nat_to_string_inj [simp]: "nat_to_string m = nat_to_string n \<longleftrightarrow> m = n"
  by (metis nat_to_string_value)

lemma to_string_nonneg: "0 \<le> x \<Longrightarrow> to_string x = nat_to_string (nat x)"
  by (simp add: to_string_def)

lemma to_string_inj: "0 \<le> x \<Longrightarrow> 0 \<le> y \<Longrightarrow> to_string x = to_string y \<longleftrightarrow> x = y"
  by (auto simp: to_string_nonneg)

lemma stoll_to_string: "0 \<le> x \<Longrightarrow> x \<le> INT64_MAX \<Longrightarrow> stoll_digits (to_string x) = Inr x"
  by (simp add: stoll_digits_def to_string_nonneg)

end
