(* ===== verification/C_Text.thy ===== *)
theory C_Text
  imports Decimal "HOL-Library.List_Lexorder" "HOL-Library.Sublist"
begin

text \<open>
  The parts of \<^verbatim>\<open><cctype>\<close> and \<^verbatim>\<open><string>\<close> that the text-handling components use, in the C locale: the
  character classes, \<open>std::toupper\<close> and \<open>std::tolower\<close> on strings, and \<open>std::stoll\<close> with its leading
  blanks, sign and errors. Characters compare by their unsigned code, strings lexicographically, as
  \<open>std::string\<close> does.
\<close>

definition isspace :: "char \<Rightarrow> bool" where
  "isspace c \<longleftrightarrow> c = CHR '' '' \<or> (9 \<le> (of_char c :: nat) \<and> (of_char c :: nat) \<le> 13)"

definition isupper :: "char \<Rightarrow> bool" where
  "isupper c \<longleftrightarrow> CHR ''A'' \<le> c \<and> c \<le> CHR ''Z''"

definition islower :: "char \<Rightarrow> bool" where
  "islower c \<longleftrightarrow> CHR ''a'' \<le> c \<and> c \<le> CHR ''z''"

definition isalpha :: "char \<Rightarrow> bool" where
  "isalpha c \<longleftrightarrow> isupper c \<or> islower c"

definition isalnum :: "char \<Rightarrow> bool" where
  "isalnum c \<longleftrightarrow> isalpha c \<or> isdigit c"

definition toupper :: "char \<Rightarrow> char" where
  "toupper c = (if islower c then char_of ((of_char c :: nat) - 32) else c)"

definition tolower :: "char \<Rightarrow> char" where
  "tolower c = (if isupper c then char_of ((of_char c :: nat) + 32) else c)"

text \<open>A quoted piece of an error message.\<close>

definition quoted :: "string \<Rightarrow> string" where
  "quoted s = CHR 0x27 # s @ [CHR 0x27]"

text \<open>\<open>std::stoll\<close>: blanks, an optional sign, digits; what follows the digits is ignored.\<close>

definition stoll :: "string \<Rightarrow> int result" where
  "stoll s =
     (let t = dropWhile isspace s;
          neg = (t \<noteq> [] \<and> hd t = CHR ''-'');
          u = (if t \<noteq> [] \<and> (hd t = CHR ''-'' \<or> hd t = CHR ''+'') then tl t else t);
          ds = takeWhile isdigit u;
          v = (if neg then - int (digits_value ds) else int (digits_value ds))
      in if ds = [] then Inl (InvalidArgument ''stoll'')
         else if is_int64 v then Inr v
         else Inl (OutOfRange ''stoll''))"

text \<open>\<open>std::string::find\<close> of a string.\<close>

fun find_str :: "string \<Rightarrow> string \<Rightarrow> nat option" where
  "find_str p [] = (if p = [] then Some 0 else None)"
| "find_str p (c # s) = (if prefix p (c # s) then Some 0 else map_option Suc (find_str p s))"

lemma isdigit_classes: "isdigit c \<Longrightarrow> \<not> isspace c \<and> \<not> isalpha c \<and> c \<noteq> CHR ''-'' \<and> c \<noteq> CHR ''+'' \<and> c \<noteq> CHR ''_''"
  by (auto simp: isdigit_iff isspace_def isalpha_def isupper_def islower_def less_eq_char_def)

lemma isalpha_classes: "isalpha c \<Longrightarrow> \<not> isspace c \<and> \<not> isdigit c"
  by (auto simp: isdigit_iff isspace_def isalpha_def isupper_def islower_def less_eq_char_def)

lemma stoll_to_string': "is_int64 x \<Longrightarrow> stoll (to_string x) = Inr x"
proof -
  assume x: "is_int64 x"
  have ds: "takeWhile isdigit (nat_to_string n) = nat_to_string n" for n
    by (simp add: takeWhile_eq_all_conv nat_to_string_digits)
  have hd: "isdigit (hd (nat_to_string n))" for n
    using nat_to_string_digits[of "hd (nat_to_string n)" n] by simp
  have sp: "dropWhile isspace (nat_to_string n) = nat_to_string n" for n
    using hd[of n] isdigit_classes by (cases "nat_to_string n") auto
  show ?thesis
    using x hd[of "nat x"] by (auto simp: stoll_def to_string_def ds sp Let_def isspace_def dest: isdigit_classes)
qed

text \<open>\<open>std::stoll\<close> reads an \<open>int64_t\<close> or throws one of its two exceptions.\<close>

lemma stoll_cases:
  obtains x where "stoll s = Inr x" "is_int64 x"
  | "stoll s = Inl (InvalidArgument ''stoll'')" | "stoll s = Inl (OutOfRange ''stoll'')"
proof -
  have "(\<exists>x. stoll s = Inr x \<and> is_int64 x) \<or> stoll s = Inl (InvalidArgument ''stoll'') \<or> stoll s = Inl (OutOfRange ''stoll'')"
    by (simp add: stoll_def Let_def)
  then show ?thesis
    using that by blast
qed

lemma find_str_avoid: "c \<notin> set xs \<Longrightarrow> find_str (c # p) (xs @ ys) = map_option (\<lambda>n. length xs + n) (find_str (c # p) ys)"
  by (induction xs) (cases "find_str (c # p) ys"; auto)+

lemma find_str_prefix: "prefix p s \<Longrightarrow> find_str p s = Some 0"
  by (cases s) auto

end
