(* ===== verification/Sql_Lexer.thy ===== *)
theory Sql_Lexer
  imports C_Text
begin

text \<open>
  The lexer of the SQL front end, \<^verbatim>\<open>src/src/sql/lexer.cpp\<close>. The scanning loop is a recursion on the text
  that is left, with the position as a counter since the error messages quote it. The lemmas
  say which tokens and which errors it can produce and that it reads back a printed token list.
\<close>

section \<open>Tokens and the lexer\<close>

datatype TokenType = IDENTIFIER | INTEGER_LITERAL | STRING_LITERAL | LPAREN | RPAREN | COMMA | SEMICOLON | STAR
  | EQ | LT | LE | GT | GE | END

record Token =
  tok_type :: TokenType
  tok_text :: string
  int_value :: int

definition token :: "TokenType \<Rightarrow> string \<Rightarrow> Token" where
  "token ty s = \<lparr>tok_type = ty, tok_text = s, int_value = 0\<rparr>"

definition QUOTE :: char where
  "QUOTE = CHR 0x27"

definition starts_number :: "char \<Rightarrow> string \<Rightarrow> bool" where
  "starts_number c cs \<longleftrightarrow> isdigit c \<or> c = CHR ''-'' \<and> cs \<noteq> [] \<and> isdigit (hd cs)"

definition starts_identifier :: "char \<Rightarrow> bool" where
  "starts_identifier c \<longleftrightarrow> isalpha c \<or> c = CHR ''_''"

definition continues_identifier :: "char \<Rightarrow> bool" where
  "continues_identifier c \<longleftrightarrow> isalnum c \<or> c = CHR ''_''"

text \<open>
  One iteration of the loop at the character \<open>c\<close> followed by \<open>cs\<close>: the number of characters consumed and the
  token pushed, if any.
\<close>

definition Tokenize_step :: "nat \<Rightarrow> char \<Rightarrow> string \<Rightarrow> (nat \<times> Token option) result" where
  "Tokenize_step i c cs =
    (if isspace c then Inr (1, None)
     else if c = CHR ''('' then Inr (1, Some (token LPAREN ''(''))
     else if c = CHR '')'' then Inr (1, Some (token RPAREN '')''))
     else if c = CHR '','' then Inr (1, Some (token COMMA '',''))
     else if c = CHR '';'' then Inr (1, Some (token SEMICOLON '';''))
     else if c = CHR ''*'' then Inr (1, Some (token STAR ''*''))
     else if c = CHR ''='' then Inr (1, Some (token EQ ''=''))
     else if c = CHR ''<'' then
       (if cs \<noteq> [] \<and> hd cs = CHR ''='' then Inr (2, Some (token LE ''<='')) else Inr (1, Some (token LT ''<'')))
     else if c = CHR ''>'' then
       (if cs \<noteq> [] \<and> hd cs = CHR ''='' then Inr (2, Some (token GE ''>='')) else Inr (1, Some (token GT ''>'')))
     else if c = QUOTE then
       (let body = takeWhile (\<lambda>x. x \<noteq> QUOTE) cs
        in if length body = length cs
           then Inl (SqlException (''unterminated string literal starting at position '' @ to_string (int i)))
           else Inr (length body + 2, Some (token STRING_LITERAL body)))
     else if starts_number c cs then
       (let text = c # takeWhile isdigit cs
        in case stoll text of
             Inl e \<Rightarrow> Inl e
           | Inr v \<Rightarrow> Inr (length text, Some ((token INTEGER_LITERAL text) \<lparr>int_value := v\<rparr>)))
     else if starts_identifier c then
       (let text = c # takeWhile continues_identifier cs in Inr (length text, Some (token IDENTIFIER text)))
     else Inl (SqlException (''unexpected character '' @ quoted [c] @ '' at position '' @ to_string (int i))))"

lemma Tokenize_step_consumes: "Tokenize_step i c cs = Inr (n, t) \<Longrightarrow> 1 \<le> n"
  by (auto simp: Tokenize_step_def Let_def split: if_splits sum.splits)

function Tokenize_loop :: "nat \<Rightarrow> string \<Rightarrow> Token list \<Rightarrow> Token list result" where
  "Tokenize_loop i [] tokens = Inr (tokens @ [token END []])"
| "Tokenize_loop i (c # cs) tokens =
    (case Tokenize_step i c cs of
       Inl e \<Rightarrow> Inl e
     | Inr (n, t) \<Rightarrow>
         Tokenize_loop (i + n) (drop n (c # cs)) (case t of None \<Rightarrow> tokens | Some tok \<Rightarrow> tokens @ [tok]))"
  by pat_completeness auto
termination
  by (relation "measure (\<lambda>(i, s, tokens). length s)") (auto dest: Tokenize_step_consumes)

definition Lexer_Tokenize :: "string \<Rightarrow> Token list result" where
  "Lexer_Tokenize sql = Tokenize_loop 0 sql []"

declare Tokenize_loop.simps [simp del]

section \<open>What the lexer produces\<close>

definition is_ident :: "string \<Rightarrow> bool" where
  "is_ident s \<longleftrightarrow> (case s of [] \<Rightarrow> False | c # cs \<Rightarrow> starts_identifier c \<and> list_all continues_identifier cs)"

definition no_quote :: "string \<Rightarrow> bool" where
  "no_quote s \<longleftrightarrow> QUOTE \<notin> set s"

text \<open>The tokens before the end marker: punctuation, names, \<open>int64_t\<close> numbers and quote-free strings.\<close>

definition lexed :: "Token \<Rightarrow> bool" where
  "lexed t \<longleftrightarrow>
     (case tok_type t of
        END \<Rightarrow> False
      | IDENTIFIER \<Rightarrow> is_ident (tok_text t)
      | INTEGER_LITERAL \<Rightarrow> is_int64 (int_value t)
      | STRING_LITERAL \<Rightarrow> no_quote (tok_text t)
      | _ \<Rightarrow> True)"

text \<open>An error of the lexer: its own exception, or the one \<open>std::stoll\<close> throws on a number that is too large.\<close>

definition lex_error :: "db_error \<Rightarrow> bool" where
  "lex_error e \<longleftrightarrow> (\<exists>msg. e = SqlException msg) \<or> e = OutOfRange ''stoll''"

lemma stoll_number:
  assumes "starts_number c cs"
  obtains v where "stoll (c # takeWhile isdigit cs) = Inr v" "is_int64 v"
  | "stoll (c # takeWhile isdigit cs) = Inl (OutOfRange ''stoll'')"
proof -
  let ?t = "c # takeWhile isdigit cs"
  have "stoll ?t \<noteq> Inl (InvalidArgument ''stoll'')"
  proof (cases "isdigit c")
    case True
    then have "dropWhile isspace ?t = ?t" "c \<noteq> CHR ''-''" "c \<noteq> CHR ''+''" "takeWhile isdigit ?t \<noteq> []"
      using isdigit_classes by auto
    then show ?thesis
      by (simp add: stoll_def Let_def)
  next
    case False
    then have c: "c = CHR ''-''" and cs: "cs \<noteq> []" "isdigit (hd cs)"
      using assms by (auto simp: starts_number_def)
    then have "takeWhile isdigit (takeWhile isdigit cs) \<noteq> []"
      by (cases cs) simp_all
    then show ?thesis
      by (simp add: c stoll_def Let_def isspace_def)
  qed
  then show ?thesis
    using that by (cases rule: stoll_cases[of ?t]) auto
qed

definition lex_ok :: "Token list result \<Rightarrow> bool" where
  "lex_ok r \<longleftrightarrow> (case r of Inl e \<Rightarrow> lex_error e | Inr ts \<Rightarrow> ts \<noteq> [] \<and> last ts = token END [] \<and> list_all lexed (butlast ts))"

lemma set_takeWhileD2: "x \<in> set (takeWhile P xs) \<Longrightarrow> P x"
  by (rule conjunct2[OF set_takeWhileD])

definition step_ok :: "(nat \<times> Token option) result \<Rightarrow> bool" where
  "step_ok r \<longleftrightarrow> (case r of Inl e \<Rightarrow> lex_error e | Inr (n, t) \<Rightarrow> (\<forall>tok. t = Some tok \<longrightarrow> lexed tok))"

lemma step_ok_intros:
  "step_ok (Inr (n, None))" "lexed t \<Longrightarrow> step_ok (Inr (n, Some t))" "step_ok (Inl (SqlException msg))"
  "(b \<Longrightarrow> step_ok x) \<Longrightarrow> (\<not> b \<Longrightarrow> step_ok y) \<Longrightarrow> step_ok (if b then x else y)"
  by (simp_all add: step_ok_def lex_error_def)

lemma lexed_punctuation: "ty \<notin> {END, IDENTIFIER, INTEGER_LITERAL, STRING_LITERAL} \<Longrightarrow> lexed (token ty s)"
  by (cases ty) (simp_all add: lexed_def token_def)

lemma lexed_name: "starts_identifier c \<Longrightarrow> lexed (token IDENTIFIER (c # takeWhile continues_identifier cs))"
  by (auto simp: lexed_def token_def is_ident_def list_all_iff dest: set_takeWhileD2)

lemma lexed_string: "lexed (token STRING_LITERAL (takeWhile (\<lambda>x. x \<noteq> QUOTE) cs))"
  by (auto simp: lexed_def token_def no_quote_def dest: set_takeWhileD2)

lemma lexed_number:
  assumes "starts_number c cs"
  shows "step_ok (case stoll (c # takeWhile isdigit cs) of Inl e \<Rightarrow> Inl e
    | Inr v \<Rightarrow> Inr (n, Some (token INTEGER_LITERAL s\<lparr>int_value := v\<rparr>)))"
  by (rule stoll_number[OF assms]) (simp_all add: lexed_def token_def lex_error_def step_ok_def)

lemma Tokenize_step_ok: "step_ok (Tokenize_step i c cs)"
  unfolding Tokenize_step_def Let_def
  by (intro step_ok_intros lexed_number lexed_name lexed_string lexed_punctuation; simp)

lemma Tokenize_loop_ok: "list_all lexed tokens \<Longrightarrow> lex_ok (Tokenize_loop i s tokens)"
proof (induction i s tokens rule: Tokenize_loop.induct)
  case (1 i tokens)
  then show ?case
    by (simp add: lex_ok_def Tokenize_loop.simps)
next
  case (2 i c cs tokens)
  have err: "lex_ok (Inl e) \<longleftrightarrow> lex_error e" for e
    by (simp add: lex_ok_def)
  show ?case
    using Tokenize_step_ok[of i c cs] 2
    by (subst Tokenize_loop.simps) (auto simp: err step_ok_def split: sum.splits option.splits)
qed

section \<open>Reading back printed tokens\<close>

definition print_token :: "Token \<Rightarrow> string" where
  "print_token t = (if tok_type t = STRING_LITERAL then QUOTE # tok_text t @ [QUOTE] else tok_text t) @ '' ''"

definition print_tokens :: "Token list \<Rightarrow> string" where
  "print_tokens ts = concat (map print_token ts)"

definition number :: "int \<Rightarrow> Token" where
  "number v = (token INTEGER_LITERAL (to_string v)) \<lparr>int_value := v\<rparr>"

text \<open>The tokens a printer writes.\<close>

definition punctuation :: "Token list" where
  "punctuation = [token LPAREN ''('', token RPAREN '')'', token COMMA '','', token SEMICOLON '';'', token STAR ''*'',
     token EQ ''='', token LT ''<'', token LE ''<='', token GT ''>'', token GE ''>='']"

definition printable :: "Token \<Rightarrow> bool" where
  "printable t \<longleftrightarrow>
     t \<in> set punctuation \<or>
     (\<exists>s. t = token IDENTIFIER s \<and> is_ident s) \<or>
     (\<exists>s. t = token STRING_LITERAL s \<and> no_quote s) \<or>
     (\<exists>v. t = number v \<and> is_int64 v)"

lemma Tokenize_loop_Cons:
  "Tokenize_step i c cs = Inr (n, t) \<Longrightarrow>
   Tokenize_loop i (c # cs) tokens = Tokenize_loop (i + n) (drop n (c # cs)) (case t of None \<Rightarrow> tokens | Some tok \<Rightarrow> tokens @ [tok])"
  by (simp add: Tokenize_loop.simps)

lemma Tokenize_space: "Tokenize_loop i (CHR '' '' # cs) tokens = Tokenize_loop (i + 1) cs tokens"
  by (simp add: Tokenize_loop.simps Tokenize_step_def isspace_def)

text \<open>If the text of a token, followed by a blank, is consumed in one iteration, printing it and reading on comes back.\<close>

lemma Tokenize_printed:
  assumes "Tokenize_step i c (cs @ CHR '' '' # rest) = Inr (Suc (length cs), Some t)"
  shows "Tokenize_loop i ((c # cs) @ '' '' @ rest) tokens = Tokenize_loop (i + length cs + 2) rest (tokens @ [t])"
  using Tokenize_loop_Cons[OF assms, of tokens] by (simp add: Tokenize_space)

lemma not_special_ident:
  "starts_identifier c \<Longrightarrow> \<not> isspace c \<and> c \<notin> {CHR ''('', CHR '')'', CHR '','', CHR '';'', CHR ''*'', CHR ''='', CHR ''<'', CHR ''>'', QUOTE, CHR ''-''} \<and> \<not> isdigit c"
  by (auto simp: starts_identifier_def isalpha_def isupper_def islower_def isdigit_def isspace_def QUOTE_def less_eq_char_def)

lemma not_special_number:
  "starts_number c cs \<Longrightarrow> \<not> isspace c \<and> c \<notin> {CHR ''('', CHR '')'', CHR '','', CHR '';'', CHR ''*'', CHR ''='', CHR ''<'', CHR ''>'', QUOTE}"
  by (auto simp: starts_number_def isdigit_def isspace_def QUOTE_def less_eq_char_def)

lemma Tokenize_step_ident:
  assumes "starts_identifier c" "list_all continues_identifier cs"
  shows "Tokenize_step i c (cs @ CHR '' '' # rest) = Inr (Suc (length cs), Some (token IDENTIFIER (c # cs)))"
proof -
  have "takeWhile continues_identifier (cs @ CHR '' '' # rest) = cs"
    using assms(2) by (simp add: list_all_iff continues_identifier_def isalnum_def isalpha_def isupper_def islower_def isdigit_def less_eq_char_def)
  then show ?thesis
    using not_special_ident[OF assms(1)] assms(1) by (simp add: Tokenize_step_def starts_number_def Let_def)
qed

lemma Tokenize_step_string:
  assumes "no_quote s"
  shows "Tokenize_step i QUOTE (s @ QUOTE # rest) = Inr (length s + 2, Some (token STRING_LITERAL s))"
proof -
  have "takeWhile (\<lambda>x. x \<noteq> QUOTE) (s @ QUOTE # rest) = s"
    using assms by (subst takeWhile_append2) (auto simp: no_quote_def)
  then show ?thesis
    by (simp add: Tokenize_step_def QUOTE_def isspace_def)
qed

lemma Tokenize_step_number:
  assumes "is_int64 v"
  shows "\<exists>c cs. to_string v = c # cs \<and> Tokenize_step i c (cs @ CHR '' '' # rest) = Inr (Suc (length cs), Some (number v))"
proof -
  have dig: "\<forall>x \<in> set (nat_to_string n). isdigit x" "nat_to_string n \<noteq> []" for n
    using nat_to_string_digits by auto
  obtain c cs where s: "to_string v = c # cs" and cs: "\<forall>x \<in> set cs. isdigit x"
    and "isdigit c \<or> c = CHR ''-'' \<and> cs \<noteq> []"
  proof (cases "v < 0")
    case True
    then show ?thesis
      using that[of "CHR ''-''" "nat_to_string (nat (- v))"] dig by (simp add: to_string_def)
  next
    case False
    obtain d ds where "nat_to_string (nat v) = d # ds"
      using dig(2) list.exhaust by blast
    then show ?thesis
      using that[of d ds] dig(1)[of "nat v"] False by (simp add: to_string_def)
  qed
  then have c: "starts_number c (cs @ CHR '' '' # rest)"
    by (auto simp: starts_number_def hd_append)
  have sp: "\<not> isdigit (CHR '' '')"
    by (simp add: isdigit_iff)
  have "takeWhile isdigit (cs @ CHR '' '' # rest) = cs"
    using sp cs by (subst takeWhile_append2) auto
  then have "Tokenize_step i c (cs @ CHR '' '' # rest) = Inr (Suc (length cs), Some (number v))"
    using not_special_number[OF c] c stoll_to_string'[OF assms] s by (simp add: Tokenize_step_def Let_def number_def)
  then show ?thesis
    using s by blast
qed

lemma Tokenize_step_punctuation:
  "list_all (\<lambda>t. tok_text t \<noteq> [] \<and> tok_type t \<noteq> STRING_LITERAL \<and>
     Tokenize_step i (hd (tok_text t)) (tl (tok_text t) @ CHR '' '' # rest) = Inr (length (tok_text t), Some t)) punctuation"
  by (simp add: punctuation_def token_def Tokenize_step_def isspace_def)

lemma Tokenize_print_token:
  assumes "printable t"
  shows "\<exists>j. Tokenize_loop i (print_token t @ rest) tokens = Tokenize_loop j rest (tokens @ [t])"
proof -
  consider (punct) "t \<in> set punctuation"
    | (ident) s where "t = token IDENTIFIER s" "is_ident s" | (str) s where "t = token STRING_LITERAL s" "no_quote s"
    | (num) v where "t = number v" "is_int64 v"
    using assms unfolding printable_def by (elim disjE) blast+
  then show ?thesis
  proof cases
    case punct
    from Tokenize_step_punctuation[of i rest] punct obtain c cs where "tok_text t = c # cs" "tok_type t \<noteq> STRING_LITERAL"
      "Tokenize_step i c (cs @ CHR '' '' # rest) = Inr (Suc (length cs), Some t)"
      by (cases "tok_text t") (auto simp: list_all_iff)
    then show ?thesis
      using Tokenize_printed[of i c cs rest t tokens] by (auto simp: print_token_def)
  next
    case ident
    then obtain c cs where "s = c # cs" "starts_identifier c" "list_all continues_identifier cs"
      by (auto simp: is_ident_def split: list.splits)
    then show ?thesis
      using Tokenize_printed[OF Tokenize_step_ident, of c cs i rest tokens] ident by (auto simp: print_token_def token_def)
  next
    case str
    have "print_token t @ rest = (QUOTE # s @ [QUOTE]) @ '' '' @ rest"
      using str by (simp add: print_token_def token_def)
    moreover have "Tokenize_step i QUOTE ((s @ [QUOTE]) @ CHR '' '' # rest) = Inr (Suc (length (s @ [QUOTE])), Some t)"
      using Tokenize_step_string[OF str(2), of i "CHR '' '' # rest"] str(1) by simp
    ultimately show ?thesis
      using Tokenize_printed by metis
  next
    case num
    then show ?thesis
      using Tokenize_step_number[OF num(2), of i rest] Tokenize_printed[of i _ _ rest t tokens]
      by (auto simp: print_token_def number_def token_def)
  qed
qed

lemma Tokenize_print_tokens:
  "list_all printable ts \<Longrightarrow> \<exists>j. Tokenize_loop i (print_tokens ts @ rest) tokens = Tokenize_loop j rest (tokens @ ts)"
proof (induction ts arbitrary: i tokens)
  case Nil
  then show ?case
    by (auto simp: print_tokens_def)
next
  case (Cons t ts)
  obtain j where "Tokenize_loop i (print_token t @ print_tokens ts @ rest) tokens = Tokenize_loop j (print_tokens ts @ rest) (tokens @ [t])"
    using Tokenize_print_token[of t i "print_tokens ts @ rest" tokens] Cons.prems by auto
  then show ?case
    using Cons.IH[of j "tokens @ [t]"] Cons.prems by (simp add: print_tokens_def)
qed

lemma Lexer_round_trip: "list_all printable ts \<Longrightarrow> Lexer_Tokenize (print_tokens ts) = Inr (ts @ [token END []])"
  using Tokenize_print_tokens[of ts 0 "[]" "[]"] by (auto simp: Lexer_Tokenize_def Tokenize_loop.simps)

lemma Lexer_Tokenize_ok: "lex_ok (Lexer_Tokenize sql)"
  by (simp add: Lexer_Tokenize_def Tokenize_loop_ok)

end
