(* ===== verification/Sql_Parser.thy ===== *)
theory Sql_Parser
  imports Sql_Lexer
begin

text \<open>
  The syntax trees and the recursive-descent parser of the SQL front end: \<^verbatim>\<open>src/src/sql/value.h\<close>,
  \<^verbatim>\<open>ast.h\<close> and \<^verbatim>\<open>parser.cpp\<close>. The parser's state is the list of tokens from \<open>pos_\<close> on, so reading past
  the end of the token vector is the empty list and an undefined behaviour. The lemmas show that
  this never happens, which statements come out, and that a printed statement is read back.
\<close>

section \<open>Values and syntax trees\<close>

datatype Value = IntV int | TextV string

datatype ColumnType = INTEGER | TEXT

definition CompareValues :: "Value \<Rightarrow> Value \<Rightarrow> int result" where
  "CompareValues a b =
     (case (a, b) of
        (IntV x, IntV y) \<Rightarrow> Inr (if x < y then - 1 else if x > y then 1 else 0)
      | (TextV x, TextV y) \<Rightarrow> Inr (if x < y then - 1 else if x > y then 1 else 0)
      | _ \<Rightarrow> Inl BadVariantAccess)"

record ColumnDefAst =
  ca_name :: string
  ca_type :: ColumnType

datatype CompareOp = EQ | LT | LE | GT | GE

record Comparison =
  cmp_column :: string
  cmp_op :: CompareOp
  cmp_literal :: Value

type_synonym Predicate = "Comparison list"

datatype Statement =
    CreateTableStmt (st_table: string) (st_columns: "ColumnDefAst list")
  | InsertStmt (st_table: string) (st_values: "Value list")
  | SelectStmt (st_table: string) (st_star: bool) (st_projection: "string list") (st_where: Predicate)
  | DeleteStmt (st_table: string) (st_where: Predicate)

section \<open>Sequencing of fallible computations\<close>

definition and_then :: "'a result \<Rightarrow> ('a \<Rightarrow> 'b result) \<Rightarrow> 'b result" where
  "and_then r f = (case r of Inl e \<Rightarrow> Inl e | Inr x \<Rightarrow> f x)"

lemma and_then_simps [simp]: "and_then (Inl e) f = Inl e" "and_then (Inr x) f = f x"
  by (simp_all add: and_then_def)

lemma and_then_cong [fundef_cong]: "r = r' \<Longrightarrow> (\<And>x. r' = Inr x \<Longrightarrow> f x = g x) \<Longrightarrow> and_then r f = and_then r' g"
  by (auto simp: and_then_def split: sum.splits)

lemma and_then_eq_Inr: "and_then r f = Inr y \<longleftrightarrow> (\<exists>x. r = Inr x \<and> f x = Inr y)"
  by (auto simp: and_then_def split: sum.splits)

lemma and_then_eq_Inl: "and_then r f = Inl e \<longleftrightarrow> r = Inl e \<or> (\<exists>x. r = Inr x \<and> f x = Inl e)"
  by (auto simp: and_then_def split: sum.splits)

section \<open>The parser\<close>

type_synonym 'a parsed = "('a \<times> Token list) result"

definition ToUpper :: "string \<Rightarrow> string" where
  "ToUpper s = map toupper s"

abbreviation past_the_end :: "'a result" where
  "past_the_end \<equiv> Inl (UndefinedBehaviour ''tokens_[pos_] past the end'')"

definition Peek :: "Token list \<Rightarrow> Token result" where
  "Peek ts = (case ts of [] \<Rightarrow> past_the_end | t # _ \<Rightarrow> Inr t)"

definition Advance :: "Token list \<Rightarrow> Token parsed" where
  "Advance ts = (case ts of [] \<Rightarrow> past_the_end | t # ts' \<Rightarrow> Inr (t, ts'))"

definition IsKeyword :: "string \<Rightarrow> Token list \<Rightarrow> bool result" where
  "IsKeyword kw ts = and_then (Peek ts) (\<lambda>t. Inr (tok_type t = IDENTIFIER \<and> ToUpper (tok_text t) = kw))"

text \<open>\<open>throw SqlException(what + ", got '" + Peek().text + "'")\<close>.\<close>

definition got :: "string \<Rightarrow> Token list \<Rightarrow> 'a result" where
  "got what ts = and_then (Peek ts) (\<lambda>t. Inl (SqlException (what @ '', got '' @ quoted (tok_text t))))"

definition ExpectKeyword :: "string \<Rightarrow> Token list \<Rightarrow> unit parsed" where
  "ExpectKeyword kw ts =
     and_then (IsKeyword kw ts) (\<lambda>b.
       if \<not> b then got (''expected keyword '' @ quoted kw) ts
       else and_then (Advance ts) (\<lambda>(_, ts1). Inr ((), ts1)))"

definition ExpectType :: "TokenType \<Rightarrow> string \<Rightarrow> Token list \<Rightarrow> Token parsed" where
  "ExpectType ty what ts =
     and_then (Peek ts) (\<lambda>t. if tok_type t \<noteq> ty then got (''expected '' @ what) ts else Advance ts)"

definition ExpectIdentifier :: "Token list \<Rightarrow> string parsed" where
  "ExpectIdentifier ts = and_then (ExpectType IDENTIFIER ''identifier'' ts) (\<lambda>(t, ts1). Inr (tok_text t, ts1))"

definition ParseColumnType :: "Token list \<Rightarrow> ColumnType parsed" where
  "ParseColumnType ts =
     and_then (IsKeyword ''INTEGER'' ts) (\<lambda>b.
       if b then and_then (Advance ts) (\<lambda>(_, ts1). Inr (INTEGER, ts1))
       else and_then (IsKeyword ''TEXT'' ts) (\<lambda>b.
         if b then and_then (Advance ts) (\<lambda>(_, ts1). Inr (TEXT, ts1))
         else got ''expected column type (INTEGER or TEXT)'' ts))"

definition ParseLiteral :: "Token list \<Rightarrow> Value parsed" where
  "ParseLiteral ts =
     and_then (Peek ts) (\<lambda>t.
       if tok_type t = INTEGER_LITERAL then and_then (Advance ts) (\<lambda>(t, ts1). Inr (IntV (int_value t), ts1))
       else if tok_type t = STRING_LITERAL then and_then (Advance ts) (\<lambda>(t, ts1). Inr (TextV (tok_text t), ts1))
       else got ''expected a literal value'' ts)"

definition ParseCompareOp :: "Token list \<Rightarrow> CompareOp parsed" where
  "ParseCompareOp ts =
     and_then (Peek ts) (\<lambda>t.
       case tok_type t of
         TokenType.EQ \<Rightarrow> and_then (Advance ts) (\<lambda>(_, ts1). Inr (EQ, ts1))
       | TokenType.LT \<Rightarrow> and_then (Advance ts) (\<lambda>(_, ts1). Inr (LT, ts1))
       | TokenType.LE \<Rightarrow> and_then (Advance ts) (\<lambda>(_, ts1). Inr (LE, ts1))
       | TokenType.GT \<Rightarrow> and_then (Advance ts) (\<lambda>(_, ts1). Inr (GT, ts1))
       | TokenType.GE \<Rightarrow> and_then (Advance ts) (\<lambda>(_, ts1). Inr (GE, ts1))
       | _ \<Rightarrow> got ''expected a comparison operator (=, <, <=, >, >=)'' ts)"

text \<open>The bodies of the loops: one comparison of a \<open>WHERE\<close> clause, one column of a \<open>CREATE TABLE\<close>.\<close>

definition ParseComparison :: "Token list \<Rightarrow> Comparison parsed" where
  "ParseComparison ts =
     and_then (ExpectIdentifier ts) (\<lambda>(column, ts1).
     and_then (ParseCompareOp ts1) (\<lambda>(op, ts2).
     and_then (ParseLiteral ts2) (\<lambda>(literal, ts3).
       Inr (\<lparr>cmp_column = column, cmp_op = op, cmp_literal = literal\<rparr>, ts3))))"

definition ParseColumn :: "Token list \<Rightarrow> ColumnDefAst parsed" where
  "ParseColumn ts =
     and_then (ExpectIdentifier ts) (\<lambda>(col_name, ts1).
     and_then (ParseColumnType ts1) (\<lambda>(col_type, ts2). Inr (\<lparr>ca_name = col_name, ca_type = col_type\<rparr>, ts2)))"

lemma Peek_simps [simp]: "Peek (t # ts) = Inr t" "Peek [] = past_the_end"
  by (simp_all add: Peek_def)

lemma Advance_simps [simp]: "Advance (t # ts) = Inr (t, ts)" "Advance [] = past_the_end"
  by (simp_all add: Advance_def)

lemma got_not_Inr [simp]: "got what ts \<noteq> Inr x"
  by (auto simp: got_def and_then_eq_Inr)

text \<open>Every item that is parsed consumes a token, so the loops below end.\<close>

lemma Advance_length: "Advance ts = Inr (t, ts') \<Longrightarrow> length ts' < length ts"
  by (cases ts) auto

lemma ExpectIdentifier_length: "ExpectIdentifier ts = Inr (x, ts') \<Longrightarrow> length ts' < length ts"
  by (cases ts) (auto simp: ExpectIdentifier_def ExpectType_def and_then_eq_Inr split: if_splits)

lemma ParseLiteral_length: "ParseLiteral ts = Inr (x, ts') \<Longrightarrow> length ts' < length ts"
  by (cases ts) (auto simp: ParseLiteral_def and_then_eq_Inr split: if_splits)

lemma ParseCompareOp_length: "ParseCompareOp ts = Inr (x, ts') \<Longrightarrow> length ts' < length ts"
  by (cases ts) (auto simp: ParseCompareOp_def and_then_eq_Inr split: TokenType.splits)

lemma ParseColumnType_length: "ParseColumnType ts = Inr (x, ts') \<Longrightarrow> length ts' < length ts"
  by (cases ts) (auto simp: ParseColumnType_def IsKeyword_def and_then_eq_Inr split: if_splits)

lemma ParseComparison_length: "ParseComparison ts = Inr (x, ts') \<Longrightarrow> length ts' < length ts"
  by (fastforce simp: ParseComparison_def and_then_eq_Inr
      dest: ExpectIdentifier_length ParseCompareOp_length ParseLiteral_length)

lemma ParseColumn_length: "ParseColumn ts = Inr (x, ts') \<Longrightarrow> length ts' < length ts"
  by (fastforce simp: ParseColumn_def and_then_eq_Inr dest: ExpectIdentifier_length ParseColumnType_length)

function ParseWhere_loop :: "Predicate \<Rightarrow> Token list \<Rightarrow> Predicate parsed" where
  "ParseWhere_loop predicate ts =
     and_then (ParseComparison ts) (\<lambda>(c, ts1).
     and_then (IsKeyword ''AND'' ts1) (\<lambda>b.
       if b then and_then (Advance ts1) (\<lambda>(_, ts2). ParseWhere_loop (predicate @ [c]) ts2)
       else Inr (predicate @ [c], ts1)))"
  by pat_completeness auto
termination
  by (relation "measure (\<lambda>(p, ts). length ts)") (auto dest!: ParseComparison_length Advance_length)

function ParseColumns_loop :: "ColumnDefAst list \<Rightarrow> Token list \<Rightarrow> ColumnDefAst list parsed" where
  "ParseColumns_loop columns ts =
     and_then (ParseColumn ts) (\<lambda>(c, ts1).
     and_then (Peek ts1) (\<lambda>t.
       if tok_type t = COMMA then and_then (Advance ts1) (\<lambda>(_, ts2). ParseColumns_loop (columns @ [c]) ts2)
       else Inr (columns @ [c], ts1)))"
  by pat_completeness auto
termination
  by (relation "measure (\<lambda>(p, ts). length ts)") (auto dest!: ParseColumn_length Advance_length)

function ParseValues_loop :: "Value list \<Rightarrow> Token list \<Rightarrow> Value list parsed" where
  "ParseValues_loop values ts =
     and_then (ParseLiteral ts) (\<lambda>(v, ts1).
     and_then (Peek ts1) (\<lambda>t.
       if tok_type t = COMMA then and_then (Advance ts1) (\<lambda>(_, ts2). ParseValues_loop (values @ [v]) ts2)
       else Inr (values @ [v], ts1)))"
  by pat_completeness auto
termination
  by (relation "measure (\<lambda>(p, ts). length ts)") (auto dest!: ParseLiteral_length Advance_length)

function ParseNames_loop :: "string list \<Rightarrow> Token list \<Rightarrow> string list parsed" where
  "ParseNames_loop columns ts =
     and_then (ExpectIdentifier ts) (\<lambda>(c, ts1).
     and_then (Peek ts1) (\<lambda>t.
       if tok_type t = COMMA then and_then (Advance ts1) (\<lambda>(_, ts2). ParseNames_loop (columns @ [c]) ts2)
       else Inr (columns @ [c], ts1)))"
  by pat_completeness auto
termination
  by (relation "measure (\<lambda>(p, ts). length ts)") (auto dest!: ExpectIdentifier_length Advance_length)

declare ParseWhere_loop.simps [simp del] ParseColumns_loop.simps [simp del]
  ParseValues_loop.simps [simp del] ParseNames_loop.simps [simp del]

definition ParseWhereClause :: "Token list \<Rightarrow> Predicate parsed" where
  "ParseWhereClause ts =
     and_then (IsKeyword ''WHERE'' ts) (\<lambda>b.
       if \<not> b then Inr ([], ts)
       else and_then (Advance ts) (\<lambda>(_, ts1). ParseWhere_loop [] ts1))"

definition EM_DASH :: string where
  "EM_DASH = [CHR 0xE2, CHR 0x80, CHR 0x94]"

definition ParseCreateTable :: "Token list \<Rightarrow> Statement parsed" where
  "ParseCreateTable ts =
     and_then (Advance ts) (\<lambda>(_, ts1).
     and_then (ExpectKeyword ''TABLE'' ts1) (\<lambda>(_, ts2).
     and_then (ExpectIdentifier ts2) (\<lambda>(table_name, ts3).
     and_then (ExpectType LPAREN (quoted ''('') ts3) (\<lambda>(_, ts4).
     and_then (ParseColumns_loop [] ts4) (\<lambda>(columns, ts5).
     and_then (ExpectType RPAREN (quoted '')'') ts5) (\<lambda>(_, ts6).
       if columns = [] then Inl (SqlException ''CREATE TABLE needs at least one column'')
       else if ca_type (hd columns) \<noteq> INTEGER then
         Inl (SqlException (''the first column ('' @ quoted (ca_name (hd columns)) @ '') must be INTEGER '' @ EM_DASH @
           '' it is the table'' @ [QUOTE] @ ''s primary key''))
       else Inr (CreateTableStmt table_name columns, ts6)))))))"

definition ParseInsert :: "Token list \<Rightarrow> Statement parsed" where
  "ParseInsert ts =
     and_then (Advance ts) (\<lambda>(_, ts1).
     and_then (ExpectKeyword ''INTO'' ts1) (\<lambda>(_, ts2).
     and_then (ExpectIdentifier ts2) (\<lambda>(table_name, ts3).
     and_then (ExpectKeyword ''VALUES'' ts3) (\<lambda>(_, ts4).
     and_then (ExpectType LPAREN (quoted ''('') ts4) (\<lambda>(_, ts5).
     and_then (ParseValues_loop [] ts5) (\<lambda>(vals, ts6).
     and_then (ExpectType RPAREN (quoted '')'') ts6) (\<lambda>(_, ts7).
       Inr (InsertStmt table_name vals, ts7))))))))"

text \<open>The select list: \<open>*\<close> or a list of names.\<close>

definition ParseProjection :: "Token list \<Rightarrow> (bool \<times> string list) parsed" where
  "ParseProjection ts =
     and_then (Peek ts) (\<lambda>t.
       if tok_type t = STAR then and_then (Advance ts) (\<lambda>(_, ts1). Inr ((True, []), ts1))
       else and_then (ParseNames_loop [] ts) (\<lambda>(columns, ts1). Inr ((False, columns), ts1)))"

definition ParseSelect :: "Token list \<Rightarrow> Statement parsed" where
  "ParseSelect ts =
     and_then (Advance ts) (\<lambda>(_, ts1).
     and_then (ParseProjection ts1) (\<lambda>((star, columns), ts2).
     and_then (ExpectKeyword ''FROM'' ts2) (\<lambda>(_, ts3).
     and_then (ExpectIdentifier ts3) (\<lambda>(table_name, ts4).
     and_then (ParseWhereClause ts4) (\<lambda>(wh, ts5).
       Inr (SelectStmt table_name star columns wh, ts5))))))"

definition ParseDelete :: "Token list \<Rightarrow> Statement parsed" where
  "ParseDelete ts =
     and_then (Advance ts) (\<lambda>(_, ts1).
     and_then (ExpectKeyword ''FROM'' ts1) (\<lambda>(_, ts2).
     and_then (ExpectIdentifier ts2) (\<lambda>(table_name, ts3).
     and_then (ParseWhereClause ts3) (\<lambda>(wh, ts4). Inr (DeleteStmt table_name wh, ts4)))))"

definition ParseStatement :: "Token list \<Rightarrow> Statement parsed" where
  "ParseStatement ts =
     and_then (IsKeyword ''CREATE'' ts) (\<lambda>b. if b then ParseCreateTable ts else
     and_then (IsKeyword ''INSERT'' ts) (\<lambda>b. if b then ParseInsert ts else
     and_then (IsKeyword ''SELECT'' ts) (\<lambda>b. if b then ParseSelect ts else
     and_then (IsKeyword ''DELETE'' ts) (\<lambda>b. if b then ParseDelete ts else
       got ''expected CREATE, INSERT, SELECT, or DELETE'' ts))))"

definition ExpectEndOfStatement :: "Token list \<Rightarrow> unit parsed" where
  "ExpectEndOfStatement ts =
     and_then (Peek ts) (\<lambda>t.
     and_then (if tok_type t = SEMICOLON then Advance ts else Inr (t, ts)) (\<lambda>(_, ts1).
     and_then (Peek ts1) (\<lambda>t1.
       if tok_type t1 \<noteq> END then Inl (SqlException (''unexpected trailing input near '' @ quoted (tok_text t1)))
       else Inr ((), ts1))))"

definition Parser_Parse :: "string \<Rightarrow> Statement result" where
  "Parser_Parse sql =
     and_then (Lexer_Tokenize sql) (\<lambda>tokens.
     and_then (ParseStatement tokens) (\<lambda>(stmt, ts1).
     and_then (ExpectEndOfStatement ts1) (\<lambda>_. Inr stmt)))"

section \<open>The parser stays inside the tokens\<close>

text \<open>
  A token list as the lexer makes them ends with the end marker, which the parser never
  consumes. A computation is \<open>safe\<close> when it throws nothing but a \<open>SqlException\<close> and otherwise leaves
  such a list and a result with a given property.
\<close>

definition good :: "Token list \<Rightarrow> bool" where
  "good ts \<longleftrightarrow> ts \<noteq> [] \<and> last ts = token END [] \<and> list_all lexed (butlast ts)"

definition safe :: "('a \<Rightarrow> bool) \<Rightarrow> 'a parsed \<Rightarrow> bool" where
  "safe P r \<longleftrightarrow> (case r of Inl e \<Rightarrow> (\<exists>msg. e = SqlException msg) | Inr (x, ts) \<Rightarrow> good ts \<and> P x)"

lemma safe_Inr [simp]: "safe P (Inr (x, ts)) \<longleftrightarrow> good ts \<and> P x"
  by (simp add: safe_def)

lemma safe_throw [simp]: "safe P (Inl (SqlException msg))"
  by (simp add: safe_def)

lemma safe_and_then:
  "safe P r \<Longrightarrow> (\<And>x ts. P x \<Longrightarrow> good ts \<Longrightarrow> safe Q (f (x, ts))) \<Longrightarrow> safe Q (and_then r f)"
  by (cases r) (auto simp: safe_def[of P])

lemma goodE:
  assumes "good ts"
  obtains (stop) "ts = [token END []]" | (more) t ts' where "ts = t # ts'" "lexed t" "good ts'"
  using assms that by (cases ts) (auto simp: good_def split: if_splits)

lemma not_lexed_END: "lexed t \<Longrightarrow> tok_type t \<noteq> END"
  by (auto simp: lexed_def)

lemma tok_type_token [simp]: "tok_type (token ty s) = ty" "tok_text (token ty s) = s"
  by (simp_all add: token_def)

lemma safe_got: "good ts \<Longrightarrow> safe P (got what ts)"
  by (auto simp: got_def elim: goodE)

lemma safe_ExpectType:
  "good ts \<Longrightarrow> ty \<noteq> END \<Longrightarrow> safe (\<lambda>t. tok_type t = ty \<and> lexed t) (ExpectType ty what ts)"
  by (erule goodE) (auto simp: ExpectType_def got_def)

lemma safe_ExpectKeyword: "good ts \<Longrightarrow> safe (\<lambda>_. True) (ExpectKeyword kw ts)"
  by (erule goodE) (auto simp: ExpectKeyword_def IsKeyword_def got_def)

lemma safe_ExpectIdentifier: "good ts \<Longrightarrow> safe is_ident (ExpectIdentifier ts)"
  unfolding ExpectIdentifier_def by (rule safe_and_then[OF safe_ExpectType]) (auto simp: lexed_def)

lemma safe_ParseColumnType: "good ts \<Longrightarrow> safe (\<lambda>_. True) (ParseColumnType ts)"
  by (erule goodE) (auto simp: ParseColumnType_def IsKeyword_def got_def)

definition value_ok :: "Value \<Rightarrow> bool" where
  "value_ok v \<longleftrightarrow> (case v of IntV x \<Rightarrow> is_int64 x | TextV s \<Rightarrow> no_quote s)"

lemma safe_ParseLiteral: "good ts \<Longrightarrow> safe value_ok (ParseLiteral ts)"
  by (erule goodE) (auto simp: ParseLiteral_def got_def value_ok_def lexed_def)

lemma safe_ParseCompareOp: "good ts \<Longrightarrow> safe (\<lambda>_. True) (ParseCompareOp ts)"
  by (erule goodE) (auto simp: ParseCompareOp_def got_def split: TokenType.splits)

text \<open>
  The four loops of the parser are one scheme: read an item, go on after a separator, stop
  otherwise. What the scheme guarantees is proved once.
\<close>

fun sep_by :: "Token \<Rightarrow> ('a \<Rightarrow> Token list) \<Rightarrow> 'a list \<Rightarrow> Token list" where
  "sep_by s f [] = []"
| "sep_by s f [x] = f x"
| "sep_by s f (x # y # xs) = f x @ s # sep_by s f (y # xs)"

locale item_loop =
  fixes item :: "Token list \<Rightarrow> 'a parsed" and loop :: "'a list \<Rightarrow> Token list \<Rightarrow> 'a list parsed"
    and is_sep :: "Token \<Rightarrow> bool" and item_ok :: "'a \<Rightarrow> bool" and item_tokens :: "'a \<Rightarrow> Token list" and sep :: Token
  assumes loop_eq: "loop acc ts =
      and_then (item ts) (\<lambda>(x, ts1). and_then (Peek ts1) (\<lambda>t.
        if is_sep t then and_then (Advance ts1) (\<lambda>(_, ts2). loop (acc @ [x]) ts2) else Inr (acc @ [x], ts1)))"
    and item_safe: "good ts \<Longrightarrow> safe item_ok (item ts)"
    and item_length: "item ts = Inr (x, ts') \<Longrightarrow> length ts' < length ts"
    and item_reads: "item_ok x \<Longrightarrow> item (item_tokens x @ rest) = Inr (x, rest)"
    and sep_ok: "is_sep sep" "\<not> is_sep (token END [])"
begin

lemma loop_safe: "good ts \<Longrightarrow> list_all item_ok acc \<Longrightarrow> safe (\<lambda>xs. xs \<noteq> [] \<and> list_all item_ok xs) (loop acc ts)"
proof (induction ts arbitrary: acc rule: length_induct)
  case (1 ts)
  show ?case
  proof (cases "item ts")
    case (Inl e)
    then show ?thesis
      using item_safe[OF 1(2)] by (subst loop_eq) (auto simp: safe_def)
  next
    case (Inr r)
    then obtain x ts1 where r: "item ts = Inr (x, ts1)"
      by (cases r) auto
    then have x: "item_ok x" "good ts1" "length ts1 < length ts"
      using item_safe[OF 1(2)] item_length by (auto simp: safe_def)
    from x(2) show ?thesis
    proof (cases rule: goodE)
      case stop
      then show ?thesis
        using r x 1(3) sep_ok by (subst loop_eq) simp
    next
      case (more t ts')
      then show ?thesis
        using r x 1 by (subst loop_eq) simp
    qed
  qed
qed

lemma loop_reads:
  "xs \<noteq> [] \<Longrightarrow> list_all item_ok xs \<Longrightarrow> \<not> is_sep t \<Longrightarrow>
   loop acc (sep_by sep item_tokens xs @ t # rest) = Inr (acc @ xs, t # rest)"
proof (induction xs arbitrary: acc rule: induct_list012)
  case (2 x)
  then show ?case
    by (subst loop_eq) (simp add: item_reads)
next
  case (3 x y xs)
  then show ?case
    using sep_ok by (subst loop_eq) (simp add: item_reads)
qed simp

end

text \<open>The tokens of the pieces of a statement, in the form a printer writes them.\<close>

definition name_tokens :: "string \<Rightarrow> Token list" where
  "name_tokens s = [token IDENTIFIER s]"

definition value_tokens :: "Value \<Rightarrow> Token list" where
  "value_tokens v = (case v of IntV x \<Rightarrow> [number x] | TextV s \<Rightarrow> [token STRING_LITERAL s])"

definition op_token :: "CompareOp \<Rightarrow> Token" where
  "op_token op =
     (case op of EQ \<Rightarrow> token TokenType.EQ ''='' | LT \<Rightarrow> token TokenType.LT ''<'' | LE \<Rightarrow> token TokenType.LE ''<=''
      | GT \<Rightarrow> token TokenType.GT ''>'' | GE \<Rightarrow> token TokenType.GE ''>='')"

definition comparison_tokens :: "Comparison \<Rightarrow> Token list" where
  "comparison_tokens c = name_tokens (cmp_column c) @ [op_token (cmp_op c)] @ value_tokens (cmp_literal c)"

definition column_tokens :: "ColumnDefAst \<Rightarrow> Token list" where
  "column_tokens c = name_tokens (ca_name c) @ name_tokens (case ca_type c of INTEGER \<Rightarrow> ''INTEGER'' | TEXT \<Rightarrow> ''TEXT'')"

definition comparison_ok :: "Comparison \<Rightarrow> bool" where
  "comparison_ok c \<longleftrightarrow> is_ident (cmp_column c) \<and> value_ok (cmp_literal c)"

definition column_ok :: "ColumnDefAst \<Rightarrow> bool" where
  "column_ok c \<longleftrightarrow> is_ident (ca_name c)"

lemma ExpectIdentifier_reads [simp]: "ExpectIdentifier (token IDENTIFIER s # rest) = Inr (s, rest)"
  by (simp add: ExpectIdentifier_def ExpectType_def)

lemma ExpectType_reads [simp]: "ExpectType ty what (token ty s # rest) = Inr (token ty s, rest)"
  by (simp add: ExpectType_def)

lemma ParseLiteral_reads [simp]: "ParseLiteral (value_tokens v @ rest) = Inr (v, rest)"
  by (cases v) (simp_all add: value_tokens_def ParseLiteral_def number_def token_def)

lemma ParseCompareOp_reads [simp]: "ParseCompareOp (op_token op # rest) = Inr (op, rest)"
  by (cases op) (simp_all add: op_token_def ParseCompareOp_def)

lemma ToUpper_eqs [simp]:
  "ToUpper ''INTEGER'' = ''INTEGER''" "ToUpper ''TEXT'' = ''TEXT''" "ToUpper ''CREATE'' = ''CREATE''"
  "ToUpper ''TABLE'' = ''TABLE''" "ToUpper ''INSERT'' = ''INSERT''" "ToUpper ''INTO'' = ''INTO''"
  "ToUpper ''VALUES'' = ''VALUES''" "ToUpper ''SELECT'' = ''SELECT''" "ToUpper ''DELETE'' = ''DELETE''"
  "ToUpper ''FROM'' = ''FROM''" "ToUpper ''WHERE'' = ''WHERE''" "ToUpper ''AND'' = ''AND''"
  by (simp_all add: ToUpper_def toupper_def islower_def less_eq_char_def)

lemma IsKeyword_reads [simp]: "IsKeyword kw (t # ts) = Inr (tok_type t = IDENTIFIER \<and> ToUpper (tok_text t) = kw)"
  by (simp add: IsKeyword_def)

lemma ParseComparison_reads: "ParseComparison (comparison_tokens c @ rest) = Inr (c, rest)"
  by (simp add: comparison_tokens_def ParseComparison_def name_tokens_def)

lemma ParseColumn_reads: "ParseColumn (column_tokens c @ rest) = Inr (c, rest)"
  by (cases "ca_type c") (simp_all add: column_tokens_def ParseColumn_def name_tokens_def ParseColumnType_def)

lemma safe_ParseComparison: "good ts \<Longrightarrow> safe comparison_ok (ParseComparison ts)"
  unfolding ParseComparison_def
  by (auto intro!: safe_and_then[OF safe_ExpectIdentifier] safe_and_then[OF safe_ParseCompareOp]
      safe_and_then[OF safe_ParseLiteral] simp: comparison_ok_def)

lemma safe_ParseColumn: "good ts \<Longrightarrow> safe column_ok (ParseColumn ts)"
  unfolding ParseColumn_def
  by (auto intro!: safe_and_then[OF safe_ExpectIdentifier] safe_and_then[OF safe_ParseColumnType] simp: column_ok_def)

interpretation where_loop: item_loop ParseComparison ParseWhere_loop
  "\<lambda>t. tok_type t = IDENTIFIER \<and> ToUpper (tok_text t) = ''AND''" comparison_ok comparison_tokens "token IDENTIFIER ''AND''"
proof (unfold_locales, goal_cases)
  case (1 acc ts)
  show ?case
    by (subst ParseWhere_loop.simps) (auto simp: IsKeyword_def and_then_def split: sum.split prod.split)
qed (auto simp: safe_ParseComparison ParseComparison_length ParseComparison_reads)

interpretation columns_loop: item_loop ParseColumn ParseColumns_loop
  "\<lambda>t. tok_type t = COMMA" column_ok column_tokens "token COMMA '',''"
  by unfold_locales (auto simp: safe_ParseColumn ParseColumn_length ParseColumn_reads intro: ParseColumns_loop.simps)

interpretation values_loop: item_loop ParseLiteral ParseValues_loop
  "\<lambda>t. tok_type t = COMMA" value_ok value_tokens "token COMMA '',''"
  by unfold_locales (auto simp: safe_ParseLiteral ParseLiteral_length intro: ParseValues_loop.simps)

interpretation names_loop: item_loop ExpectIdentifier ParseNames_loop
  "\<lambda>t. tok_type t = COMMA" is_ident name_tokens "token COMMA '',''"
  by unfold_locales (auto simp: safe_ExpectIdentifier ExpectIdentifier_length name_tokens_def intro: ParseNames_loop.simps)

section \<open>Well-formed statements are exactly the ones the parser returns\<close>

definition stmt_ok :: "Statement \<Rightarrow> bool" where
  "stmt_ok s \<longleftrightarrow> is_ident (st_table s) \<and>
     (case s of
        CreateTableStmt _ cols \<Rightarrow> cols \<noteq> [] \<and> ca_type (hd cols) = INTEGER \<and> list_all column_ok cols
      | InsertStmt _ vs \<Rightarrow> vs \<noteq> [] \<and> list_all value_ok vs
      | SelectStmt _ star cols wh \<Rightarrow> (star \<longleftrightarrow> cols = []) \<and> list_all is_ident cols \<and> list_all comparison_ok wh
      | DeleteStmt _ wh \<Rightarrow> list_all comparison_ok wh)"

lemma safe_mono: "safe P r \<Longrightarrow> (\<And>x. P x \<Longrightarrow> Q x) \<Longrightarrow> safe Q r"
  by (auto simp: safe_def split: sum.splits)

lemma safe_Advance: "good ts \<Longrightarrow> tok_type (hd ts) \<noteq> END \<Longrightarrow> safe (\<lambda>_. True) (Advance ts)"
  by (erule goodE) auto

lemma good_Peek: "good ts \<Longrightarrow> Peek ts = Inr (hd ts)"
  by (auto elim: goodE)

lemma good_IsKeyword: "good ts \<Longrightarrow> IsKeyword kw ts = Inr (tok_type (hd ts) = IDENTIFIER \<and> ToUpper (tok_text (hd ts)) = kw)"
  by (simp add: IsKeyword_def good_Peek)

lemma safe_ParseWhereClause: "good ts \<Longrightarrow> safe (list_all comparison_ok) (ParseWhereClause ts)"
  by (auto simp: ParseWhereClause_def good_IsKeyword
      intro!: safe_and_then[OF safe_Advance] intro: safe_mono[OF where_loop.loop_safe])

lemma safe_ParseProjection:
  "good ts \<Longrightarrow> safe (\<lambda>(star, cols). (star \<longleftrightarrow> cols = []) \<and> list_all is_ident cols) (ParseProjection ts)"
  by (auto simp: ParseProjection_def good_Peek
      intro!: safe_and_then[OF safe_Advance] safe_and_then[OF names_loop.loop_safe])

lemmas safe_tokens =
  safe_and_then[OF safe_Advance] safe_and_then[OF safe_ExpectKeyword] safe_and_then[OF safe_ExpectIdentifier]
  safe_and_then[OF safe_ExpectType]

lemma safe_ParseCreateTable: "good ts \<Longrightarrow> tok_type (hd ts) \<noteq> END \<Longrightarrow> safe stmt_ok (ParseCreateTable ts)"
  unfolding ParseCreateTable_def
  by (auto intro!: safe_tokens safe_and_then[OF columns_loop.loop_safe] simp: stmt_ok_def)

lemma safe_ParseInsert: "good ts \<Longrightarrow> tok_type (hd ts) \<noteq> END \<Longrightarrow> safe stmt_ok (ParseInsert ts)"
  unfolding ParseInsert_def
  by (auto intro!: safe_tokens safe_and_then[OF values_loop.loop_safe] simp: stmt_ok_def)

lemma safe_ParseSelect: "good ts \<Longrightarrow> tok_type (hd ts) \<noteq> END \<Longrightarrow> safe stmt_ok (ParseSelect ts)"
  unfolding ParseSelect_def
  by (auto intro!: safe_tokens safe_and_then[OF safe_ParseProjection] safe_and_then[OF safe_ParseWhereClause] simp: stmt_ok_def)

lemma safe_ParseDelete: "good ts \<Longrightarrow> tok_type (hd ts) \<noteq> END \<Longrightarrow> safe stmt_ok (ParseDelete ts)"
  unfolding ParseDelete_def
  by (auto intro!: safe_tokens safe_and_then[OF safe_ParseWhereClause] simp: stmt_ok_def)

lemma safe_ParseStatement: "good ts \<Longrightarrow> safe stmt_ok (ParseStatement ts)"
  by (simp add: ParseStatement_def good_IsKeyword safe_got safe_ParseCreateTable safe_ParseInsert safe_ParseSelect safe_ParseDelete)

lemma safe_ExpectEndOfStatement: "good ts \<Longrightarrow> safe (\<lambda>_. True) (ExpectEndOfStatement ts)"
  by (auto simp: ExpectEndOfStatement_def good_Peek intro!: safe_and_then[OF safe_Advance])

definition where_tokens :: "Predicate \<Rightarrow> Token list" where
  "where_tokens wh =
     (if wh = [] then [] else token IDENTIFIER ''WHERE'' # sep_by (token IDENTIFIER ''AND'') comparison_tokens wh)"

fun stmt_tokens :: "Statement \<Rightarrow> Token list" where
  "stmt_tokens (CreateTableStmt n cols) =
     [token IDENTIFIER ''CREATE'', token IDENTIFIER ''TABLE'', token IDENTIFIER n, token LPAREN ''('']
     @ sep_by (token COMMA '','') column_tokens cols @ [token RPAREN '')'']"
| "stmt_tokens (InsertStmt n vs) =
     [token IDENTIFIER ''INSERT'', token IDENTIFIER ''INTO'', token IDENTIFIER n, token IDENTIFIER ''VALUES'', token LPAREN ''('']
     @ sep_by (token COMMA '','') value_tokens vs @ [token RPAREN '')'']"
| "stmt_tokens (SelectStmt n star cols wh) =
     token IDENTIFIER ''SELECT'' # (if star then [token STAR ''*''] else sep_by (token COMMA '','') name_tokens cols)
     @ [token IDENTIFIER ''FROM'', token IDENTIFIER n] @ where_tokens wh"
| "stmt_tokens (DeleteStmt n wh) =
     [token IDENTIFIER ''DELETE'', token IDENTIFIER ''FROM'', token IDENTIFIER n] @ where_tokens wh"

definition stmt_text :: "Statement \<Rightarrow> string" where
  "stmt_text s = print_tokens (stmt_tokens s)"

lemma ParseWhereClause_reads:
  assumes "list_all comparison_ok wh"
  shows "ParseWhereClause (where_tokens wh @ [token END []]) = Inr (wh, [token END []])"
  using where_loop.loop_reads[of wh "token END []" "[]" "[]"] assms
  by (simp add: ParseWhereClause_def where_tokens_def)

lemma ExpectKeyword_reads: "ToUpper kw = kw \<Longrightarrow> ExpectKeyword kw (token IDENTIFIER kw # rest) = Inr ((), rest)"
  by (simp add: ExpectKeyword_def)

lemma ParseProjection_reads:
  assumes "star \<longleftrightarrow> cols = []" "list_all is_ident cols"
  shows "ParseProjection ((if star then [token STAR ''*''] else sep_by (token COMMA '','') name_tokens cols) @ token IDENTIFIER s # rest)
    = Inr ((star, cols), token IDENTIFIER s # rest)"
proof (cases star)
  case False
  have "\<exists>c ts. sep_by (token COMMA '','') name_tokens cols = token IDENTIFIER c # ts"
    using assms(1) False by (cases cols; cases "tl cols") (auto simp: name_tokens_def)
  then show ?thesis
    using assms False names_loop.loop_reads[of cols "token IDENTIFIER s" "[]" rest] by (auto simp: ParseProjection_def)
qed (use assms in \<open>simp add: ParseProjection_def\<close>)

lemma ParseStatement_reads:
  "stmt_ok s \<Longrightarrow> ParseStatement (stmt_tokens s @ [token END []]) = Inr (s, [token END []])"
proof (cases s)
  case (CreateTableStmt n cols)
  assume "stmt_ok s"
  then show ?thesis
    using columns_loop.loop_reads[of cols "token RPAREN '')''" "[]" "[token END []]"] CreateTableStmt
    by (simp add: stmt_ok_def ParseStatement_def ParseCreateTable_def ExpectKeyword_reads)
next
  case (InsertStmt n vs)
  assume "stmt_ok s"
  then show ?thesis
    using values_loop.loop_reads[of vs "token RPAREN '')''" "[]" "[token END []]"] InsertStmt
    by (simp add: stmt_ok_def ParseStatement_def ParseInsert_def ExpectKeyword_reads)
next
  case (SelectStmt n star cols wh)
  assume "stmt_ok s"
  then show ?thesis
    using ParseProjection_reads[of star cols "''FROM''"] SelectStmt
    by (simp add: stmt_ok_def ParseStatement_def ParseSelect_def ExpectKeyword_reads ParseWhereClause_reads)
next
  case (DeleteStmt n wh)
  assume "stmt_ok s"
  then show ?thesis
    using DeleteStmt
    by (simp add: stmt_ok_def ParseStatement_def ParseDelete_def ExpectKeyword_reads ParseWhereClause_reads)
qed

lemma printable_simps:
  "is_ident s \<Longrightarrow> printable (token IDENTIFIER s)" "printable (token LPAREN ''('')" "printable (token RPAREN '')'')"
  "printable (token COMMA '','')" "printable (token STAR ''*'')" "printable (op_token op)"
  by (cases op; auto simp: printable_def punctuation_def op_token_def)+

lemma list_all_sep_by:
  "printable sep \<Longrightarrow> (\<And>x. P x \<Longrightarrow> list_all printable (f x)) \<Longrightarrow> list_all P xs \<Longrightarrow> list_all printable (sep_by sep f xs)"
  by (induction sep f xs rule: sep_by.induct) simp_all

lemma keyword_ident [simp]:
  "is_ident ''CREATE''" "is_ident ''TABLE''" "is_ident ''INSERT''" "is_ident ''INTO''" "is_ident ''VALUES''"
  "is_ident ''SELECT''" "is_ident ''FROM''" "is_ident ''WHERE''" "is_ident ''AND''" "is_ident ''DELETE''"
  "is_ident ''INTEGER''" "is_ident ''TEXT''"
  by (simp_all add: is_ident_def starts_identifier_def continues_identifier_def isalnum_def isalpha_def isupper_def less_eq_char_def)

lemma printable_values: "value_ok v \<Longrightarrow> list_all printable (value_tokens v)"
  by (cases v) (auto simp: value_ok_def value_tokens_def printable_def)

lemma printable_comparison: "comparison_ok c \<Longrightarrow> list_all printable (comparison_tokens c)"
  by (simp add: comparison_ok_def comparison_tokens_def name_tokens_def printable_simps printable_values)

lemma printable_column: "column_ok c \<Longrightarrow> list_all printable (column_tokens c)"
  by (cases "ca_type c") (simp_all add: column_ok_def column_tokens_def name_tokens_def printable_simps)

lemma printable_name: "is_ident s \<Longrightarrow> list_all printable (name_tokens s)"
  by (simp add: name_tokens_def printable_simps)

lemmas printable_lists =
  list_all_sep_by[OF printable_simps(1) printable_comparison] list_all_sep_by[OF printable_simps(4) printable_column]
  list_all_sep_by[OF printable_simps(4) printable_values] list_all_sep_by[OF printable_simps(4) printable_name]

lemma printable_where: "list_all comparison_ok wh \<Longrightarrow> list_all printable (where_tokens wh)"
  by (simp add: where_tokens_def printable_simps printable_lists)

lemma printable_stmt: "stmt_ok s \<Longrightarrow> list_all printable (stmt_tokens s)"
  by (cases s) (simp_all add: stmt_ok_def printable_simps printable_where printable_lists)

lemma Parse_stmt_text: "stmt_ok s \<Longrightarrow> Parser_Parse (stmt_text s) = Inr s"
  by (simp add: Parser_Parse_def stmt_text_def Lexer_round_trip printable_stmt ParseStatement_reads ExpectEndOfStatement_def)

lemma Parse_ok:
  "case Parser_Parse sql of Inl e \<Rightarrow> lex_error e | Inr s \<Rightarrow> stmt_ok s"
proof (cases "Lexer_Tokenize sql")
  case (Inl e)
  then show ?thesis
    using Lexer_Tokenize_ok[of sql] by (simp add: Parser_Parse_def lex_ok_def)
next
  case (Inr tokens)
  then have "good tokens"
    using Lexer_Tokenize_ok[of sql] by (simp add: lex_ok_def good_def)
  from safe_ParseStatement[OF this] show ?thesis
  proof (cases "ParseStatement tokens")
    case parsed: (Inr r)
    then show ?thesis
      using safe_ParseStatement[OF \<open>good tokens\<close>] safe_ExpectEndOfStatement[of "snd r"] Inr
      by (cases r) (auto simp: Parser_Parse_def safe_def lex_error_def and_then_def split: sum.splits)
  qed (auto simp: Parser_Parse_def Inr safe_def lex_error_def)
qed

section \<open>Integer literals that do not fit\<close>

text \<open>An integer literal that does not fit, for any number of digits.\<close>

lemma to_string_big:
  assumes "n > INT64_MAX"
  obtains c cs where "to_string n = c # cs" "isdigit c" "list_all isdigit cs" "stoll (c # cs) = Inl (OutOfRange ''stoll'')"
proof -
  have n: "to_string n = nat_to_string (nat n)" "0 \<le> n"
    using assms by (simp_all add: to_string_def INT64_MAX_def)
  obtain c cs where s: "nat_to_string (nat n) = c # cs"
    using nat_to_string_nonempty list.exhaust by blast
  then have d: "isdigit c" "list_all isdigit cs"
    using nat_to_string_digits[of _ "nat n"] by (auto simp: list_all_iff)
  have t: "takeWhile isdigit cs = cs"
    using d by (simp add: list_all_iff takeWhile_eq_all_conv)
  have "int (digits_value (c # cs)) = n"
    using nat_to_string_value[of "nat n"] s n by simp
  then have "stoll (c # cs) = Inl (OutOfRange ''stoll'')"
    using isdigit_classes[OF d(1)] assms d(1) by (simp add: stoll_def t is_int64_def)
  then show ?thesis
    using that d s n by simp
qed

lemma Tokenize_big: "n > INT64_MAX \<Longrightarrow> Tokenize_loop i (to_string n) tokens = Inl (OutOfRange ''stoll'')"
proof (erule to_string_big)
  fix c cs
  assume s: "to_string n = c # cs" "isdigit c" "list_all isdigit cs" "stoll (c # cs) = Inl (OutOfRange ''stoll'')"
  then have c: "starts_number c cs" and cs: "takeWhile isdigit cs = cs"
    by (simp_all add: starts_number_def takeWhile_eq_all_conv list_all_iff)
  show ?thesis
    using s(1,4) not_special_number[OF c] c by (simp add: Tokenize_loop.simps Tokenize_step_def cs)
qed

text \<open>
  An integer literal above the \<open>int64_t\<close> range does not raise the front end's own exception: the
  \<open>std::out_of_range\<close> of \<open>std::stoll\<close> escapes from the lexer, whatever tokens stand before the literal.
\<close>

lemma sql_literal_overflow:
  assumes "n > INT64_MAX" "list_all printable ts"
  shows "Parser_Parse (print_tokens ts @ to_string n) = Inl (OutOfRange ''stoll'')"
  using Tokenize_print_tokens[OF assms(2), of 0 "to_string n" "[]"] Tokenize_big[OF assms(1)]
  by (auto simp: Parser_Parse_def Lexer_Tokenize_def)

lemma sql_literal_overflow_example:
  "Parser_Parse (print_tokens (stmt_tokens (DeleteStmt ''t'' [])) @ to_string (2 ^ 63)) = Inl (OutOfRange ''stoll'')"
  by (rule sql_literal_overflow) (simp add: INT64_MAX_def, rule printable_stmt,
      simp add: stmt_ok_def is_ident_def starts_identifier_def isalpha_def islower_def less_eq_char_def)

section \<open>Properties\<close>

text \<open>
  C17. On every text the front end's lexer and parser end, never read past the token vector, and
  either throw a \<open>SqlException\<close> (or the \<open>std::out_of_range\<close> of \<open>std::stoll\<close>) or return a well-formed
  statement: names that are identifiers, \<open>int64_t\<close> numbers, quote-free strings, a \<open>CREATE TABLE\<close> with an
  INTEGER first column, a non-empty value list, a select list exactly when there is no star.
\<close>

theorem sql_parse_type: "case Parser_Parse sql of Inl e \<Rightarrow> lex_error e | Inr s \<Rightarrow> stmt_ok s"
  by (rule Parse_ok)

text \<open>
  C18. The parser reads back a printed statement exactly when the statement is well formed, so
  well-formed statements are precisely what the parser can return and no two of them share a text.
\<close>

theorem sql_round_trip: "stmt_ok s \<longleftrightarrow> Parser_Parse (stmt_text s) = Inr s"
  using Parse_stmt_text[of s] Parse_ok[of "stmt_text s"] by auto

definition demo_select :: Statement where
  "demo_select = SelectStmt ''users'' False [''id'', ''name'']
     [\<lparr>cmp_column = ''id'', cmp_op = GE, cmp_literal = IntV (- 5)\<rparr>, \<lparr>cmp_column = ''name'', cmp_op = EQ, cmp_literal = TextV ''Ada L.''\<rparr>]"

theorem sql_round_trip_witness: "stmt_ok demo_select \<and> Parser_Parse (stmt_text demo_select) = Inr demo_select"
proof -
  have "stmt_ok demo_select"
    by (simp add: demo_select_def stmt_ok_def comparison_ok_def value_ok_def is_ident_def no_quote_def QUOTE_def is_int64_def
        INVALID_KEY_def INT64_MAX_def starts_identifier_def continues_identifier_def isalnum_def isalpha_def islower_def less_eq_char_def)
  then show ?thesis
    using sql_round_trip[of demo_select] by simp
qed

end
