(* ===== verification/Page_Codec.thy ===== *)
theory Page_Codec
  imports Disk_Manager
begin

text \<open>
  How the program lays out its data in pages and records: integers in the little-endian
  two's-complement form of the target machines, structs as the concatenation of their fields with
  the padding the x86-64 ABI puts between them, arrays of structs one after the other, and
  characters as bytes. The code does all this with \<open>reinterpret_cast\<close> and \<open>memcpy\<close>; the lemmas are
  the round trips every page and record format below is built from.
\<close>

section \<open>Integers and strings as bytes\<close>

fun le_bytes :: "nat \<Rightarrow> int \<Rightarrow> byte list" where
  "le_bytes 0 x = []"
| "le_bytes (Suc n) x = of_int x # le_bytes n (x div 256)"

fun le_uint :: "byte list \<Rightarrow> int" where
  "le_uint [] = 0"
| "le_uint (b # bs) = uint b + 256 * le_uint bs"

definition le_sint :: "byte list \<Rightarrow> int" where
  "le_sint bs = (let u = le_uint bs in if 2 * u < 256 ^ length bs then u else u - 256 ^ length bs)"

definition byte_of_char :: "char \<Rightarrow> byte" where
  "byte_of_char c = of_nat (of_char c)"

definition char_of_byte :: "byte \<Rightarrow> char" where
  "char_of_byte b = char_of (unat b)"

definition bytes_of :: "string \<Rightarrow> byte list" where
  "bytes_of s = map byte_of_char s"

definition string_of :: "byte list \<Rightarrow> string" where
  "string_of bs = map char_of_byte bs"

text \<open>\<open>n\<close> bytes at an offset.\<close>

definition field :: "nat \<Rightarrow> nat \<Rightarrow> byte list \<Rightarrow> byte list" where
  "field off n bs = take n (drop off bs)"

text \<open>A struct handed to \<open>WritePage\<close>: the struct, then whatever bytes follow it in memory.\<close>

definition page_image :: "(nat \<Rightarrow> byte) \<Rightarrow> byte list \<Rightarrow> byte list" where
  "page_image slack bs = bs @ map slack [0..<PAGE_SIZE - length bs]"

section \<open>Round trips\<close>

named_theorems codec \<open>reading back what was laid out\<close>

lemma length_le_bytes [simp]: "length (le_bytes n x) = n"
  by (induction n arbitrary: x) auto

lemma le_uint_le_bytes [codec]: "le_uint (le_bytes n x) = x mod 256 ^ n"
proof (induction n arbitrary: x)
  case (Suc n)
  have "uint (of_int x :: byte) = x mod 256"
    by (simp add: uint_word_of_int)
  then show ?case
    using Suc zmod_zmult2_eq[of "256 ^ n" x 256] by simp
qed simp

lemma le_sint_le_bytes:
  assumes "- (256 ^ n) \<le> 2 * x" "2 * x < 256 ^ n"
  shows "le_sint (le_bytes n x) = x"
proof (cases "0 \<le> x")
  case True
  then have "x mod 256 ^ n = x"
    using assms by simp
  then show ?thesis
    using assms by (simp add: le_sint_def le_uint_le_bytes)
next
  case False
  have "x mod 256 ^ n = (x + 256 ^ n) mod 256 ^ n"
    by simp
  also have "\<dots> = x + 256 ^ n"
    using assms False by (intro mod_pos_pos_trivial) auto
  finally show ?thesis
    using assms by (simp add: le_sint_def le_uint_le_bytes Let_def)
qed

lemma le_sint_i64 [codec]: "is_int64 x \<Longrightarrow> le_sint (le_bytes 8 x) = x"
  by (rule le_sint_le_bytes) (auto simp: is_int64_def INVALID_KEY_def INT64_MAX_def)

lemma le_uint_small [codec]: "0 \<le> x \<Longrightarrow> x < 256 ^ n \<Longrightarrow> le_uint (le_bytes n x) = x"
  by (simp add: le_uint_le_bytes)

lemma char_byte [simp]: "char_of_byte (byte_of_char c) = c"
proof -
  have "of_char c < (256 :: nat)"
    by (rule nat_of_char_less_256)
  then have "unat (of_nat (of_char c) :: byte) = of_char c"
    by (simp add: unat_of_nat)
  then show ?thesis
    by (simp add: char_of_byte_def byte_of_char_def)
qed

lemma string_of_bytes_of [simp]: "string_of (bytes_of s) = s"
  by (simp add: string_of_def bytes_of_def comp_def)

lemma length_bytes_of [simp]: "length (bytes_of s) = length s"
  by (simp add: bytes_of_def)

lemma field_left [codec]: "off + n \<le> length xs \<Longrightarrow> field off n (xs @ ys) = field off n xs"
  by (simp add: field_def)

lemma field_right [codec]: "length xs \<le> off \<Longrightarrow> field off n (xs @ ys) = field (off - length xs) n ys"
  by (simp add: field_def)

lemma field_all [codec]: "length xs = n \<Longrightarrow> field 0 n xs = xs"
  by (simp add: field_def)

lemma field_field [codec]: "i + m \<le> n \<Longrightarrow> field i m (field off n bs) = field (off + i) m bs"
  by (simp add: field_def min_def add.commute drop_take)

lemma length_field [simp]: "off + n \<le> length bs \<Longrightarrow> length (field off n bs) = n"
  by (simp add: field_def)

lemma field_concat [codec]:
  assumes "\<And>e. e \<in> set es \<Longrightarrow> length (enc e) = sz" "i < length es"
  shows "field (sz * i) sz (concat (map enc es) @ rest) = enc (es ! i)"
  using assms
proof (induction es arbitrary: i)
  case (Cons e es)
  show ?case
  proof (cases i)
    case 0
    then show ?thesis
      using Cons.prems(1)[of e] by (simp add: field_def)
  next
    case (Suc j)
    have "field (sz * j) sz (concat (map enc es) @ rest) = enc (es ! j)"
      using Cons.prems Suc by (intro Cons.IH) auto
    then show ?thesis
      using Cons.prems(1)[of e] Suc by (simp add: field_def)
  qed
qed simp

lemma length_concat_map:
  "(\<And>e. e \<in> set es \<Longrightarrow> length (enc e) = sz) \<Longrightarrow> length (concat (map enc es)) = sz * length es"
  by (induction es) auto

lemma length_page_image [simp]: "length bs \<le> PAGE_SIZE \<Longrightarrow> length (page_image slack bs) = PAGE_SIZE"
  by (simp add: page_image_def)

end
