(* ===== verification/Sql_Catalog.thy ===== *)
theory Sql_Catalog
  imports Sql_Parser Page_Codec
begin

unbundle bit_operations_syntax

text \<open>
  \<^verbatim>\<open>src/src/sql/catalog.h\<close> and \<^verbatim>\<open>catalog.cpp\<close>: the table schemas, the encoding of a table id and a primary
  key into one 64-bit key of the storage engine, the encoding of the other columns of a row into
  the stored value, and the catalog with its 16-bit table counter. Keys are built with the
  machine's shifts and masks; the lemmas give them their arithmetic meaning.
\<close>

section \<open>Schemas\<close>

record ColumnDef =
  col_name :: string
  col_type :: ColumnType

record TableSchema =
  ts_name :: string
  ts_table_id :: "16 word"
  ts_columns :: "ColumnDef list"

fun ColumnIndex_loop :: "ColumnDef list \<Rightarrow> string \<Rightarrow> int \<Rightarrow> int" where
  "ColumnIndex_loop [] name i = - 1"
| "ColumnIndex_loop (c # cs) name i = (if col_name c = name then i else ColumnIndex_loop cs name (i + 1))"

definition ColumnIndex :: "TableSchema \<Rightarrow> string \<Rightarrow> int" where
  "ColumnIndex schema name = ColumnIndex_loop (ts_columns schema) name 0"

section \<open>Keys\<close>

definition kTableIdBits :: nat where
  "kTableIdBits = 16"

definition kRowKeyBits :: nat where
  "kRowKeyBits = 64 - kTableIdBits"

definition kMaxRowKey :: int where
  "kMaxRowKey = push_bit kRowKeyBits 1 - 1"

definition kMaxTables :: nat where
  "kMaxTables = push_bit kTableIdBits 1"

definition EncodeKey :: "16 word \<Rightarrow> int \<Rightarrow> KeyType" where
  "EncodeKey table_id pk =
     sint (push_bit kRowKeyBits (ucast table_id :: 64 word) OR (word_of_int pk AND word_of_int kMaxRowKey))"

definition DecodeRowKey :: "KeyType \<Rightarrow> int" where
  "DecodeRowKey key = sint ((word_of_int key :: 64 word) AND word_of_int kMaxRowKey)"

definition DecodeTableId :: "KeyType \<Rightarrow> 16 word" where
  "DecodeTableId key = ucast (drop_bit kRowKeyBits (word_of_int key :: 64 word) AND word_of_nat (kMaxTables - 1))"

section \<open>Rows\<close>

definition AppendInteger :: "string \<Rightarrow> int \<Rightarrow> string" where
  "AppendInteger out v = out @ string_of (le_bytes 8 v)"

definition AppendText :: "string \<Rightarrow> string \<Rightarrow> string result" where
  "AppendText out s =
     (if length s > 0xFFFF then Inl (SqlException ''TEXT value too long (max 65535 bytes)'')
      else Inr (out @ string_of (le_bytes 2 (int (length s))) @ s))"

definition ReadInteger :: "string \<Rightarrow> nat \<Rightarrow> (int \<times> nat) result" where
  "ReadInteger payload offset =
     (if offset + 8 > length payload then Inl (SqlException ''corrupt row: truncated INTEGER field'')
      else Inr (le_sint (bytes_of (take 8 (drop offset payload))), offset + 8))"

definition ReadText :: "string \<Rightarrow> nat \<Rightarrow> (string \<times> nat) result" where
  "ReadText payload offset =
     (if offset + 2 > length payload then Inl (SqlException ''corrupt row: truncated TEXT length prefix'')
      else let len = nat (le_uint (bytes_of (take 2 (drop offset payload)))); offset = offset + 2
           in if offset + len > length payload then Inl (SqlException ''corrupt row: truncated TEXT payload'')
              else Inr (take len (drop offset payload), offset + len))"

fun EncodeRow_loop :: "ColumnDef list \<Rightarrow> Value list \<Rightarrow> string \<Rightarrow> string result" where
  "EncodeRow_loop [] vals payload = Inr payload"
| "EncodeRow_loop (col # cols) [] payload = Inl (UndefinedBehaviour ''values[i] past the end'')"
| "EncodeRow_loop (col # cols) (v # vals) payload =
     (case col_type col of
        INTEGER \<Rightarrow>
          (case v of
             IntV x \<Rightarrow> EncodeRow_loop cols vals (AppendInteger payload x)
           | TextV _ \<Rightarrow> Inl (SqlException (''column '' @ quoted (col_name col) @ '' expects an INTEGER value'')))
      | TEXT \<Rightarrow>
          (case v of
             TextV s \<Rightarrow> and_then (AppendText payload s) (EncodeRow_loop cols vals)
           | IntV _ \<Rightarrow> Inl (SqlException (''column '' @ quoted (col_name col) @ '' expects a TEXT value''))))"

definition EncodeRow :: "TableSchema \<Rightarrow> Value list \<Rightarrow> string result" where
  "EncodeRow schema vals =
     (if length vals \<noteq> length (ts_columns schema) then
        Inl (SqlException (''expected '' @ to_string (int (length (ts_columns schema))) @ '' values for table '' @
          quoted (ts_name schema) @ '', got '' @ to_string (int (length vals))))
      else and_then (EncodeRow_loop (tl (ts_columns schema)) (tl vals) []) (\<lambda>payload.
        if length payload > MAX_VALUE_SIZE then
          Inl (SqlException (''row for table '' @ quoted (ts_name schema) @ '' is '' @ to_string (int (length payload)) @
            '' bytes, exceeding the '' @ to_string (int MAX_VALUE_SIZE) @ ''-byte row cap (see DESIGN.md '' @ EM_DASH @
            '' MAX_VALUE_SIZE is shared with the storage engines)''))
        else Inr payload))"

fun DecodeRow_loop :: "ColumnDef list \<Rightarrow> string \<Rightarrow> nat \<Rightarrow> Value list \<Rightarrow> Value list result" where
  "DecodeRow_loop [] payload offset vals = Inr vals"
| "DecodeRow_loop (col # cols) payload offset vals =
     (case col_type col of
        INTEGER \<Rightarrow> and_then (ReadInteger payload offset) (\<lambda>(x, offset). DecodeRow_loop cols payload offset (vals @ [IntV x]))
      | TEXT \<Rightarrow> and_then (ReadText payload offset) (\<lambda>(s, offset). DecodeRow_loop cols payload offset (vals @ [TextV s])))"

definition DecodeRow :: "TableSchema \<Rightarrow> int \<Rightarrow> string \<Rightarrow> Value list result" where
  "DecodeRow schema primary_key payload = DecodeRow_loop (tl (ts_columns schema)) payload 0 [IntV primary_key]"

section \<open>The catalog\<close>

record Catalog =
  cat_tables :: "(string \<times> TableSchema) list"
  cat_next_id :: "16 word"

definition Catalog_init :: Catalog where
  "Catalog_init = \<lparr>cat_tables = [], cat_next_id = 0\<rparr>"

definition Catalog_CreateTable :: "string \<Rightarrow> ColumnDefAst list \<Rightarrow> Catalog \<Rightarrow> TableSchema result \<times> Catalog" where
  "Catalog_CreateTable name columns cat =
     (if map_of (cat_tables cat) name \<noteq> None then (Inl (SqlException (''table '' @ quoted name @ '' already exists'')), cat)
      else if unat (cat_next_id cat) \<ge> kMaxTables then (Inl (SqlException ''table id space exhausted''), cat)
      else let schema = \<lparr>ts_name = name, ts_table_id = cat_next_id cat,
                         ts_columns = map (\<lambda>c. \<lparr>col_name = ca_name c, col_type = ca_type c\<rparr>) columns\<rparr>
           in (Inr schema, cat\<lparr>cat_tables := cat_tables cat @ [(name, schema)], cat_next_id := cat_next_id cat + 1\<rparr>))"

definition Catalog_GetTable :: "string \<Rightarrow> Catalog \<Rightarrow> TableSchema result" where
  "Catalog_GetTable name cat =
     (case map_of (cat_tables cat) name of
        None \<Rightarrow> Inl (SqlException (''no such table: '' @ quoted name))
      | Some schema \<Rightarrow> Inr schema)"

definition Catalog_HasTable :: "string \<Rightarrow> Catalog \<Rightarrow> bool" where
  "Catalog_HasTable name cat \<longleftrightarrow> map_of (cat_tables cat) name \<noteq> None"

section \<open>Arithmetic of keys\<close>

lemma key_consts: "kRowKeyBits = 48" "kMaxRowKey = 2 ^ 48 - 1" "kMaxTables = 65536"
  by (simp_all add: kRowKeyBits_def kTableIdBits_def kMaxRowKey_def kMaxTables_def push_bit_eq_mult)

lemma signed_of_mod:
  fixes x :: int
  assumes "- M \<le> x" "x < M" "u = x mod N" "N = 2 * M"
  shows "x = (if u < M then u else u - N)"
proof (cases "0 \<le> x")
  case True
  then show ?thesis
    using assms by simp
next
  case False
  then have "x mod N = x + N"
    using assms mod_pos_pos_trivial[of "x + N" N] by simp
  then show ?thesis
    using assms False by simp
qed

lemma sint_64: "sint (w :: 64 word) = (if uint w < 2 ^ 63 then uint w else uint w - 2 ^ 64)"
  using uint_sint[of w] sint_range_size[of w] by (intro signed_of_mod) (simp_all add: take_bit_eq_mod word_size)

lemma sint_16: "sint (w :: 16 word) = (if uint w < 2 ^ 15 then uint w else uint w - 2 ^ 16)"
  using uint_sint[of w] sint_range_size[of w] by (intro signed_of_mod) (simp_all add: take_bit_eq_mod word_size)

lemma uint_row_key: "uint (word_of_int pk AND (word_of_int kMaxRowKey :: 64 word)) = pk mod 2 ^ 48"
proof -
  have "word_of_int kMaxRowKey = (mask 48 :: 64 word)"
    by (simp add: key_consts mask_eq_exp_minus_1)
  then have "word_of_int pk AND (word_of_int kMaxRowKey :: 64 word) = take_bit 48 (word_of_int pk)"
    by (simp add: take_bit_eq_mask)
  then have "uint (word_of_int pk AND (word_of_int kMaxRowKey :: 64 word)) = take_bit 48 (take_bit 64 pk)"
    by (simp only: unsigned_take_bit_eq uint_word_of_int_eq) simp
  then show ?thesis
    by (simp add: take_bit_eq_mod mod_mod_cancel)
qed

lemma uint_EncodeKey:
  "uint (push_bit 48 (ucast t :: 64 word) OR (word_of_int pk AND word_of_int kMaxRowKey)) = uint (t :: 16 word) * 2 ^ 48 + pk mod 2 ^ 48"
proof -
  have t: "0 \<le> uint t" "uint t < 2 ^ 16"
    using uint_lt2p[of t] by simp_all
  have "uint (push_bit 48 (ucast t :: 64 word)) = push_bit 48 (uint t)"
    using t by (subst unsigned_push_bit_eq) (simp add: unsigned_ucast_eq take_bit_eq_mod push_bit_eq_mult)
  moreover have "push_bit 48 (uint t) OR pk mod 2 ^ 48 = uint t * 2 ^ 48 + pk mod 2 ^ 48"
    using concat_bit_eq[of 48 pk "uint t"] by (simp add: concat_bit_def or.commute take_bit_eq_mod push_bit_eq_mult)
  ultimately show ?thesis
    by (simp only: unsigned_or_eq uint_row_key)
qed

lemma EncodeKey_eq: "EncodeKey t pk = sint t * 2 ^ 48 + pk mod 2 ^ 48"
proof -
  define r :: int where "r = pk mod 281474976710656"
  have "0 \<le> r" "r < 2 ^ 48" "0 \<le> uint t" "uint t < 2 ^ 16"
    using uint_lt2p[of t] by (simp_all add: r_def)
  then show ?thesis
    by (simp add: EncodeKey_def key_consts(1) sint_64 sint_16 uint_EncodeKey flip: r_def)
qed

lemma DecodeRowKey_eq: "DecodeRowKey key = key mod 2 ^ 48"
proof -
  define r :: int where "r = key mod 281474976710656"
  have "0 \<le> r" "r < 2 ^ 48"
    by (simp_all add: r_def)
  then show ?thesis
    by (simp add: DecodeRowKey_def sint_64 uint_row_key flip: r_def)
qed

lemma DecodeTableId_eq: "DecodeTableId key = word_of_int (key div 2 ^ 48)"
proof (rule word_uint_eqI)
  have m: "word_of_nat (kMaxTables - 1) = (mask 16 :: 64 word)"
    by (simp add: key_consts mask_eq_exp_minus_1)
  have "uint (DecodeTableId key) = take_bit 16 (drop_bit 48 (take_bit 64 key))"
    unfolding DecodeTableId_def m key_consts(1) take_bit_eq_mask[symmetric]
    by (simp add: unsigned_ucast_eq unsigned_take_bit_eq unsigned_drop_bit_eq uint_word_of_int_eq)
  also have "\<dots> = uint (word_of_int (key div 2 ^ 48) :: 16 word)"
    by (subst drop_bit_take_bit) (simp add: drop_bit_eq_div unsigned_of_int)
  finally show "uint (DecodeTableId key) = uint (word_of_int (key div 2 ^ 48) :: 16 word)" .
qed

lemma row_key_range: "0 \<le> pk \<and> pk \<le> kMaxRowKey \<longleftrightarrow> 0 \<le> pk \<and> pk < 2 ^ 48"
  by (auto simp: key_consts)

lemma EncodeKey_int64: "is_int64 (EncodeKey t pk)"
proof -
  define r :: int where "r = pk mod 281474976710656"
  have "0 \<le> r" "r < 2 ^ 48" "- (2 ^ 15) \<le> sint t" "sint t < 2 ^ 15"
    using sint_range_size[of t] by (simp_all add: word_size r_def)
  then show ?thesis
    by (simp add: EncodeKey_eq is_int64_def INVALID_KEY_def INT64_MAX_def flip: r_def)
qed

lemma DecodeTableId_EncodeKey [simp]: "DecodeTableId (EncodeKey t pk) = t"
  by (simp add: DecodeTableId_eq EncodeKey_eq)

lemma DecodeRowKey_EncodeKey: "DecodeRowKey (EncodeKey t pk) = pk mod 2 ^ 48"
  by (simp add: DecodeRowKey_eq EncodeKey_eq)

lemma EncodeKey_Decode: "is_int64 key \<Longrightarrow> EncodeKey (DecodeTableId key) (DecodeRowKey key) = key"
proof -
  assume "is_int64 key"
  then have r: "- 32768 \<le> key div 2 ^ 48" "key div 2 ^ 48 < 32768"
    by (auto simp: is_int64_def INVALID_KEY_def INT64_MAX_def)
  then have "sint (DecodeTableId key) = key div 2 ^ 48"
    by (simp add: DecodeTableId_eq signed_of_int signed_take_bit_int_eq_self)
  then show ?thesis
    by (simp add: EncodeKey_eq DecodeRowKey_eq)
qed

lemma DecodeRowKey_range: "0 \<le> DecodeRowKey k" "DecodeRowKey k \<le> kMaxRowKey"
  by (simp_all add: DecodeRowKey_eq key_consts)

lemma DecodeRowKey_in_range: "0 \<le> pk \<Longrightarrow> pk \<le> kMaxRowKey \<Longrightarrow> DecodeRowKey (EncodeKey t pk) = pk"
  by (simp add: DecodeRowKey_EncodeKey key_consts)

lemma EncodeKey_less: "0 \<le> pk \<Longrightarrow> pk < pk' \<Longrightarrow> pk' \<le> kMaxRowKey \<Longrightarrow> EncodeKey t pk < EncodeKey t pk'"
  by (simp add: EncodeKey_eq key_consts)

section \<open>Rows survive encoding\<close>

definition value_type :: "Value \<Rightarrow> ColumnType" where
  "value_type v = (case v of IntV _ \<Rightarrow> INTEGER | TextV _ \<Rightarrow> TEXT)"

definition int_ok :: "Value \<Rightarrow> bool" where
  "int_ok v \<longleftrightarrow> (case v of IntV x \<Rightarrow> is_int64 x | TextV _ \<Rightarrow> True)"

text \<open>A row of a table: one value of the column's type per column.\<close>

definition row_typed :: "ColumnDef list \<Rightarrow> Value list \<Rightarrow> bool" where
  "row_typed cols row \<longleftrightarrow> list_all2 (\<lambda>c v. col_type c = value_type v) cols row"

lemma value_type_simps [simp]: "value_type (IntV x) = INTEGER" "value_type (TextV s) = TEXT"
  by (simp_all add: value_type_def)

lemma row_typed_simps [simp]:
  "row_typed [] row \<longleftrightarrow> row = []" "row_typed cols [] \<longleftrightarrow> cols = []"
  "row_typed (c # cols) (v # row) \<longleftrightarrow> col_type c = value_type v \<and> row_typed cols row"
  by (simp_all add: row_typed_def)

lemma byte_char [simp]: "byte_of_char (char_of_byte b) = b"
proof -
  have "unat b < 256"
    using unsigned_less[of b] by simp
  then show ?thesis
    by (simp add: byte_of_char_def char_of_byte_def)
qed

lemma bytes_of_string_of [simp]: "bytes_of (string_of bs) = bs"
  by (simp add: bytes_of_def string_of_def comp_def)

lemma length_string_of [simp]: "length (string_of bs) = length bs"
  by (simp add: string_of_def)

lemma ReadInteger_reads:
  "is_int64 x \<Longrightarrow> ReadInteger (pre @ string_of (le_bytes 8 x) @ suf) (length pre) = Inr (x, length pre + 8)"
  by (simp add: ReadInteger_def codec)

lemma ReadText_reads:
  "length s \<le> 0xFFFF \<Longrightarrow>
   ReadText (pre @ string_of (le_bytes 2 (int (length s))) @ s @ suf) (length pre) = Inr (s, length pre + 2 + length s)"
  by (simp add: ReadText_def codec)

lemma EncodeRow_loop_reads:
  assumes "EncodeRow_loop cols vals p = Inr p'" "length vals = length cols" "list_all int_ok vals"
  shows "\<exists>q. p' = p @ q \<and> (\<forall>pre suf acc. DecodeRow_loop cols (pre @ q @ suf) (length pre) acc = Inr (acc @ vals))"
  using assms
proof (induction cols vals p rule: EncodeRow_loop.induct)
  case (1 vals p)
  then show ?case
    by simp
next
  case (3 col cols v vals p)
  show ?case
  proof (cases v)
    case (IntV x)
    then have t: "col_type col = INTEGER"
      using 3(3) by (auto split: ColumnType.splits)
    let ?b = "string_of (le_bytes 8 x)"
    obtain q where "p' = (p @ ?b) @ q" "\<forall>pre suf acc. DecodeRow_loop cols (pre @ q @ suf) (length pre) acc = Inr (acc @ vals)"
      using 3(1)[OF t IntV] 3(3-) t IntV by (auto simp: AppendInteger_def)
    moreover from this(2) have "DecodeRow_loop (col # cols) (pre @ (?b @ q) @ suf) (length pre) acc = Inr (acc @ v # vals)" for pre suf acc
      using ReadInteger_reads[of x pre "q @ suf"] 3(5) t IntV spec[where x = "pre @ ?b", OF calculation(2)] by (simp add: int_ok_def)
    ultimately show ?thesis
      by (intro exI[of _ "?b @ q"]) simp
  next
    case (TextV s)
    then have t: "col_type col = TEXT"
      using 3(3) by (auto split: ColumnType.splits)
    let ?b = "string_of (le_bytes 2 (int (length s))) @ s"
    have s: "length s \<le> 0xFFFF" and e: "EncodeRow_loop cols vals (p @ ?b) = Inr p'"
      using 3(3) t TextV by (auto simp: AppendText_def split: if_splits)
    obtain q where "p' = (p @ ?b) @ q" "\<forall>pre suf acc. DecodeRow_loop cols (pre @ q @ suf) (length pre) acc = Inr (acc @ vals)"
      using 3(2)[OF t TextV, of "p @ ?b"] e s 3(4,5) by (auto simp: AppendText_def)
    moreover from this(2) have "DecodeRow_loop (col # cols) (pre @ (?b @ q) @ suf) (length pre) acc = Inr (acc @ v # vals)" for pre suf acc
      using ReadText_reads[OF s, of pre "q @ suf"] t TextV spec[where x = "pre @ ?b", OF calculation(2)] by simp
    ultimately show ?thesis
      by (intro exI[of _ "?b @ q"]) simp
  qed
qed simp

lemma EncodeRow_loop_typed: "EncodeRow_loop cols vals p = Inr p' \<Longrightarrow> length vals = length cols \<Longrightarrow> row_typed cols vals"
  by (induction cols vals p rule: EncodeRow_loop.induct)
    (auto simp: and_then_eq_Inr split: ColumnType.splits Value.splits)

text \<open>What \<open>EncodeRow\<close> accepts, and that \<open>DecodeRow\<close> gives it back.\<close>

lemma EncodeRow_ok:
  assumes "EncodeRow schema vals = Inr payload" "list_all int_ok vals"
  shows "length payload \<le> MAX_VALUE_SIZE" "length vals = length (ts_columns schema)"
    "row_typed (tl (ts_columns schema)) (tl vals)" "DecodeRow schema pk payload = Inr (IntV pk # tl vals)"
proof -
  have l: "length vals = length (ts_columns schema)" and p: "length payload \<le> MAX_VALUE_SIZE"
    and e: "EncodeRow_loop (tl (ts_columns schema)) (tl vals) [] = Inr payload"
    using assms(1) by (auto simp: EncodeRow_def and_then_eq_Inr split: if_splits)
  have "list_all int_ok (tl vals)"
    using assms(2) by (cases vals) simp_all
  from EncodeRow_loop_reads[OF e _ this] l
  have d: "\<forall>pre suf acc. DecodeRow_loop (tl (ts_columns schema)) (pre @ payload @ suf) (length pre) acc = Inr (acc @ tl vals)"
    by simp
  show "length vals = length (ts_columns schema)" "length payload \<le> MAX_VALUE_SIZE"
    "row_typed (tl (ts_columns schema)) (tl vals)" "DecodeRow schema pk payload = Inr (IntV pk # tl vals)"
    using l p EncodeRow_loop_typed[OF e] d[rule_format, of "[]" "[]" "[IntV pk]"] by (simp_all add: DecodeRow_def)
qed

lemma EncodeRow_loop_errors:
  "length vals = length cols \<Longrightarrow> EncodeRow_loop cols vals p = Inl e \<Longrightarrow> \<exists>msg. e = SqlException msg"
  by (induction cols vals p rule: EncodeRow_loop.induct)
    (auto simp: and_then_eq_Inl AppendText_def split: ColumnType.splits Value.splits if_splits)

lemma EncodeRow_errors: "EncodeRow schema vals = Inl e \<Longrightarrow> \<exists>msg. e = SqlException msg"
  using EncodeRow_loop_errors[of "tl vals" "tl (ts_columns schema)" "[]" e]
  by (auto simp: EncodeRow_def and_then_eq_Inl split: if_splits)

section \<open>The catalog invariant\<close>

text \<open>Tables in the order of their creation, numbered from zero, while the ids do not wrap.\<close>

definition schema_ok :: "TableSchema \<Rightarrow> bool" where
  "schema_ok s \<longleftrightarrow> ts_columns s \<noteq> [] \<and> col_type (hd (ts_columns s)) = INTEGER"

definition catalog_inv :: "Catalog \<Rightarrow> bool" where
  "catalog_inv cat \<longleftrightarrow>
     distinct_keys (cat_tables cat) \<and> length (cat_tables cat) \<le> kMaxTables \<and>
     cat_next_id cat = of_nat (length (cat_tables cat)) \<and>
     (\<forall>i < length (cat_tables cat). ts_table_id (snd (cat_tables cat ! i)) = of_nat i) \<and>
     (\<forall>(name, schema) \<in> set (cat_tables cat). ts_name schema = name \<and> schema_ok schema)"

definition ast_schema :: "ColumnDefAst list \<Rightarrow> ColumnDef list" where
  "ast_schema columns = map (\<lambda>c. \<lparr>col_name = ca_name c, col_type = ca_type c\<rparr>) columns"

lemma catalog_inv_init [inv_intros]: "catalog_inv Catalog_init"
  by (simp add: catalog_inv_def Catalog_init_def)

lemma small_id_inj: "i < 65536 \<Longrightarrow> j < 65536 \<Longrightarrow> (of_nat i :: 16 word) = of_nat j \<longleftrightarrow> i = j"
  by (simp add: word_of_nat_eq_iff take_bit_eq_mod)

text \<open>Two tables of the catalog never share an id.\<close>

lemma catalog_ids:
  assumes "catalog_inv cat" "map_of (cat_tables cat) n = Some s" "map_of (cat_tables cat) n' = Some s'"
    "ts_table_id s = ts_table_id s'"
  shows "n = n'"
proof -
  obtain i j where ij: "i < length (cat_tables cat)" "cat_tables cat ! i = (n, s)" "j < length (cat_tables cat)" "cat_tables cat ! j = (n', s')"
    using map_of_SomeD[OF assms(2)] map_of_SomeD[OF assms(3)] by (auto simp: in_set_conv_nth)
  have id: "\<forall>i < length (cat_tables cat). ts_table_id (snd (cat_tables cat ! i)) = of_nat i" "length (cat_tables cat) \<le> 65536"
    using assms(1) by (simp_all add: catalog_inv_def key_consts)
  have "(of_nat i :: 16 word) = of_nat j"
    using id(1)[rule_format, OF ij(1)] id(1)[rule_format, OF ij(3)] ij assms(4) by simp
  then have "i = j"
    using ij id(2) by (simp add: small_id_inj)
  then show ?thesis
    using ij by simp
qed

lemma CreateTable_ok:
  assumes "catalog_inv cat" "length (cat_tables cat) < kMaxTables" "columns \<noteq> []" "ca_type (hd columns) = INTEGER"
    "map_of (cat_tables cat) name = None"
  obtains schema cat' where "Catalog_CreateTable name columns cat = (Inr schema, cat')" "catalog_inv cat'"
    "ts_columns schema = ast_schema columns" "map_of (cat_tables cat') = (map_of (cat_tables cat))(name \<mapsto> schema)"
    "length (cat_tables cat') = Suc (length (cat_tables cat))"
proof -
  define schema where "schema = \<lparr>ts_name = name, ts_table_id = cat_next_id cat, ts_columns = ast_schema columns\<rparr>"
  define cat' where "cat' = cat\<lparr>cat_tables := cat_tables cat @ [(name, schema)], cat_next_id := cat_next_id cat + 1\<rparr>"
  have id: "unat (cat_next_id cat) < kMaxTables"
    using unsigned_less[of "cat_next_id cat"] by (simp add: key_consts)
  have c: "Catalog_CreateTable name columns cat = (Inr schema, cat')"
    using id assms(5) by (simp add: Catalog_CreateTable_def schema_def cat'_def ast_schema_def Let_def)
  have s: "schema_ok schema"
    using assms(3,4) by (cases columns) (simp_all add: schema_def schema_ok_def ast_schema_def)
  have "catalog_inv cat'"
    using assms(1,2,5) s by (auto simp: catalog_inv_def cat'_def nth_append map_of_eq_None_iff less_Suc_eq schema_def)
  then show ?thesis
    using that[OF c] assms(5) by (auto simp: cat'_def schema_def map_add_def map_of_append fun_eq_iff split: option.split)
qed

text \<open>
  With all ids given out, the guard on the id space still passes: the 16-bit counter has wrapped to
  zero, so the next table shares its keys with the first one.
\<close>

lemma table_id_wraps:
  assumes "catalog_inv cat" "length (cat_tables cat) = kMaxTables" "map_of (cat_tables cat) name = None"
  shows "\<exists>schema cat'. Catalog_CreateTable name columns cat = (Inr schema, cat') \<and>
    ts_table_id schema = ts_table_id (snd (hd (cat_tables cat)))"
proof -
  have "cat_next_id cat = of_nat 65536"
    using assms(1,2) unfolding catalog_inv_def key_consts by simp
  then have "cat_next_id cat = 0"
    by (simp add: word_of_nat_eq_0_iff)
  moreover have "ts_table_id (snd (cat_tables cat ! 0)) = 0"
    using assms(1,2) unfolding catalog_inv_def key_consts by auto
  moreover have "cat_tables cat \<noteq> []"
    using assms(2) by (auto simp: key_consts)
  ultimately show ?thesis
    using assms(3) by (simp add: Catalog_CreateTable_def Let_def key_consts hd_conv_nth)
qed

section \<open>Properties\<close>

text \<open>
  C19. The key encoding multiplexes the tables over the 64-bit key space without collisions: every
  encoded key is an \<open>int64_t\<close>, table id and primary key can be read back from it, every \<open>int64_t\<close> is the
  key of exactly one pair of a table and a primary key in \<open>[0, kMaxRowKey]\<close>, and within a table
  keys are ordered as primary keys, also for the ids whose keys are negative numbers.
\<close>

theorem sql_key_space:
  "is_int64 (EncodeKey t pk) \<and> DecodeTableId (EncodeKey t pk) = t \<and>
   (0 \<le> pk \<and> pk \<le> kMaxRowKey \<longrightarrow> DecodeRowKey (EncodeKey t pk) = pk) \<and>
   0 \<le> DecodeRowKey k \<and> DecodeRowKey k \<le> kMaxRowKey \<and>
   (is_int64 k \<longrightarrow> EncodeKey (DecodeTableId k) (DecodeRowKey k) = k) \<and>
   (0 \<le> pk \<and> pk < pk' \<and> pk' \<le> kMaxRowKey \<longrightarrow> EncodeKey t pk < EncodeKey t pk')"
  using DecodeRowKey_range[of k] by (simp add: EncodeKey_int64 DecodeRowKey_in_range EncodeKey_Decode EncodeKey_less)

theorem sql_key_space_witness:
  "DecodeRowKey (EncodeKey 40000 77) = 77 \<and> EncodeKey (DecodeTableId (- 3)) (DecodeRowKey (- 3)) = - 3 \<and>
   EncodeKey 40000 77 < EncodeKey 40000 kMaxRowKey"
proof -
  have "is_int64 (- 3)"
    by (simp add: is_int64_def INVALID_KEY_def INT64_MAX_def)
  then show ?thesis
    using sql_key_space[of 40000 77 "- 3" kMaxRowKey] by (simp add: key_consts)
qed

text \<open>
  C20. A row survives storage: whenever \<open>EncodeRow\<close> accepts the values of a row, the stored value fits the
  engines' limit, there is one value of the right type per column, and \<open>DecodeRow\<close> returns the
  values with the primary key it is given.
\<close>

theorem sql_row_round_trip:
  assumes "EncodeRow schema vals = Inr payload" "list_all int_ok vals"
  shows "length payload \<le> MAX_VALUE_SIZE \<and> row_typed (tl (ts_columns schema)) (tl vals) \<and>
    DecodeRow schema pk payload = Inr (IntV pk # tl vals)"
  using EncodeRow_ok[OF assms] by simp

definition demo_schema :: TableSchema where
  "demo_schema = \<lparr>ts_name = ''users'', ts_table_id = 3, ts_columns =
     [\<lparr>col_name = ''id'', col_type = INTEGER\<rparr>, \<lparr>col_name = ''name'', col_type = TEXT\<rparr>, \<lparr>col_name = ''age'', col_type = INTEGER\<rparr>]\<rparr>"

theorem sql_row_round_trip_witness:
  "\<exists>payload. EncodeRow demo_schema [IntV 7, TextV ''Ada'', IntV (- 36)] = Inr payload \<and> length payload = 13 \<and>
     DecodeRow demo_schema 7 payload = Inr [IntV 7, TextV ''Ada'', IntV (- 36)]"
proof -
  let ?vals = "[IntV 7, TextV ''Ada'', IntV (- 36)]"
  obtain p where p: "EncodeRow demo_schema ?vals = Inr p" "length p = 13"
    by (simp add: EncodeRow_def demo_schema_def AppendText_def AppendInteger_def MAX_VALUE_SIZE_def)
  have "list_all int_ok ?vals"
    by (simp add: int_ok_def is_int64_def INVALID_KEY_def INT64_MAX_def)
  from sql_row_round_trip[OF p(1) this, of 7] p show ?thesis
    by simp
qed

end
