(* ===== verification/Sql_Planner.thy ===== *)
theory Sql_Planner
  imports Sql_Catalog
begin

text \<open>
  \<^verbatim>\<open>src/src/sql/planner.cpp\<close> and the predicate evaluation of \<^verbatim>\<open>executor.cpp\<close>: how a \<open>WHERE\<close> clause becomes a
  point lookup, a range scan or a full scan with a residual predicate. Values get a linear order,
  which is what the comparisons of the code mean on values of one type; the lemmas show that the
  access path together with the residual accepts exactly the rows the clause accepts.
\<close>

section \<open>The order of values\<close>

instantiation Value :: linorder
begin

fun less_eq_Value :: "Value \<Rightarrow> Value \<Rightarrow> bool" where
  "less_eq_Value (IntV x) (IntV y) \<longleftrightarrow> x \<le> y"
| "less_eq_Value (TextV x) (TextV y) \<longleftrightarrow> x \<le> y"
| "less_eq_Value (IntV _) (TextV _) \<longleftrightarrow> True"
| "less_eq_Value (TextV _) (IntV _) \<longleftrightarrow> False"

definition less_Value :: "Value \<Rightarrow> Value \<Rightarrow> bool" where
  "less_Value x y \<longleftrightarrow> x \<le> y \<and> \<not> y \<le> x"

instance
proof
  fix x y z :: Value
  show "x < y \<longleftrightarrow> x \<le> y \<and> \<not> y \<le> x"
    by (rule less_Value_def)
  show "x \<le> x"
    by (cases x) simp_all
  show "x \<le> y \<Longrightarrow> y \<le> z \<Longrightarrow> x \<le> z"
    by (cases x; cases y; cases z) simp_all
  show "x \<le> y \<Longrightarrow> y \<le> x \<Longrightarrow> x = y"
    by (cases x; cases y) simp_all
  show "x \<le> y \<or> y \<le> x"
    by (cases x; cases y) auto
qed

end

lemma less_Value_simps [simp]:
  "IntV x < IntV y \<longleftrightarrow> x < y" "TextV s < TextV t \<longleftrightarrow> s < t"
  by (auto simp: less_Value_def)

section \<open>Evaluating predicates\<close>

text \<open>\<open>v[i]\<close> of a vector, undefined outside of it.\<close>

definition vec_at :: "'a list \<Rightarrow> int \<Rightarrow> 'a result" where
  "vec_at xs i = (if 0 \<le> i \<and> nat i < length xs then Inr (xs ! nat i) else Inl (UndefinedBehaviour ''index out of range''))"

definition CompareOpMatches :: "CompareOp \<Rightarrow> int \<Rightarrow> bool" where
  "CompareOpMatches op cmp =
     (case op of EQ \<Rightarrow> cmp = 0 | LT \<Rightarrow> cmp < 0 | LE \<Rightarrow> cmp \<le> 0 | GT \<Rightarrow> cmp > 0 | GE \<Rightarrow> cmp \<ge> 0)"

fun MatchesPredicate :: "TableSchema \<Rightarrow> Value list \<Rightarrow> Predicate \<Rightarrow> bool result" where
  "MatchesPredicate schema row [] = Inr True"
| "MatchesPredicate schema row (cmp # cmps) =
     (let idx = ColumnIndex schema (cmp_column cmp)
      in if idx < 0 then Inr False
         else and_then (vec_at row idx) (\<lambda>v.
              and_then (CompareValues v (cmp_literal cmp)) (\<lambda>r.
                if \<not> CompareOpMatches (cmp_op cmp) r then Inr False
                else MatchesPredicate schema row cmps)))"

section \<open>The planner\<close>

datatype AccessPathType = POINT_LOOKUP | RANGE_SCAN | FULL_SCAN

record Plan =
  access_path :: AccessPathType
  point_key :: int
  range_lo :: int
  range_hi :: int
  residual :: Predicate

definition Plan_default :: Plan where
  "Plan_default = \<lparr>access_path = FULL_SCAN, point_key = 0, range_lo = 0, range_hi = INT64_MAX, residual = []\<rparr>"

definition ValidateComparison :: "TableSchema \<Rightarrow> Comparison \<Rightarrow> unit result" where
  "ValidateComparison schema cmp =
     (let idx = ColumnIndex schema (cmp_column cmp)
      in if idx < 0 then
           Inl (SqlException (''no such column: '' @ quoted (cmp_column cmp) @ '' on table '' @ quoted (ts_name schema)))
         else and_then (vec_at (ts_columns schema) idx) (\<lambda>col.
           if (col_type col = INTEGER) \<noteq> (case cmp_literal cmp of IntV _ \<Rightarrow> True | TextV _ \<Rightarrow> False)
           then Inl (SqlException (''type mismatch comparing column '' @ quoted (cmp_column cmp)))
           else Inr ()))"

fun ValidateAll :: "TableSchema \<Rightarrow> Predicate \<Rightarrow> unit result" where
  "ValidateAll schema [] = Inr ()"
| "ValidateAll schema (cmp # cmps) = and_then (ValidateComparison schema cmp) (\<lambda>_. ValidateAll schema cmps)"

text \<open>\<open>std::get<int64_t>\<close>.\<close>

definition get_int :: "Value \<Rightarrow> int result" where
  "get_int v = (case v of IntV x \<Rightarrow> Inr x | TextV _ \<Rightarrow> Inl BadVariantAccess)"

text \<open>Pass 1: the first equality on the primary key, with all the other comparisons.\<close>

fun Plan_point :: "string \<Rightarrow> Predicate \<Rightarrow> Predicate \<Rightarrow> (int \<times> Predicate) option result" where
  "Plan_point pk_name seen [] = Inr None"
| "Plan_point pk_name seen (cmp # cmps) =
     (if cmp_column cmp = pk_name \<and> cmp_op cmp = EQ
      then and_then (get_int (cmp_literal cmp)) (\<lambda>v. Inr (Some (v, seen @ cmps)))
      else Plan_point pk_name (seen @ [cmp]) cmps)"

text \<open>Pass 2: the intersection of the bounds on the primary key, and whether there was one.\<close>

fun Plan_bounds :: "string \<Rightarrow> Predicate \<Rightarrow> int \<Rightarrow> int \<Rightarrow> bool \<Rightarrow> (int \<times> int \<times> bool) result" where
  "Plan_bounds pk_name [] lo hi found = Inr (lo, hi, found)"
| "Plan_bounds pk_name (cmp # cmps) lo hi found =
     (if cmp_column cmp \<noteq> pk_name then Plan_bounds pk_name cmps lo hi found
      else and_then (get_int (cmp_literal cmp)) (\<lambda>v.
        case cmp_op cmp of
          LT \<Rightarrow> Plan_bounds pk_name cmps lo (min hi (if v = INVALID_KEY then v else v - 1)) True
        | LE \<Rightarrow> Plan_bounds pk_name cmps lo (min hi v) True
        | GT \<Rightarrow> Plan_bounds pk_name cmps (max lo (if v = INT64_MAX then v else v + 1)) hi True
        | GE \<Rightarrow> Plan_bounds pk_name cmps (max lo v) hi True
        | EQ \<Rightarrow> Plan_bounds pk_name cmps lo hi found))"

definition PlanQuery :: "TableSchema \<Rightarrow> Predicate \<Rightarrow> Plan result" where
  "PlanQuery schema wh =
     and_then (ValidateAll schema wh) (\<lambda>_.
     and_then (vec_at (ts_columns schema) 0) (\<lambda>pk.
     and_then (Plan_point (col_name pk) [] wh) (\<lambda>point.
       case point of
         Some (v, others) \<Rightarrow> Inr (Plan_default\<lparr>access_path := POINT_LOOKUP, point_key := v, residual := others\<rparr>)
       | None \<Rightarrow>
           and_then (Plan_bounds (col_name pk) wh 0 INT64_MAX False) (\<lambda>(lo, hi, found_bound).
             if found_bound
             then Inr (Plan_default\<lparr>access_path := RANGE_SCAN, range_lo := max lo 0, range_hi := hi, residual := wh\<rparr>)
             else Inr (Plan_default\<lparr>access_path := FULL_SCAN, residual := wh\<rparr>)))))"

section \<open>What a predicate means\<close>

definition op_holds :: "CompareOp \<Rightarrow> Value \<Rightarrow> Value \<Rightarrow> bool" where
  "op_holds op x y = (case op of EQ \<Rightarrow> x = y | LT \<Rightarrow> x < y | LE \<Rightarrow> x \<le> y | GT \<Rightarrow> x > y | GE \<Rightarrow> x \<ge> y)"

definition cmp_holds :: "TableSchema \<Rightarrow> Value list \<Rightarrow> Comparison \<Rightarrow> bool" where
  "cmp_holds schema row c \<longleftrightarrow> op_holds (cmp_op c) (row ! nat (ColumnIndex schema (cmp_column c))) (cmp_literal c)"

definition cmp_valid :: "TableSchema \<Rightarrow> Comparison \<Rightarrow> bool" where
  "cmp_valid schema c \<longleftrightarrow>
     (let i = ColumnIndex schema (cmp_column c)
      in 0 \<le> i \<and> nat i < length (ts_columns schema) \<and> col_type (ts_columns schema ! nat i) = value_type (cmp_literal c))"

lemma CompareValues_same_type:
  "value_type x = value_type y \<Longrightarrow> \<exists>r. CompareValues x y = Inr r \<and> CompareOpMatches op r = op_holds op x y"
  by (cases op; cases x; cases y) (auto simp: CompareValues_def CompareOpMatches_def op_holds_def)

lemma row_typed_nth: "row_typed cols row \<Longrightarrow> i < length cols \<Longrightarrow> i < length row \<and> value_type (row ! i) = col_type (cols ! i)"
  by (auto simp: row_typed_def list_all2_conv_all_nth)

lemma MatchesPredicate_valid:
  assumes "row_typed (ts_columns schema) row" "list_all (cmp_valid schema) wh"
  shows "MatchesPredicate schema row wh = Inr (list_all (cmp_holds schema row) wh)"
  using assms(2)
proof (induction wh)
  case (Cons c wh)
  define i where "i = ColumnIndex schema (cmp_column c)"
  have i: "0 \<le> i" "nat i < length (ts_columns schema)" "col_type (ts_columns schema ! nat i) = value_type (cmp_literal c)"
    using Cons.prems by (simp_all add: cmp_valid_def i_def Let_def)
  have r: "nat i < length row" "value_type (row ! nat i) = value_type (cmp_literal c)"
    using row_typed_nth[OF assms(1) i(2)] i(3) by simp_all
  obtain r where "CompareValues (row ! nat i) (cmp_literal c) = Inr r" "CompareOpMatches (cmp_op c) r = cmp_holds schema row c"
    using CompareValues_same_type[OF r(2)] by (metis cmp_holds_def i_def)
  then show ?case
    using Cons i r by (simp add: vec_at_def flip: i_def)
qed simp

lemma ColumnIndex_loop_cases:
  "ColumnIndex_loop cols name i = - 1 \<or>
   (\<exists>j < length cols. ColumnIndex_loop cols name i = i + int j \<and> col_name (cols ! j) = name)"
proof (induction cols arbitrary: i)
  case (Cons c cols)
  show ?case
  proof (cases "col_name c = name")
    case False
    with Cons[of "i + 1"] show ?thesis
      by (elim disjE exE conjE) (auto intro!: exI[of _ "Suc j" for j])
  qed (auto intro!: exI[of _ 0])
qed simp

lemma ColumnIndex_range: "ColumnIndex schema name < 0 \<or> nat (ColumnIndex schema name) < length (ts_columns schema)"
  using ColumnIndex_loop_cases[of "ts_columns schema" name 0] by (auto simp: ColumnIndex_def)

lemma ColumnIndex_pk: "ts_columns schema \<noteq> [] \<Longrightarrow> ColumnIndex schema (col_name (hd (ts_columns schema))) = 0"
  by (cases "ts_columns schema") (simp_all add: ColumnIndex_def)

lemma ValidateComparison_iff: "ValidateComparison schema c = Inr () \<longleftrightarrow> cmp_valid schema c"
  using ColumnIndex_range[of schema "cmp_column c"]
  by (cases "cmp_literal c"; cases "col_type (ts_columns schema ! nat (ColumnIndex schema (cmp_column c)))")
    (auto simp: ValidateComparison_def cmp_valid_def vec_at_def Let_def)

lemma ValidateComparison_error: "ValidateComparison schema c = Inl e \<Longrightarrow> \<exists>msg. e = SqlException msg"
  using ColumnIndex_range[of schema "cmp_column c"]
  by (auto simp: ValidateComparison_def vec_at_def Let_def split: if_splits)

lemma ValidateAll_iff: "ValidateAll schema wh = Inr () \<longleftrightarrow> list_all (cmp_valid schema) wh"
  by (induction wh) (auto simp: and_then_eq_Inr ValidateComparison_iff)

lemma ValidateAll_error: "ValidateAll schema wh = Inl e \<Longrightarrow> \<exists>msg. e = SqlException msg"
  by (induction wh) (auto simp: and_then_eq_Inl dest: ValidateComparison_error)

text \<open>Comparisons with the primary key are comparisons of integers.\<close>

lemma pk_literal:
  assumes "schema_ok schema" "cmp_valid schema c" "cmp_column c = col_name (hd (ts_columns schema))"
  obtains v where "cmp_literal c = IntV v" "\<forall>row. cmp_holds schema row c = op_holds (cmp_op c) (row ! 0) (IntV v)"
proof -
  have "ColumnIndex schema (cmp_column c) = 0"
    using assms by (simp add: schema_ok_def ColumnIndex_pk)
  then show ?thesis
    using assms that by (cases "cmp_literal c") (auto simp: cmp_valid_def schema_ok_def cmp_holds_def hd_conv_nth Let_def)
qed

definition point_of :: "string \<Rightarrow> Predicate \<Rightarrow> Predicate \<Rightarrow> (int \<times> Predicate) option \<Rightarrow> bool" where
  "point_of pk seen wh p \<longleftrightarrow>
     (\<forall>v others. p = Some (v, others) \<longrightarrow>
        (\<exists>c pre post. wh = pre @ c # post \<and> others = seen @ pre @ post \<and> cmp_op c = EQ \<and> cmp_column c = pk \<and> cmp_literal c = IntV v))"

lemma point_of_Cons:
  assumes "point_of pk (seen @ [c]) wh p"
  shows "point_of pk seen (c # wh) p"
  unfolding point_of_def
proof (intro allI impI)
  fix v others
  assume "p = Some (v, others)"
  then obtain d pre post where "wh = pre @ d # post" "others = (seen @ [c]) @ pre @ post" "cmp_op d = EQ" "cmp_column d = pk" "cmp_literal d = IntV v"
    using assms unfolding point_of_def by blast
  then show "\<exists>d pre post. c # wh = pre @ d # post \<and> others = seen @ pre @ post \<and> cmp_op d = EQ \<and> cmp_column d = pk \<and> cmp_literal d = IntV v"
    by (intro exI[of _ d] exI[of _ "c # pre"] exI[of _ post]) simp
qed

lemma Plan_point_ok:
  assumes "schema_ok schema" "list_all (cmp_valid schema) wh"
  shows "\<exists>p. Plan_point (col_name (hd (ts_columns schema))) seen wh = Inr p \<and> point_of (col_name (hd (ts_columns schema))) seen wh p"
  using assms(2)
proof (induction wh arbitrary: seen)
  case Nil
  then show ?case
    by (simp add: point_of_def)
next
  case (Cons c wh)
  show ?case
  proof (cases "cmp_column c = col_name (hd (ts_columns schema)) \<and> cmp_op c = EQ")
    case True
    have valid: "cmp_valid schema c"
      using Cons.prems by simp
    obtain v where "cmp_literal c = IntV v"
      by (rule pk_literal[OF assms(1) valid]) (use True in auto)
    then show ?thesis
      using True by (auto simp: get_int_def point_of_def) (metis append_Nil)
  next
    case False
    then show ?thesis
      using Cons.prems Cons.IH[of "seen @ [c]"] by (auto intro: point_of_Cons)
  qed
qed

lemma Plan_bounds_ok:
  assumes "schema_ok schema" "list_all (cmp_valid schema) wh"
  shows "\<exists>lo' hi' found'. Plan_bounds (col_name (hd (ts_columns schema))) wh lo hi found = Inr (lo', hi', found') \<and>
    lo \<le> lo' \<and>
    (\<forall>row pk. row ! 0 = IntV pk \<longrightarrow> lo \<le> pk \<longrightarrow> pk \<le> hi \<longrightarrow> list_all (cmp_holds schema row) wh \<longrightarrow> lo' \<le> pk \<and> pk \<le> hi')"
  using assms(2)
proof (induction wh arbitrary: lo hi found)
  case (Cons c wh)
  have valid: "cmp_valid schema c" and wh: "list_all (cmp_valid schema) wh"
    using Cons.prems by simp_all
  note IH = Cons.IH[OF wh]
  show ?case
  proof (cases "cmp_column c = col_name (hd (ts_columns schema))")
    case True
    obtain v where v: "cmp_literal c = IntV v" "\<forall>row. cmp_holds schema row c = op_holds (cmp_op c) (row ! 0) (IntV v)"
      by (rule pk_literal[OF assms(1) valid True])
    show ?thesis
    proof (cases "cmp_op c")
      case EQ
      then show ?thesis
        using True v IH[of lo hi found] by (fastforce simp: get_int_def)
    next
      case LT
      then show ?thesis
        using True v IH[of lo "min hi (if v = INVALID_KEY then v else v - 1)" True] by (fastforce simp: get_int_def op_holds_def)
    next
      case LE
      then show ?thesis
        using True v IH[of lo "min hi v" True] by (fastforce simp: get_int_def op_holds_def)
    next
      case GT
      then show ?thesis
        using True v IH[of "max lo (if v = INT64_MAX then v else v + 1)" hi True] by (fastforce simp: get_int_def op_holds_def)
    next
      case GE
      then show ?thesis
        using True v IH[of "max lo v" hi True] by (fastforce simp: get_int_def op_holds_def)
    qed
  qed (use IH[of lo hi found] in auto)
qed simp

text \<open>
  What the executor makes of a plan: the rows whose primary key lies on the access path, filtered by
  the residual predicate. For a range the start is the masked lower bound.
\<close>

definition plan_admits :: "Plan \<Rightarrow> int \<Rightarrow> bool" where
  "plan_admits plan pk \<longleftrightarrow>
     (case access_path plan of
        POINT_LOOKUP \<Rightarrow> pk = point_key plan
      | RANGE_SCAN \<Rightarrow> range_lo plan \<le> pk \<and> pk \<le> range_hi plan
      | FULL_SCAN \<Rightarrow> True)"

lemma PlanQuery_invalid:
  assumes "\<not> list_all (cmp_valid schema) wh"
  shows "\<exists>msg. PlanQuery schema wh = Inl (SqlException msg)"
proof (cases "ValidateAll schema wh")
  case (Inl e)
  then show ?thesis
    using ValidateAll_error[OF Inl] by (auto simp: PlanQuery_def)
qed (use assms ValidateAll_iff[of schema wh] in auto)

lemma PlanQuery_ok:
  assumes "schema_ok schema" "list_all (cmp_valid schema) wh"
  obtains plan where "PlanQuery schema wh = Inr plan" "list_all (cmp_valid schema) (residual plan)"
    "0 \<le> range_lo plan" "access_path plan \<noteq> POINT_LOOKUP \<longrightarrow> residual plan = wh"
    "access_path plan = POINT_LOOKUP \<longrightarrow> (\<exists>c \<in> set wh. cmp_op c = EQ \<and>
       cmp_column c = col_name (hd (ts_columns schema)) \<and> cmp_literal c = IntV (point_key plan))"
    "\<And>row pk. row ! 0 = IntV pk \<Longrightarrow> 0 \<le> pk \<Longrightarrow> pk \<le> INT64_MAX \<Longrightarrow>
       list_all (cmp_holds schema row) wh \<longleftrightarrow> plan_admits plan pk \<and> list_all (cmp_holds schema row) (residual plan)"
proof -
  let ?pk = "col_name (hd (ts_columns schema))"
  have start: "ValidateAll schema wh = Inr ()" "vec_at (ts_columns schema) 0 = Inr (hd (ts_columns schema))"
    using assms by (simp_all add: ValidateAll_iff vec_at_def schema_ok_def hd_conv_nth)
  obtain p where p: "Plan_point ?pk [] wh = Inr p" "point_of ?pk [] wh p"
    using Plan_point_ok[OF assms] by blast
  show ?thesis
  proof (cases p)
    case None
    obtain lo hi found where b: "Plan_bounds ?pk wh 0 INT64_MAX False = Inr (lo, hi, found)" "0 \<le> lo"
      "\<forall>row pk. row ! 0 = IntV pk \<longrightarrow> 0 \<le> pk \<longrightarrow> pk \<le> INT64_MAX \<longrightarrow> list_all (cmp_holds schema row) wh \<longrightarrow> lo \<le> pk \<and> pk \<le> hi"
      using Plan_bounds_ok[OF assms, of 0 INT64_MAX False] by blast
    then show ?thesis
      using None p(1) assms(2) start
      by (intro that[of "if found then Plan_default\<lparr>access_path := RANGE_SCAN, range_lo := max lo 0, range_hi := hi, residual := wh\<rparr>
          else Plan_default\<lparr>access_path := FULL_SCAN, residual := wh\<rparr>"]) (auto simp: PlanQuery_def plan_admits_def Plan_default_def)
  next
    case (Some vo)
    obtain v others where vo: "vo = (v, others)"
      by fastforce
    then obtain c pre post where c: "wh = pre @ c # post" "others = pre @ post" "cmp_op c = EQ" "cmp_column c = ?pk" "cmp_literal c = IntV v"
      using p(2) Some by (auto simp: point_of_def)
    have "cmp_holds schema row c \<longleftrightarrow> row ! 0 = IntV v" for row
      using c assms by (auto simp: cmp_holds_def op_holds_def ColumnIndex_pk schema_ok_def)
    then show ?thesis
      using Some vo p(1) c assms(2) start
      by (intro that[of "Plan_default\<lparr>access_path := POINT_LOOKUP, point_key := v, residual := others\<rparr>"])
        (auto simp: PlanQuery_def plan_admits_def Plan_default_def)
  qed
qed

section \<open>Property\<close>

text \<open>
  C21. The planner is equivalent to filtering: for every row of a table, the \<open>WHERE\<close> clause holds
  exactly when the row's primary key lies on the access path the planner chose and the residual
  predicate holds.
\<close>

theorem sql_plan_equivalence:
  assumes "schema_ok schema" "PlanQuery schema wh = Inr plan" "row_typed (ts_columns schema) row" "row ! 0 = IntV pk"
    "0 \<le> pk" "pk \<le> kMaxRowKey"
  shows "MatchesPredicate schema row wh = Inr True \<longleftrightarrow>
    plan_admits plan pk \<and> MatchesPredicate schema row (residual plan) = Inr True"
proof -
  have v: "list_all (cmp_valid schema) wh"
    using assms(2) PlanQuery_invalid[of schema wh] by auto
  have pk: "pk \<le> INT64_MAX"
    using assms(6) by (simp add: key_consts INT64_MAX_def)
  have "list_all (cmp_valid schema) (residual plan) \<and>
    (list_all (cmp_holds schema row) wh \<longleftrightarrow> plan_admits plan pk \<and> list_all (cmp_holds schema row) (residual plan))"
    by (rule PlanQuery_ok[OF assms(1) v]) (use pk assms(2,4,5) in auto)
  then show ?thesis
    using MatchesPredicate_valid[OF assms(3)] v by simp
qed

definition demo_where :: Predicate where
  "demo_where =
     [\<lparr>cmp_column = ''id'', cmp_op = GT, cmp_literal = IntV 3\<rparr>, \<lparr>cmp_column = ''name'', cmp_op = GE, cmp_literal = TextV ''Ada''\<rparr>,
      \<lparr>cmp_column = ''id'', cmp_op = LE, cmp_literal = IntV 9\<rparr>]"

theorem sql_plan_equivalence_witness:
  "\<exists>plan. PlanQuery demo_schema demo_where = Inr plan \<and> range_lo plan = 4 \<and> range_hi plan = 9 \<and>
     plan_admits plan 7 \<and> MatchesPredicate demo_schema [IntV 7, TextV ''Bob'', IntV 1] (residual plan) = Inr True"
proof -
  let ?row = "[IntV 7, TextV ''Bob'', IntV 1]"
  have s: "schema_ok demo_schema" "row_typed (ts_columns demo_schema) ?row" "?row ! 0 = IntV 7"
    by (simp_all add: schema_ok_def demo_schema_def)
  obtain plan where p: "PlanQuery demo_schema demo_where = Inr plan" "range_lo plan = 4" "range_hi plan = 9"
    by (simp add: PlanQuery_def demo_where_def demo_schema_def ValidateComparison_def ColumnIndex_def vec_at_def get_int_def
        Plan_default_def INT64_MAX_def INVALID_KEY_def)
  have "MatchesPredicate demo_schema ?row demo_where = Inr True"
    by (simp add: demo_where_def demo_schema_def ColumnIndex_def vec_at_def CompareValues_def CompareOpMatches_def less_char_def)
  then show ?thesis
    using sql_plan_equivalence[OF s(1) p(1) s(2,3)] p by (simp add: key_consts)
qed

end
