(* ===== verification/Storage_Engine.thy ===== *)
theory Storage_Engine
  imports Base
begin

text \<open>
  \<^verbatim>\<open>src/src/engine/storage_engine.h\<close>: the interface every storage engine implements. The abstract classes
  are a record of their virtual methods, the destructor of an iterator included, since an iterator
  may hold resources of the engine. What the comments of the header promise is the locale
  \<open>storage_engine\<close>: the engine stands for a map from keys to values; \<open>Put\<close> is an upsert, \<open>Delete\<close>
  tells whether the key was there, and a scan yields the entries from its start key on in
  ascending order. A write may also fail because a capacity of the engine is exhausted, and an
  engine has room for a certain number of writes before a counter of its disk format runs out.
\<close>

record ('s, 'i) StorageEngine =
  se_Get :: "KeyType \<Rightarrow> 's \<Rightarrow> string option result \<times> 's"
  se_Put :: "KeyType \<Rightarrow> string \<Rightarrow> 's \<Rightarrow> unit result \<times> 's"
  se_Delete :: "KeyType \<Rightarrow> 's \<Rightarrow> bool result \<times> 's"
  se_Scan :: "KeyType \<Rightarrow> 's \<Rightarrow> 'i result \<times> 's"
  si_IsValid :: "'i \<Rightarrow> bool"
  si_Next :: "'i \<Rightarrow> 's \<Rightarrow> 'i result \<times> 's"
  si_GetKey :: "'i \<Rightarrow> 's \<Rightarrow> KeyType"
  si_GetValue :: "'i \<Rightarrow> 's \<Rightarrow> string"
  si_destroy :: "'i \<Rightarrow> 's \<Rightarrow> 's"

text \<open>A write that reports that a capacity of the engine is exhausted.\<close>

definition capacity_error :: "db_error \<Rightarrow> bool" where
  "capacity_error e \<longleftrightarrow> (\<exists>msg. e = RuntimeError msg)"

locale storage_engine =
  fixes ops :: "('s, 'i) StorageEngine" and inv :: "'s \<Rightarrow> bool" and amap :: "'s \<Rightarrow> KeyType \<Rightarrow> string option"
    and room :: "'s \<Rightarrow> nat \<Rightarrow> bool" and iter_at :: "'s \<Rightarrow> 'i \<Rightarrow> (KeyType \<times> string) list \<Rightarrow> bool"
  assumes amap_fits: "inv s \<Longrightarrow> finite (dom (amap s)) \<and> (\<forall>k v. amap s k = Some v \<longrightarrow> is_int64 k \<and> length v \<le> MAX_VALUE_SIZE)"
    and room_mono: "room s n \<Longrightarrow> m \<le> n \<Longrightarrow> room s m"
    and Get_ok: "inv s \<Longrightarrow> \<exists>s'. se_Get ops k s = (Inr (amap s k), s') \<and> inv s' \<and> amap s' = amap s \<and> (\<forall>n. room s n \<longrightarrow> room s' n)"
    and Put_ok: "inv s \<Longrightarrow> room s (Suc n) \<Longrightarrow> is_int64 k \<Longrightarrow> length v \<le> MAX_VALUE_SIZE \<Longrightarrow>
      (\<exists>e s'. se_Put ops k v s = (Inl e, s') \<and> capacity_error e) \<or>
      (\<exists>s'. se_Put ops k v s = (Inr (), s') \<and> inv s' \<and> amap s' = (amap s)(k \<mapsto> v) \<and> room s' n)"
    and Put_long: "inv s \<Longrightarrow> length v > MAX_VALUE_SIZE \<Longrightarrow> \<exists>msg s'. se_Put ops k v s = (Inl (InvalidArgument msg), s')"
    and Delete_ok: "inv s \<Longrightarrow> room s (Suc n) \<Longrightarrow> is_int64 k \<Longrightarrow>
      (\<exists>e s'. se_Delete ops k s = (Inl e, s') \<and> capacity_error e) \<or>
      (\<exists>s'. se_Delete ops k s = (Inr (amap s k \<noteq> None), s') \<and> inv s' \<and> amap s' = (amap s)(k := None) \<and> room s' n)"
    and Scan_ok: "inv s \<Longrightarrow> \<exists>it s' out. se_Scan ops k s = (Inr it, s') \<and> iter_at s' it out \<and> amap s' = amap s \<and>
      (\<forall>n. room s n \<longrightarrow> room s' n) \<and> sorted_wrt (<) (map fst out) \<and> (\<forall>k'. map_of out k' = (if k \<le> k' then amap s k' else None))"
    and IsValid_iff: "iter_at s it out \<Longrightarrow> si_IsValid ops it \<longleftrightarrow> out \<noteq> []"
    and Next_ok: "iter_at s it (x # out) \<Longrightarrow> si_GetKey ops it s = fst x \<and> si_GetValue ops it s = snd x \<and>
      (\<exists>it' s'. si_Next ops it s = (Inr it', s') \<and> iter_at s' it' out \<and> amap s' = amap s \<and> (\<forall>n. room s n \<longrightarrow> room s' n))"
    and destroy_ok: "iter_at s it out \<Longrightarrow>
      inv (si_destroy ops it s) \<and> amap (si_destroy ops it s) = amap s \<and> (\<forall>n. room s n \<longrightarrow> room (si_destroy ops it s) n)"

end
