(* ===== verification/Sql_Executor.thy ===== *)
theory Sql_Executor
  imports Sql_Planner Storage_Engine
begin

text \<open>
  \<^verbatim>\<open>src/src/sql/executor.cpp\<close> over any storage engine: the scan loop that both statements run, fetching
  and deleting. The loop is a partial function, so that it returns is part of what is proved. The
  lemmas, in the context of the engine's contract, say that a plan fetches exactly the rows of the
  table that satisfy the \<open>WHERE\<close> clause, in the order of the primary key.
\<close>

section \<open>The executor\<close>

text \<open>
  The loop over the iterator of \<open>ExecuteFetch\<close> and \<open>ExecuteDelete\<close>; they differ in what is pushed for a
  matching row, the row or its key. Leaving the loop destroys the iterator.
\<close>

partial_function (option) Scan_loop ::
  "('s, 'i) StorageEngine \<Rightarrow> TableSchema \<Rightarrow> int \<Rightarrow> Predicate \<Rightarrow> (KeyType \<Rightarrow> Value list \<Rightarrow> 'a) \<Rightarrow> 'i \<Rightarrow> 's \<Rightarrow> 'a list
    \<Rightarrow> ('a list result \<times> 's) option" where
  "Scan_loop ops schema hi pred pick it s acc =
     (if \<not> si_IsValid ops it then Some (Inr acc, si_destroy ops it s)
      else if DecodeTableId (si_GetKey ops it s) \<noteq> ts_table_id schema then Some (Inr acc, si_destroy ops it s)
      else if DecodeRowKey (si_GetKey ops it s) > hi then Some (Inr acc, si_destroy ops it s)
      else case DecodeRow schema (DecodeRowKey (si_GetKey ops it s)) (si_GetValue ops it s) of
             Inl e \<Rightarrow> Some (Inl e, si_destroy ops it s)
           | Inr row \<Rightarrow>
               (case MatchesPredicate schema row pred of
                  Inl e \<Rightarrow> Some (Inl e, si_destroy ops it s)
                | Inr m \<Rightarrow>
                    (case si_Next ops it s of
                       (Inl e, s1) \<Rightarrow> Some (Inl e, si_destroy ops it s1)
                     | (Inr it1, s1) \<Rightarrow>
                         Scan_loop ops schema hi pred pick it1 s1 (if m then acc @ [pick (si_GetKey ops it s) row] else acc))))"

definition scan_start :: "Plan \<Rightarrow> int" where
  "scan_start plan = (if access_path plan = RANGE_SCAN then range_lo plan else 0)"

definition scan_hi :: "Plan \<Rightarrow> int" where
  "scan_hi plan = (if access_path plan = RANGE_SCAN then range_hi plan else INT64_MAX)"

definition ExecuteFetch :: "('s, 'i) StorageEngine \<Rightarrow> TableSchema \<Rightarrow> Plan \<Rightarrow> 's \<Rightarrow> (Value list list result \<times> 's) option" where
  "ExecuteFetch ops schema plan s =
     (if access_path plan = POINT_LOOKUP then
        (case se_Get ops (EncodeKey (ts_table_id schema) (point_key plan)) s of
           (Inl e, s1) \<Rightarrow> Some (Inl e, s1)
         | (Inr None, s1) \<Rightarrow> Some (Inr [], s1)
         | (Inr (Some payload), s1) \<Rightarrow>
             Some (and_then (DecodeRow schema (point_key plan) payload) (\<lambda>row.
                   and_then (MatchesPredicate schema row (residual plan)) (\<lambda>m. Inr (if m then [row] else []))), s1))
      else
        (case se_Scan ops (EncodeKey (ts_table_id schema) (scan_start plan)) s of
           (Inl e, s1) \<Rightarrow> Some (Inl e, s1)
         | (Inr it, s1) \<Rightarrow> Scan_loop ops schema (scan_hi plan) (residual plan) (\<lambda>key row. row) it s1 []))"

fun Delete_keys :: "('s, 'i) StorageEngine \<Rightarrow> KeyType list \<Rightarrow> nat \<Rightarrow> 's \<Rightarrow> nat result \<times> 's" where
  "Delete_keys ops [] deleted s = (Inr deleted, s)"
| "Delete_keys ops (key # keys) deleted s =
     (case se_Delete ops key s of
        (Inl e, s1) \<Rightarrow> (Inl e, s1)
      | (Inr existed, s1) \<Rightarrow> Delete_keys ops keys (if existed then deleted + 1 else deleted) s1)"

definition ExecuteDelete :: "('s, 'i) StorageEngine \<Rightarrow> TableSchema \<Rightarrow> Plan \<Rightarrow> 's \<Rightarrow> (nat result \<times> 's) option" where
  "ExecuteDelete ops schema plan s =
     (if access_path plan = POINT_LOOKUP then
        (case se_Get ops (EncodeKey (ts_table_id schema) (point_key plan)) s of
           (Inl e, s1) \<Rightarrow> Some (Inl e, s1)
         | (Inr None, s1) \<Rightarrow> Some (Inr 0, s1)
         | (Inr (Some payload), s1) \<Rightarrow>
             (case and_then (DecodeRow schema (point_key plan) payload) (\<lambda>row. MatchesPredicate schema row (residual plan)) of
                Inl e \<Rightarrow> Some (Inl e, s1)
              | Inr m \<Rightarrow>
                  if \<not> m then Some (Inr 0, s1)
                  else (case se_Delete ops (EncodeKey (ts_table_id schema) (point_key plan)) s1 of
                          (Inl e, s2) \<Rightarrow> Some (Inl e, s2)
                        | (Inr existed, s2) \<Rightarrow> Some (Inr (if existed then 1 else 0), s2))))
      else
        (case se_Scan ops (EncodeKey (ts_table_id schema) (scan_start plan)) s of
           (Inl e, s1) \<Rightarrow> Some (Inl e, s1)
         | (Inr it, s1) \<Rightarrow>
             (case Scan_loop ops schema (scan_hi plan) (residual plan) (\<lambda>key row. key) it s1 [] of
                None \<Rightarrow> None
              | Some (Inl e, s2) \<Rightarrow> Some (Inl e, s2)
              | Some (Inr to_delete, s2) \<Rightarrow> Some (Delete_keys ops to_delete 0 s2))))"

section \<open>The rows of a table\<close>

definition row_of :: "TableSchema \<Rightarrow> int \<Rightarrow> string \<Rightarrow> Value list option" where
  "row_of schema pk payload = (case DecodeRow schema pk payload of Inl _ \<Rightarrow> None | Inr row \<Rightarrow> Some row)"

text \<open>The table a map of the engine stores, by primary key.\<close>

definition table_of :: "(KeyType \<rightharpoonup> string) \<Rightarrow> TableSchema \<Rightarrow> int \<rightharpoonup> Value list" where
  "table_of m schema pk =
     (if 0 \<le> pk \<and> pk \<le> kMaxRowKey then Option.bind (m (EncodeKey (ts_table_id schema) pk)) (row_of schema pk) else None)"

text \<open>Every stored value of the table is the encoding of a row.\<close>

definition rows_stored :: "(KeyType \<rightharpoonup> string) \<Rightarrow> TableSchema \<Rightarrow> bool" where
  "rows_stored m schema \<longleftrightarrow>
     (\<forall>pk payload. 0 \<le> pk \<longrightarrow> pk \<le> kMaxRowKey \<longrightarrow> m (EncodeKey (ts_table_id schema) pk) = Some payload \<longrightarrow>
        (\<exists>row. DecodeRow schema pk payload = Inr row \<and> row_typed (ts_columns schema) row \<and> row ! 0 = IntV pk))"

text \<open>The primary keys of the rows of a table that satisfy a predicate, in ascending order.\<close>

definition pks_where :: "(int \<rightharpoonup> Value list) \<Rightarrow> (Value list \<Rightarrow> bool) \<Rightarrow> int list" where
  "pks_where tab P = filter (\<lambda>pk. P (the (tab pk))) (sorted_list_of_set (dom tab))"

lemma row_of_eq: "row_of schema pk payload = Some row \<longleftrightarrow> DecodeRow schema pk payload = Inr row"
  by (auto simp: row_of_def split: sum.splits)

lemma table_of_SomeD:
  assumes "rows_stored m schema" "table_of m schema pk = Some row"
  shows "0 \<le> pk" "pk \<le> kMaxRowKey" "row_typed (ts_columns schema) row" "row ! 0 = IntV pk"
    "\<exists>payload. m (EncodeKey (ts_table_id schema) pk) = Some payload \<and> DecodeRow schema pk payload = Inr row"
proof -
  obtain payload where p: "0 \<le> pk" "pk \<le> kMaxRowKey" "m (EncodeKey (ts_table_id schema) pk) = Some payload" "DecodeRow schema pk payload = Inr row"
    using assms(2) by (auto simp: table_of_def row_of_eq bind_eq_Some_conv split: if_splits)
  moreover obtain row' where "DecodeRow schema pk payload = Inr row'" "row_typed (ts_columns schema) row'" "row' ! 0 = IntV pk"
    using assms(1) p(1-3) unfolding rows_stored_def by blast
  moreover from calculation have "row' = row"
    by simp
  ultimately show "0 \<le> pk" "pk \<le> kMaxRowKey" "row_typed (ts_columns schema) row" "row ! 0 = IntV pk"
    "\<exists>payload. m (EncodeKey (ts_table_id schema) pk) = Some payload \<and> DecodeRow schema pk payload = Inr row"
    by blast+
qed

lemma stored_row:
  assumes "rows_stored m schema" "0 \<le> pk" "pk \<le> kMaxRowKey" "m (EncodeKey (ts_table_id schema) pk) = Some payload"
  shows "\<exists>row. DecodeRow schema pk payload = Inr row \<and> table_of m schema pk = Some row"
proof -
  obtain row where "DecodeRow schema pk payload = Inr row"
    using assms unfolding rows_stored_def by blast
  then show ?thesis
    using assms(2-4) by (simp add: table_of_def row_of_def)
qed

lemma table_of_dom:
  assumes "rows_stored m schema"
  shows "pk \<in> dom (table_of m schema) \<longleftrightarrow> 0 \<le> pk \<and> pk \<le> kMaxRowKey \<and> m (EncodeKey (ts_table_id schema) pk) \<noteq> None"
proof
  assume "pk \<in> dom (table_of m schema)"
  then show "0 \<le> pk \<and> pk \<le> kMaxRowKey \<and> m (EncodeKey (ts_table_id schema) pk) \<noteq> None"
    by (auto simp: table_of_def bind_eq_Some_conv split: if_splits)
next
  assume "0 \<le> pk \<and> pk \<le> kMaxRowKey \<and> m (EncodeKey (ts_table_id schema) pk) \<noteq> None"
  then show "pk \<in> dom (table_of m schema)"
    using stored_row[OF assms, of pk] by auto
qed

lemma EncodeKey_inj:
  "0 \<le> pk \<Longrightarrow> pk \<le> kMaxRowKey \<Longrightarrow> 0 \<le> pk' \<Longrightarrow> pk' \<le> kMaxRowKey \<Longrightarrow> EncodeKey t pk = EncodeKey t' pk' \<longleftrightarrow> t = t' \<and> pk = pk'"
  by (metis DecodeRowKey_in_range DecodeTableId_EncodeKey)

lemma finite_table_of:
  assumes "finite (dom m)"
  shows "finite (dom (table_of m schema))"
proof -
  have "dom (table_of m schema) \<subseteq> DecodeRowKey ` dom m"
  proof
    fix pk
    assume "pk \<in> dom (table_of m schema)"
    then have "0 \<le> pk" "pk \<le> kMaxRowKey" "EncodeKey (ts_table_id schema) pk \<in> dom m"
      by (auto simp: table_of_def bind_eq_Some_conv split: if_splits)
    then show "pk \<in> DecodeRowKey ` dom m"
      using DecodeRowKey_in_range[of pk "ts_table_id schema"] by (metis image_eqI)
  qed
  then show ?thesis
    using assms finite_surj by blast
qed

section \<open>What a scan sees\<close>

text \<open>The entries the loop processes: those of the table up to the upper bound.\<close>

definition in_run :: "TableSchema \<Rightarrow> int \<Rightarrow> KeyType \<times> string \<Rightarrow> bool" where
  "in_run schema hi e \<longleftrightarrow> DecodeTableId (fst e) = ts_table_id schema \<and> DecodeRowKey (fst e) \<le> hi"

lemma takeWhile_filter: "sorted_wrt (\<lambda>x y. P y \<longrightarrow> P x) xs \<Longrightarrow> takeWhile P xs = filter P xs"
  by (induction xs) (auto simp: filter_empty_conv)

text \<open>Between two keys of a table lie only keys of that table.\<close>

lemma int64_div: "is_int64 k \<Longrightarrow> k div 2 ^ 48 = sint (DecodeTableId k)"
  using EncodeKey_Decode[of k] EncodeKey_eq[of "DecodeTableId k" "DecodeRowKey k"] by (metis div_mod_decomp_int DecodeRowKey_eq
      add_right_cancel mod_mod_trivial mult_right_cancel power_eq_0_iff zero_neq_numeral)

lemma key_between:
  assumes "EncodeKey t start \<le> k" "k < k'" "is_int64 k" "is_int64 k'" "DecodeTableId k' = t"
  shows "DecodeTableId k = t" "DecodeRowKey k \<le> DecodeRowKey k'"
proof -
  have "EncodeKey t start div 2 ^ 48 = sint t"
    by (simp add: EncodeKey_eq)
  then have "sint t \<le> k div 2 ^ 48" "k div 2 ^ 48 \<le> k' div 2 ^ 48" "k' div 2 ^ 48 = sint t"
    using assms zdiv_mono1[of "EncodeKey t start" k "2 ^ 48"] zdiv_mono1[of k k' "2 ^ 48"] int64_div[OF assms(4)] by simp_all
  then have d: "k div 2 ^ 48 = sint t" "k' div 2 ^ 48 = sint t"
    by simp_all
  then have "sint (DecodeTableId k) = sint t"
    using int64_div[OF assms(3)] by simp
  then show "DecodeTableId k = t"
    by (rule signed_word_eqI)
  show "DecodeRowKey k \<le> DecodeRowKey k'"
    using assms(2) d div_mult_mod_eq[of k "2 ^ 48"] div_mult_mod_eq[of k' "2 ^ 48"] by (simp add: DecodeRowKey_eq)
qed

lemma run_set:
  assumes fits: "\<forall>k v. m k = Some v \<longrightarrow> is_int64 k" and stored: "rows_stored m schema"
  shows "EncodeKey (ts_table_id schema) start \<le> k \<and> m k = Some v \<and> in_run schema hi (k, v) \<longleftrightarrow>
    (\<exists>pk \<in> dom (table_of m schema). start mod 2 ^ 48 \<le> pk \<and> pk \<le> hi \<and> k = EncodeKey (ts_table_id schema) pk \<and> m k = Some v)"
    (is "?l \<longleftrightarrow> ?r")
proof
  assume l: ?l
  define pk where "pk = DecodeRowKey k"
  have pk: "0 \<le> pk" "pk \<le> kMaxRowKey" and k: "k = EncodeKey (ts_table_id schema) pk"
    using l fits EncodeKey_Decode[of k] DecodeRowKey_range[of k] by (auto simp: pk_def in_run_def)
  have "start mod 2 ^ 48 \<le> pk"
    using l k pk by (simp add: EncodeKey_eq key_consts)
  moreover have "pk \<in> dom (table_of m schema)"
    using table_of_dom[OF stored] pk k l by simp
  moreover have "pk \<le> hi"
    using l by (simp add: in_run_def pk_def)
  ultimately show ?r
    using k l by blast
next
  assume ?r
  then obtain pk where pk: "pk \<in> dom (table_of m schema)" "start mod 2 ^ 48 \<le> pk" "pk \<le> hi" "k = EncodeKey (ts_table_id schema) pk" "m k = Some v"
    by blast
  then have r: "0 \<le> pk" "pk \<le> kMaxRowKey"
    using table_of_dom[OF stored] by simp_all
  then have "EncodeKey (ts_table_id schema) start \<le> k"
    using pk by (simp add: EncodeKey_eq key_consts)
  then show ?l
    using pk r DecodeRowKey_in_range[of pk] by (simp add: in_run_def)
qed

text \<open>The entries of a table in an ascending listing are its rows by primary key.\<close>

lemma run_entries:
  assumes out: "sorted_wrt (<) (map fst out)" "\<forall>k'. map_of out k' = (if EncodeKey (ts_table_id schema) start \<le> k' then m k' else None)"
    and fits: "\<forall>k v. m k = Some v \<longrightarrow> is_int64 k" "finite (dom m)" and stored: "rows_stored m schema"
  shows "takeWhile (in_run schema hi) out =
    map (\<lambda>pk. (EncodeKey (ts_table_id schema) pk, the (m (EncodeKey (ts_table_id schema) pk))))
      (filter (\<lambda>pk. start mod 2 ^ 48 \<le> pk \<and> pk \<le> hi) (sorted_list_of_set (dom (table_of m schema))))"
    (is "_ = map ?f ?pks")
proof -
  let ?t = "ts_table_id schema"
  have dist: "distinct (map fst out)"
    using out(1) strict_sorted_iff by blast
  have mem: "(k, v) \<in> set out \<longleftrightarrow> EncodeKey ?t start \<le> k \<and> m k = Some v" for k v
    using out(2) map_of_in_set[OF dist] by auto
  have "sorted_wrt (\<lambda>x y. in_run schema hi y \<longrightarrow> in_run schema hi x) out"
  proof (rule sorted_wrt_mono_rel[of _ "\<lambda>x y. fst x < fst y"])
    fix x y
    assume "x \<in> set out" "y \<in> set out" "fst x < fst y"
    moreover from this have "EncodeKey ?t start \<le> fst x" "is_int64 (fst x)" "is_int64 (fst y)"
      using mem[of "fst x" "snd x"] mem[of "fst y" "snd y"] fits(1) by auto
    ultimately show "in_run schema hi y \<longrightarrow> in_run schema hi x"
      using key_between[of ?t start "fst x" "fst y"] by (auto simp: in_run_def)
  qed (use out(1) in \<open>simp add: sorted_wrt_map\<close>)
  then have "takeWhile (in_run schema hi) out = filter (in_run schema hi) out"
    by (rule takeWhile_filter)
  also have "\<dots> = map ?f ?pks"
  proof (rule map_sorted_distinct_set_unique[of fst])
    have set_pks: "set ?pks = {pk \<in> dom (table_of m schema). start mod 2 ^ 48 \<le> pk \<and> pk \<le> hi}"
      using finite_table_of[OF fits(2)] by auto
    have "(k, v) \<in> set (filter (in_run schema hi) out) \<longleftrightarrow> (k, v) \<in> set (map ?f ?pks)" for k v
      using run_set[OF fits(1) stored, of start k v hi] mem[of k v] table_of_dom[OF stored] set_pks by force
    then show set_eq: "set (filter (in_run schema hi) out) = set (map ?f ?pks)"
      by (intro subset_antisym subrelI) (simp_all only:)
    show "inj_on fst (set (filter (in_run schema hi) out) \<union> set (map ?f ?pks))"
      unfolding set_eq[symmetric] using dist by (auto simp: inj_on_def eq_key_imp_eq_value)
    have "sorted_wrt (<) (map fst (filter (in_run schema hi) out))"
      using out(1) by (simp add: sorted_wrt_map sorted_wrt_filter)
    then show "sorted (map fst (filter (in_run schema hi) out))" "distinct (map fst (filter (in_run schema hi) out))"
      using strict_sorted_iff by blast+
    have r: "\<forall>pk \<in> set ?pks. 0 \<le> pk \<and> pk \<le> kMaxRowKey"
      unfolding set_pks using table_of_dom[OF stored] by simp
    have "sorted_wrt (<) ?pks"
      by (simp add: sorted_wrt_filter)
    then have "sorted_wrt (\<lambda>x y. EncodeKey ?t x < EncodeKey ?t y) ?pks"
      by (rule sorted_wrt_mono_rel[rotated]) (use r EncodeKey_less in blast)
    then have "sorted_wrt (<) (map fst (map ?f ?pks))"
      by (simp add: sorted_wrt_map)
    then show "sorted (map fst (map ?f ?pks))" "distinct (map fst (map ?f ?pks))"
      using strict_sorted_iff by blast+
  qed
  finally show ?thesis .
qed

definition entry_row :: "TableSchema \<Rightarrow> KeyType \<times> string \<Rightarrow> Value list" where
  "entry_row schema e = the (row_of schema (DecodeRowKey (fst e)) (snd e))"

lemma stored_entry:
  assumes "rows_stored m schema" "pk \<in> dom (table_of m schema)"
  shows "entry_row schema (EncodeKey (ts_table_id schema) pk, the (m (EncodeKey (ts_table_id schema) pk))) = the (table_of m schema pk)"
    "row_of schema (DecodeRowKey (EncodeKey (ts_table_id schema) pk)) (the (m (EncodeKey (ts_table_id schema) pk))) = Some (the (table_of m schema pk))"
    "row_typed (ts_columns schema) (the (table_of m schema pk))"
proof -
  obtain r where r: "table_of m schema pk = Some r"
    using assms(2) by blast
  note t = table_of_SomeD[OF assms(1) r]
  then show "row_of schema (DecodeRowKey (EncodeKey (ts_table_id schema) pk)) (the (m (EncodeKey (ts_table_id schema) pk))) = Some (the (table_of m schema pk))"
    "row_typed (ts_columns schema) (the (table_of m schema pk))"
    using r DecodeRowKey_in_range[of pk "ts_table_id schema"] by (auto simp: row_of_eq)
  then show "entry_row schema (EncodeKey (ts_table_id schema) pk, the (m (EncodeKey (ts_table_id schema) pk))) = the (table_of m schema pk)"
    by (simp add: entry_row_def)
qed

text \<open>Restricting the scan to an interval that contains every matching row loses nothing.\<close>

lemma picked_rows:
  assumes stored: "rows_stored m schema" and fin: "finite (dom m)"
    and bounds: "\<forall>pk row. table_of m schema pk = Some row \<longrightarrow> P row \<longrightarrow> lo \<le> pk \<and> pk \<le> hi"
  shows "map (\<lambda>e. pick (fst e) (entry_row schema e)) (filter (\<lambda>e. P (entry_row schema e))
      (map (\<lambda>pk. (EncodeKey (ts_table_id schema) pk, the (m (EncodeKey (ts_table_id schema) pk))))
        (filter (\<lambda>pk. lo \<le> pk \<and> pk \<le> hi) (sorted_list_of_set (dom (table_of m schema)))))) =
    map (\<lambda>pk. pick (EncodeKey (ts_table_id schema) pk) (the (table_of m schema pk))) (pks_where (table_of m schema) P)"
    (is "map ?g (filter ?Q (map ?f (filter ?in ?L))) = map ?h (pks_where ?tab P)")
proof -
  note er = stored_entry(1)[OF stored] and fin = finite_table_of[OF fin]
  have "filter (\<lambda>pk. lo \<le> pk \<and> pk \<le> hi \<and> P (entry_row schema (?f pk))) ?L = pks_where ?tab P"
    unfolding pks_where_def using er bounds fin by (intro filter_cong) auto
  then have "map ?g (filter ?Q (map ?f (filter ?in ?L))) = map (\<lambda>pk. pick (EncodeKey (ts_table_id schema) pk) (entry_row schema (?f pk))) (pks_where ?tab P)"
    by (simp add: filter_map comp_def)
  also have "\<dots> = map ?h (pks_where ?tab P)"
    by (rule map_cong) (use er fin in \<open>auto simp: pks_where_def\<close>)
  finally show ?thesis .
qed

lemma filter_only: "distinct xs \<Longrightarrow> (\<And>x. x \<in> set xs \<Longrightarrow> P x \<Longrightarrow> x = v) \<Longrightarrow> filter P xs = (if v \<in> set xs \<and> P v then [v] else [])"
  by (induction xs) (auto simp: filter_empty_conv)

text \<open>The literals compared for equality with the primary key are primary keys.\<close>

definition pk_literals_ok :: "TableSchema \<Rightarrow> Predicate \<Rightarrow> bool" where
  "pk_literals_ok schema wh \<longleftrightarrow>
     list_all (\<lambda>c. cmp_op c = EQ \<and> cmp_column c = col_name (hd (ts_columns schema)) \<longrightarrow>
       (case cmp_literal c of IntV v \<Rightarrow> 0 \<le> v \<and> v \<le> kMaxRowKey | TextV _ \<Rightarrow> True)) wh"

text \<open>The rows of a table that satisfy a \<open>WHERE\<close> clause, by primary key.\<close>

abbreviation matching :: "TableSchema \<Rightarrow> (int \<rightharpoonup> Value list) \<Rightarrow> Predicate \<Rightarrow> int list" where
  "matching schema tab wh \<equiv> pks_where tab (\<lambda>row. list_all (cmp_holds schema row) wh)"

lemma matching_point:
  assumes "rows_stored m schema" "finite (dom m)"
    "\<And>row pk. row ! 0 = IntV pk \<Longrightarrow> 0 \<le> pk \<Longrightarrow> pk \<le> kMaxRowKey \<Longrightarrow>
       list_all (cmp_holds schema row) wh \<longleftrightarrow> pk = v \<and> list_all (cmp_holds schema row) others"
  shows "matching schema (table_of m schema) wh =
    (case table_of m schema v of None \<Rightarrow> [] | Some row \<Rightarrow> if list_all (cmp_holds schema row) others then [v] else [])"
proof -
  have "list_all (cmp_holds schema (the (table_of m schema pk))) wh \<longleftrightarrow> pk = v \<and> list_all (cmp_holds schema (the (table_of m schema pk))) others"
    if "pk \<in> dom (table_of m schema)" for pk
    using that table_of_SomeD[OF assms(1)] assms(3) by fastforce
  then have "matching schema (table_of m schema) wh =
    filter (\<lambda>pk. pk = v \<and> list_all (cmp_holds schema (the (table_of m schema pk))) others) (sorted_list_of_set (dom (table_of m schema)))"
    unfolding pks_where_def using finite_table_of[OF assms(2)] by (intro filter_cong) auto
  also have "\<dots> = (if v \<in> dom (table_of m schema) \<and> list_all (cmp_holds schema (the (table_of m schema v))) others then [v] else [])"
    using finite_table_of[OF assms(2)] by (subst filter_only[where v = v]) auto
  finally show ?thesis
    by (auto split: option.splits)
qed

context storage_engine
begin

text \<open>The loop returns, with what it picks from the matching entries of the run, and leaves the engine as it was.\<close>

lemma Scan_loop_ok:
  assumes "iter_at s it out"
    and "\<forall>e \<in> set (takeWhile (in_run schema hi) out). row_of schema (DecodeRowKey (fst e)) (snd e) = Some (entry_row schema e) \<and>
      MatchesPredicate schema (entry_row schema e) pred = Inr (P (entry_row schema e))"
  shows "\<exists>s'. Scan_loop ops schema hi pred pick it s acc =
      Some (Inr (acc @ map (\<lambda>e. pick (fst e) (entry_row schema e))
        (filter (\<lambda>e. P (entry_row schema e)) (takeWhile (in_run schema hi) out))), s') \<and>
    inv s' \<and> amap s' = amap s \<and> (\<forall>n. room s n \<longrightarrow> room s' n)"
  using assms
proof (induction out arbitrary: it s acc)
  case Nil
  then show ?case
    using destroy_ok[OF Nil.prems(1)] IsValid_iff[OF Nil.prems(1)] by (subst Scan_loop.simps) simp
next
  case (Cons e out)
  obtain it' s' where n: "si_GetKey ops it s = fst e" "si_GetValue ops it s = snd e" "si_Next ops it s = (Inr it', s')"
    "iter_at s' it' out" "amap s' = amap s" "\<forall>n. room s n \<longrightarrow> room s' n"
    using Next_ok[OF Cons.prems(1)] by blast
  have v: "si_IsValid ops it"
    using IsValid_iff[OF Cons.prems(1)] by simp
  show ?case
  proof (cases "in_run schema hi e")
    case False
    then show ?thesis
      using destroy_ok[OF Cons.prems(1)] v n(1) by (subst Scan_loop.simps) (auto simp: in_run_def)
  next
    case True
    then have e: "DecodeRow schema (DecodeRowKey (fst e)) (snd e) = Inr (entry_row schema e)"
      "MatchesPredicate schema (entry_row schema e) pred = Inr (P (entry_row schema e))"
      using Cons.prems(2) by (simp_all add: row_of_eq)
    have rest: "\<forall>e \<in> set (takeWhile (in_run schema hi) out). row_of schema (DecodeRowKey (fst e)) (snd e) = Some (entry_row schema e) \<and>
      MatchesPredicate schema (entry_row schema e) pred = Inr (P (entry_row schema e))"
      using Cons.prems(2) True by simp
    have "Scan_loop ops schema hi pred pick it s acc =
      Scan_loop ops schema hi pred pick it' s' (if P (entry_row schema e) then acc @ [pick (fst e) (entry_row schema e)] else acc)"
      using True v n e by (subst Scan_loop.simps) (simp add: in_run_def)
    then show ?thesis
      using Cons.IH[OF n(4) rest, of "if P (entry_row schema e) then acc @ [pick (fst e) (entry_row schema e)] else acc"] True n(5,6)
      by auto
  qed
qed

text \<open>A scan of a table with an upper bound, in terms of the table.\<close>

lemma Scan_ok_table:
  assumes inv: "inv s" and stored: "rows_stored (amap s) schema" and valid: "list_all (cmp_valid schema) pred"
    and bounds: "\<forall>pk row. table_of (amap s) schema pk = Some row \<longrightarrow> list_all (cmp_holds schema row) pred \<longrightarrow>
      start mod 2 ^ 48 \<le> pk \<and> pk \<le> hi"
  shows "\<exists>it s1 s'. se_Scan ops (EncodeKey (ts_table_id schema) start) s = (Inr it, s1) \<and>
    Scan_loop ops schema hi pred pick it s1 [] =
      Some (Inr (map (\<lambda>pk. pick (EncodeKey (ts_table_id schema) pk) (the (table_of (amap s) schema pk)))
        (pks_where (table_of (amap s) schema) (\<lambda>row. list_all (cmp_holds schema row) pred))), s') \<and>
    inv s' \<and> amap s' = amap s \<and> (\<forall>n. room s n \<longrightarrow> room s' n)"
proof -
  let ?t = "ts_table_id schema" and ?tab = "table_of (amap s) schema" and ?m = "amap s"
  let ?P = "\<lambda>row. list_all (cmp_holds schema row) pred"
  let ?in = "\<lambda>pk. start mod 2 ^ 48 \<le> pk \<and> pk \<le> hi"
  let ?f = "\<lambda>pk. (EncodeKey ?t pk, the (?m (EncodeKey ?t pk)))"
  obtain it s1 out where it: "se_Scan ops (EncodeKey ?t start) s = (Inr it, s1)" "iter_at s1 it out" "amap s1 = amap s"
    "\<forall>n. room s n \<longrightarrow> room s1 n" "sorted_wrt (<) (map fst out)" "\<forall>k'. map_of out k' = (if EncodeKey ?t start \<le> k' then ?m k' else None)"
    using Scan_ok[OF inv] by blast
  have fits: "\<forall>k v. ?m k = Some v \<longrightarrow> is_int64 k" "finite (dom ?m)"
    using amap_fits[OF inv] by blast+
  have run: "takeWhile (in_run schema hi) out = map ?f (filter ?in (sorted_list_of_set (dom ?tab)))"
    by (rule run_entries[OF it(5,6) fits stored])
  have ok: "\<forall>e \<in> set (takeWhile (in_run schema hi) out). row_of schema (DecodeRowKey (fst e)) (snd e) = Some (entry_row schema e) \<and>
      MatchesPredicate schema (entry_row schema e) pred = Inr (?P (entry_row schema e))"
    unfolding run using stored_entry[OF stored] MatchesPredicate_valid[OF _ valid] finite_table_of[OF fits(2)] by auto
  have "map (\<lambda>e. pick (fst e) (entry_row schema e)) (filter (\<lambda>e. ?P (entry_row schema e)) (takeWhile (in_run schema hi) out)) =
    map (\<lambda>pk. pick (EncodeKey ?t pk) (the (?tab pk))) (pks_where ?tab ?P)"
    unfolding run by (rule picked_rows[OF stored fits(2) bounds])
  then show ?thesis
    using Scan_loop_ok[OF it(2) ok, of pick "[]"] it by auto
qed

end

lemma restrict_map_all [simp]: "m |` UNIV = m"
  by (simp add: restrict_map_def)

text \<open>The plan of a \<open>WHERE\<close> clause, as the executor needs it.\<close>

lemma plan_scan_bounds:
  assumes "schema_ok schema" "list_all (cmp_valid schema) wh" "PlanQuery schema wh = Inr plan" "access_path plan \<noteq> POINT_LOOKUP"
    "rows_stored m schema"
  shows "residual plan = wh" "\<forall>pk row. table_of m schema pk = Some row \<longrightarrow> list_all (cmp_holds schema row) wh \<longrightarrow>
      scan_start plan mod 2 ^ 48 \<le> pk \<and> pk \<le> scan_hi plan"
proof -
  obtain plan' where p: "PlanQuery schema wh = Inr plan'" "0 \<le> range_lo plan'" "access_path plan' \<noteq> POINT_LOOKUP \<longrightarrow> residual plan' = wh"
    "\<forall>row pk. row ! 0 = IntV pk \<longrightarrow> 0 \<le> pk \<longrightarrow> pk \<le> INT64_MAX \<longrightarrow>
       list_all (cmp_holds schema row) wh \<longrightarrow> plan_admits plan' pk"
    by (rule PlanQuery_ok[OF assms(1,2)]) blast
  have plan: "plan' = plan"
    using p(1) assms(3) by simp
  then show "residual plan = wh"
    using p(3) assms(4) by simp
  show "\<forall>pk row. table_of m schema pk = Some row \<longrightarrow> list_all (cmp_holds schema row) wh \<longrightarrow>
      scan_start plan mod 2 ^ 48 \<le> pk \<and> pk \<le> scan_hi plan"
  proof (intro allI impI)
    fix pk row
    assume row: "table_of m schema pk = Some row" and wh: "list_all (cmp_holds schema row) wh"
    note t = table_of_SomeD[OF assms(5) row]
    have pk: "pk \<le> INT64_MAX"
      using t(2) by (simp add: key_consts INT64_MAX_def)
    have "plan_admits plan pk"
      using p(4) t(1,4) pk wh plan by blast
    moreover have "range_lo plan mod 2 ^ 48 \<le> range_lo plan"
      using p(2) plan by (simp add: zmod_le_nonneg_dividend)
    ultimately show "scan_start plan mod 2 ^ 48 \<le> pk \<and> pk \<le> scan_hi plan"
      using assms(4) pk t(1) by (cases "access_path plan") (auto simp: plan_admits_def scan_start_def scan_hi_def)
  qed
qed

lemma plan_point:
  assumes "schema_ok schema" "list_all (cmp_valid schema) wh" "pk_literals_ok schema wh" "PlanQuery schema wh = Inr plan"
    "access_path plan = POINT_LOOKUP" "rows_stored m schema" "finite (dom m)"
  shows "0 \<le> point_key plan" "point_key plan \<le> kMaxRowKey" "list_all (cmp_valid schema) (residual plan)"
    "matching schema (table_of m schema) wh =
      (case table_of m schema (point_key plan) of None \<Rightarrow> []
       | Some row \<Rightarrow> if list_all (cmp_holds schema row) (residual plan) then [point_key plan] else [])"
proof -
  obtain plan' where p: "PlanQuery schema wh = Inr plan'" "list_all (cmp_valid schema) (residual plan')"
    "access_path plan' = POINT_LOOKUP \<longrightarrow> (\<exists>c \<in> set wh. cmp_op c = EQ \<and>
       cmp_column c = col_name (hd (ts_columns schema)) \<and> cmp_literal c = IntV (point_key plan'))"
    "\<forall>row pk. row ! 0 = IntV pk \<longrightarrow> 0 \<le> pk \<longrightarrow> pk \<le> INT64_MAX \<longrightarrow>
       (list_all (cmp_holds schema row) wh \<longleftrightarrow> plan_admits plan' pk \<and> list_all (cmp_holds schema row) (residual plan'))"
    by (rule PlanQuery_ok[OF assms(1,2)]) blast
  have plan: "plan' = plan"
    using p(1) assms(4) by simp
  show "0 \<le> point_key plan" "point_key plan \<le> kMaxRowKey" "list_all (cmp_valid schema) (residual plan)"
    using p(2,3) assms(3,5) plan by (auto simp: pk_literals_ok_def list_all_iff)
  have "list_all (cmp_holds schema row) wh \<longleftrightarrow> pk = point_key plan \<and> list_all (cmp_holds schema row) (residual plan)"
    if "row ! 0 = IntV pk" "0 \<le> pk" "pk \<le> kMaxRowKey" for row pk
    using p(4) that plan assms(5) by (simp add: plan_admits_def key_consts INT64_MAX_def)
  then show "matching schema (table_of m schema) wh =
      (case table_of m schema (point_key plan) of None \<Rightarrow> []
       | Some row \<Rightarrow> if list_all (cmp_holds schema row) (residual plan) then [point_key plan] else [])"
    by (rule matching_point[OF assms(6,7)])
qed

context storage_engine
begin

lemma ExecuteFetch_ok:
  assumes inv: "inv s" and stored: "rows_stored (amap s) schema" and wh: "schema_ok schema" "list_all (cmp_valid schema) wh" "pk_literals_ok schema wh"
    and plan: "PlanQuery schema wh = Inr plan"
  shows "\<exists>s'. ExecuteFetch ops schema plan s =
      Some (Inr (map (\<lambda>pk. the (table_of (amap s) schema pk)) (matching schema (table_of (amap s) schema) wh)), s') \<and>
    inv s' \<and> amap s' = amap s \<and> (\<forall>n. room s n \<longrightarrow> room s' n)"
proof (cases "access_path plan = POINT_LOOKUP")
  case True
  have fin: "finite (dom (amap s))"
    using amap_fits[OF inv] by blast
  note p = plan_point[OF wh plan True stored fin]
  obtain s' where g: "se_Get ops (EncodeKey (ts_table_id schema) (point_key plan)) s = (Inr (amap s (EncodeKey (ts_table_id schema) (point_key plan))), s')"
    "inv s'" "amap s' = amap s" "\<forall>n. room s n \<longrightarrow> room s' n"
    using Get_ok[OF inv] by blast
  show ?thesis
  proof (cases "amap s (EncodeKey (ts_table_id schema) (point_key plan))")
    case None
    then have "table_of (amap s) schema (point_key plan) = None"
      by (simp add: table_of_def)
    then show ?thesis
      using True g p(4) None by (simp add: ExecuteFetch_def)
  next
    case (Some payload)
    obtain row where row: "DecodeRow schema (point_key plan) payload = Inr row" "table_of (amap s) schema (point_key plan) = Some row"
      using stored_row[OF stored p(1,2) Some] by blast
    show ?thesis
      using True g p(4) Some row MatchesPredicate_valid[OF table_of_SomeD(3)[OF stored row(2)] p(3)] by (simp add: ExecuteFetch_def)
  qed
next
  case False
  note b = plan_scan_bounds[OF wh(1,2) plan False stored]
  show ?thesis
    using Scan_ok_table[OF inv stored wh(2) b(2), of "\<lambda>key row. row"] b(1) False by (auto simp: ExecuteFetch_def)
qed

end

context storage_engine
begin

lemma Delete_keys_ok:
  assumes "inv s" "room s (length keys + n)" "distinct keys" "\<forall>k \<in> set keys. amap s k \<noteq> None"
  shows "(\<exists>e s'. Delete_keys ops keys deleted s = (Inl e, s') \<and> capacity_error e) \<or>
    (\<exists>s'. Delete_keys ops keys deleted s = (Inr (deleted + length keys), s') \<and> inv s' \<and> amap s' = amap s |` (- set keys) \<and> room s' n)"
  using assms
proof (induction keys arbitrary: s deleted)
  case Nil
  then show ?case
    by simp
next
  case (Cons k keys)
  have k: "is_int64 k"
    using amap_fits[OF Cons.prems(1)] Cons.prems(4) by fastforce
  from Delete_ok[OF Cons.prems(1) _ k, of "length keys + n"] Cons.prems(2)
  consider (fail) e s' where "se_Delete ops k s = (Inl e, s')" "capacity_error e"
    | (ok) s' where "se_Delete ops k s = (Inr (amap s k \<noteq> None), s')" "inv s'" "amap s' = (amap s)(k := None)" "room s' (length keys + n)"
    by auto
  then show ?case
  proof cases
    case ok
    have "\<forall>k' \<in> set keys. amap s' k' \<noteq> None"
      using ok(3) Cons.prems(3,4) by auto
    moreover have "amap s' |` (- set keys) = amap s |` (- set (k # keys))"
      using ok(3) by (auto simp: restrict_map_def fun_eq_iff)
    ultimately show ?thesis
      using Cons.IH[OF ok(2,4), of "deleted + 1"] Cons.prems(3,4) ok(1) by simp
  qed simp
qed

lemma ExecuteDelete_ok:
  assumes inv: "inv s" and stored: "rows_stored (amap s) schema" and wh: "schema_ok schema" "list_all (cmp_valid schema) wh" "pk_literals_ok schema wh"
    and plan: "PlanQuery schema wh = Inr plan" and room: "room s (length (matching schema (table_of (amap s) schema) wh) + n)"
  shows "(\<exists>e s'. ExecuteDelete ops schema plan s = Some (Inl e, s') \<and> capacity_error e) \<or>
    (\<exists>s'. ExecuteDelete ops schema plan s = Some (Inr (length (matching schema (table_of (amap s) schema) wh)), s') \<and> inv s' \<and>
      amap s' = amap s |` (- EncodeKey (ts_table_id schema) ` set (matching schema (table_of (amap s) schema) wh)) \<and> room s' n)"
    (is "?fail \<or> ?ok")
proof (cases "access_path plan = POINT_LOOKUP")
  case True
  let ?k = "EncodeKey (ts_table_id schema) (point_key plan)"
  have fin: "finite (dom (amap s))"
    using amap_fits[OF inv] by blast
  note p = plan_point[OF wh plan True stored fin]
  obtain s1 where g: "se_Get ops ?k s = (Inr (amap s ?k), s1)" "inv s1" "amap s1 = amap s" "\<forall>n. room s n \<longrightarrow> room s1 n"
    using Get_ok[OF inv] by blast
  show ?thesis
  proof (cases "amap s ?k")
    case None
    then have "table_of (amap s) schema (point_key plan) = None"
      by (simp add: table_of_def)
    then show ?thesis
      using True g p(4) None room by (simp add: ExecuteDelete_def)
  next
    case (Some payload)
    obtain row where row: "DecodeRow schema (point_key plan) payload = Inr row" "table_of (amap s) schema (point_key plan) = Some row"
      using stored_row[OF stored p(1,2) Some] by blast
    note mp = MatchesPredicate_valid[OF table_of_SomeD(3)[OF stored row(2)] p(3)]
    show ?thesis
    proof (cases "list_all (cmp_holds schema row) (residual plan)")
      case True': True
      then have "matching schema (table_of (amap s) schema) wh = [point_key plan]" "room s1 (Suc n)"
        using p(4) row(2) room g(4) by simp_all
      then show ?thesis
        using Delete_ok[OF g(2) _ EncodeKey_int64, of n "ts_table_id schema" "point_key plan"] True True' g Some row mp
        by (auto simp: ExecuteDelete_def restrict_complement_singleton_eq)
    next
      case False
      then show ?thesis
        using True g p(4) Some row mp room by (simp add: ExecuteDelete_def)
    qed
  qed
next
  case False
  let ?pks = "matching schema (table_of (amap s) schema) wh"
  note b = plan_scan_bounds[OF wh(1,2) plan False stored]
  obtain it s1 s2 where sc: "se_Scan ops (EncodeKey (ts_table_id schema) (scan_start plan)) s = (Inr it, s1)"
    "Scan_loop ops schema (scan_hi plan) wh (\<lambda>key row. key) it s1 [] = Some (Inr (map (EncodeKey (ts_table_id schema)) ?pks), s2)"
    "inv s2" "amap s2 = amap s" "\<forall>n. room s n \<longrightarrow> room s2 n"
    using Scan_ok_table[OF inv stored wh(2) b(2), of "\<lambda>key row. key"] by blast
  have fin: "finite (dom (table_of (amap s) schema))"
    using amap_fits[OF inv] finite_table_of by blast
  have pks: "distinct ?pks" "\<forall>pk \<in> set ?pks. 0 \<le> pk \<and> pk \<le> kMaxRowKey \<and> amap s (EncodeKey (ts_table_id schema) pk) \<noteq> None"
    using fin table_of_dom[OF stored] by (auto simp: pks_where_def)
  then have "distinct (map (EncodeKey (ts_table_id schema)) ?pks)"
    by (auto simp: distinct_map inj_on_def EncodeKey_inj)
  then show ?thesis
    using Delete_keys_ok[OF sc(3), of "map (EncodeKey (ts_table_id schema)) ?pks" n 0] sc b(1) False room pks(2)
    by (auto simp: ExecuteDelete_def)
qed

end

end
