(* ===== verification/Sql_Database.thy ===== *)
theory Sql_Database
  imports Sql_Executor
begin

text \<open>
  \<^verbatim>\<open>src/src/sql/database.cpp\<close>: a database is a catalog and a storage engine; \<open>Execute\<close> parses a text and runs
  the statement. The specification is a map from table names to columns and rows; in the context of
  an engine's contract every statement is shown to answer as the specification does.
\<close>

section \<open>The database\<close>

datatype EngineType = BTREE | LSM

record QueryResult =
  column_names :: "string list"
  rows :: "Value list list"
  rows_affected :: nat
  message :: string

definition QueryResult_empty :: QueryResult where
  "QueryResult_empty = \<lparr>column_names = [], rows = [], rows_affected = 0, message = []\<rparr>"

record 's Database =
  db_catalog :: Catalog
  db_engine :: 's

definition Database_new :: "'s \<Rightarrow> 's Database" where
  "Database_new engine = \<lparr>db_catalog = Catalog_init, db_engine = engine\<rparr>"

definition ExecuteCreateTable :: "string \<Rightarrow> ColumnDefAst list \<Rightarrow> 's Database \<Rightarrow> QueryResult result \<times> 's Database" where
  "ExecuteCreateTable name columns db =
     (case Catalog_CreateTable name columns (db_catalog db) of
        (Inl e, cat) \<Rightarrow> (Inl e, db\<lparr>db_catalog := cat\<rparr>)
      | (Inr _, cat) \<Rightarrow> (Inr (QueryResult_empty\<lparr>message := ''CREATE TABLE''\<rparr>), db\<lparr>db_catalog := cat\<rparr>))"

definition ExecuteInsert :: "('s, 'i) StorageEngine \<Rightarrow> string \<Rightarrow> Value list \<Rightarrow> 's Database \<Rightarrow> QueryResult result \<times> 's Database" where
  "ExecuteInsert ops name vals db =
     (case Catalog_GetTable name (db_catalog db) of
        Inl e \<Rightarrow> (Inl e, db)
      | Inr schema \<Rightarrow>
          (case vals of
             IntV pk # _ \<Rightarrow>
               if pk < 0 \<or> pk > kMaxRowKey then
                 (Inl (SqlException (''primary key '' @ to_string pk @ '' is out of range [0, '' @ to_string kMaxRowKey @ '']'')), db)
               else (case EncodeRow schema vals of
                  Inl e \<Rightarrow> (Inl e, db)
                | Inr payload \<Rightarrow>
                    (case se_Put ops (EncodeKey (ts_table_id schema) pk) payload (db_engine db) of
                       (Inl e, s) \<Rightarrow> (Inl e, db\<lparr>db_engine := s\<rparr>)
                     | (Inr _, s) \<Rightarrow> (Inr (QueryResult_empty\<lparr>rows_affected := 1, message := ''INSERT 1''\<rparr>), db\<lparr>db_engine := s\<rparr>)))
           | _ \<Rightarrow> (Inl (SqlException ''the primary key value must be an INTEGER''), db)))"

text \<open>The select list: the names and the indices of the columns to return.\<close>

fun Projection_loop :: "TableSchema \<Rightarrow> string list \<Rightarrow> int list \<Rightarrow> int list result" where
  "Projection_loop schema [] proj = Inr proj"
| "Projection_loop schema (c # cs) proj =
     (let idx = ColumnIndex schema c
      in if idx < 0 then Inl (SqlException (''no such column: '' @ quoted c @ '' on table '' @ quoted (ts_name schema)))
         else Projection_loop schema cs (proj @ [idx]))"

definition Projection :: "TableSchema \<Rightarrow> bool \<Rightarrow> string list \<Rightarrow> (string list \<times> int list) result" where
  "Projection schema star cols =
     (if star then Inr (map col_name (ts_columns schema), map int [0..<length (ts_columns schema)])
      else and_then (Projection_loop schema cols []) (\<lambda>proj. Inr (cols, proj)))"

fun all_ok :: "'a result list \<Rightarrow> 'a list result" where
  "all_ok [] = Inr []"
| "all_ok (r # rs) = and_then r (\<lambda>x. and_then (all_ok rs) (\<lambda>xs. Inr (x # xs)))"

definition Project_row :: "int list \<Rightarrow> Value list \<Rightarrow> Value list result" where
  "Project_row proj row = all_ok (map (vec_at row) proj)"

definition ExecuteSelect ::
    "('s, 'i) StorageEngine \<Rightarrow> string \<Rightarrow> bool \<Rightarrow> string list \<Rightarrow> Predicate \<Rightarrow> 's Database \<Rightarrow> (QueryResult result \<times> 's Database) option" where
  "ExecuteSelect ops name star cols wh db =
     (case and_then (Catalog_GetTable name (db_catalog db)) (\<lambda>schema. and_then (PlanQuery schema wh) (\<lambda>plan. Inr (schema, plan))) of
        Inl e \<Rightarrow> Some (Inl e, db)
      | Inr (schema, plan) \<Rightarrow>
          (case ExecuteFetch ops schema plan (db_engine db) of
             None \<Rightarrow> None
           | Some (r, s) \<Rightarrow>
               Some (and_then r (\<lambda>rws.
                     and_then (Projection schema star cols) (\<lambda>(names, proj).
                     and_then (all_ok (map (Project_row proj) rws)) (\<lambda>projected.
                       Inr \<lparr>column_names = names, rows = projected, rows_affected = length projected,
                            message = ''SELECT '' @ to_string (int (length projected))\<rparr>))),
                     db\<lparr>db_engine := s\<rparr>)))"

definition ExecuteDeleteStmt :: "('s, 'i) StorageEngine \<Rightarrow> string \<Rightarrow> Predicate \<Rightarrow> 's Database \<Rightarrow> (QueryResult result \<times> 's Database) option" where
  "ExecuteDeleteStmt ops name wh db =
     (case and_then (Catalog_GetTable name (db_catalog db)) (\<lambda>schema. and_then (PlanQuery schema wh) (\<lambda>plan. Inr (schema, plan))) of
        Inl e \<Rightarrow> Some (Inl e, db)
      | Inr (schema, plan) \<Rightarrow>
          (case ExecuteDelete ops schema plan (db_engine db) of
             None \<Rightarrow> None
           | Some (r, s) \<Rightarrow>
               Some (and_then r (\<lambda>deleted.
                       Inr (QueryResult_empty\<lparr>rows_affected := deleted, message := ''DELETE '' @ to_string (int deleted)\<rparr>)),
                     db\<lparr>db_engine := s\<rparr>)))"

definition Execute_statement :: "('s, 'i) StorageEngine \<Rightarrow> Statement \<Rightarrow> 's Database \<Rightarrow> (QueryResult result \<times> 's Database) option" where
  "Execute_statement ops stmt db =
     (case stmt of
        CreateTableStmt name columns \<Rightarrow> Some (ExecuteCreateTable name columns db)
      | InsertStmt name vals \<Rightarrow> Some (ExecuteInsert ops name vals db)
      | SelectStmt name star cols wh \<Rightarrow> ExecuteSelect ops name star cols wh db
      | DeleteStmt name wh \<Rightarrow> ExecuteDeleteStmt ops name wh db)"

definition Database_Execute :: "('s, 'i) StorageEngine \<Rightarrow> string \<Rightarrow> 's Database \<Rightarrow> (QueryResult result \<times> 's Database) option" where
  "Database_Execute ops sql db =
     (case Parser_Parse sql of Inl e \<Rightarrow> Some (Inl e, db) | Inr stmt \<Rightarrow> Execute_statement ops stmt db)"

section \<open>Every statement ends\<close>

context storage_engine
begin

lemma Scan_loop_returns: "iter_at s it out \<Longrightarrow> \<exists>r s'. Scan_loop ops schema hi pred pick it s acc = Some (r, s')"
proof (induction out arbitrary: it s acc)
  case Nil
  then show ?case
    using IsValid_iff[OF Nil] by (subst Scan_loop.simps) simp
next
  case (Cons e out)
  obtain it' s' where "si_Next ops it s = (Inr it', s')" "iter_at s' it' out"
    using Next_ok[OF Cons.prems] by blast
  then show ?case
    using Cons.IH by (subst Scan_loop.simps) (simp split: sum.split)
qed

lemma ExecuteFetch_returns: "inv s \<Longrightarrow> \<exists>r s'. ExecuteFetch ops schema plan s = Some (r, s')"
  using Scan_ok[of s "EncodeKey (ts_table_id schema) (scan_start plan)"] Scan_loop_returns
  by (fastforce simp: ExecuteFetch_def split: sum.split prod.split option.split)

lemma ExecuteDelete_returns: 
  assumes "inv s"
  shows "\<exists>r s'. ExecuteDelete ops schema plan s = Some (r, s')"
proof (cases "access_path plan = POINT_LOOKUP")
  case True
  then show ?thesis
    by (auto simp: ExecuteDelete_def split: sum.split prod.split option.split)
next
  case False
  obtain it s1 out where it: "se_Scan ops (EncodeKey (ts_table_id schema) (scan_start plan)) s = (Inr it, s1)" "iter_at s1 it out"
    using Scan_ok[OF assms] by blast
  then obtain r s' where "Scan_loop ops schema (scan_hi plan) (residual plan) (\<lambda>key row. key) it s1 [] = Some (r, s')"
    using Scan_loop_returns by blast
  then show ?thesis
    using False it(1) by (cases r; cases "Delete_keys ops (projr r) 0 s'") (simp_all add: ExecuteDelete_def)
qed

lemma Execute_statement_returns:
  assumes "inv (db_engine db)"
  shows "Execute_statement ops stmt db \<noteq> None"
proof -
  have n: "ExecuteFetch ops schema plan (db_engine db) \<noteq> None" "ExecuteDelete ops schema plan (db_engine db) \<noteq> None" for schema plan
    using ExecuteFetch_returns[OF assms, of schema plan] ExecuteDelete_returns[OF assms, of schema plan] by auto
  show ?thesis
    by (cases stmt) (auto simp: n Execute_statement_def ExecuteSelect_def ExecuteDeleteStmt_def split: sum.split prod.split option.split)
qed

lemma Database_Execute_returns:
  "inv (db_engine db) \<Longrightarrow> Database_Execute ops sql db \<noteq> None"
  using Execute_statement_returns by (auto simp: Database_Execute_def split: sum.split)

end

section \<open>The specification\<close>

type_synonym sql_table = "ColumnDef list \<times> (int \<rightharpoonup> Value list)"
type_synonym sql_state = "string \<rightharpoonup> sql_table"

definition as_schema :: "ColumnDef list \<Rightarrow> TableSchema" where
  "as_schema cols = \<lparr>ts_name = [], ts_table_id = 0, ts_columns = cols\<rparr>"

definition where_valid :: "ColumnDef list \<Rightarrow> Predicate \<Rightarrow> bool" where
  "where_valid cols wh \<longleftrightarrow> list_all (cmp_valid (as_schema cols)) wh"

definition where_rows :: "sql_table \<Rightarrow> Predicate \<Rightarrow> int list" where
  "where_rows t wh = matching (as_schema (fst t)) (snd t) wh"

definition value_size :: "Value \<Rightarrow> nat" where
  "value_size v = (case v of IntV _ \<Rightarrow> 8 | TextV s \<Rightarrow> 2 + length s)"

text \<open>A row that can be inserted: typed, its key in range, its other columns within the row limit.\<close>

definition row_insertable :: "ColumnDef list \<Rightarrow> Value list \<Rightarrow> bool" where
  "row_insertable cols vals \<longleftrightarrow>
     row_typed cols vals \<and>
     (case vals of IntV pk # vs \<Rightarrow> 0 \<le> pk \<and> pk \<le> kMaxRowKey \<and> sum_list (map value_size vs) \<le> MAX_VALUE_SIZE | _ \<Rightarrow> False)"

definition projection_of :: "ColumnDef list \<Rightarrow> bool \<Rightarrow> string list \<Rightarrow> nat list" where
  "projection_of cols star names =
     (if star then [0..<length cols] else map (\<lambda>c. nat (ColumnIndex (as_schema cols) c)) names)"

definition spec_select :: "sql_table \<Rightarrow> bool \<Rightarrow> string list \<Rightarrow> Predicate \<Rightarrow> QueryResult option" where
  "spec_select t star names wh =
     (if where_valid (fst t) wh \<and> (star \<or> list_all (\<lambda>c. c \<in> set (map col_name (fst t))) names)
      then let out = map (\<lambda>pk. map (\<lambda>i. the (snd t pk) ! i) (projection_of (fst t) star names)) (where_rows t wh)
           in Some \<lparr>column_names = (if star then map col_name (fst t) else names), rows = out,
                    rows_affected = length out, message = ''SELECT '' @ to_string (int (length out))\<rparr>
      else None)"

text \<open>A statement on the abstract tables: its result and the new tables, or a rejection.\<close>

definition spec_exec :: "Statement \<Rightarrow> sql_state \<Rightarrow> (QueryResult \<times> sql_state) option" where
  "spec_exec stmt st =
     (case stmt of
        CreateTableStmt name columns \<Rightarrow>
          if st name = None
          then Some (QueryResult_empty\<lparr>message := ''CREATE TABLE''\<rparr>, st(name \<mapsto> (ast_schema columns, Map.empty)))
          else None
      | InsertStmt name vals \<Rightarrow>
          (case st name of
             None \<Rightarrow> None
           | Some (cols, tab) \<Rightarrow>
               if row_insertable cols vals
               then Some (QueryResult_empty\<lparr>rows_affected := 1, message := ''INSERT 1''\<rparr>,
                          st(name \<mapsto> (cols, (case hd vals of IntV pk \<Rightarrow> tab(pk \<mapsto> vals) | TextV _ \<Rightarrow> tab))))
               else None)
      | SelectStmt name star names wh \<Rightarrow>
          (case st name of
             None \<Rightarrow> None
           | Some t \<Rightarrow> map_option (\<lambda>q. (q, st)) (spec_select t star names wh))
      | DeleteStmt name wh \<Rightarrow>
          (case st name of
             None \<Rightarrow> None
           | Some t \<Rightarrow>
               if where_valid (fst t) wh
               then Some (QueryResult_empty\<lparr>rows_affected := length (where_rows t wh), message := ''DELETE '' @ to_string (int (length (where_rows t wh)))\<rparr>,
                          st(name \<mapsto> (fst t, snd t |` (- set (where_rows t wh)))))
               else None))"

text \<open>The statements the program answers as specified: equality with the primary key is asked for a possible key, and table ids are left.\<close>

definition in_range :: "Statement \<Rightarrow> sql_state \<Rightarrow> bool" where
  "in_range stmt st \<longleftrightarrow>
     (case stmt of
        CreateTableStmt _ _ \<Rightarrow> card (dom st) < kMaxTables
      | InsertStmt _ _ \<Rightarrow> True
      | SelectStmt name _ _ wh \<Rightarrow> (case st name of None \<Rightarrow> True | Some t \<Rightarrow> pk_literals_ok (as_schema (fst t)) wh)
      | DeleteStmt name wh \<Rightarrow> (case st name of None \<Rightarrow> True | Some t \<Rightarrow> pk_literals_ok (as_schema (fst t)) wh))"

section \<open>Names do not matter\<close>

lemma as_schema_simps [simp]:
  "ts_columns (as_schema cols) = cols"
  "ColumnIndex (as_schema (ts_columns schema)) = ColumnIndex schema"
  by (simp_all add: as_schema_def ColumnIndex_def fun_eq_iff)

lemma as_schema_eqs [simp]:
  "cmp_valid (as_schema (ts_columns schema)) = cmp_valid schema"
  "cmp_holds (as_schema (ts_columns schema)) = cmp_holds schema"
  "pk_literals_ok (as_schema (ts_columns schema)) = pk_literals_ok schema"
  by (simp_all add: fun_eq_iff cmp_valid_def cmp_holds_def pk_literals_ok_def)

lemma spec_of_schema:
  "where_valid (ts_columns schema) wh \<longleftrightarrow> list_all (cmp_valid schema) wh"
  "where_rows (ts_columns schema, tab) wh = matching schema tab wh"
  by (simp_all add: where_valid_def where_rows_def)

section \<open>Rows that can be inserted\<close>

lemma value_size_simps [simp]: "value_size (IntV x) = 8" "value_size (TextV s) = 2 + length s"
  by (simp_all add: value_size_def)

lemma EncodeRow_loop_size:
  "length vals = length cols \<Longrightarrow>
   (case EncodeRow_loop cols vals p of
      Inl e \<Rightarrow> \<not> row_typed cols vals \<or> sum_list (map value_size vals) > 0xFFFF
    | Inr p' \<Rightarrow> row_typed cols vals \<and> length p' = length p + sum_list (map value_size vals))"
proof (induction cols arbitrary: vals p)
  case (Cons col cols)
  then obtain v vs where vs: "vals = v # vs" "length vs = length cols"
    by (cases vals) auto
  show ?case
  proof (cases v)
    case (IntV x)
    then show ?thesis
      using Cons.IH[OF vs(2), of "AppendInteger p x"] vs(1)
      by (cases "col_type col") (auto simp: AppendInteger_def split: sum.splits)
  next
    case (TextV t)
    then show ?thesis
      using Cons.IH[OF vs(2), of "p @ string_of (le_bytes 2 (int (length t))) @ t"] vs(1)
      by (cases "col_type col") (auto simp: AppendText_def split: sum.splits)
  qed
qed simp

lemma EncodeRow_iff:
  "(\<exists>payload. EncodeRow schema vals = Inr payload) \<longleftrightarrow>
   length vals = length (ts_columns schema) \<and> row_typed (tl (ts_columns schema)) (tl vals) \<and>
   sum_list (map value_size (tl vals)) \<le> MAX_VALUE_SIZE"
  using EncodeRow_loop_size[of "tl vals" "tl (ts_columns schema)" "[]"]
  by (auto simp: EncodeRow_def MAX_VALUE_SIZE_def split: sum.splits if_splits)

lemma row_insertable_iff:
  assumes "schema_ok schema"
  shows "row_insertable (ts_columns schema) (IntV pk # vs) \<longleftrightarrow>
    0 \<le> pk \<and> pk \<le> kMaxRowKey \<and> (\<exists>payload. EncodeRow schema (IntV pk # vs) = Inr payload)"
proof -
  obtain c cs where c: "ts_columns schema = c # cs" "col_type c = INTEGER"
    using assms by (cases "ts_columns schema") (auto simp: schema_ok_def)
  have "row_typed cs vs \<Longrightarrow> length vs = length cs"
    by (auto simp: row_typed_def dest: list_all2_lengthD)
  then show ?thesis
    unfolding EncodeRow_iff by (auto simp: row_insertable_def c)
qed

lemma not_insertable: "schema_ok schema \<Longrightarrow> \<forall>pk vs. vals \<noteq> IntV pk # vs \<Longrightarrow> \<not> row_insertable (ts_columns schema) vals"
  by (auto simp: row_insertable_def split: list.splits Value.splits)

section \<open>The select list\<close>

lemma ColumnIndex_nonneg: "0 \<le> ColumnIndex schema c \<longleftrightarrow> c \<in> set (map col_name (ts_columns schema))"
proof -
  have "0 \<le> i \<Longrightarrow> 0 \<le> ColumnIndex_loop cols c i \<longleftrightarrow> c \<in> set (map col_name cols)" for cols i
    by (induction cols arbitrary: i) auto
  then show ?thesis
    by (simp add: ColumnIndex_def)
qed

lemma Projection_loop_ok:
  "list_all (\<lambda>c. c \<in> set (map col_name (ts_columns schema))) cs \<Longrightarrow>
   Projection_loop schema cs proj = Inr (proj @ map (ColumnIndex schema) cs)"
  by (induction cs arbitrary: proj) (auto simp: Let_def ColumnIndex_nonneg[symmetric] simp del: set_map)

lemma Projection_loop_error:
  "\<not> list_all (\<lambda>c. c \<in> set (map col_name (ts_columns schema))) cs \<Longrightarrow> \<exists>msg. Projection_loop schema cs proj = Inl (SqlException msg)"
  by (induction cs arbitrary: proj) (auto simp: Let_def ColumnIndex_nonneg[symmetric] simp del: set_map)

lemma all_ok_map: "\<forall>x \<in> set xs. f x = Inr (g x) \<Longrightarrow> all_ok (map f xs) = Inr (map g xs)"
  by (induction xs) auto

lemma Project_row_ok: "\<forall>i \<in> set proj. 0 \<le> i \<and> nat i < length row \<Longrightarrow> Project_row proj row = Inr (map (\<lambda>i. row ! nat i) proj)"
  unfolding Project_row_def by (rule all_ok_map) (simp add: vec_at_def)

text \<open>The projection of typed rows, in terms of the specification.\<close>

lemma Projection_ok:
  assumes "star \<or> list_all (\<lambda>c. c \<in> set (map col_name (ts_columns schema))) names"
  obtains proj where "Projection schema star names = Inr (if star then map col_name (ts_columns schema) else names, proj)"
    "\<forall>i \<in> set proj. 0 \<le> i \<and> nat i < length (ts_columns schema)" "map nat proj = projection_of (ts_columns schema) star names"
proof (cases star)
  case True
  then show ?thesis
    by (intro that[of "map int [0..<length (ts_columns schema)]"]) (auto simp: Projection_def projection_of_def comp_def)
next
  case False
  then have n: "list_all (\<lambda>c. c \<in> set (map col_name (ts_columns schema))) names"
    using assms by simp
  then have nn: "\<forall>c \<in> set names. 0 \<le> ColumnIndex schema c"
    by (simp only: list_all_iff ColumnIndex_nonneg)
  show ?thesis
  proof (rule that[of "map (ColumnIndex schema) names"])
    show "\<forall>i \<in> set (map (ColumnIndex schema) names). 0 \<le> i \<and> nat i < length (ts_columns schema)"
      using nn ColumnIndex_range[of schema] by simp (metis not_less)
  qed (use False Projection_loop_ok[OF n, of "[]"] in \<open>simp_all add: Projection_def projection_of_def comp_def\<close>)
qed

section \<open>Tables under updates of the engine's map\<close>

lemma table_of_insert:
  assumes "EncodeRow schema (IntV pk # vs) = Inr payload" "list_all int_ok vs" "0 \<le> pk" "pk \<le> kMaxRowKey"
  shows "table_of (m(EncodeKey (ts_table_id schema) pk \<mapsto> payload)) schema = (table_of m schema)(pk \<mapsto> IntV pk # vs)"
    "schema_ok schema \<Longrightarrow> rows_stored m schema \<Longrightarrow> rows_stored (m(EncodeKey (ts_table_id schema) pk \<mapsto> payload)) schema"
proof -
  have "is_int64 pk"
    using assms(3,4) by (simp add: is_int64_def key_consts INVALID_KEY_def INT64_MAX_def)
  then have "list_all int_ok (IntV pk # vs)"
    using assms(2) by (simp add: int_ok_def)
  note enc = EncodeRow_ok[OF assms(1) this]
  have k: "EncodeKey (ts_table_id schema) pk' = EncodeKey (ts_table_id schema) pk \<longleftrightarrow> pk' = pk" if "0 \<le> pk'" "pk' \<le> kMaxRowKey" for pk'
    using that assms(3,4) EncodeKey_inj by blast
  show "table_of (m(EncodeKey (ts_table_id schema) pk \<mapsto> payload)) schema = (table_of m schema)(pk \<mapsto> IntV pk # vs)"
    using k assms(3,4) enc(4)[of pk] by (auto simp: fun_eq_iff table_of_def row_of_def)
  show "rows_stored (m(EncodeKey (ts_table_id schema) pk \<mapsto> payload)) schema" if s: "schema_ok schema" "rows_stored m schema"
  proof -
    have "row_typed (ts_columns schema) (IntV pk # vs)"
      using s(1) enc(3) by (cases "ts_columns schema") (auto simp: schema_ok_def)
    then show ?thesis
      using s(2) k enc(4)[of pk] unfolding rows_stored_def by auto
  qed
qed

lemma table_of_other:
  assumes "ts_table_id schema \<noteq> t" "0 \<le> pk" "pk \<le> kMaxRowKey"
  shows "table_of (m(EncodeKey t pk \<mapsto> payload)) schema = table_of m schema"
    "rows_stored m schema \<Longrightarrow> rows_stored (m(EncodeKey t pk \<mapsto> payload)) schema"
proof -
  have "EncodeKey (ts_table_id schema) pk' \<noteq> EncodeKey t pk" if "0 \<le> pk'" "pk' \<le> kMaxRowKey" for pk'
    using that assms EncodeKey_inj by blast
  then show "table_of (m(EncodeKey t pk \<mapsto> payload)) schema = table_of m schema"
    "rows_stored m schema \<Longrightarrow> rows_stored (m(EncodeKey t pk \<mapsto> payload)) schema"
    by (auto simp: table_of_def fun_eq_iff rows_stored_def)
qed

lemma table_of_restrict:
  assumes "\<forall>pk \<in> K. 0 \<le> pk \<and> pk \<le> kMaxRowKey"
  shows "table_of (m |` (- EncodeKey t ` K)) schema = (if ts_table_id schema = t then table_of m schema |` (- K) else table_of m schema)"
    "rows_stored m schema \<Longrightarrow> rows_stored (m |` (- EncodeKey t ` K)) schema"
proof -
  have "EncodeKey (ts_table_id schema) pk \<in> EncodeKey t ` K \<longleftrightarrow> ts_table_id schema = t \<and> pk \<in> K" if "0 \<le> pk" "pk \<le> kMaxRowKey" for pk
    using that assms EncodeKey_inj[of pk] by (auto simp: image_iff)
  then show "table_of (m |` (- EncodeKey t ` K)) schema = (if ts_table_id schema = t then table_of m schema |` (- K) else table_of m schema)"
    by (auto simp: table_of_def fun_eq_iff restrict_map_def)
  show "rows_stored m schema \<Longrightarrow> rows_stored (m |` (- EncodeKey t ` K)) schema"
    by (auto simp: rows_stored_def restrict_map_def split: if_splits)
qed

section \<open>Invariant and abstraction of a database\<close>

definition db_map_ok :: "Catalog \<Rightarrow> (KeyType \<rightharpoonup> string) \<Rightarrow> bool" where
  "db_map_ok cat m \<longleftrightarrow> catalog_inv cat \<and> (\<forall>name schema. map_of (cat_tables cat) name = Some schema \<longrightarrow> rows_stored m schema) \<and>
     (\<forall>k v. m k = Some v \<longrightarrow> unat (DecodeTableId k) < length (cat_tables cat))"

definition tables_abs :: "Catalog \<Rightarrow> (KeyType \<rightharpoonup> string) \<Rightarrow> sql_state" where
  "tables_abs cat m name = map_option (\<lambda>schema. (ts_columns schema, table_of m schema)) (map_of (cat_tables cat) name)"

lemma tables_abs_dom: "catalog_inv cat \<Longrightarrow> card (dom (tables_abs cat m)) = length (cat_tables cat)"
proof -
  assume "catalog_inv cat"
  then have "distinct (map fst (cat_tables cat))"
    by (simp add: catalog_inv_def)
  then have "card (fst ` set (cat_tables cat)) = length (cat_tables cat)"
    using distinct_card[of "map fst (cat_tables cat)"] by simp
  moreover have "dom (tables_abs cat m) = fst ` set (cat_tables cat)"
    using dom_map_of_conv_image_fst[of "cat_tables cat"] by (auto simp: tables_abs_def dom_def)
  ultimately show ?thesis
    by simp
qed

lemma db_schema:
  assumes "db_map_ok cat m" "map_of (cat_tables cat) name = Some schema"
  shows "schema_ok schema" "rows_stored m schema" "unat (ts_table_id schema) < length (cat_tables cat)"
proof -
  show "schema_ok schema" "rows_stored m schema"
    using assms map_of_SomeD[OF assms(2)] by (auto simp: db_map_ok_def catalog_inv_def)
  obtain i where "i < length (cat_tables cat)" "cat_tables cat ! i = (name, schema)"
    using map_of_SomeD[OF assms(2)] by (auto simp: in_set_conv_nth)
  moreover from this have "ts_table_id schema = of_nat i" "length (cat_tables cat) \<le> 65536"
    using assms(1) by (auto simp: db_map_ok_def catalog_inv_def key_consts)
  ultimately show "unat (ts_table_id schema) < length (cat_tables cat)"
    by (simp add: unat_of_nat)
qed

lemma db_map_key: "db_map_ok cat m \<Longrightarrow> m k = Some v \<Longrightarrow> unat (DecodeTableId k) < length (cat_tables cat)"
  by (simp add: db_map_ok_def)

text \<open>Storing a row in a table.\<close>

lemma db_map_insert:
  assumes db: "db_map_ok cat m" and n: "map_of (cat_tables cat) name = Some schema"
    and e: "EncodeRow schema (IntV pk # vs) = Inr payload" "list_all int_ok vs" "0 \<le> pk" "pk \<le> kMaxRowKey"
  shows "db_map_ok cat (m(EncodeKey (ts_table_id schema) pk \<mapsto> payload))"
    "tables_abs cat (m(EncodeKey (ts_table_id schema) pk \<mapsto> payload)) =
      (tables_abs cat m)(name \<mapsto> (ts_columns schema, (table_of m schema)(pk \<mapsto> IntV pk # vs)))"
proof -
  have inv: "catalog_inv cat"
    using db by (simp add: db_map_ok_def)
  have id: "ts_table_id s \<noteq> ts_table_id schema" if "map_of (cat_tables cat) name' = Some s" "name' \<noteq> name" for name' s
    using catalog_ids[OF inv that(1) n] that(2) by blast
  have "rows_stored (m(EncodeKey (ts_table_id schema) pk \<mapsto> payload)) s" if s: "map_of (cat_tables cat) name' = Some s" for name' s
    using table_of_insert(2)[OF e db_schema(1,2)[OF db n]] table_of_other(2)[OF id[OF s] e(3,4) db_schema(2)[OF db s]] n s
    by (cases "name' = name") auto
  then show "db_map_ok cat (m(EncodeKey (ts_table_id schema) pk \<mapsto> payload))"
    using db db_schema(3)[OF db n] by (auto simp: db_map_ok_def)
  show "tables_abs cat (m(EncodeKey (ts_table_id schema) pk \<mapsto> payload)) =
      (tables_abs cat m)(name \<mapsto> (ts_columns schema, (table_of m schema)(pk \<mapsto> IntV pk # vs)))"
  proof
    fix name'
    show "tables_abs cat (m(EncodeKey (ts_table_id schema) pk \<mapsto> payload)) name' =
      ((tables_abs cat m)(name \<mapsto> (ts_columns schema, (table_of m schema)(pk \<mapsto> IntV pk # vs)))) name'"
      using n table_of_insert(1)[OF e] table_of_other(1)[OF id e(3,4)]
      by (cases "name' = name"; cases "map_of (cat_tables cat) name'") (simp_all add: tables_abs_def)
  qed
qed

text \<open>Removing rows from a table.\<close>

lemma db_map_delete:
  assumes db: "db_map_ok cat m" and n: "map_of (cat_tables cat) name = Some schema" and K: "\<forall>pk \<in> K. 0 \<le> pk \<and> pk \<le> kMaxRowKey"
  shows "db_map_ok cat (m |` (- EncodeKey (ts_table_id schema) ` K))"
    "tables_abs cat (m |` (- EncodeKey (ts_table_id schema) ` K)) =
      (tables_abs cat m)(name \<mapsto> (ts_columns schema, table_of m schema |` (- K)))"
proof -
  have inv: "catalog_inv cat"
    using db by (simp add: db_map_ok_def)
  show "db_map_ok cat (m |` (- EncodeKey (ts_table_id schema) ` K))"
    unfolding db_map_ok_def
  proof (intro conjI allI impI)
    show "rows_stored (m |` (- EncodeKey (ts_table_id schema) ` K)) s" if "map_of (cat_tables cat) n = Some s" for n s
      by (rule table_of_restrict(2)[OF K db_schema(2)[OF db that]])
    show "unat (DecodeTableId k) < length (cat_tables cat)" if k: "(m |` (- EncodeKey (ts_table_id schema) ` K)) k = Some v" for k v
    proof -
      have "m k = Some v"
        using k by (simp add: restrict_map_def split: if_splits)
      then show ?thesis
        by (rule db_map_key[OF db])
    qed
  qed (rule inv)
  show "tables_abs cat (m |` (- EncodeKey (ts_table_id schema) ` K)) =
      (tables_abs cat m)(name \<mapsto> (ts_columns schema, table_of m schema |` (- K)))"
  proof
    fix name'
    show "tables_abs cat (m |` (- EncodeKey (ts_table_id schema) ` K)) name' =
      ((tables_abs cat m)(name \<mapsto> (ts_columns schema, table_of m schema |` (- K)))) name'"
    proof (cases "name' = name")
      case True
      then show ?thesis
        by (simp add: tables_abs_def n table_of_restrict(1)[OF K])
    next
      case False
      have "ts_table_id s \<noteq> ts_table_id schema" if "map_of (cat_tables cat) name' = Some s" for s
        using catalog_ids[OF inv that n] False by blast
      then show ?thesis
        using False by (cases "map_of (cat_tables cat) name'") (simp_all add: tables_abs_def table_of_restrict(1)[OF K])
    qed
  qed
qed

text \<open>Creating a table.\<close>

lemma db_map_create:
  assumes db: "db_map_ok cat m" and room: "length (cat_tables cat) < kMaxTables" and cols: "columns \<noteq> []" "ca_type (hd columns) = INTEGER"
    and fresh: "map_of (cat_tables cat) name = None"
  obtains schema cat' where "Catalog_CreateTable name columns cat = (Inr schema, cat')" "db_map_ok cat' m"
    "tables_abs cat' m = (tables_abs cat m)(name \<mapsto> (ast_schema columns, Map.empty))"
proof -
  have inv: "catalog_inv cat"
    using db by (simp add: db_map_ok_def)
  from CreateTable_ok[OF inv room cols fresh]
  obtain schema cat' where c: "Catalog_CreateTable name columns cat = (Inr schema, cat')" "catalog_inv cat'"
    "ts_columns schema = ast_schema columns" "map_of (cat_tables cat') = (map_of (cat_tables cat))(name \<mapsto> schema)"
    "length (cat_tables cat') = Suc (length (cat_tables cat))"
    by blast
  have "ts_table_id schema = of_nat (length (cat_tables cat))"
    using c(1) inv by (auto simp: Catalog_CreateTable_def Let_def catalog_inv_def split: if_splits)
  then have "unat (ts_table_id schema) = length (cat_tables cat)"
    using room by (simp add: key_consts unat_of_nat)
  then have none: "m (EncodeKey (ts_table_id schema) pk) = None" for pk
    using db_map_key[OF db, of "EncodeKey (ts_table_id schema) pk"] by (cases "m (EncodeKey (ts_table_id schema) pk)") simp_all
  then have t: "table_of m schema = Map.empty" "rows_stored m schema"
    by (simp_all add: table_of_def rows_stored_def fun_eq_iff)
  show ?thesis
  proof (rule that[OF c(1)])
    show "db_map_ok cat' m"
      using db c t(2) by (auto simp: db_map_ok_def less_Suc_eq)
    show "tables_abs cat' m = (tables_abs cat m)(name \<mapsto> (ast_schema columns, Map.empty))"
      using c(3,4) t(1) by (auto simp: tables_abs_def fun_eq_iff)
  qed
qed

definition db_inv :: "('s \<Rightarrow> bool) \<Rightarrow> ('s \<Rightarrow> KeyType \<rightharpoonup> string) \<Rightarrow> 's Database \<Rightarrow> bool" where
  "db_inv eng_ok amap db \<longleftrightarrow> eng_ok (db_engine db) \<and> db_map_ok (db_catalog db) (amap (db_engine db))"

definition db_abs :: "('s \<Rightarrow> KeyType \<rightharpoonup> string) \<Rightarrow> 's Database \<Rightarrow> sql_state" where
  "db_abs amap db = tables_abs (db_catalog db) (amap (db_engine db))"

text \<open>
  Room for \<open>n\<close> more statements: an insertion writes one key, a deletion at most the stored ones, so a
  stored key counts as one write to come.
\<close>

definition db_room :: "('s \<Rightarrow> KeyType \<rightharpoonup> string) \<Rightarrow> ('s \<Rightarrow> nat \<Rightarrow> bool) \<Rightarrow> 's Database \<Rightarrow> nat \<Rightarrow> bool" where
  "db_room amap room db n \<longleftrightarrow> room (db_engine db) (card (dom (amap (db_engine db))) + 2 * n)"

text \<open>
  An execution answers a statement as specified, unless the engine reports that its capacity is
  exhausted: a statement the specification rejects ends in a \<open>SqlException\<close> and changes nothing.
\<close>

definition answers :: "('s Database \<Rightarrow> bool) \<Rightarrow> ('s Database \<Rightarrow> sql_state) \<Rightarrow> Statement \<Rightarrow> sql_state \<Rightarrow> QueryResult result \<times> 's Database \<Rightarrow> bool" where
  "answers db_ok absf stmt st out \<longleftrightarrow>
     (\<exists>e. fst out = Inl e \<and> capacity_error e) \<or>
     db_ok (snd out) \<and>
     (case spec_exec stmt st of
        None \<Rightarrow> (\<exists>msg. fst out = Inl (SqlException msg)) \<and> absf (snd out) = st
      | Some (q, st') \<Rightarrow> fst out = Inr q \<and> absf (snd out) = st')"

lemma not_capacity_error [simp]: "\<not> capacity_error (SqlException msg)"
  by (simp add: capacity_error_def)

context storage_engine
begin

lemma room_after:
  assumes "db_room amap room db (Suc n)"
  shows "db_room amap room db n"
  using assms room_mono by (force simp: db_room_def)

text \<open>The engine was only read.\<close>

lemma same_engine:
  assumes "db_inv inv amap db" "db_room amap room db (Suc n)" "inv s'" "amap s' = amap (db_engine db)" "\<forall>n. room (db_engine db) n \<longrightarrow> room s' n"
  shows "db_inv inv amap (db\<lparr>db_engine := s'\<rparr>)" "db_room amap room (db\<lparr>db_engine := s'\<rparr>) n" "db_abs amap (db\<lparr>db_engine := s'\<rparr>) = db_abs amap db"
  using assms room_after[OF assms(2)] by (simp_all add: db_inv_def db_room_def db_abs_def)

lemma Create_answers:
  assumes db: "db_inv inv amap db" "db_room amap room db (Suc n)" and ok: "stmt_ok (CreateTableStmt name columns)"
    and range: "in_range (CreateTableStmt name columns) (db_abs amap db)"
  shows "answers (\<lambda>d. db_inv inv amap d \<and> db_room amap room d n) (db_abs amap) (CreateTableStmt name columns) (db_abs amap db)
    (ExecuteCreateTable name columns db)"
proof -
  let ?m = "amap (db_engine db)"
  have m: "db_map_ok (db_catalog db) ?m" and inv: "inv (db_engine db)"
    using db(1) by (simp_all add: db_inv_def)
  have l: "length (cat_tables (db_catalog db)) < kMaxTables"
    using range tables_abs_dom[of "db_catalog db" ?m] m by (simp add: in_range_def db_abs_def db_map_ok_def)
  have cols: "columns \<noteq> []" "ca_type (hd columns) = INTEGER"
    using ok by (simp_all add: stmt_ok_def)
  show ?thesis
  proof (cases "map_of (cat_tables (db_catalog db)) name")
    case None
    obtain schema cat' where c: "Catalog_CreateTable name columns (db_catalog db) = (Inr schema, cat')" "db_map_ok cat' ?m"
      "tables_abs cat' ?m = (tables_abs (db_catalog db) ?m)(name \<mapsto> (ast_schema columns, Map.empty))"
      by (rule db_map_create[OF m l cols None])
    have "db_abs amap db name = None"
      using None by (simp add: db_abs_def tables_abs_def)
    then show ?thesis
      using c inv room_after[OF db(2)] by (simp add: answers_def ExecuteCreateTable_def spec_exec_def db_inv_def db_abs_def db_room_def)
  next
    case (Some schema)
    then have "Catalog_CreateTable name columns (db_catalog db) = (Inl (SqlException (''table '' @ quoted name @ '' already exists'')), db_catalog db)"
      by (simp add: Catalog_CreateTable_def)
    moreover have "db_abs amap db name \<noteq> None"
      using Some by (simp add: db_abs_def tables_abs_def)
    ultimately show ?thesis
      using db(1) room_after[OF db(2)] by (auto simp: answers_def ExecuteCreateTable_def spec_exec_def)
  qed
qed

lemma Insert_answers:
  assumes db: "db_inv inv amap db" "db_room amap room db (Suc n)" and ok: "stmt_ok (InsertStmt name vals)"
  shows "answers (\<lambda>d. db_inv inv amap d \<and> db_room amap room d n) (db_abs amap) (InsertStmt name vals) (db_abs amap db)
    (ExecuteInsert ops name vals db)"
proof (cases "map_of (cat_tables (db_catalog db)) name")
  case None
  then have "db_abs amap db name = None"
    by (simp add: db_abs_def tables_abs_def)
  then show ?thesis
    using None db(1) room_after[OF db(2)] by (simp add: answers_def ExecuteInsert_def Catalog_GetTable_def spec_exec_def)
next
  case (Some schema)
  let ?m = "amap (db_engine db)"
  have m: "db_map_ok (db_catalog db) ?m" and inv: "inv (db_engine db)"
    using db(1) by (simp_all add: db_inv_def)
  note s = db_schema[OF m Some]
  have abs: "db_abs amap db name = Some (ts_columns schema, table_of ?m schema)"
    using Some by (simp add: db_abs_def tables_abs_def)
  show ?thesis
  proof (cases "row_insertable (ts_columns schema) vals")
    case False
    have "\<exists>msg. ExecuteInsert ops name vals db = (Inl (SqlException msg), db)"
      using False Some row_insertable_iff[OF s(1)] EncodeRow_errors[of schema vals]
      by (auto simp: ExecuteInsert_def Catalog_GetTable_def split: list.split Value.split sum.split)
    then show ?thesis
      using False abs db(1) room_after[OF db(2)] by (auto simp: answers_def spec_exec_def)
  next
    case True
    then obtain pk vs where vals: "vals = IntV pk # vs"
      using not_insertable[OF s(1)] by blast
    then obtain payload where p: "0 \<le> pk" "pk \<le> kMaxRowKey" "EncodeRow schema vals = Inr payload"
      using True row_insertable_iff[OF s(1)] by blast
    have "list_all int_ok vals"
      using ok by (auto simp: stmt_ok_def value_ok_def int_ok_def list_all_iff split: Value.splits)
    then have vs: "list_all int_ok vs" "length payload \<le> MAX_VALUE_SIZE"
      using vals EncodeRow_ok(1)[OF p(3)] by simp_all
    let ?k = "EncodeKey (ts_table_id schema) pk"
    have room: "room (db_engine db) (Suc (card (dom ?m) + 1 + 2 * n))"
      using db(2) by (simp add: db_room_def)
    from Put_ok[OF inv room EncodeKey_int64 vs(2), of "ts_table_id schema" pk]
    consider (fail) e s' where "se_Put ops ?k payload (db_engine db) = (Inl e, s')" "capacity_error e"
      | (ok) s' where "se_Put ops ?k payload (db_engine db) = (Inr (), s')" "inv s'" "amap s' = ?m(?k \<mapsto> payload)" "room s' (card (dom ?m) + 1 + 2 * n)"
      by auto
    then show ?thesis
    proof cases
      case fail
      then show ?thesis
        using Some vals p by (simp add: answers_def ExecuteInsert_def Catalog_GetTable_def)
    next
      case ok
      have "card (dom (?m(?k \<mapsto> payload))) \<le> card (dom ?m) + 1"
        using card_insert_le_m1[of "card (dom ?m) + 1" "dom ?m" ?k] by simp
      then have "room s' (card (dom (?m(?k \<mapsto> payload))) + 2 * n)"
        using room_mono[OF ok(4)] by simp
      then show ?thesis
        using ok Some vals p db_map_insert[OF m Some p(3)[unfolded vals] vs(1) p(1,2)] abs True
        by (simp add: answers_def ExecuteInsert_def Catalog_GetTable_def spec_exec_def db_inv_def db_abs_def db_room_def)
    qed
  qed
qed

end

context storage_engine
begin

lemma no_table:
  "map_of (cat_tables (db_catalog db)) name = None \<Longrightarrow> db_abs amap db name = None"
  "map_of (cat_tables (db_catalog db)) name = Some schema \<Longrightarrow>
    db_abs amap db name = Some (ts_columns schema, table_of (amap (db_engine db)) schema)"
  by (simp_all add: db_abs_def tables_abs_def)

lemma Select_answers:
  assumes db: "db_inv inv amap db" "db_room amap room db (Suc n)" and range: "in_range (SelectStmt name star cols wh) (db_abs amap db)"
  shows "\<exists>out. ExecuteSelect ops name star cols wh db = Some out \<and>
    answers (\<lambda>d. db_inv inv amap d \<and> db_room amap room d n) (db_abs amap) (SelectStmt name star cols wh) (db_abs amap db) out \<and>
    (\<forall>e. fst out = Inl e \<longrightarrow> \<not> capacity_error e)"
proof (cases "map_of (cat_tables (db_catalog db)) name")
  case None
  then show ?thesis
    using no_table(1)[OF None] db(1) room_after[OF db(2)]
    by (simp add: answers_def ExecuteSelect_def Catalog_GetTable_def spec_exec_def)
next
  case (Some schema)
  let ?m = "amap (db_engine db)" and ?tab = "table_of (amap (db_engine db)) schema"
  have m: "db_map_ok (db_catalog db) ?m" and inv: "inv (db_engine db)"
    using db(1) by (simp_all add: db_inv_def)
  note s = db_schema[OF m Some] and abs = no_table(2)[OF Some]
  have get: "Catalog_GetTable name (db_catalog db) = Inr schema"
    using Some by (simp add: Catalog_GetTable_def)
  show ?thesis
  proof (cases "list_all (cmp_valid schema) wh")
    case False
    then show ?thesis
      using PlanQuery_invalid[OF False] get abs db(1) room_after[OF db(2)]
      by (auto simp: answers_def ExecuteSelect_def spec_exec_def spec_select_def spec_of_schema)
  next
    case True
    obtain plan where plan: "PlanQuery schema wh = Inr plan"
      by (rule PlanQuery_ok[OF s(1) True])
    have lit: "pk_literals_ok schema wh"
      using range abs by (simp add: in_range_def)
    let ?pks = "matching schema ?tab wh"
    obtain s' where f: "ExecuteFetch ops schema plan (db_engine db) = Some (Inr (map (\<lambda>pk. the (?tab pk)) ?pks), s')"
      "inv s'" "amap s' = ?m" "\<forall>n. room (db_engine db) n \<longrightarrow> room s' n"
      using ExecuteFetch_ok[OF inv s(2,1) True lit plan] by blast
    note db' = same_engine[OF db f(2,3,4)]
    show ?thesis
    proof (cases "star \<or> list_all (\<lambda>c. c \<in> set (map col_name (ts_columns schema))) cols")
      case False
      then obtain msg where "Projection schema star cols = Inl (SqlException msg)"
        using Projection_loop_error[of schema cols "[]"] by (auto simp: Projection_def)
      then show ?thesis
        using False True get plan f(1) abs db' by (simp add: answers_def ExecuteSelect_def spec_exec_def spec_select_def spec_of_schema)
    next
      case sel: True
      obtain proj where proj: "Projection schema star cols = Inr (if star then map col_name (ts_columns schema) else cols, proj)"
        "\<forall>i \<in> set proj. 0 \<le> i \<and> nat i < length (ts_columns schema)" "map nat proj = projection_of (ts_columns schema) star cols"
        by (rule Projection_ok[OF sel])
      have len: "length (the (?tab pk)) = length (ts_columns schema)" if "pk \<in> set ?pks" for pk
      proof -
        have "pk \<in> dom ?tab"
          using that finite_table_of amap_fits[OF inv] by (simp add: pks_where_def)
        from stored_entry(3)[OF s(2) this] show ?thesis
          by (simp add: row_typed_def list_all2_lengthD)
      qed
      have rows: "all_ok (map (Project_row proj) (map (\<lambda>pk. the (?tab pk)) ?pks)) =
        Inr (map (\<lambda>pk. map (\<lambda>i. the (?tab pk) ! i) (projection_of (ts_columns schema) star cols)) ?pks)"
        unfolding map_map comp_def proj(3)[symmetric] by (rule all_ok_map) (use len proj(2) in \<open>simp add: Project_row_ok comp_def\<close>)
      show ?thesis
        using sel True get plan f(1) abs db' proj(1) rows
        by (auto simp: answers_def ExecuteSelect_def spec_exec_def spec_select_def spec_of_schema Let_def)
    qed
  qed
qed

lemma Delete_answers:
  assumes db: "db_inv inv amap db" "db_room amap room db (Suc n)" and range: "in_range (DeleteStmt name wh) (db_abs amap db)"
  shows "\<exists>out. ExecuteDeleteStmt ops name wh db = Some out \<and>
    answers (\<lambda>d. db_inv inv amap d \<and> db_room amap room d n) (db_abs amap) (DeleteStmt name wh) (db_abs amap db) out"
proof (cases "map_of (cat_tables (db_catalog db)) name")
  case None
  then show ?thesis
    using no_table(1)[OF None] db(1) room_after[OF db(2)]
    by (simp add: answers_def ExecuteDeleteStmt_def Catalog_GetTable_def spec_exec_def)
next
  case (Some schema)
  let ?m = "amap (db_engine db)" and ?tab = "table_of (amap (db_engine db)) schema"
  have m: "db_map_ok (db_catalog db) ?m" and inv: "inv (db_engine db)"
    using db(1) by (simp_all add: db_inv_def)
  note s = db_schema[OF m Some] and abs = no_table(2)[OF Some]
  have get: "Catalog_GetTable name (db_catalog db) = Inr schema"
    using Some by (simp add: Catalog_GetTable_def)
  show ?thesis
  proof (cases "list_all (cmp_valid schema) wh")
    case False
    then show ?thesis
      using PlanQuery_invalid[OF False] get abs db(1) room_after[OF db(2)]
      by (auto simp: answers_def ExecuteDeleteStmt_def spec_exec_def spec_of_schema)
  next
    case True
    obtain plan where plan: "PlanQuery schema wh = Inr plan"
      by (rule PlanQuery_ok[OF s(1) True])
    have lit: "pk_literals_ok schema wh"
      using range abs by (simp add: in_range_def)
    let ?pks = "matching schema ?tab wh" and ?k = "EncodeKey (ts_table_id schema)"
    have fin: "finite (dom ?m)" "finite (dom ?tab)"
      using amap_fits[OF inv] finite_table_of by blast+
    have pks: "distinct ?pks" "\<forall>pk \<in> set ?pks. 0 \<le> pk \<and> pk \<le> kMaxRowKey \<and> ?m (?k pk) \<noteq> None"
      using fin(2) table_of_dom[OF s(2)] by (auto simp: pks_where_def)
    then have "inj_on ?k (set ?pks)" and sub: "?k ` set ?pks \<subseteq> dom ?m"
      by (auto simp: inj_on_def EncodeKey_inj)
    then have card: "card (?k ` set ?pks) = length ?pks"
      using distinct_card[OF pks(1)] by (simp add: card_image)
    have dom: "card (dom (?m |` (- ?k ` set ?pks))) + length ?pks = card (dom ?m)"
      using card_Diff_subset[OF finite_subset[OF sub fin(1)] sub] card card_mono[OF fin(1) sub] by (simp add: Diff_eq Int_commute)
    have "room (db_engine db) (length ?pks + (card (dom (?m |` (- ?k ` set ?pks))) + 2 * n))"
      using room_after[OF db(2)] dom by (simp add: db_room_def algebra_simps)
    from ExecuteDelete_ok[OF inv s(2,1) True lit plan this]
    consider (fail) e s' where "ExecuteDelete ops schema plan (db_engine db) = Some (Inl e, s')" "capacity_error e"
      | (ok) s' where "ExecuteDelete ops schema plan (db_engine db) = Some (Inr (length ?pks), s')" "inv s'"
        "amap s' = ?m |` (- ?k ` set ?pks)" "room s' (card (dom (?m |` (- ?k ` set ?pks))) + 2 * n)"
      by blast
    then show ?thesis
    proof cases
      case fail
      then show ?thesis
        using get plan by (simp add: answers_def ExecuteDeleteStmt_def)
    next
      case ok
      have K: "\<forall>pk \<in> set ?pks. 0 \<le> pk \<and> pk \<le> kMaxRowKey"
        using pks(2) by blast
      show ?thesis
        using ok get plan True abs db_map_delete[OF m Some K]
        by (simp add: answers_def ExecuteDeleteStmt_def spec_exec_def spec_of_schema db_inv_def db_abs_def db_room_def)
    qed
  qed
qed

lemma Execute_answers:
  assumes "db_inv inv amap db" "db_room amap room db (Suc n)" "stmt_ok stmt" "in_range stmt (db_abs amap db)"
  shows "\<exists>out. Execute_statement ops stmt db = Some out \<and>
    answers (\<lambda>d. db_inv inv amap d \<and> db_room amap room d n) (db_abs amap) stmt (db_abs amap db) out"
proof (cases stmt)
  case (SelectStmt name star cols wh)
  then show ?thesis
    using Select_answers[OF assms(1,2), of name star cols wh] assms(4) by (auto simp: Execute_statement_def)
qed (use assms Create_answers[OF assms(1,2)] Insert_answers[OF assms(1,2)] Delete_answers[OF assms(1,2)] in
    \<open>simp_all add: Execute_statement_def\<close>)

end

end
