(* ===== verification/Http_Text.thy ===== *)
theory Http_Text
  imports Sql_Database
begin

text \<open>
  The text processing of \<^verbatim>\<open>src/src/http/http_server.cpp\<close>: percent-decoding, query parameters, the request
  line and the JSON of a result. What the code prints is compared with a reader of JSON texts, and
  what it reads with an encoder of query parameters, each written here from the formats' definitions.
\<close>

section \<open>Requests\<close>

definition HexDigit :: "char \<Rightarrow> int" where
  "HexDigit c =
     (if CHR ''0'' \<le> c \<and> c \<le> CHR ''9'' then int (of_char c) - 48
      else if CHR ''a'' \<le> c \<and> c \<le> CHR ''f'' then int (of_char c) - 97 + 10
      else if CHR ''A'' \<le> c \<and> c \<le> CHR ''F'' then int (of_char c) - 65 + 10
      else -1)"

definition UrlDecode_plain :: "char \<Rightarrow> char" where
  "UrlDecode_plain c = (if c = CHR ''+'' then CHR '' '' else c)"

fun UrlDecode :: "string \<Rightarrow> string" where
  "UrlDecode (c # h # l # s) =
     (if c = CHR ''%'' \<and> 0 \<le> HexDigit h \<and> 0 \<le> HexDigit l
      then char_of (nat (HexDigit h * 16 + HexDigit l)) # UrlDecode s
      else UrlDecode_plain c # UrlDecode (h # l # s))"
| "UrlDecode (c # s) = UrlDecode_plain c # UrlDecode s"
| "UrlDecode [] = []"

text \<open>The loop of \<open>GetQueryParam\<close> on the part of the query from \<open>pos\<close> on.\<close>

function GetQueryParam :: "string \<Rightarrow> string \<Rightarrow> string" where
  "GetQueryParam query key =
     (if query = [] then []
      else let pair = takeWhile (\<lambda>c. c \<noteq> CHR ''&'') query;
               rest = dropWhile (\<lambda>c. c \<noteq> CHR ''&'') query
           in if CHR ''='' \<in> set pair \<and> takeWhile (\<lambda>c. c \<noteq> CHR ''='') pair = key
              then UrlDecode (tl (dropWhile (\<lambda>c. c \<noteq> CHR ''='') pair))
              else if rest = [] then [] else GetQueryParam (tl rest) key)"
  by auto
termination
proof (relation "measure (\<lambda>(query, key). length query)", simp, clarify)
  fix query key :: string
  assume "dropWhile (\<lambda>c. c \<noteq> CHR ''&'') query \<noteq> []"
  then show "((tl (dropWhile (\<lambda>c. c \<noteq> CHR ''&'') query), key), query, key) \<in> measure (\<lambda>(query, key). length query)"
    using length_dropWhile_le[of "\<lambda>c. c \<noteq> CHR ''&''" query] by (cases "dropWhile (\<lambda>c. c \<noteq> CHR ''&'') query") auto
qed

declare GetQueryParam.simps [simp del]

definition crlf :: string where
  "crlf = [CHR 0x0D, CHR 0x0A]"

record RequestLine =
  rl_method :: string
  rl_path :: string
  rl_query :: string

definition ParseRequestLine :: "string \<Rightarrow> RequestLine" where
  "ParseRequestLine request =
     (let line = (case find_str crlf request of None \<Rightarrow> request | Some n \<Rightarrow> take n request);
          after1 = dropWhile (\<lambda>c. c \<noteq> CHR '' '') line;
          after2 = dropWhile (\<lambda>c. c \<noteq> CHR '' '') (tl after1)
      in if after1 = [] \<or> after2 = [] then \<lparr>rl_method = [], rl_path = [], rl_query = []\<rparr>
         else let target = takeWhile (\<lambda>c. c \<noteq> CHR '' '') (tl after1);
                  q = dropWhile (\<lambda>c. c \<noteq> CHR ''?'') target
              in \<lparr>rl_method = takeWhile (\<lambda>c. c \<noteq> CHR '' '') line,
                  rl_path = takeWhile (\<lambda>c. c \<noteq> CHR ''?'') target,
                  rl_query = (if q = [] then [] else tl q)\<rparr>)"

section \<open>Responses\<close>

text \<open>\<open>snprintf\<close> of a character code below 32 with the format \<^verbatim>\<open>\u%04x\<close>.\<close>

definition hex_char :: "nat \<Rightarrow> char" where
  "hex_char d = char_of (if d < 10 then 48 + d else 87 + d)"

definition JsonEscape_char :: "char \<Rightarrow> string" where
  "JsonEscape_char c =
     (if c = CHR 0x22 then [CHR 0x5C, CHR 0x22]
      else if c = CHR 0x5C then [CHR 0x5C, CHR 0x5C]
      else if c = CHR 0x0A then [CHR 0x5C, CHR ''n'']
      else if c = CHR 0x0D then [CHR 0x5C, CHR ''r'']
      else if c = CHR 0x09 then [CHR 0x5C, CHR ''t'']
      else if (of_char c :: nat) < 32
      then [CHR 0x5C, CHR ''u'', CHR ''0'', CHR ''0'', hex_char (of_char c div 16), hex_char (of_char c mod 16)]
      else [c])"

definition JsonEscape :: "string \<Rightarrow> string" where
  "JsonEscape s = concat (map JsonEscape_char s)"

text \<open>A loop that prints a comma before every item but the first.\<close>

fun Json_items :: "('a \<Rightarrow> string) \<Rightarrow> bool \<Rightarrow> 'a list \<Rightarrow> string" where
  "Json_items f first [] = []"
| "Json_items f first (x # xs) = (if first then [] else '','') @ f x @ Json_items f False xs"

definition Json_text :: "string \<Rightarrow> string" where
  "Json_text s = [CHR 0x22] @ JsonEscape s @ [CHR 0x22]"

definition Json_value :: "Value \<Rightarrow> string" where
  "Json_value v = (case v of IntV x \<Rightarrow> to_string x | TextV s \<Rightarrow> Json_text s)"

definition QueryResultToJson :: "QueryResult \<Rightarrow> string" where
  "QueryResultToJson r =
     ''{'' @ [CHR 0x22] @ ''columns'' @ [CHR 0x22] @ '':['' @ Json_items Json_text True (column_names r) @
     ''],'' @ [CHR 0x22] @ ''rows'' @ [CHR 0x22] @ '':['' @
     Json_items (\<lambda>row. ''['' @ Json_items Json_value True row @ '']'') True (rows r) @
     ''],'' @ [CHR 0x22] @ ''rows_affected'' @ [CHR 0x22] @ '':'' @ to_string (int (rows_affected r)) @
     '','' @ [CHR 0x22] @ ''message'' @ [CHR 0x22] @ '':'' @ Json_text (message r) @ ''}''"

definition JsonError :: "string \<Rightarrow> string" where
  "JsonError msg = ''{'' @ [CHR 0x22] @ ''error'' @ [CHR 0x22] @ '':'' @ Json_text msg @ ''}''"

section \<open>Reading JSON\<close>

text \<open>
  A reader of JSON texts without blanks and fractions (RFC 8259), over byte strings. The number
  bounds the nesting and the number of items; the length of the text is always enough.
\<close>

datatype json = JInt int | JString string | JArray "json list" | JObject "(string \<times> json) list"

fun read_chars :: "string \<Rightarrow> (string \<times> string) option" where
  "read_chars [] = None"
| "read_chars (c # s) =
     (if c = CHR 0x22 then Some ([], s)
      else if c = CHR 0x5C then
        (case s of
           [] \<Rightarrow> None
         | e # t \<Rightarrow>
             if e = CHR 0x22 \<or> e = CHR 0x5C \<or> e = CHR ''/'' then map_option (apfst (Cons e)) (read_chars t)
             else if e = CHR ''b'' then map_option (apfst (Cons (CHR 0x08))) (read_chars t)
             else if e = CHR ''f'' then map_option (apfst (Cons (CHR 0x0C))) (read_chars t)
             else if e = CHR ''n'' then map_option (apfst (Cons (CHR 0x0A))) (read_chars t)
             else if e = CHR ''r'' then map_option (apfst (Cons (CHR 0x0D))) (read_chars t)
             else if e = CHR ''t'' then map_option (apfst (Cons (CHR 0x09))) (read_chars t)
             else if e = CHR ''u'' then
               (case t of
                  a # b # h # l # u \<Rightarrow>
                    if a = CHR ''0'' \<and> b = CHR ''0'' \<and> 0 \<le> HexDigit h \<and> 0 \<le> HexDigit l
                    then map_option (apfst (Cons (char_of (nat (16 * HexDigit h + HexDigit l))))) (read_chars u)
                    else None
                | _ \<Rightarrow> None)
             else None)
      else if (of_char c :: nat) < 32 then None
      else map_option (apfst (Cons c)) (read_chars s))"

definition read_int :: "string \<Rightarrow> (json \<times> string) option" where
  "read_int s =
     (let neg = (s \<noteq> [] \<and> hd s = CHR ''-'');
          u = (if neg then tl s else s);
          ds = takeWhile isdigit u
      in if ds = [] \<or> (hd ds = CHR ''0'' \<and> tl ds \<noteq> []) then None
         else Some (JInt (if neg then - int (digits_value ds) else int (digits_value ds)), dropWhile isdigit u))"

fun read_json :: "nat \<Rightarrow> string \<Rightarrow> (json \<times> string) option"
  and read_items :: "nat \<Rightarrow> string \<Rightarrow> (json list \<times> string) option"
  and read_members :: "nat \<Rightarrow> string \<Rightarrow> ((string \<times> json) list \<times> string) option" where
  "read_json 0 s = None"
| "read_json (Suc n) s =
     (if s = [] then None
      else if hd s = CHR 0x22 then map_option (apfst JString) (read_chars (tl s))
      else if hd s = CHR ''['' then
        (if prefix '']'' (tl s) then Some (JArray [], tl (tl s)) else map_option (apfst JArray) (read_items n (tl s)))
      else if hd s = CHR ''{'' then
        (if prefix ''}'' (tl s) then Some (JObject [], tl (tl s)) else map_option (apfst JObject) (read_members n (tl s)))
      else read_int s)"
| "read_items 0 s = None"
| "read_items (Suc n) s =
     (case read_json n s of
        Some (j, c # t) \<Rightarrow>
          if c = CHR '','' then map_option (apfst (Cons j)) (read_items n t)
          else if c = CHR '']'' then Some ([j], t) else None
      | _ \<Rightarrow> None)"
| "read_members 0 s = None"
| "read_members (Suc n) s =
     (if s = [] \<or> hd s \<noteq> CHR 0x22 then None
      else case read_chars (tl s) of
        Some (k, c # u) \<Rightarrow>
          if c \<noteq> CHR '':'' then None
          else (case read_json n u of
             Some (j, d # v) \<Rightarrow>
               if d = CHR '','' then map_option (apfst (Cons (k, j))) (read_members n v)
               else if d = CHR ''}'' then Some ([(k, j)], v) else None
           | _ \<Rightarrow> None)
      | _ \<Rightarrow> None)"

definition json_read :: "string \<Rightarrow> json option" where
  "json_read s = (case read_json (length s) s of Some (j, []) \<Rightarrow> Some j | _ \<Rightarrow> None)"

text \<open>The values the server prints.\<close>

definition value_json :: "Value \<Rightarrow> json" where
  "value_json v = (case v of IntV x \<Rightarrow> JInt x | TextV s \<Rightarrow> JString s)"

definition result_json :: "QueryResult \<Rightarrow> json" where
  "result_json r = JObject
     [(''columns'', JArray (map JString (column_names r))),
      (''rows'', JArray (map (\<lambda>row. JArray (map value_json row)) (rows r))),
      (''rows_affected'', JInt (int (rows_affected r))),
      (''message'', JString (message r))]"

lemma Json_items_cong [fundef_cong]:
  "xs = ys \<Longrightarrow> first = first' \<Longrightarrow> (\<And>x. x \<in> set ys \<Longrightarrow> f x = g x) \<Longrightarrow> Json_items f first xs = Json_items g first' ys"
proof (induction xs arbitrary: ys first first')
  case (Cons x xs)
  then show ?case by (cases ys) auto
qed simp

fun json_print :: "json \<Rightarrow> string" where
  "json_print (JInt x) = to_string x"
| "json_print (JString s) = Json_text s"
| "json_print (JArray js) = ''['' @ Json_items json_print True js @ '']''"
| "json_print (JObject ms) = ''{'' @ Json_items (\<lambda>m. Json_text (fst m) @ '':'' @ json_print (snd m)) True ms @ ''}''"

section \<open>What is printed is read back\<close>

lemma HexDigit_hex [simp]: "d < 16 \<Longrightarrow> HexDigit (hex_char d) = int d"
proof -
  assume "d < 16"
  then have "d \<in> set [0..<16]"
    by simp
  moreover have "\<forall>d \<in> set [0..<16]. HexDigit (hex_char d) = int d"
    by code_simp
  ultimately show ?thesis
    by blast
qed

lemma read_escaped_char: "read_chars (JsonEscape_char c @ s) = map_option (apfst (Cons c)) (read_chars s)"
proof -
  have "(of_char c :: nat) < 32 \<Longrightarrow> nat (16 * (int (of_char c) div 16) + int (of_char c) mod 16) = of_char c"
    by simp
  moreover have "0 \<le> int (of_char c) div 16"
    by (simp add: pos_imp_zdiv_nonneg_iff)
  ultimately show ?thesis
    by (simp add: JsonEscape_char_def zdiv_int zmod_int)
qed

lemma read_escaped [simp]: "read_chars (JsonEscape t @ CHR 0x22 # s) = Some (t, s)"
  by (induction t) (simp_all add: JsonEscape_def read_escaped_char)

lemma nat_to_string_head:
  "hd (nat_to_string n) = CHR ''0'' \<Longrightarrow> nat_to_string n = ''0''"
proof (induction n rule: nat_to_string.induct)
  case (1 n)
  show ?case
  proof (cases "n < 10")
    case True
    then show ?thesis
      using "1.prems" by (simp add: nat_to_string.simps)
  next
    case False
    then have "hd (nat_to_string (n div 10)) = CHR ''0''"
      using "1.prems" by (simp add: nat_to_string.simps[of n])
    then have "nat_to_string (n div 10) = ''0''"
      using "1.IH" False by blast
    then have "n div 10 = 0"
      using nat_to_string_value[of "n div 10"] by (simp add: digit_value_def)
    then show ?thesis
      using False by simp
  qed
qed

lemma read_printed_int:
  assumes "s = [] \<or> \<not> isdigit (hd s)"
  shows "read_int (to_string x @ s) = Some (JInt x, s)"
proof -
  have d: "takeWhile isdigit (nat_to_string n @ s) = nat_to_string n" "dropWhile isdigit (nat_to_string n @ s) = s" for n
    using assms nat_to_string_digits by (cases s; fastforce simp: takeWhile_append dropWhile_append)+
  have h: "hd (nat_to_string n) \<noteq> CHR ''-''" for n
    using nat_to_string_digits[of "hd (nat_to_string n)" n] isdigit_classes[of "hd (nat_to_string n)"] by simp
  have z: "hd (nat_to_string n) = CHR ''0'' \<Longrightarrow> tl (nat_to_string n) = []" for n
    using nat_to_string_head by fastforce
  show ?thesis
    using z by (auto simp: read_int_def to_string_def Let_def d h)
qed

lemma Json_items_first: "xs \<noteq> [] \<Longrightarrow> Json_items f False xs = CHR '','' # Json_items f True xs"
  by (cases xs) simp_all

lemma nat_to_string_hd: "c = hd (nat_to_string n) \<Longrightarrow> c \<notin> {CHR '']'', CHR ''}'', CHR 0x22, CHR ''['', CHR ''{''}"
  using nat_to_string_digits[of "hd (nat_to_string n)" n] by (auto simp: isdigit_iff)

lemma json_print_head:
  "json_print j \<noteq> [] \<and> hd (json_print j) \<noteq> CHR '']'' \<and> hd (json_print j) \<noteq> CHR ''}''"
proof -
  have "hd (nat_to_string n) \<noteq> CHR '']'' \<and> hd (nat_to_string n) \<noteq> CHR ''}''" for n
    using nat_to_string_hd[OF refl, of n] by simp
  then show ?thesis
    by (cases j) (simp_all add: to_string_def Json_text_def)
qed

lemma read_json_int:
  assumes "s = [] \<or> \<not> isdigit (hd s)"
  shows "read_json (Suc n) (to_string x @ s) = Some (JInt x, s)"
proof -
  have "hd (nat_to_string m) \<notin> {CHR 0x22, CHR ''['', CHR ''{''}" for m
    using nat_to_string_hd[OF refl, of m] by simp
  then have "to_string x \<noteq> []" "hd (to_string x) \<notin> {CHR 0x22, CHR ''['', CHR ''{''}"
    by (simp_all add: to_string_def)
  then show ?thesis
    using read_printed_int[OF assms] by simp
qed

lemma read_items_print:
  assumes "\<And>j n s. j \<in> set js \<Longrightarrow> length (json_print j) \<le> n \<Longrightarrow> s = [] \<or> \<not> isdigit (hd s) \<Longrightarrow> read_json n (json_print j @ s) = Some (j, s)"
    and "js \<noteq> []" "Suc (length (Json_items json_print True js)) \<le> n"
  shows "read_items n (Json_items json_print True js @ CHR '']'' # s) = Some (js, s)"
  using assms
proof (induction js arbitrary: n)
  case (Cons j js)
  obtain m where n: "n = Suc m"
    using Cons.prems(3) by (cases n) auto
  have r: "read_json m (json_print j @ t) = Some (j, t)" if "t = [] \<or> \<not> isdigit (hd t)" for t
    using Cons.prems(1)[of j m t] Cons.prems(3) that n by simp
  show ?case
  proof (cases "js = []")
    case True
    then show ?thesis
      using n by (simp add: r isdigit_iff)
  next
    case False
    have "read_items m (Json_items json_print True js @ CHR '']'' # s) = Some (js, s)"
      using Cons.IH Cons.prems(1,3) False n by (simp add: Json_items_first)
    then show ?thesis
      using n False by (simp add: r isdigit_iff Json_items_first)
  qed
qed simp

abbreviation print_member :: "string \<times> json \<Rightarrow> string" where
  "print_member m \<equiv> Json_text (fst m) @ '':'' @ json_print (snd m)"

lemma read_members_print:
  assumes "\<And>m n s. m \<in> set ms \<Longrightarrow> length (json_print (snd m)) \<le> n \<Longrightarrow> s = [] \<or> \<not> isdigit (hd s) \<Longrightarrow> read_json n (json_print (snd m) @ s) = Some (snd m, s)"
    and "ms \<noteq> []" "Suc (length (Json_items print_member True ms)) \<le> n"
  shows "read_members n (Json_items print_member True ms @ CHR ''}'' # s) = Some (ms, s)"
  using assms
proof (induction ms arbitrary: n)
  case (Cons m ms)
  obtain l where n: "n = Suc l"
    using Cons.prems(3) by (cases n) auto
  obtain k j where m: "m = (k, j)"
    by fastforce
  have r: "read_json l (json_print j @ t) = Some (j, t)" if "t = [] \<or> \<not> isdigit (hd t)" for t
    using Cons.prems(1)[of m l t] Cons.prems(3) that n m by simp
  show ?case
  proof (cases "ms = []")
    case True
    then show ?thesis
      using n m by (simp add: r isdigit_iff Json_text_def)
  next
    case False
    have "read_members l (Json_items print_member True ms @ CHR ''}'' # s) = Some (ms, s)"
      using Cons.IH Cons.prems(1,3) False n by (simp add: Json_items_first)
    then show ?thesis
      using n m False by (simp add: r isdigit_iff Json_items_first Json_text_def)
  qed
qed simp

lemma read_json_print:
  "length (json_print j) \<le> n \<Longrightarrow> s = [] \<or> \<not> isdigit (hd s) \<Longrightarrow> read_json n (json_print j @ s) = Some (j, s)"
proof (induction j arbitrary: n s)
  case (JInt x)
  then show ?case
    using read_json_int[OF JInt(2)] json_print_head[of "JInt x"] by (cases n) (simp_all del: read_json.simps(2))
next
  case (JString t)
  then show ?case
    by (cases n) (simp_all add: Json_text_def)
next
  case (JArray js)
  then obtain m where n: "n = Suc m"
    by (cases n) auto
  show ?case
  proof (cases js)
    case (Cons j js')
    have "\<not> prefix '']'' (Json_items json_print True js @ CHR '']'' # s)"
      using json_print_head[of j] Cons by (cases "json_print j") auto
    then show ?thesis
      using read_items_print[of js m s] JArray n Cons by (simp del: Json_items.simps)
  qed (simp add: n)
next
  case (JObject ms)
  then obtain m where n: "n = Suc m"
    by (cases n) auto
  show ?case
  proof (cases ms)
    case (Cons j js')
    have "\<not> prefix ''}'' (Json_items print_member True ms @ CHR ''}'' # s)"
      using Cons by (simp add: Json_text_def)
    moreover have "read_json n' (json_print (snd x) @ t) = Some (snd x, t)"
      if "x \<in> set ms" "length (json_print (snd x)) \<le> n'" "t = [] \<or> \<not> isdigit (hd t)" for x n' t
      using JObject.IH[OF that(1) _ that(2,3)] by (simp add: snds.simps)
    ultimately show ?thesis
      using read_members_print[of ms m s] JObject.prems(1) n Cons by (simp del: Json_items.simps)
  qed (simp add: n)
qed

lemma json_read_print [simp]: "json_read (json_print j) = Some j"
  using read_json_print[of j "length (json_print j)" "[]"] by (simp add: json_read_def)

lemma Json_items_map: "Json_items f first (map g xs) = Json_items (\<lambda>x. f (g x)) first xs"
  by (induction xs arbitrary: first) auto

lemma Json_text_names:
  "Json_text ''columns'' = CHR 0x22 # ''columns'' @ [CHR 0x22]" "Json_text ''rows'' = CHR 0x22 # ''rows'' @ [CHR 0x22]"
  "Json_text ''rows_affected'' = CHR 0x22 # ''rows_affected'' @ [CHR 0x22]"
  "Json_text ''message'' = CHR 0x22 # ''message'' @ [CHR 0x22]" "Json_text ''error'' = CHR 0x22 # ''error'' @ [CHR 0x22]"
  by (simp_all add: Json_text_def JsonEscape_def JsonEscape_char_def)

lemma QueryResultToJson_print: "QueryResultToJson r = json_print (result_json r)"
proof -
  have "Json_value = (\<lambda>v. json_print (value_json v))"
    by (auto simp: Json_value_def value_json_def fun_eq_iff split: Value.split)
  then show ?thesis
    by (simp add: QueryResultToJson_def result_json_def Json_items_map Json_text_names)
qed

lemma JsonError_print: "JsonError msg = json_print (JObject [(''error'', JString msg)])"
  by (simp add: JsonError_def Json_text_names)

lemma json_read_result [simp]: "json_read (QueryResultToJson r) = Some (result_json r)"
  by (simp only: QueryResultToJson_print json_read_print)

lemma json_read_error [simp]: "json_read (JsonError msg) = Some (JObject [(''error'', JString msg)])"
  by (simp only: JsonError_print json_read_print)

section \<open>Query parameters\<close>

text \<open>The percent-encoding of a parameter, as a client writes it.\<close>

definition url_encode_char :: "char \<Rightarrow> string" where
  "url_encode_char c =
     (if isalnum c then [c] else [CHR ''%'', hex_char (of_char c div 16), hex_char (of_char c mod 16)])"

definition url_encode :: "string \<Rightarrow> string" where
  "url_encode s = concat (map url_encode_char s)"

lemma UrlDecode_alnum: "isalnum c \<Longrightarrow> UrlDecode (c # s) = c # UrlDecode s"
proof -
  assume "isalnum c"
  then have "c \<noteq> CHR ''%''" "c \<noteq> CHR ''+''"
    by (auto simp: isalnum_def isalpha_def isupper_def islower_def isdigit_def less_eq_char_def)
  then show ?thesis
    by (cases s rule: list.exhaust; cases "tl s") (auto simp: UrlDecode_plain_def)
qed

lemma UrlDecode_encode_char: "UrlDecode (url_encode_char c @ s) = c # UrlDecode s"
proof (cases "isalnum c")
  case False
  have "of_char c < (256 :: nat)"
    by simp
  then have "of_char c div 16 < (16 :: nat)"
    by linarith
  moreover have "nat (int (x div 16) * 16 + int (x mod 16)) = x" for x
    by (simp add: zdiv_int zmod_int)
  ultimately show ?thesis
    using False by (simp add: url_encode_char_def)
qed (simp add: url_encode_char_def UrlDecode_alnum)

lemma UrlDecode_encode [simp]: "UrlDecode (url_encode s) = s"
  by (induction s) (simp_all add: url_encode_def UrlDecode_encode_char)

lemma url_encode_chars: "c \<in> set (url_encode s) \<Longrightarrow> isalnum c \<or> c = CHR ''%''"
proof -
  have "\<forall>d \<in> set [0..<16]. isalnum (hex_char d)"
    by code_simp
  moreover have "of_char c < (256 :: nat)" for c
    by simp
  then have "of_char c div 16 < (16 :: nat)" "of_char c mod 16 < (16 :: nat)" for c
    by (simp_all add: less_mult_imp_div_less)
  ultimately show "c \<in> set (url_encode s) \<Longrightarrow> isalnum c \<or> c = CHR ''%''"
    by (auto simp: url_encode_def url_encode_char_def split: if_splits)
qed

lemma url_encode_no_delimiter:
  "c \<in> {CHR ''&'', CHR ''='', CHR '' '', CHR ''?'', CHR 0x0D, CHR 0x0A} \<Longrightarrow> c \<notin> set (url_encode s)"
  using url_encode_chars[of c s]
  by (auto simp: isalnum_def isalpha_def isupper_def islower_def isdigit_def less_eq_char_def)

lemma takeWhile_avoid: "c \<notin> set xs \<Longrightarrow> takeWhile (\<lambda>x. x \<noteq> c) (xs @ ys) = xs @ takeWhile (\<lambda>x. x \<noteq> c) ys"
  by (induction xs) auto

lemma dropWhile_avoid: "c \<notin> set xs \<Longrightarrow> dropWhile (\<lambda>x. x \<noteq> c) (xs @ ys) = dropWhile (\<lambda>x. x \<noteq> c) ys"
  by (induction xs) auto

lemma GetQueryParam_sql: "GetQueryParam (''sql='' @ url_encode s) ''sql'' = s"
proof -
  have "takeWhile (\<lambda>c. c \<noteq> CHR ''&'') (url_encode s) = url_encode s"
    using takeWhile_avoid[of "CHR ''&''" "url_encode s" "[]"] url_encode_no_delimiter by simp
  then have "UrlDecode (takeWhile (\<lambda>c. c \<noteq> CHR ''&'') (url_encode s)) = s"
    by (simp only: UrlDecode_encode)
  then show ?thesis
    by (simp add: GetQueryParam.simps)
qed

definition request_target :: "string \<Rightarrow> string" where
  "request_target sql = ''/query?sql='' @ url_encode sql"

definition request_line :: "string \<Rightarrow> string \<Rightarrow> string" where
  "request_line method target = method @ '' '' @ target @ '' HTTP/1.1''"

definition http_request :: "string \<Rightarrow> string \<Rightarrow> string \<Rightarrow> string" where
  "http_request method target headers = request_line method target @ crlf @ headers @ crlf"

lemma ParseRequestLine_line:
  assumes "set method \<inter> {CHR '' '', CHR 0x0D} = {}" "set target \<inter> {CHR '' '', CHR 0x0D} = {}"
  shows "ParseRequestLine (request_line method target @ crlf @ rest) =
    \<lparr>rl_method = method, rl_path = takeWhile (\<lambda>c. c \<noteq> CHR ''?'') target,
     rl_query = tl (dropWhile (\<lambda>c. c \<noteq> CHR ''?'') target)\<rparr>"
proof -
  let ?line = "request_line method target"
  have "CHR 0x0D \<notin> set ?line"
    using assms by (auto simp: request_line_def)
  then have "find_str crlf (?line @ crlf @ rest) = Some (length ?line)"
    unfolding crlf_def by (subst find_str_avoid) (simp_all add: find_str_prefix)
  then have line: "(case find_str crlf (?line @ crlf @ rest) of None \<Rightarrow> ?line @ crlf @ rest | Some n \<Rightarrow> take n (?line @ crlf @ rest)) = ?line"
    by simp
  have sp: "CHR '' '' \<notin> set method" "CHR '' '' \<notin> set target"
    using assms by auto
  have "dropWhile (\<lambda>c. c \<noteq> CHR '' '') ?line = '' '' @ target @ '' HTTP/1.1''" "takeWhile (\<lambda>c. c \<noteq> CHR '' '') ?line = method"
    "dropWhile (\<lambda>c. c \<noteq> CHR '' '') (target @ '' HTTP/1.1'') = '' HTTP/1.1''"
    "takeWhile (\<lambda>c. c \<noteq> CHR '' '') (target @ '' HTTP/1.1'') = target"
    by (simp_all add: request_line_def takeWhile_avoid[OF sp(1)] dropWhile_avoid[OF sp(1)] takeWhile_avoid[OF sp(2)] dropWhile_avoid[OF sp(2)])
  then show ?thesis
    unfolding ParseRequestLine_def line Let_def by (simp del: dropWhile_eq_Nil_conv)
qed

lemma ParseRequestLine_query:
  "ParseRequestLine (request_line ''GET'' (request_target sql) @ crlf @ rest) =
    \<lparr>rl_method = ''GET'', rl_path = ''/query'', rl_query = ''sql='' @ url_encode sql\<rparr>"
  "CHR 0x0D \<notin> set (request_line ''GET'' (request_target sql))"
  using ParseRequestLine_line[of "''GET''" "request_target sql" rest] url_encode_no_delimiter[of _ sql]
  by (auto simp: request_target_def request_line_def)

end
