(* ===== verification/Skip_List.thy ===== *)
theory Skip_List
  imports Base
begin

text \<open>
  \<^verbatim>\<open>src/src/lsm/skip_list.h\<close>: the skip list behind the memtable.

  Nodes live in a store whose addresses are list positions; \<open>head_\<close> is address 0 and a node is never
  freed before the list is. The random number generator is a parameter: \<open>coins n\<close> says whether its
  \<open>n\<close>-th draw was below \<open>p_\<close>. A loop is given as many steps as there are nodes; a loop that needs
  more never ends, which C++ leaves undefined. The theorems show that no search needs more, and
  that the list refines a sorted list of entries with distinct keys.
\<close>

section \<open>State and operations\<close>

record 'v sl_node =
  nd_key :: KeyType
  nd_value :: 'v
  nd_forward :: "nat option list"

record 'v skip_list =
  sl_max_height :: nat
  sl_current_height :: nat
  sl_nodes :: "'v sl_node list"
  sl_size :: nat
  sl_draws :: nat

definition SkipList :: "nat \<Rightarrow> 'v \<Rightarrow> 'v skip_list" where
  "SkipList max_height default_value =
     \<lparr>sl_max_height = max_height, sl_current_height = 1,
      sl_nodes = [\<lparr>nd_key = 0, nd_value = default_value, nd_forward = replicate max_height None\<rparr>],
      sl_size = 0, sl_draws = 0\<rparr>"

function RandomLevel :: "(nat \<Rightarrow> bool) \<Rightarrow> nat \<Rightarrow> nat \<Rightarrow> nat \<Rightarrow> nat \<times> nat" where
  "RandomLevel coins max_height level draws =
     (if \<not> level < max_height then (level, draws)
      else if coins draws then RandomLevel coins max_height (level + 1) (draws + 1)
      else (level, draws + 1))"
  by pat_completeness auto
termination
  by (relation "measure (\<lambda>(_, max_height, level, _). max_height - level)") auto

declare RandomLevel.simps [simp del]

abbreviation endless :: "'a result" where
  "endless \<equiv> Inl (UndefinedBehaviour ''loop without end'')"

abbreviation fwd :: "'v sl_node list \<Rightarrow> nat \<Rightarrow> nat \<Rightarrow> nat option" where
  "fwd N a l \<equiv> nd_forward (N ! a) ! l"

text \<open>The inner loop: advance on one level while the next key is smaller.\<close>

fun SL_walk :: "nat \<Rightarrow> 'v sl_node list \<Rightarrow> KeyType \<Rightarrow> nat \<Rightarrow> nat \<Rightarrow> nat result" where
  "SL_walk 0 N key l cur = endless"
| "SL_walk (Suc fuel) N key l cur =
     (case fwd N cur l of
        None \<Rightarrow> Inr cur
      | Some nx \<Rightarrow> if nd_key (N ! nx) < key then SL_walk fuel N key l nx else Inr cur)"

text \<open>The outer loop, from level \<open>n - 1\<close> down to level 0, filling the update vector.\<close>

fun SL_descend :: "'v sl_node list \<Rightarrow> KeyType \<Rightarrow> nat \<Rightarrow> nat \<Rightarrow> nat list \<Rightarrow> (nat \<times> nat list) result" where
  "SL_descend N key 0 cur update = Inr (cur, update)"
| "SL_descend N key (Suc l) cur update =
     (case SL_walk (length N) N key l cur of
        Inl e \<Rightarrow> Inl e
      | Inr cur \<Rightarrow> SL_descend N key l cur (update[l := cur]))"

fun SL_link :: "nat \<Rightarrow> nat list \<Rightarrow> nat list \<Rightarrow> 'v sl_node list \<Rightarrow> 'v sl_node list" where
  "SL_link node update [] N = N"
| "SL_link node update (i # is) N =
     (let N = N[node := (N ! node)\<lparr>nd_forward := (nd_forward (N ! node))[i := fwd N (update ! i) i]\<rparr>];
          N = N[update ! i := (N ! (update ! i))\<lparr>nd_forward := (nd_forward (N ! (update ! i)))[i := Some node]\<rparr>]
      in SL_link node update is N)"

definition SL_Insert :: "(nat \<Rightarrow> bool) \<Rightarrow> KeyType \<Rightarrow> 'v \<Rightarrow> 'v skip_list \<Rightarrow> 'v skip_list result" where
  "SL_Insert coins key value s =
     (case SL_descend (sl_nodes s) key (sl_current_height s) 0 (replicate (sl_max_height s) 0) of
        Inl e \<Rightarrow> Inl e
      | Inr (cur, update) \<Rightarrow>
          let N = sl_nodes s; candidate = fwd N cur 0 in
          if candidate \<noteq> None \<and> nd_key (N ! the candidate) = key
          then Inr (s\<lparr>sl_nodes := N[the candidate := (N ! the candidate)\<lparr>nd_value := value\<rparr>]\<rparr>)
          else
            let (level, draws) = RandomLevel coins (sl_max_height s) 1 (sl_draws s);
                update = (if level > sl_current_height s
                          then fold (\<lambda>i u. u[i := 0]) [sl_current_height s..<level] update else update);
                height = max level (sl_current_height s);
                N = N @ [\<lparr>nd_key = key, nd_value = value, nd_forward = replicate level None\<rparr>]
            in Inr (s\<lparr>sl_nodes := SL_link (length (sl_nodes s)) update [0..<level] N,
                      sl_current_height := height, sl_size := sl_size s + 1, sl_draws := draws\<rparr>))"

definition SL_Find :: "KeyType \<Rightarrow> 'v skip_list \<Rightarrow> 'v option result" where
  "SL_Find key s =
     (case SL_descend (sl_nodes s) key (sl_current_height s) 0 [] of
        Inl e \<Rightarrow> Inl e
      | Inr (cur, _) \<Rightarrow>
          (case fwd (sl_nodes s) cur 0 of
             None \<Rightarrow> Inr None
           | Some candidate \<Rightarrow>
               if nd_key (sl_nodes s ! candidate) = key then Inr (Some (nd_value (sl_nodes s ! candidate)))
               else Inr None))"

definition SL_Size :: "'v skip_list \<Rightarrow> nat" where
  "SL_Size s = sl_size s"

text \<open>An iterator is the address of its node, \<open>None\<close> once it is exhausted.\<close>

definition SL_Begin :: "'v skip_list \<Rightarrow> nat option" where
  "SL_Begin s = fwd (sl_nodes s) 0 0"

definition SL_LowerBound :: "KeyType \<Rightarrow> 'v skip_list \<Rightarrow> nat option result" where
  "SL_LowerBound key s =
     (case SL_descend (sl_nodes s) key (sl_current_height s) 0 [] of
        Inl e \<Rightarrow> Inl e
      | Inr (cur, _) \<Rightarrow> Inr (fwd (sl_nodes s) cur 0))"

definition SL_iter_entry :: "'v skip_list \<Rightarrow> nat \<Rightarrow> KeyType \<times> 'v" where
  "SL_iter_entry s a = (nd_key (sl_nodes s ! a), nd_value (sl_nodes s ! a))"

definition SL_Next :: "'v skip_list \<Rightarrow> nat \<Rightarrow> nat option" where
  "SL_Next s a = fwd (sl_nodes s) a 0"

text \<open>Everything an iterator yields from its position on.\<close>

fun SL_drain :: "nat \<Rightarrow> 'v skip_list \<Rightarrow> nat option \<Rightarrow> (KeyType \<times> 'v) list result" where
  "SL_drain fuel s None = Inr []"
| "SL_drain 0 s (Some a) = endless"
| "SL_drain (Suc fuel) s (Some a) =
     (case SL_drain fuel s (SL_Next s a) of Inl e \<Rightarrow> Inl e | Inr es \<Rightarrow> Inr (SL_iter_entry s a # es))"

section \<open>Invariant\<close>

definition tall :: "'v sl_node list \<Rightarrow> nat \<Rightarrow> nat \<Rightarrow> bool" where
  "tall N l a \<longleftrightarrow> l < length (nd_forward (N ! a))"

text \<open>On every level a node points to the next node of the list that reaches that level.\<close>

fun linked :: "'v sl_node list \<Rightarrow> nat list \<Rightarrow> bool" where
  "linked N [] \<longleftrightarrow> True"
| "linked N (a # as) \<longleftrightarrow> (\<forall>l. tall N l a \<longrightarrow> fwd N a l = List.find (tall N l) as) \<and> linked N as"

definition sl_ok :: "'v skip_list \<Rightarrow> nat list \<Rightarrow> bool" where
  "sl_ok s ns \<longleftrightarrow>
     length (nd_forward (sl_nodes s ! 0)) = sl_max_height s \<and>
     1 \<le> sl_current_height s \<and> sl_current_height s \<le> sl_max_height s \<and>
     set ns = {1..<length (sl_nodes s)} \<and> sl_nodes s \<noteq> [] \<and>
     sorted_wrt (<) (map (\<lambda>a. nd_key (sl_nodes s ! a)) ns) \<and>
     (\<forall>a\<in>set ns. 1 \<le> length (nd_forward (sl_nodes s ! a)) \<and>
                  length (nd_forward (sl_nodes s ! a)) \<le> sl_current_height s) \<and>
     linked (sl_nodes s) (0 # ns) \<and> sl_size s = length ns"

definition sl_entries_of :: "'v skip_list \<Rightarrow> nat list \<Rightarrow> (KeyType \<times> 'v) list" where
  "sl_entries_of s ns = map (SL_iter_entry s) ns"


section \<open>Searching\<close>

text \<open>The last of the nodes that reaches a level: what the search finds there.\<close>

definition last_tall :: "'v sl_node list \<Rightarrow> nat \<Rightarrow> nat list \<Rightarrow> nat" where
  "last_tall N l as = last (filter (tall N l) as)"

lemma find_append:
  "List.find P (xs @ ys) = (case List.find P xs of None \<Rightarrow> List.find P ys | Some x \<Rightarrow> Some x)"
  by (induction xs) auto

lemma find_SomeD: "List.find P xs = Some x \<Longrightarrow> x \<in> set xs \<and> P x"
  by (induction xs) (auto split: if_splits)

lemma linked_append: "linked N (xs @ ys) \<Longrightarrow> linked N ys"
  by (induction xs) auto

lemma linked_at: "linked N (xs @ a # ys) \<Longrightarrow> tall N l a \<Longrightarrow> fwd N a l = List.find (tall N l) ys"
  by (induction xs) auto

lemma last_tall_skip: "\<not> tall N l a \<Longrightarrow> last_tall N l (a # as) = last_tall N l as"
  by (simp add: last_tall_def)

lemma last_tall_tail:
  assumes "tall N l b"
  shows "last_tall N l (xs @ b # ys) = last_tall N l (b # ys)"
  using assms by (simp add: last_tall_def)

lemma last_tall_only:
  assumes "tall N l a" "List.find (tall N l) ys = None"
  shows "last_tall N l (a # ys) = a"
  using assms by (simp add: last_tall_def find_None_iff filter_empty_conv)

lemma walk_last_tall:
  assumes "linked N (cur # ys @ hi)" "tall N l cur" "length ys < fuel"
    and "\<And>a. a \<in> set ys \<Longrightarrow> nd_key (N ! a) < key" "\<And>a. a \<in> set hi \<Longrightarrow> \<not> nd_key (N ! a) < key"
  shows "SL_walk fuel N key l cur = Inr (last_tall N l (cur # ys))"
  using assms
proof (induction fuel arbitrary: cur ys)
  case (Suc fuel)
  have nx: "fwd N cur l = List.find (tall N l) (ys @ hi)"
    using linked_at[of N "[]" cur "ys @ hi" l] Suc.prems by simp
  show ?case
  proof (cases "List.find (tall N l) ys")
    case None
    then have "fwd N cur l = List.find (tall N l) hi"
      using nx by (simp add: find_append)
    moreover have "last_tall N l (cur # ys) = cur"
      using last_tall_only Suc.prems(2) None by blast
    ultimately show ?thesis
      using Suc.prems(5) by (auto split: option.splits dest: find_SomeD)
  next
    case (Some b)
    then obtain y1 y2 where ys: "ys = y1 @ b # y2" and b: "tall N l b"
      by (metis find_SomeD in_set_conv_decomp)
    have lnk: "linked N (b # y2 @ hi)"
      using Suc.prems(1) ys linked_append[of N "cur # y1" "b # y2 @ hi"] by simp
    have "SL_walk fuel N key l b = Inr (last_tall N l (b # y2))"
      using Suc.prems(3-5) ys by (intro Suc.IH[OF lnk b]) auto
    moreover have "last_tall N l (cur # ys) = last_tall N l (b # y2)"
      using last_tall_tail[OF b, of "cur # y1"] ys by simp
    moreover have "nd_key (N ! b) < key"
      using Suc.prems(4) ys by simp
    ultimately show ?thesis
      using nx Some by (simp add: find_append)
  qed
qed simp

lemma last_tall_mem: "a \<in> set as \<Longrightarrow> tall N l a \<Longrightarrow> last_tall N l as \<in> set as \<and> tall N l (last_tall N l as)"
  using last_in_set[of "filter (tall N l) as"] by (auto simp: last_tall_def filter_empty_conv)

lemma tall_mono: "tall N l a \<Longrightarrow> l' \<le> l \<Longrightarrow> tall N l' a"
  by (simp add: tall_def)

lemma last_tall_split:
  assumes "as = xs @ c # ys" "tall N l c"
  shows "last_tall N l as = last_tall N l (c # ys)"
  using assms last_tall_tail by blast

lemma descend_last_tall:
  assumes "linked N (as @ hi)" "length as \<le> length N"
    and "\<And>a. a \<in> set (tl as) \<Longrightarrow> nd_key (N ! a) < key"
    and "\<And>a. a \<in> set hi \<Longrightarrow> \<not> nd_key (N ! a) < key"
    and "cur \<in> set as" "\<And>l. l < n \<Longrightarrow> tall N l cur"
  shows "\<exists>c u. SL_descend N key n cur upd = Inr (c, u) \<and> c = (if n = 0 then cur else last_tall N 0 as)
      \<and> length u = length upd
      \<and> (\<forall>l < length upd. u ! l = (if l < n then last_tall N l as else upd ! l))"
  using assms(5,6)
proof (induction n arbitrary: cur upd)
  case (Suc n)
  obtain xs ys where as: "as = xs @ cur # ys"
    using Suc.prems(1) by (meson split_list)
  have tail: "a \<in> set ys \<Longrightarrow> nd_key (N ! a) < key" for a
    using assms(3)[of a] as by (cases xs) auto
  let ?c = "last_tall N n as"
  have lnk: "linked N (cur # ys @ hi)"
    using assms(1) as linked_append[of N xs "cur # ys @ hi"] by simp
  have "SL_walk (length N) N key n cur = Inr (last_tall N n (cur # ys))"
    using as assms(2) Suc.prems(2) by (intro walk_last_tall[OF lnk _ _ tail assms(4)]) auto
  then have walk: "SL_walk (length N) N key n cur = Inr ?c"
    using last_tall_split[OF as, of N n] Suc.prems(2)[of n] by simp
  have mem: "?c \<in> set as" "tall N n ?c"
    using last_tall_mem[of cur as N n] Suc.prems by auto
  have "tall N l ?c" if "l < n" for l
    using tall_mono[OF mem(2)] that by simp
  from Suc.IH[OF mem(1) this, of "upd[n := ?c]"] show ?case
    using walk by (auto simp: less_Suc_eq nth_list_update split: if_splits)
qed auto

lemma last_tall_decomp:
  assumes "a \<in> set as" "tall N l a"
  obtains xs ys where "as = xs @ last_tall N l as # ys" "\<forall>y\<in>set ys. \<not> tall N l y"
    "tall N l (last_tall N l as)"
proof -
  have "\<exists>a\<in>set as. tall N l a"
    using assms by blast
  from split_list_last_prop[OF this] obtain xs x ys
    where *: "as = xs @ x # ys" "tall N l x" "\<forall>y\<in>set ys. \<not> tall N l y"
    by blast
  then have "last_tall N l as = x"
    using last_tall_tail[OF *(2), of xs ys] last_tall_only[OF *(2), of ys] by (simp add: find_None_iff)
  with * show ?thesis
    using that[of xs ys] by simp
qed

lemma fwd_last_tall:
  assumes "linked N (as @ hi)" "a \<in> set as" "tall N l a"
  shows "fwd N (last_tall N l as) l = List.find (tall N l) hi"
proof -
  obtain xs ys where as: "as = xs @ last_tall N l as # ys" and none: "\<forall>y\<in>set ys. \<not> tall N l y"
    and t: "tall N l (last_tall N l as)"
    by (rule last_tall_decomp[OF assms(2,3)])
  let ?c = "last_tall N l as"
  have "linked N (xs @ ?c # (ys @ hi))"
    using assms(1) as by (metis append.assoc append_Cons)
  then have "fwd N ?c l = List.find (tall N l) (ys @ hi)"
    using t by (rule linked_at)
  moreover have "List.find (tall N l) ys = None"
    using none by (simp add: find_None_iff)
  ultimately show ?thesis
    by (simp add: find_append)
qed

text \<open>The nodes before and from a key.\<close>

definition below :: "'v skip_list \<Rightarrow> KeyType \<Rightarrow> nat list \<Rightarrow> nat list" where
  "below s key = takeWhile (\<lambda>a. nd_key (sl_nodes s ! a) < key)"

definition from_key :: "'v skip_list \<Rightarrow> KeyType \<Rightarrow> nat list \<Rightarrow> nat list" where
  "from_key s key = dropWhile (\<lambda>a. nd_key (sl_nodes s ! a) < key)"

lemma below_from_key: "below s key ns @ from_key s key ns = ns"
  by (simp add: below_def from_key_def)

lemma below_less: "a \<in> set (below s key ns) \<Longrightarrow> nd_key (sl_nodes s ! a) < key"
  by (auto simp: below_def dest: set_takeWhileD)

lemma from_key_ge:
  assumes "sl_ok s ns" "a \<in> set (from_key s key ns)"
  shows "\<not> nd_key (sl_nodes s ! a) < key"
proof -
  have "sorted_wrt (<) (map (\<lambda>a. nd_key (sl_nodes s ! a)) ns)"
    using assms(1) by (simp add: sl_ok_def)
  then show ?thesis
    using assms(2) unfolding from_key_def
    by (induction ns) (auto simp: not_less split: if_splits)
qed

lemma sl_ok_facts:
  assumes "sl_ok s ns"
  shows "linked (sl_nodes s) (0 # ns)" "length ns + 1 \<le> length (sl_nodes s)"
    "\<And>l. l < sl_max_height s \<Longrightarrow> tall (sl_nodes s) l 0"
    "\<And>a. a \<in> set ns \<Longrightarrow> tall (sl_nodes s) 0 a"
    "0 < sl_current_height s" "sl_current_height s \<le> sl_max_height s"
    "distinct ns" "sl_nodes s \<noteq> []" "sl_size s = length ns"
proof -
  have "distinct (map (\<lambda>a. nd_key (sl_nodes s ! a)) ns)"
    using assms by (simp add: sl_ok_def strict_sorted_iff)
  then show d: "distinct ns"
    by (simp add: distinct_map)
  have "length ns = card {1..<length (sl_nodes s)}"
    using distinct_card[OF d] assms by (simp add: sl_ok_def)
  then show "length ns + 1 \<le> length (sl_nodes s)"
    using assms by (cases "sl_nodes s") (auto simp: sl_ok_def)
qed (use assms in \<open>auto simp: sl_ok_def tall_def Suc_le_eq\<close>)

lemma descend_spec:
  assumes ok: "sl_ok s ns"
  obtains u where
    "SL_descend (sl_nodes s) key (sl_current_height s) 0 upd =
       Inr (last_tall (sl_nodes s) 0 (0 # below s key ns), u)"
    "length u = length upd"
    "\<And>l. l < length upd \<Longrightarrow>
       u ! l = (if l < sl_current_height s then last_tall (sl_nodes s) l (0 # below s key ns) else upd ! l)"
proof -
  note f = sl_ok_facts[OF ok]
  have "length (below s key ns) \<le> length ns"
    by (simp add: below_def length_takeWhile_le)
  then have "\<exists>c u. SL_descend (sl_nodes s) key (sl_current_height s) 0 upd = Inr (c, u)
      \<and> c = (if sl_current_height s = 0 then 0 else last_tall (sl_nodes s) 0 (0 # below s key ns))
      \<and> length u = length upd
      \<and> (\<forall>l < length upd. u ! l = (if l < sl_current_height s
            then last_tall (sl_nodes s) l (0 # below s key ns) else upd ! l))"
    using f(1,2,3,6) below_from_key[of s key ns]
    by (intro descend_last_tall[where hi = "from_key s key ns"])
       (auto simp: from_key_ge[OF ok] dest: below_less)
  with f(5) that show ?thesis
    by auto
qed

lemma candidate_spec:
  assumes ok: "sl_ok s ns"
  shows "fwd (sl_nodes s) (last_tall (sl_nodes s) 0 (0 # below s key ns)) 0 =
         (case from_key s key ns of [] \<Rightarrow> None | a # _ \<Rightarrow> Some a)"
proof -
  note f = sl_ok_facts[OF ok]
  have "fwd (sl_nodes s) (last_tall (sl_nodes s) 0 (0 # below s key ns)) 0 =
        List.find (tall (sl_nodes s) 0) (from_key s key ns)"
    using f(1,3,5,6) below_from_key[of s key ns] by (intro fwd_last_tall[of _ _ _ 0]) auto
  moreover have "a \<in> set (from_key s key ns) \<Longrightarrow> tall (sl_nodes s) 0 a" for a
    using f(4) by (auto simp: from_key_def dest: set_dropWhileD)
  ultimately show ?thesis
    by (cases "from_key s key ns") auto
qed

section \<open>Inserting\<close>

lemma RandomLevel_bounds:
  "level \<le> max_height \<Longrightarrow> RandomLevel coins max_height level draws = (lv, d) \<Longrightarrow> level \<le> lv \<and> lv \<le> max_height"
  by (induction coins max_height level draws rule: RandomLevel.induct)
     (subst (asm) (2) RandomLevel.simps, auto split: if_splits)

lemma SL_link_spec:
  assumes "distinct is" "\<And>i. i \<in> set is \<Longrightarrow> u ! i \<noteq> n \<and> u ! i < length N"
    and "n < length N"
  shows "length (SL_link n u is N) = length N \<and>
    (\<forall>a < length N. nd_key (SL_link n u is N ! a) = nd_key (N ! a) \<and>
       nd_value (SL_link n u is N ! a) = nd_value (N ! a) \<and>
       length (nd_forward (SL_link n u is N ! a)) = length (nd_forward (N ! a)) \<and>
       (\<forall>l. tall N l a \<longrightarrow> fwd (SL_link n u is N) a l =
          (if a = n then (if l \<in> set is then fwd N (u ! l) l else fwd N a l)
           else if l \<in> set is \<and> u ! l = a then Some n else fwd N a l)))"
  using assms
proof (induction "is" arbitrary: N)
  case (Cons i "is")
  define M where "M = N[n := (N ! n)\<lparr>nd_forward := (nd_forward (N ! n))[i := fwd N (u ! i) i]\<rparr>]"
  define M' where "M' = M[u ! i := (M ! (u ! i))\<lparr>nd_forward := (nd_forward (M ! (u ! i)))[i := Some n]\<rparr>]"
  have ui: "u ! i \<noteq> n" "u ! i < length N"
    using Cons.prems(2) by auto
  have len: "length M' = length N"
    by (simp add: M_def M'_def)
  have same: "nd_key (M' ! a) = nd_key (N ! a)" "nd_value (M' ! a) = nd_value (N ! a)"
    "length (nd_forward (M' ! a)) = length (nd_forward (N ! a))" if "a < length N" for a
    using that ui Cons.prems(3) by (auto simp: M_def M'_def nth_list_update)
  have fw: "fwd M' a l = (if a = n then (if l = i then fwd N (u ! l) l else fwd N a l)
      else if l = i \<and> u ! l = a then Some n else fwd N a l)" if "a < length N" "tall N l a" for a l
    using that ui Cons.prems(3) by (auto simp: M_def M'_def nth_list_update tall_def)
  have t: "tall M' l a = tall N l a" if "a < length N" for a l
    using same(3)[OF that] by (simp add: tall_def)
  have link: "SL_link n u (i # is) N = SL_link n u is M'"
    by (simp add: M_def M'_def Let_def)
  have "i \<notin> set is"
    using Cons.prems(1) by simp
  have IH: "length (SL_link n u is M') = length M' \<and>
    (\<forall>a < length M'. nd_key (SL_link n u is M' ! a) = nd_key (M' ! a) \<and>
       nd_value (SL_link n u is M' ! a) = nd_value (M' ! a) \<and>
       length (nd_forward (SL_link n u is M' ! a)) = length (nd_forward (M' ! a)) \<and>
       (\<forall>l. tall M' l a \<longrightarrow> fwd (SL_link n u is M') a l =
          (if a = n then (if l \<in> set is then fwd M' (u ! l) l else fwd M' a l)
           else if l \<in> set is \<and> u ! l = a then Some n else fwd M' a l)))"
    using Cons.prems len by (intro Cons.IH) auto
  have other: "fwd M' a l = fwd N a l" if "a < length N" "l \<noteq> i" for a l
    using that ui Cons.prems(3) by (auto simp: M_def M'_def nth_list_update)
  have step: "fwd (SL_link n u is M') a l =
      (if a = n then (if l \<in> set (i # is) then fwd N (u ! l) l else fwd N a l)
       else if l \<in> set (i # is) \<and> u ! l = a then Some n else fwd N a l)"
    if "a < length N" "tall N l a" for a l
  proof -
    have R: "fwd (SL_link n u is M') a l =
          (if a = n then (if l \<in> set is then fwd M' (u ! l) l else fwd M' a l)
           else if l \<in> set is \<and> u ! l = a then Some n else fwd M' a l)"
      using IH that t len by simp
    show ?thesis
    proof (cases "l = i")
      case True
      then show ?thesis
        using R fw[OF that] \<open>i \<notin> set is\<close> by (auto split: if_splits)
    next
      case False
      have "l \<in> set is \<Longrightarrow> u ! l < length N"
        using Cons.prems(2) by simp
      then show ?thesis
        using R False other[OF _ False] that by auto
    qed
  qed
  show ?case
    unfolding link using IH len same step by simp
qed simp

lemma linked_cong:
  assumes "\<And>a l. a \<in> set as \<Longrightarrow> tall N' l a = tall N l a"
    and "\<And>a l. a \<in> set as \<Longrightarrow> tall N l a \<Longrightarrow> fwd N' a l = fwd N a l"
  shows "linked N as \<Longrightarrow> linked N' as"
  using assms
proof (induction as)
  case (Cons a as)
  have "List.find (tall N' l) as = List.find (tall N l) as" for l
    using Cons.prems(2) by (intro find_cong) auto
  with Cons show ?case
    by auto
qed simp

lemma linked_splice:
  assumes "linked N (as @ hi)" "linked N' hi"
    and t: "\<And>a l. a \<in> set (as @ hi) \<Longrightarrow> tall N' l a = tall N l a"
    and n: "\<And>l. tall N' l n \<longleftrightarrow> l < lv" "\<And>l. l < lv \<Longrightarrow> fwd N' n l = List.find (tall N l) hi"
    and at: "\<And>xs a ys l. as = xs @ a # ys \<Longrightarrow> tall N l a \<Longrightarrow>
       fwd N' a l = (if l < lv \<and> List.find (tall N l) ys = None then Some n else fwd N a l)"
  shows "linked N' (as @ n # hi)"
  using assms(1) t at
proof (induction as)
  case Nil
  have "List.find (tall N' l) hi = List.find (tall N l) hi" for l
    using Nil.prems(2) by (intro find_cong) auto
  with assms(2) n show ?case
    by simp
next
  case (Cons a as)
  have "linked N' (as @ n # hi)"
    using Cons.prems by (intro Cons.IH) (auto simp: append_eq_Cons_conv)
  moreover have "fwd N' a l = List.find (tall N' l) (as @ n # hi)" if "tall N' l a" for l
  proof -
    have ta: "tall N l a"
      using that Cons.prems(2) by simp
    have old: "fwd N a l = List.find (tall N l) (as @ hi)"
      using Cons.prems(1) ta by simp
    have "List.find (tall N' l) as = List.find (tall N l) as"
      "List.find (tall N' l) hi = List.find (tall N l) hi"
      using Cons.prems(2) by (auto intro: find_cong)
    then show ?thesis
      using Cons.prems(3)[of "[]" a as l] ta old n(1)[of l]
      by (auto simp: find_append split: option.splits)
  qed
  ultimately show ?case
    by simp
qed

text \<open>The reference: insertion into a list of entries sorted by key.\<close>

definition upsert :: "KeyType \<Rightarrow> 'v \<Rightarrow> (KeyType \<times> 'v) list \<Rightarrow> (KeyType \<times> 'v) list" where
  "upsert k v es = filter (\<lambda>e. fst e < k) es @ (k, v) # filter (\<lambda>e. k < fst e) es"

lemma map_of_filter_fst: "map_of (filter (\<lambda>e. P (fst e)) es) k = (if P k then map_of es k else None)"
  by (induction es) auto

lemma map_of_upsert [simp]: "map_of (upsert k v es) = (map_of es)(k \<mapsto> v)"
  using map_of_filter_fst[where P = "\<lambda>x. x < k" and es = es] map_of_filter_fst[where P = "(<) k" and es = es]
  by (intro ext) (auto simp: upsert_def map_add_def split: option.splits)

lemma sorted_wrt_filter_map:
  "sorted_wrt R (map f xs) \<Longrightarrow> sorted_wrt R (map f (filter P xs))"
  by (induction xs) auto

lemma sorted_upsert [simp]:
  "sorted_wrt (<) (map fst es) \<Longrightarrow> sorted_wrt (<) (map fst (upsert k v es))"
  unfolding upsert_def by (auto simp: sorted_wrt_append sorted_wrt_filter_map)

lemma below_filter:
  assumes "sl_ok s ns"
  shows "filter (\<lambda>a. nd_key (sl_nodes s ! a) < key) ns = below s key ns"
    and "filter (\<lambda>a. key < nd_key (sl_nodes s ! a)) ns = filter (\<lambda>a. nd_key (sl_nodes s ! a) \<noteq> key) (from_key s key ns)"
proof -
  have lo: "filter (\<lambda>a. nd_key (sl_nodes s ! a) < key) (below s key ns) = below s key ns"
    "filter (\<lambda>a. key < nd_key (sl_nodes s ! a)) (below s key ns) = []"
    using below_less[of _ s key ns] by (auto simp: filter_id_conv filter_empty_conv not_less order.strict_implies_order)
  have hi: "filter (\<lambda>a. nd_key (sl_nodes s ! a) < key) (from_key s key ns) = []"
    using from_key_ge[OF assms] by (auto simp: filter_empty_conv)
  have hi': "filter (\<lambda>a. key < nd_key (sl_nodes s ! a)) (from_key s key ns) =
        filter (\<lambda>a. nd_key (sl_nodes s ! a) \<noteq> key) (from_key s key ns)"
    using from_key_ge[OF assms, of _ key] by (intro filter_cong) force+
  show "filter (\<lambda>a. nd_key (sl_nodes s ! a) < key) ns = below s key ns"
    using lo(1) hi below_from_key[of s key ns] filter_append by (metis append_Nil2)
  show "filter (\<lambda>a. key < nd_key (sl_nodes s ! a)) ns = filter (\<lambda>a. nd_key (sl_nodes s ! a) \<noteq> key) (from_key s key ns)"
    using lo(2) hi' below_from_key[of s key ns] filter_append by (metis append_Nil)
qed

lemma upsert_entries_of:
  assumes "sl_ok s ns"
  shows "upsert key v (sl_entries_of s ns) =
    sl_entries_of s (below s key ns) @ (key, v) # sl_entries_of s (filter (\<lambda>a. nd_key (sl_nodes s ! a) \<noteq> key) (from_key s key ns))"
  by (simp add: upsert_def sl_entries_of_def filter_map comp_def SL_iter_entry_def below_filter[OF assms])

lemma from_key_distinct_key:
  assumes "sl_ok s ns" "from_key s key ns = c # hi" "nd_key (sl_nodes s ! c) = key"
  shows "filter (\<lambda>a. nd_key (sl_nodes s ! a) \<noteq> key) (from_key s key ns) = hi"
    and "\<And>a. a \<in> set ns \<Longrightarrow> nd_key (sl_nodes s ! a) = key \<Longrightarrow> a = c"
proof -
  have "sorted_wrt (<) (map (\<lambda>a. nd_key (sl_nodes s ! a)) (below s key ns @ c # hi))"
    using assms(1,2) below_from_key[of s key ns] by (simp add: sl_ok_def)
  then have gt: "\<forall>a\<in>set hi. key < nd_key (sl_nodes s ! a)"
    using assms(3) by (simp add: sorted_wrt_append)
  then show "filter (\<lambda>a. nd_key (sl_nodes s ! a) \<noteq> key) (from_key s key ns) = hi"
    using assms(2,3) by (auto simp: filter_id_conv)
  fix a
  assume a: "a \<in> set ns" "nd_key (sl_nodes s ! a) = key"
  then have "a \<in> set (below s key ns @ c # hi)"
    using assms(2) below_from_key[of s key ns] by simp
  then show "a = c"
    using a(2) gt below_less[of a s key ns] by auto
qed

lemma SL_Insert_existing:
  fixes v :: 'v
  assumes ok: "sl_ok s ns" and hi: "from_key s key ns = c # hi" "nd_key (sl_nodes s ! c) = key"
  defines "s' \<equiv> s\<lparr>sl_nodes := (sl_nodes s)[c := (sl_nodes s ! c)\<lparr>nd_value := v\<rparr>]\<rparr>"
  shows "SL_Insert coins key v s = Inr s'" "sl_ok s' ns"
    "sl_entries_of s' ns = upsert key v (sl_entries_of s ns)"
proof -
  have split: "ns = below s key ns @ c # hi"
    using below_from_key[of s key ns] hi by simp
  then have "c \<in> set ns"
    by (metis in_set_conv_decomp)
  then have c: "c < length (sl_nodes s)"
    using ok by (auto simp: sl_ok_def)
  have same: "nd_key (sl_nodes s' ! a) = nd_key (sl_nodes s ! a)"
    "nd_forward (sl_nodes s' ! a) = nd_forward (sl_nodes s ! a)"
    "nd_value (sl_nodes s' ! a) = (if a = c then v else nd_value (sl_nodes s ! a))" for a
    using c by (auto simp: s'_def nth_list_update)
  show "SL_Insert coins key v s = Inr s'"
    by (rule descend_spec[OF ok, of key "replicate (sl_max_height s) 0"])
       (simp add: SL_Insert_def candidate_spec[OF ok] hi s'_def Let_def)
  have "linked (sl_nodes s') (0 # ns)"
    using sl_ok_facts(1)[OF ok] by (rule linked_cong[rotated 2]) (simp_all add: tall_def same)
  then show "sl_ok s' ns"
    using ok by (simp add: sl_ok_def same) (simp add: s'_def)
  have "distinct (below s key ns @ c # hi)"
    using sl_ok_facts(7)[OF ok] by (simp only: split[symmetric])
  moreover have "sl_entries_of s' ns = sl_entries_of s' (below s key ns @ c # hi)"
    using split by (rule arg_cong)
  ultimately show "sl_entries_of s' ns = upsert key v (sl_entries_of s ns)"
    unfolding upsert_entries_of[OF ok] from_key_distinct_key(1)[OF ok hi]
    by (auto simp: sl_entries_of_def SL_iter_entry_def same hi)
qed

lemma fold_update_zero:
  "length (fold (\<lambda>i u. u[i := 0]) is u) = length u \<and>
   (\<forall>l < length u. fold (\<lambda>i u. u[i := (0::nat)]) is u ! l = (if l \<in> set is then 0 else u ! l))"
  by (induction "is" arbitrary: u) (auto simp: nth_list_update)

lemma last_tall_high:
  assumes "sl_ok s ns" "sl_current_height s \<le> l" "l < sl_max_height s"
  shows "last_tall (sl_nodes s) l (0 # below s key ns) = 0"
proof (rule last_tall_only)
  show "tall (sl_nodes s) l 0"
    using sl_ok_facts(3)[OF assms(1)] assms(3) by simp
  have "\<not> tall (sl_nodes s) l a" if "a \<in> set (below s key ns)" for a
    using assms(1,2) that by (force simp: sl_ok_def tall_def below_def dest: set_takeWhileD)
  then show "List.find (tall (sl_nodes s) l) (below s key ns) = None"
    by (simp add: find_None_iff)
qed

text \<open>The state after a new node of height \<open>level\<close> has been linked in.\<close>

definition spliced :: "'v skip_list \<Rightarrow> nat list \<Rightarrow> KeyType \<Rightarrow> 'v \<Rightarrow> nat \<Rightarrow> nat list \<Rightarrow> nat \<Rightarrow> 'v skip_list" where
  "spliced s ns key v level u d = s\<lparr>sl_nodes := SL_link (length (sl_nodes s)) u [0..<level]
        (sl_nodes s @ [\<lparr>nd_key = key, nd_value = v, nd_forward = replicate level None\<rparr>]),
      sl_current_height := max level (sl_current_height s), sl_size := sl_size s + 1, sl_draws := d\<rparr>"

lemma SL_Insert_new:
  assumes ok: "sl_ok s ns" and new: "\<forall>c hi. from_key s key ns = c # hi \<longrightarrow> nd_key (sl_nodes s ! c) \<noteq> key"
  obtains level u d where "SL_Insert coins key v s = Inr (spliced s ns key v level u d)"
    "1 \<le> level" "level \<le> sl_max_height s"
    "\<forall>l<level. u ! l = last_tall (sl_nodes s) l (0 # below s key ns)"
proof -
  note f = sl_ok_facts[OF ok]
  obtain level d where lv: "RandomLevel coins (sl_max_height s) 1 (sl_draws s) = (level, d)"
    by (metis surj_pair)
  have b: "1 \<le> level" "level \<le> sl_max_height s"
    using RandomLevel_bounds[OF _ lv] f(5,6) by auto
  obtain u where u: "SL_descend (sl_nodes s) key (sl_current_height s) 0 (replicate (sl_max_height s) 0) =
       Inr (last_tall (sl_nodes s) 0 (0 # below s key ns), u)"
    "length u = sl_max_height s"
    "\<And>l. l < sl_max_height s \<Longrightarrow>
       u ! l = (if l < sl_current_height s then last_tall (sl_nodes s) l (0 # below s key ns) else 0)"
    using descend_spec[OF ok, of key "replicate (sl_max_height s) 0"] by (metis length_replicate nth_replicate)
  define u' where "u' = (if level > sl_current_height s
        then fold (\<lambda>i u. u[i := 0]) [sl_current_height s..<level] u else u)"
  have "u' ! l = last_tall (sl_nodes s) l (0 # below s key ns)" if "l < level" for l
  proof -
    have "l < length u"
      using that b(2) u(2) by simp
    then show ?thesis
      using u(2) u(3)[of l] last_tall_high[OF ok, of l key] that
        fold_update_zero[of "[sl_current_height s..<level]" u]
      by (auto simp: u'_def)
  qed
  moreover have "SL_Insert coins key v s = Inr (spliced s ns key v level u' d)"
    using new
    by (auto simp: SL_Insert_def u(1) candidate_spec[OF ok] lv[unfolded One_nat_def] u'_def Let_def spliced_def
        split: list.splits)
  ultimately show ?thesis
    using that[of level u' d] b by blast
qed

lemma last_tall_iff:
  assumes "distinct (xs @ a # ys)" "tall N l a"
  shows "last_tall N l (xs @ a # ys) = a \<longleftrightarrow> List.find (tall N l) ys = None"
proof
  assume *: "last_tall N l (xs @ a # ys) = a"
  then have "last (a # filter (tall N l) ys) = a"
    using assms(2) by (simp add: last_tall_def)
  then show "List.find (tall N l) ys = None"
    using assms(1) last_in_set[of "filter (tall N l) ys"]
    by (auto simp: find_None_iff filter_empty_conv split: if_splits)
next
  assume "List.find (tall N l) ys = None"
  then show "last_tall N l (xs @ a # ys) = a"
    using last_tall_tail[OF assms(2)] last_tall_only[OF assms(2)] by simp
qed

lemma spliced_nodes:
  fixes v :: 'v and d :: nat
  assumes ok: "sl_ok s ns"
    and u: "\<forall>l<level. u ! l = last_tall (sl_nodes s) l (0 # below s key ns)"
    and lv: "level \<le> sl_max_height s"
  defines "N \<equiv> sl_nodes s" and "N' \<equiv> sl_nodes (spliced s ns key v level u d)"
  shows "length N' = length N + 1"
    "nd_key (N' ! length N) = key" "nd_value (N' ! length N) = v"
    "length (nd_forward (N' ! length N)) = level"
    "\<And>l. l < level \<Longrightarrow> fwd N' (length N) l = fwd N (last_tall N l (0 # below s key ns)) l"
    "\<And>a. a < length N \<Longrightarrow> nd_key (N' ! a) = nd_key (N ! a) \<and> nd_value (N' ! a) = nd_value (N ! a) \<and>
       length (nd_forward (N' ! a)) = length (nd_forward (N ! a))"
    "\<And>a l. a < length N \<Longrightarrow> tall N l a \<Longrightarrow>
       fwd N' a l = (if l < level \<and> last_tall N l (0 # below s key ns) = a then Some (length N) else fwd N a l)"
proof -
  let ?M = "N @ [\<lparr>nd_key = key, nd_value = v, nd_forward = replicate level None\<rparr>]"
  have N': "N' = SL_link (length N) u [0..<level] ?M"
    by (simp add: N'_def N_def spliced_def)
  have lt: "last_tall N l (0 # below s key ns) < length N" if "l < level" for l
  proof -
    have "last_tall N l (0 # below s key ns) \<in> set (0 # below s key ns)"
      using last_tall_mem[of 0 "0 # below s key ns" N l] sl_ok_facts(3)[OF ok, of l] lv that by (simp add: N_def)
    moreover have "set (0 # below s key ns) \<subseteq> {..<length N}"
      using ok by (auto simp: sl_ok_def below_def N_def dest!: set_takeWhileD)
    ultimately show ?thesis
      by blast
  qed
  have spec: "length N' = length ?M \<and>
    (\<forall>a < length ?M. nd_key (N' ! a) = nd_key (?M ! a) \<and>
       nd_value (N' ! a) = nd_value (?M ! a) \<and>
       length (nd_forward (N' ! a)) = length (nd_forward (?M ! a)) \<and>
       (\<forall>l. tall ?M l a \<longrightarrow> fwd N' a l =
          (if a = length N then (if l \<in> set [0..<level] then fwd ?M (u ! l) l else fwd ?M a l)
           else if l \<in> set [0..<level] \<and> u ! l = a then Some (length N) else fwd ?M a l)))"
    unfolding N' using lt u by (intro SL_link_spec) (fastforce simp: N_def less_Suc_eq)+
  show "length N' = length N + 1"
    using spec by simp
  show "nd_key (N' ! length N) = key" "nd_value (N' ! length N) = v"
    "length (nd_forward (N' ! length N)) = level"
    using spec by simp_all
  show "fwd N' (length N) l = fwd N (last_tall N l (0 # below s key ns)) l" if "l < level" for l
    using spec that u lt[OF that] by (simp add: tall_def N_def nth_append)
  show "nd_key (N' ! a) = nd_key (N ! a) \<and> nd_value (N' ! a) = nd_value (N ! a) \<and>
       length (nd_forward (N' ! a)) = length (nd_forward (N ! a))" if "a < length N" for a
    using spec that by (simp add: nth_append)
  show "fwd N' a l = (if l < level \<and> last_tall N l (0 # below s key ns) = a then Some (length N) else fwd N a l)"
    if "a < length N" "tall N l a" for a l
    using spec that u by (auto simp: nth_append tall_def N_def)
qed

lemma spliced_linked:
  assumes ok: "sl_ok s ns"
    and u: "\<forall>l<level. u ! l = last_tall (sl_nodes s) l (0 # below s key ns)"
    and lv: "level \<le> sl_max_height s"
  shows "linked (sl_nodes (spliced s ns key v level u d))
           (0 # below s key ns @ length (sl_nodes s) # from_key s key ns)"
proof -
  let ?N = "sl_nodes s" and ?N' = "sl_nodes (spliced s ns key v level u d)"
  let ?as = "0 # below s key ns" and ?hi = "from_key s key ns"
  note sp = spliced_nodes[OF ok u lv, where v = v and d = d]
  have ns: "ns = below s key ns @ ?hi"
    by (simp add: below_from_key)
  have all: "linked ?N (?as @ ?hi)" "distinct (?as @ ?hi)"
    using sl_ok_facts(1,7)[OF ok] ok by (auto simp: below_from_key sl_ok_def)
  have mem: "a < length ?N" if "a \<in> set (?as @ ?hi)" for a
    using that ok sl_ok_facts(8)[OF ok] by (auto simp: below_from_key sl_ok_def)
  have t: "tall ?N' l a = tall ?N l a" if "a \<in> set (?as @ ?hi)" for a l
    using sp(6)[OF mem[OF that]] by (simp add: tall_def)
  have zero: "tall ?N l 0" if "l < level" for l
    using sl_ok_facts(3)[OF ok] lv that by simp
  have "last_tall ?N l ?as \<in> set ?as" if "l < level" for l
    using last_tall_mem[of 0 ?as ?N l] zero[OF that] by simp
  then have "fwd ?N' a l = fwd ?N a l" if "a \<in> set ?hi" "tall ?N l a" for a l
    using sp(7)[OF mem] all(2) that by fastforce
  then have hi: "linked ?N' ?hi"
    using t linked_append[OF all(1)] by (intro linked_cong[of ?hi ?N' ?N]) auto
  have "linked ?N' (?as @ length ?N # ?hi)"
  proof (rule linked_splice[OF all(1) hi t])
    show "tall ?N' l (length ?N) \<longleftrightarrow> l < level" for l
      using sp(4) by (simp add: tall_def)
    show "fwd ?N' (length ?N) l = List.find (tall ?N l) ?hi" if "l < level" for l
      using sp(5)[OF that] fwd_last_tall[OF all(1), of 0 l] zero[OF that] by simp
    show "fwd ?N' a l = (if l < level \<and> List.find (tall ?N l) ys = None then Some (length ?N) else fwd ?N a l)"
      if "?as = xs @ a # ys" "tall ?N l a" for xs a ys l
    proof -
      have "a \<in> set ?as" "distinct (xs @ a # ys)"
        using that(1) all(2) by (metis in_set_conv_decomp, metis distinct_append)
      then show ?thesis
        using sp(7)[OF mem that(2)] last_tall_iff[of xs a ys ?N l] that by simp
    qed
  qed
  then show ?thesis
    by simp
qed

lemma spliced_ok:
  assumes ok: "sl_ok s ns" and new: "\<forall>c hi. from_key s key ns = c # hi \<longrightarrow> nd_key (sl_nodes s ! c) \<noteq> key"
    and u: "\<forall>l<level. u ! l = last_tall (sl_nodes s) l (0 # below s key ns)"
    and lv: "1 \<le> level" "level \<le> sl_max_height s"
  shows "sl_ok (spliced s ns key v level u d) (below s key ns @ length (sl_nodes s) # from_key s key ns)"
    (is "sl_ok ?s' ?ns'")
    and "sl_entries_of (spliced s ns key v level u d) (below s key ns @ length (sl_nodes s) # from_key s key ns) =
      upsert key v (sl_entries_of s ns)"
proof -
  let ?N = "sl_nodes s" and ?lo = "below s key ns" and ?hi = "from_key s key ns"
  note sp = spliced_nodes[OF ok u lv(2), where v = v and d = d]
  have ns: "?lo @ ?hi = ns"
    by (rule below_from_key)
  have mem: "a < length ?N" if "a \<in> set ?lo \<union> set ?hi" for a
    using that ok ns by (auto simp: sl_ok_def) (metis Un_iff atLeastLessThan_iff set_append)+
  have keys: "map (\<lambda>a. nd_key (sl_nodes ?s' ! a)) ?lo = map (\<lambda>a. nd_key (?N ! a)) ?lo"
    "map (\<lambda>a. nd_key (sl_nodes ?s' ! a)) ?hi = map (\<lambda>a. nd_key (?N ! a)) ?hi"
    using sp(6) mem by auto
  have srt: "sorted_wrt (<) (map (\<lambda>a. nd_key (?N ! a)) (?lo @ ?hi))"
    using ok ns by (simp add: sl_ok_def)
  have gt: "key < nd_key (?N ! a)" if a: "a \<in> set ?hi" for a
  proof -
    obtain c hi where hi: "?hi = c # hi"
      using a by (cases ?hi) auto
    then have "key < nd_key (?N ! c)"
      using new hi from_key_ge[OF ok, of c key] by force
    moreover have "a = c \<or> nd_key (?N ! c) < nd_key (?N ! a)"
      using that srt unfolding hi by (auto simp: sorted_wrt_append)
    ultimately show ?thesis
      by auto
  qed
  have "sorted_wrt (<) (map (\<lambda>a. nd_key (sl_nodes ?s' ! a)) ?ns')"
    using srt gt below_less[of _ s key ns] sp(2) unfolding map_append list.map keys
    by (auto simp: sorted_wrt_append)
  moreover have "length (nd_forward (sl_nodes ?s' ! 0)) = sl_max_height s"
    using sp(6)[of 0] ok by (auto simp: sl_ok_def)
  moreover have "set ?ns' = {1..<length (sl_nodes ?s')}"
  proof -
    have "set ?lo \<union> set ?hi = {1..<length ?N}"
      using ok ns by (metis set_append sl_ok_def)
    then show ?thesis
      using sp(1) sl_ok_facts(8)[OF ok] by (auto simp: Suc_le_eq)
  qed
  moreover have "1 \<le> length (nd_forward (sl_nodes ?s' ! a)) \<and>
      length (nd_forward (sl_nodes ?s' ! a)) \<le> sl_current_height ?s'" if "a \<in> set ?ns'" for a
  proof (cases "a = length ?N")
    case True
    then show ?thesis
      using sp(4) lv(1) by (simp add: spliced_def)
  next
    case False
    then have a: "a \<in> set ?lo \<union> set ?hi"
      using that by simp
    then have "a \<in> set ns"
      by (metis ns set_append)
    then have "1 \<le> length (nd_forward (?N ! a))" "length (nd_forward (?N ! a)) \<le> sl_current_height s"
      using ok by (auto simp: sl_ok_def)
    then show ?thesis
      using sp(6)[OF mem[OF a]] by (simp add: spliced_def)
  qed
  moreover have "linked (sl_nodes ?s') (0 # ?ns')"
    by (rule spliced_linked[OF ok u lv(2)])
  moreover have "length ?ns' = length ns + 1"
    by (metis add_Suc_right length_append list.size(4) ns add.right_neutral Suc_eq_plus1)
  ultimately show "sl_ok ?s' ?ns'"
    using ok lv sp(1) by (auto simp: sl_ok_def) (simp_all add: spliced_def)
  have "filter (\<lambda>a. nd_key (?N ! a) \<noteq> key) ?hi = ?hi"
    using gt by (force simp: filter_id_conv)
  moreover have "SL_iter_entry ?s' a = SL_iter_entry s a" if "a \<in> set ?lo \<union> set ?hi" for a
    using sp(6)[OF mem[OF that]] by (simp add: SL_iter_entry_def)
  ultimately show "sl_entries_of ?s' ?ns' = upsert key v (sl_entries_of s ns)"
    unfolding upsert_entries_of[OF ok] using sp(2,3) by (simp add: sl_entries_of_def) (simp add: SL_iter_entry_def)
qed

section \<open>The contract of the skip list\<close>

definition sl_inv :: "'v skip_list \<Rightarrow> bool" where
  "sl_inv s \<longleftrightarrow> (\<exists>ns. sl_ok s ns)"

text \<open>The entries a scan from \<open>Begin\<close> yields.\<close>

definition sl_entries :: "'v skip_list \<Rightarrow> (KeyType \<times> 'v) list" where
  "sl_entries s = (case SL_drain (length (sl_nodes s)) s (SL_Begin s) of Inl _ \<Rightarrow> [] | Inr es \<Rightarrow> es)"

definition first_of :: "nat list \<Rightarrow> nat option" where
  "first_of as = (case as of [] \<Rightarrow> None | a # _ \<Rightarrow> Some a)"

lemma find_tall_zero:
  assumes "sl_ok s ns" "set as \<subseteq> set ns"
  shows "List.find (tall (sl_nodes s) 0) as = first_of as"
  using sl_ok_facts(4)[OF assms(1)] assms(2) by (cases as) (auto simp: first_of_def)

lemma SL_Next_spec:
  assumes ok: "sl_ok s ns" and ns: "ns = xs @ a # ys"
  shows "SL_Next s a = first_of ys"
proof -
  have "linked (sl_nodes s) ((0 # xs) @ a # ys)"
    using sl_ok_facts(1)[OF ok] ns by simp
  moreover have "tall (sl_nodes s) 0 a"
    using sl_ok_facts(4)[OF ok] ns by simp
  ultimately have "SL_Next s a = List.find (tall (sl_nodes s) 0) ys"
    unfolding SL_Next_def by (rule linked_at)
  then show ?thesis
    using find_tall_zero[OF ok, of ys] ns by auto
qed

lemma drain_suffix:
  assumes ok: "sl_ok s ns"
  shows "ns = xs @ ys \<Longrightarrow> length ys \<le> fuel \<Longrightarrow> SL_drain fuel s (first_of ys) = Inr (sl_entries_of s ys)"
proof (induction ys arbitrary: xs fuel)
  case Nil
  then show ?case
    by (cases fuel) (simp_all add: first_of_def sl_entries_of_def)
next
  case (Cons a ys)
  then obtain m where m: "fuel = Suc m" "length ys \<le> m"
    by (cases fuel) auto
  have "SL_drain m s (first_of ys) = Inr (sl_entries_of s ys)"
    using Cons.IH[of "xs @ [a]" m] Cons.prems(1) m by simp
  then show ?case
    using SL_Next_spec[OF ok Cons.prems(1)] m(1) by (simp add: first_of_def sl_entries_of_def)
qed

lemma SL_Begin_spec:
  assumes ok: "sl_ok s ns"
  shows "SL_Begin s = first_of ns"
proof -
  note f = sl_ok_facts[OF ok]
  have "fwd (sl_nodes s) 0 0 = List.find (tall (sl_nodes s) 0) ns"
    using f(1) f(3)[of 0] f(5,6) by (intro linked_at[of _ "[]"]) auto
  then show ?thesis
    using find_tall_zero[OF ok, of ns] by (simp add: SL_Begin_def)
qed

lemma sl_entries_eq:
  assumes ok: "sl_ok s ns"
  shows "SL_drain (length (sl_nodes s)) s (SL_Begin s) = Inr (sl_entries_of s ns)"
    "sl_entries s = sl_entries_of s ns"
proof -
  show "SL_drain (length (sl_nodes s)) s (SL_Begin s) = Inr (sl_entries_of s ns)"
    using drain_suffix[OF ok, of "[]" ns "length (sl_nodes s)"] sl_ok_facts(2)[OF ok] SL_Begin_spec[OF ok] by simp
  then show "sl_entries s = sl_entries_of s ns"
    by (simp add: sl_entries_def)
qed

lemma sl_entries_sorted:
  assumes "sl_inv s"
  shows "sorted_wrt (<) (map fst (sl_entries s))"
proof -
  obtain ns where ok: "sl_ok s ns"
    using assms by (auto simp: sl_inv_def)
  then show ?thesis
    by (simp add: sl_entries_eq[OF ok] sl_entries_of_def comp_def SL_iter_entry_def) (simp add: sl_ok_def)
qed

lemma SkipList_init:
  assumes "0 < h"
  shows "sl_inv (SkipList h d)" "sl_entries (SkipList h d) = []"
proof -
  have ok: "sl_ok (SkipList h d) []"
    using assms by (simp add: sl_ok_def SkipList_def tall_def)
  then show "sl_inv (SkipList h d)"
    by (auto simp: sl_inv_def)
  show "sl_entries (SkipList h d) = []"
    by (simp add: sl_entries_eq(2)[OF ok] sl_entries_of_def)
qed

lemma SL_Insert_spec:
  assumes "sl_inv s"
  obtains s' where "SL_Insert coins key v s = Inr s'" "sl_inv s'"
    "sl_entries s' = upsert key v (sl_entries s)"
proof -
  obtain ns where ok: "sl_ok s ns"
    using assms by (auto simp: sl_inv_def)
  have fin: thesis if "SL_Insert coins key v s = Inr s'" "sl_ok s' ns'"
    "sl_entries_of s' ns' = upsert key v (sl_entries_of s ns)" for s' ns'
    using that \<open>\<And>s'. SL_Insert coins key v s = Inr s' \<Longrightarrow> sl_inv s' \<Longrightarrow> sl_entries s' = upsert key v (sl_entries s) \<Longrightarrow> thesis\<close>
    by (auto simp: sl_inv_def sl_entries_eq(2)[OF ok] sl_entries_eq(2)[OF that(2)])
  show ?thesis
  proof (cases "\<exists>c hi. from_key s key ns = c # hi \<and> nd_key (sl_nodes s ! c) = key")
    case True
    then obtain c hi where "from_key s key ns = c # hi" "nd_key (sl_nodes s ! c) = key"
      by blast
    from SL_Insert_existing[OF ok this] show ?thesis
      by (rule fin)
  next
    case False
    then have new: "\<forall>c hi. from_key s key ns = c # hi \<longrightarrow> nd_key (sl_nodes s ! c) \<noteq> key"
      by blast
    obtain level u d where ins: "SL_Insert coins key v s = Inr (spliced s ns key v level u d)"
      and lv: "1 \<le> level" "level \<le> sl_max_height s"
      and u: "\<forall>l<level. u ! l = last_tall (sl_nodes s) l (0 # below s key ns)"
      by (rule SL_Insert_new[OF ok new])
    show ?thesis
      by (rule fin[OF ins spliced_ok[OF ok new u lv]])
  qed
qed

lemma from_key_entries:
  assumes ok: "sl_ok s ns"
  shows "sl_entries_of s (from_key s key ns) = filter (\<lambda>e. key \<le> fst e) (sl_entries_of s ns)"
proof -
  have "filter (\<lambda>a. key \<le> nd_key (sl_nodes s ! a)) (below s key ns) = []"
    using below_less[of _ s key ns] by (force simp: filter_empty_conv)
  moreover have "filter (\<lambda>a. key \<le> nd_key (sl_nodes s ! a)) (from_key s key ns) = from_key s key ns"
    using from_key_ge[OF ok] by (force simp: filter_id_conv)
  moreover have "filter (\<lambda>a. key \<le> nd_key (sl_nodes s ! a)) ns =
      filter (\<lambda>a. key \<le> nd_key (sl_nodes s ! a)) (below s key ns) @
      filter (\<lambda>a. key \<le> nd_key (sl_nodes s ! a)) (from_key s key ns)"
    by (metis below_from_key filter_append)
  ultimately show ?thesis
    by (simp add: sl_entries_of_def filter_map comp_def SL_iter_entry_def)
qed

lemma SL_LowerBound_spec:
  assumes "sl_inv s"
  obtains it where "SL_LowerBound key s = Inr it"
    "SL_drain (length (sl_nodes s)) s it = Inr (filter (\<lambda>e. key \<le> fst e) (sl_entries s))"
proof -
  obtain ns where ok: "sl_ok s ns"
    using assms by (auto simp: sl_inv_def)
  have "SL_LowerBound key s = Inr (first_of (from_key s key ns))"
    by (rule descend_spec[OF ok, of key "[]"])
       (simp add: SL_LowerBound_def candidate_spec[OF ok] first_of_def)
  moreover have "length (from_key s key ns) \<le> length (sl_nodes s)"
    using sl_ok_facts(2)[OF ok] length_dropWhile_le[of _ ns] unfolding from_key_def
    by (meson le_add1 le_trans)
  then have "SL_drain (length (sl_nodes s)) s (first_of (from_key s key ns)) =
      Inr (filter (\<lambda>e. key \<le> fst e) (sl_entries s))"
    using drain_suffix[OF ok below_from_key[symmetric], of s key]
    by (simp add: from_key_entries[OF ok, of key] sl_entries_eq(2)[OF ok])
  ultimately show ?thesis
    by (rule that)
qed

lemma SL_Find_spec:
  assumes "sl_inv s"
  shows "SL_Find key s = Inr (map_of (sl_entries s) key)"
proof -
  obtain ns where ok: "sl_ok s ns"
    using assms by (auto simp: sl_inv_def)
  let ?hi = "sl_entries_of s (from_key s key ns)"
  have "map_of (sl_entries s) key = map_of ?hi key"
    using map_of_filter_fst[of "\<lambda>k. key \<le> k" "sl_entries_of s ns" key]
    by (simp add: from_key_entries[OF ok] sl_entries_eq(2)[OF ok])
  moreover have "SL_Find key s = Inr (map_of ?hi key)"
  proof (cases "from_key s key ns")
    case Nil
    show ?thesis
      by (rule descend_spec[OF ok, of key "[]"])
         (simp add: SL_Find_def candidate_spec[OF ok] sl_entries_of_def Nil)
  next
    case (Cons a hi)
    have "sorted_wrt (<) (map fst ?hi)"
      using sl_entries_sorted[OF assms] from_key_entries[OF ok] sl_entries_eq(2)[OF ok] sorted_wrt_filter_map
      by metis
    moreover have "\<not> nd_key (sl_nodes s ! a) < key"
      using from_key_ge[OF ok] Cons by simp
    ultimately have none: "nd_key (sl_nodes s ! a) \<noteq> key \<Longrightarrow> map_of (sl_entries_of s hi) key = None"
      using Cons by (force simp: map_of_eq_None_iff sl_entries_of_def SL_iter_entry_def)
    show ?thesis
      by (rule descend_spec[OF ok, of key "[]"])
         (use none in \<open>auto simp: SL_Find_def candidate_spec[OF ok] sl_entries_of_def SL_iter_entry_def Cons\<close>)
  qed
  ultimately show ?thesis
    by simp
qed

lemma SL_Size_spec: "sl_inv s \<Longrightarrow> SL_Size s = length (sl_entries s)"
  by (auto simp: sl_inv_def SL_Size_def sl_entries_eq(2) sl_entries_of_def sl_ok_facts(9))

section \<open>Property\<close>

text \<open>A whole sequence of insertions, and the sorted list it should leave.\<close>

fun SL_InsertAll :: "(nat \<Rightarrow> bool) \<Rightarrow> (KeyType \<times> 'v) list \<Rightarrow> 'v skip_list \<Rightarrow> 'v skip_list result" where
  "SL_InsertAll coins [] s = Inr s"
| "SL_InsertAll coins ((k, v) # kvs) s =
     (case SL_Insert coins k v s of Inl e \<Rightarrow> Inl e | Inr s \<Rightarrow> SL_InsertAll coins kvs s)"

lemma SL_InsertAll_spec:
  "sl_inv s \<Longrightarrow> \<exists>s'. SL_InsertAll coins kvs s = Inr s' \<and> sl_inv s' \<and>
     sl_entries s' = fold (\<lambda>(k, v). upsert k v) kvs (sl_entries s)"
proof (induction kvs arbitrary: s)
  case (Cons kv kvs)
  obtain k v where kv: "kv = (k, v)"
    by fastforce
  obtain s' where "SL_Insert coins k v s = Inr s'" "sl_inv s'" "sl_entries s' = upsert k v (sl_entries s)"
    using SL_Insert_spec[OF Cons.prems] by metis
  with Cons.IH[of s'] kv show ?case
    by simp
qed simp

lemma map_of_fold_upsert: "map_of (fold (\<lambda>(k, v). upsert k v) kvs es) = map_of es ++ map_of (rev kvs)"
  by (induction kvs arbitrary: es) (auto simp: map_add_def fun_eq_iff split: option.splits)

text \<open>
  C23. A skip list built by any sequence of insertions, whatever the random heights, answers every
  lookup with the last value inserted for the key, yields exactly its entries in ascending key
  order from \<open>Begin\<close> and those from a key on from \<open>LowerBound\<close>, and every one of these loops ends.
\<close>

theorem skip_list_refines_map:
  assumes "0 < max_height"
  shows "\<exists>s es. SL_InsertAll coins kvs (SkipList max_height dflt) = Inr s \<and>
    sorted_wrt (<) (map fst es) \<and> map_of es = map_of (rev kvs) \<and> SL_Size s = length es \<and>
    (\<forall>key. SL_Find key s = Inr (map_of (rev kvs) key)) \<and>
    SL_drain (length (sl_nodes s)) s (SL_Begin s) = Inr es \<and>
    (\<forall>key. \<exists>it. SL_LowerBound key s = Inr it \<and>
       SL_drain (length (sl_nodes s)) s it = Inr (filter (\<lambda>e. key \<le> fst e) es))"
proof -
  obtain s where s: "SL_InsertAll coins kvs (SkipList max_height dflt) = Inr s" "sl_inv s"
    "sl_entries s = fold (\<lambda>(k, v). upsert k v) kvs []"
    using SL_InsertAll_spec[OF SkipList_init(1)[OF assms]] SkipList_init(2)[OF assms] by metis
  then have m: "map_of (sl_entries s) = map_of (rev kvs)"
    by (simp add: map_of_fold_upsert)
  obtain ns where "sl_ok s ns"
    using s(2) by (auto simp: sl_inv_def)
  then have "SL_drain (length (sl_nodes s)) s (SL_Begin s) = Inr (sl_entries s)"
    by (simp add: sl_entries_eq)
  moreover have "\<exists>it. SL_LowerBound key s = Inr it \<and>
       SL_drain (length (sl_nodes s)) s it = Inr (filter (\<lambda>e. key \<le> fst e) (sl_entries s))" for key
    using SL_LowerBound_spec[OF s(2)] by metis
  ultimately show ?thesis
    using s m sl_entries_sorted[OF s(2)] SL_Size_spec[OF s(2)] SL_Find_spec[OF s(2)]
    by (intro exI[of _ s] exI[of _ "sl_entries s"]) simp
qed

theorem skip_list_refines_map_witness:
  "\<exists>s. SL_InsertAll (\<lambda>n. n mod 3 \<noteq> 0) [(5, ''a''), (2, ''b''), (5, ''c'')] (SkipList 16 []) = Inr s \<and>
     SL_Find 5 s = Inr (Some ''c'') \<and> SL_Find 3 s = Inr None \<and> SL_Size s = 2"
proof -
  let ?c = "\<lambda>n. n mod 3 \<noteq> (0::nat)" and ?kvs = "[(5, ''a''), (2, ''b''), (5, ''c'')]"
  obtain s and es :: "(KeyType \<times> string) list" where s: "SL_InsertAll ?c ?kvs (SkipList 16 []) = Inr s"
    "sorted_wrt (<) (map fst es)" "map_of es = map_of (rev ?kvs)" "SL_Size s = length es"
    "\<forall>key. SL_Find key s = Inr (map_of (rev ?kvs) key)"
    using skip_list_refines_map[of 16 ?c ?kvs "[]", OF zero_less_numeral] by blast
  have "distinct (map fst es)" "fst ` set es = {2, 5}"
    using s(2) strict_sorted_iff dom_map_of_conv_image_fst[of es] by (auto simp: s(3))
  then have "length es = 2"
    using distinct_card[of "map fst es"] by simp
  then show ?thesis
    using s by simp
qed

end
