(* ===== verification/MemTable.thy ===== *)
theory MemTable
  imports Skip_List
begin

text \<open>
  \<^verbatim>\<open>src/src/lsm/lsm_value.h\<close> and \<^verbatim>\<open>src/src/lsm/memtable.h\<close>: the LSM-tree's write buffer, a skip
  list of values and tombstones with a running size estimate. The lemmas lift the contract of the
  skip list: a memtable stands for a finite map from keys to values or tombstones.
\<close>

section \<open>State and operations\<close>

record LSMValue =
  lv_value :: string
  lv_deleted :: bool

definition LSMValue_Value :: "string \<Rightarrow> LSMValue" where
  "LSMValue_Value v = \<lparr>lv_value = v, lv_deleted = False\<rparr>"

definition LSMValue_Tombstone :: LSMValue where
  "LSMValue_Tombstone = \<lparr>lv_value = [], lv_deleted = True\<rparr>"

type_synonym lsm_entry = "KeyType \<times> LSMValue"

record memtable =
  mt_list :: "LSMValue skip_list"
  mt_approximate_size_bytes :: nat

definition MemTable :: memtable where
  "MemTable = \<lparr>mt_list = SkipList 16 \<lparr>lv_value = [], lv_deleted = False\<rparr>, mt_approximate_size_bytes = 0\<rparr>"

definition MemTable_Put :: "(nat \<Rightarrow> bool) \<Rightarrow> KeyType \<Rightarrow> string \<Rightarrow> memtable \<Rightarrow> memtable result" where
  "MemTable_Put coins key value m =
     (case SL_Insert coins key (LSMValue_Value value) (mt_list m) of
        Inl e \<Rightarrow> Inl e
      | Inr l \<Rightarrow> Inr (m\<lparr>mt_list := l,
                       mt_approximate_size_bytes := mt_approximate_size_bytes m + (8 + length value)\<rparr>))"

definition MemTable_Delete :: "(nat \<Rightarrow> bool) \<Rightarrow> KeyType \<Rightarrow> memtable \<Rightarrow> memtable result" where
  "MemTable_Delete coins key m =
     (case SL_Insert coins key LSMValue_Tombstone (mt_list m) of
        Inl e \<Rightarrow> Inl e
      | Inr l \<Rightarrow> Inr (m\<lparr>mt_list := l, mt_approximate_size_bytes := mt_approximate_size_bytes m + 8\<rparr>))"

definition MemTable_Get :: "KeyType \<Rightarrow> memtable \<Rightarrow> LSMValue option result" where
  "MemTable_Get key m = SL_Find key (mt_list m)"

definition MemTable_ApproximateSizeBytes :: "memtable \<Rightarrow> nat" where
  "MemTable_ApproximateSizeBytes m = mt_approximate_size_bytes m"

definition MemTable_EntryCount :: "memtable \<Rightarrow> nat" where
  "MemTable_EntryCount m = SL_Size (mt_list m)"

definition MemTable_Begin :: "memtable \<Rightarrow> nat option" where
  "MemTable_Begin m = SL_Begin (mt_list m)"

definition MemTable_LowerBound :: "KeyType \<Rightarrow> memtable \<Rightarrow> nat option result" where
  "MemTable_LowerBound key m = SL_LowerBound key (mt_list m)"

section \<open>The map a memtable stands for\<close>

definition mt_inv :: "memtable \<Rightarrow> bool" where
  "mt_inv m \<longleftrightarrow> sl_inv (mt_list m)"

definition mt_entries :: "memtable \<Rightarrow> lsm_entry list" where
  "mt_entries m = sl_entries (mt_list m)"

text \<open>Everything a memtable iterator yields from its position on.\<close>

definition mt_drain :: "memtable \<Rightarrow> nat option \<Rightarrow> lsm_entry list result" where
  "mt_drain m it = SL_drain (length (sl_nodes (mt_list m))) (mt_list m) it"

lemma MemTable_init: "mt_inv MemTable" "mt_entries MemTable = []" "mt_approximate_size_bytes MemTable = 0"
  by (simp_all add: mt_inv_def mt_entries_def MemTable_def SkipList_init)

lemma mt_entries_sorted: "mt_inv m \<Longrightarrow> sorted_wrt (<) (map fst (mt_entries m))"
  by (simp add: mt_inv_def mt_entries_def sl_entries_sorted)

lemma MemTable_Put_spec:
  assumes "mt_inv m"
  obtains m' where "MemTable_Put coins key v m = Inr m'" "mt_inv m'"
    "mt_entries m' = upsert key (LSMValue_Value v) (mt_entries m)"
    "mt_approximate_size_bytes m' = mt_approximate_size_bytes m + (8 + length v)"
  by (rule SL_Insert_spec[of "mt_list m" coins key "LSMValue_Value v"])
     (use assms in \<open>auto simp: mt_inv_def mt_entries_def MemTable_Put_def\<close>)

lemma MemTable_Delete_spec:
  assumes "mt_inv m"
  obtains m' where "MemTable_Delete coins key m = Inr m'" "mt_inv m'"
    "mt_entries m' = upsert key LSMValue_Tombstone (mt_entries m)"
    "mt_approximate_size_bytes m' = mt_approximate_size_bytes m + 8"
  by (rule SL_Insert_spec[of "mt_list m" coins key LSMValue_Tombstone])
     (use assms in \<open>auto simp: mt_inv_def mt_entries_def MemTable_Delete_def\<close>)

lemma MemTable_Get_spec: "mt_inv m \<Longrightarrow> MemTable_Get key m = Inr (map_of (mt_entries m) key)"
  by (simp add: mt_inv_def mt_entries_def MemTable_Get_def SL_Find_spec)

lemma MemTable_EntryCount_spec: "mt_inv m \<Longrightarrow> MemTable_EntryCount m = length (mt_entries m)"
  by (simp add: mt_inv_def mt_entries_def MemTable_EntryCount_def SL_Size_spec)

lemma MemTable_Begin_spec: "mt_inv m \<Longrightarrow> mt_drain m (MemTable_Begin m) = Inr (mt_entries m)"
  by (auto simp: mt_inv_def mt_entries_def mt_drain_def MemTable_Begin_def sl_inv_def sl_entries_eq)

lemma MemTable_LowerBound_spec:
  assumes "mt_inv m"
  obtains it where "MemTable_LowerBound key m = Inr it"
    "mt_drain m it = Inr (filter (\<lambda>e. key \<le> fst e) (mt_entries m))"
  by (rule SL_LowerBound_spec[of "mt_list m" key])
     (use assms in \<open>auto simp: mt_inv_def mt_entries_def mt_drain_def MemTable_LowerBound_def\<close>)

end
