(* ===== verification/Merge_Iterator.thy ===== *)
theory Merge_Iterator
  imports MemTable "HOL-Library.Product_Lexorder"
begin

text \<open>
  \<^verbatim>\<open>src/src/lsm/merge_iterator.{h,cpp}\<close> and the interface of \<^verbatim>\<open>src/src/lsm/lsm_cursor.h\<close>: the k-way
  merge of sorted cursors, highest priority first.

  The abstract class \<open>LSMCursor\<close> is a record of its virtual methods; what they promise is the locale
  \<open>lsm_cursor\<close>, interpreted here for memtable cursors and in the SSTable and engine theories for the
  others. The priority queue of the standard library is the ascending list of its items, so that
  \<open>top\<close> is the head. The inner loop of \<open>Advance\<close> is given one step per cursor and one to stop,
  which is enough for cursors with strictly ascending keys.
\<close>

section \<open>Cursors\<close>

record 'c LSMCursor =
  cur_Valid :: "'c \<Rightarrow> bool"
  cur_Key :: "'c \<Rightarrow> KeyType"
  cur_Value :: "'c \<Rightarrow> LSMValue"
  cur_Next :: "'c \<Rightarrow> 'c result"

text \<open>The memtable cursor: a memtable and an iterator of it.\<close>

type_synonym memtable_cursor = "memtable \<times> nat option"

definition MemTableCursor_Valid :: "memtable_cursor \<Rightarrow> bool" where
  "MemTableCursor_Valid c = (snd c \<noteq> None)"

definition MemTableCursor_Key :: "memtable_cursor \<Rightarrow> KeyType" where
  "MemTableCursor_Key c = fst (SL_iter_entry (mt_list (fst c)) (the (snd c)))"

definition MemTableCursor_Value :: "memtable_cursor \<Rightarrow> LSMValue" where
  "MemTableCursor_Value c = snd (SL_iter_entry (mt_list (fst c)) (the (snd c)))"

definition MemTableCursor_Next :: "memtable_cursor \<Rightarrow> memtable_cursor result" where
  "MemTableCursor_Next c =
     (case snd c of
        None \<Rightarrow> Inl (UndefinedBehaviour ''null node'')
      | Some a \<Rightarrow> Inr (fst c, SL_Next (mt_list (fst c)) a))"

definition MemTableCursor :: "memtable_cursor LSMCursor" where
  "MemTableCursor = \<lparr>cur_Valid = MemTableCursor_Valid, cur_Key = MemTableCursor_Key,
     cur_Value = MemTableCursor_Value, cur_Next = MemTableCursor_Next\<rparr>"

section \<open>The merge iterator\<close>

type_synonym heap_item = "KeyType \<times> nat"

record 'c LSMMergeIterator =
  mi_cursors :: "'c list"
  mi_heap :: "heap_item list"
  mi_current_key :: KeyType
  mi_current_value :: LSMValue
  mi_valid :: bool

definition heap_push :: "heap_item \<Rightarrow> heap_item list \<Rightarrow> heap_item list" where
  "heap_push = insort"

text \<open>Advance one cursor and put it back on the heap unless it is exhausted.\<close>

definition Merge_step :: "'c LSMCursor \<Rightarrow> nat \<Rightarrow> 'c list \<Rightarrow> heap_item list \<Rightarrow> ('c list \<times> heap_item list) result" where
  "Merge_step ops i cursors heap =
     (case cur_Next ops (cursors ! i) of
        Inl e \<Rightarrow> Inl e
      | Inr c \<Rightarrow>
          let cursors = cursors[i := c] in
          Inr (cursors, if cur_Valid ops c then heap_push (cur_Key ops c, i) heap else heap))"

fun Merge_skip :: "'c LSMCursor \<Rightarrow> nat \<Rightarrow> KeyType \<Rightarrow> 'c list \<Rightarrow> heap_item list \<Rightarrow> ('c list \<times> heap_item list) result" where
  "Merge_skip ops 0 k cursors heap = endless"
| "Merge_skip ops (Suc fuel) k cursors heap =
     (case heap of
        [] \<Rightarrow> Inr (cursors, heap)
      | (key, i) # rest \<Rightarrow>
          if key = k then
            (case Merge_step ops i cursors rest of
               Inl e \<Rightarrow> Inl e
             | Inr (cursors, heap) \<Rightarrow> Merge_skip ops fuel k cursors heap)
          else Inr (cursors, heap))"

definition Merge_Advance :: "'c LSMCursor \<Rightarrow> 'c LSMMergeIterator \<Rightarrow> 'c LSMMergeIterator result" where
  "Merge_Advance ops m =
     (case mi_heap m of
        [] \<Rightarrow> Inr (m\<lparr>mi_valid := False\<rparr>)
      | (key, i) # rest \<Rightarrow>
          let v = cur_Value ops (mi_cursors m ! i) in
          (case Merge_step ops i (mi_cursors m) rest of
             Inl e \<Rightarrow> Inl e
           | Inr (cursors, heap) \<Rightarrow>
               (case Merge_skip ops (length cursors + 1) key cursors heap of
                  Inl e \<Rightarrow> Inl e
                | Inr (cursors, heap) \<Rightarrow>
                    Inr (m\<lparr>mi_cursors := cursors, mi_heap := heap, mi_current_key := key,
                           mi_current_value := v, mi_valid := True\<rparr>))))"

definition Merge_init_heap :: "'c LSMCursor \<Rightarrow> 'c list \<Rightarrow> heap_item list" where
  "Merge_init_heap ops cursors =
     fold (\<lambda>i heap. if cur_Valid ops (cursors ! i) then heap_push (cur_Key ops (cursors ! i), i) heap else heap)
       [0..<length cursors] []"

definition LSMMergeIterator :: "'c LSMCursor \<Rightarrow> 'c list \<Rightarrow> 'c LSMMergeIterator result" where
  "LSMMergeIterator ops cursors =
     Merge_Advance ops
       \<lparr>mi_cursors = cursors, mi_heap = Merge_init_heap ops cursors, mi_current_key = 0,
        mi_current_value = \<lparr>lv_value = [], lv_deleted = False\<rparr>, mi_valid = False\<rparr>"

definition Merge_Next :: "'c LSMCursor \<Rightarrow> 'c LSMMergeIterator \<Rightarrow> 'c LSMMergeIterator result" where
  "Merge_Next ops m = Merge_Advance ops m"

text \<open>A loop \<open>for (; merge.Valid(); merge.Next())\<close> collecting what the iterator yields.\<close>

fun Merge_drain :: "nat \<Rightarrow> 'c LSMCursor \<Rightarrow> 'c LSMMergeIterator \<Rightarrow> lsm_entry list result" where
  "Merge_drain 0 ops m = endless"
| "Merge_drain (Suc fuel) ops m =
     (if \<not> mi_valid m then Inr []
      else case Merge_Next ops m of
             Inl e \<Rightarrow> Inl e
           | Inr m' \<Rightarrow>
               (case Merge_drain fuel ops m' of
                  Inl e \<Rightarrow> Inl e
                | Inr es \<Rightarrow> Inr ((mi_current_key m, mi_current_value m) # es)))"

section \<open>What the merge stands for\<close>

text \<open>The value of the first source that has the key.\<close>

fun first_hit :: "lsm_entry list list \<Rightarrow> KeyType \<Rightarrow> LSMValue option" where
  "first_hit [] k = None"
| "first_hit (es # ess) k = (case map_of es k of Some v \<Rightarrow> Some v | None \<Rightarrow> first_hit ess k)"

definition heads :: "lsm_entry list list \<Rightarrow> heap_item set" where
  "heads ess = (\<lambda>i. (fst (hd (ess ! i)), i)) ` {i. i < length ess \<and> ess ! i \<noteq> []}"

definition pop_key :: "KeyType \<Rightarrow> lsm_entry list \<Rightarrow> lsm_entry list" where
  "pop_key k es = (if es \<noteq> [] \<and> fst (hd es) = k then tl es else es)"

abbreviation asc :: "lsm_entry list \<Rightarrow> bool" where
  "asc es \<equiv> sorted_wrt (<) (map fst es)"

lemma finite_heads [simp]: "finite (heads ess)"
  by (simp add: heads_def)

lemma heads_iff: "(k, i) \<in> heads ess \<longleftrightarrow> i < length ess \<and> ess ! i \<noteq> [] \<and> fst (hd (ess ! i)) = k"
  by (auto simp: heads_def)

lemma heads_update:
  assumes "i < length ess" "ess ! i = e # es'"
  shows "heads (ess[i := es]) = (heads ess - {(fst e, i)}) \<union> (if es = [] then {} else {(fst (hd es), i)})"
  using assms by (auto simp: heads_iff nth_list_update split: if_splits)

lemma heads_other: "(k, i) \<in> heads ess \<Longrightarrow> (k', i) \<in> heads ess \<Longrightarrow> k = k'"
  by (simp add: heads_iff)

lemma asc_map_of_None: "asc es \<Longrightarrow> es = [] \<or> k < fst (hd es) \<Longrightarrow> map_of es k = None"
  by (cases es) (force simp: map_of_eq_None_iff)+

lemma asc_pop_key: "asc es \<Longrightarrow> asc (pop_key k es)"
  by (cases es) (auto simp: pop_key_def)

lemma pop_key_map_of: "k' \<noteq> k \<Longrightarrow> map_of (pop_key k es) k' = map_of es k'"
  by (cases es) (auto simp: pop_key_def)

lemma pop_key_above:
  assumes "asc es" "es = [] \<or> k \<le> fst (hd es)" "e \<in> set (pop_key k es)"
  shows "k < fst e"
  using assms by (cases es) (fastforce simp: pop_key_def split: if_splits)+

lemma pop_key_tl: "asc (e # es) \<Longrightarrow> pop_key (fst e) es = es"
  by (cases es) (auto simp: pop_key_def)

lemma first_hit_pop: "k' \<noteq> k \<Longrightarrow> first_hit (map (pop_key k) ess) k' = first_hit ess k'"
  by (induction ess) (auto simp: pop_key_map_of split: option.splits)

lemma first_hit_None: "(\<And>es. es \<in> set ess \<Longrightarrow> map_of es k = None) \<Longrightarrow> first_hit ess k = None"
  by (induction ess) auto

lemma first_hit_at:
  "i < length ess \<Longrightarrow> (\<And>j. j < i \<Longrightarrow> map_of (ess ! j) k = None) \<Longrightarrow> map_of (ess ! i) k = Some v \<Longrightarrow>
   first_hit ess k = Some v"
proof (induction ess arbitrary: i)
  case (Cons es ess)
  show ?case
  proof (cases i)
    case 0
    with Cons.prems show ?thesis by simp
  next
    case (Suc j)
    have "map_of es k = None"
      using Cons.prems(2)[of 0] Suc by simp
    moreover have "map_of (ess ! n) k = None" if "n < j" for n
      using Cons.prems(2)[of "Suc n"] Suc that by simp
    then have "first_hit ess k = Some v"
      using Cons.prems Suc by (intro Cons.IH[of j]) auto
    ultimately show ?thesis
      by simp
  qed
qed simp

lemma first_hit_keys: "first_hit ess k = Some v \<Longrightarrow> \<exists>es\<in>set ess. k \<in> keys_of es"
  by (induction ess) (auto split: option.splits dest: map_of_Some_in_keys)

text \<open>The smallest head names the smallest key and, among equals, the first source.\<close>

lemma Min_heads:
  assumes "heads ess \<noteq> {}" "\<forall>es\<in>set ess. asc es" "Min (heads ess) = (k, i)"
  shows "(k, i) \<in> heads ess" "\<And>es. es \<in> set ess \<Longrightarrow> es = [] \<or> k \<le> fst (hd es)"
    "first_hit ess k = Some (snd (hd (ess ! i)))"
proof -
  show mem: "(k, i) \<in> heads ess"
    using assms(1,3) Min_in[of "heads ess"] by simp
  have le: "(k, i) \<le> h" if "h \<in> heads ess" for h
    using that assms(3) Min_le[of "heads ess" h] by simp
  show min: "es = [] \<or> k \<le> fst (hd es)" if es: "es \<in> set ess" for es
  proof -
    obtain j where "j < length ess" "ess ! j = es"
      using es by (auto simp: in_set_conv_nth)
    then show ?thesis
      using le[of "(fst (hd es), j)"] by (cases "es = []") (auto simp: heads_iff less_eq_prod_def)
  qed
  show "first_hit ess k = Some (snd (hd (ess ! i)))"
  proof (rule first_hit_at)
    show "i < length ess" and "map_of (ess ! i) k = Some (snd (hd (ess ! i)))"
      using mem by (cases "ess ! i"; auto simp: heads_iff)+
    show "map_of (ess ! j) k = None" if j: "j < i" for j
    proof (rule asc_map_of_None)
      have "j < length ess"
        using j mem by (auto simp: heads_iff)
      then show "asc (ess ! j)" using assms(2) by simp
      have "(k, j) \<notin> heads ess"
        using le[of "(k, j)"] j by (auto simp: less_eq_prod_def)
      then show "ess ! j = [] \<or> k < fst (hd (ess ! j))"
        using min[of "ess ! j"] \<open>j < length ess\<close> by (auto simp: heads_iff)
    qed
  qed
qed

definition at_key :: "KeyType \<Rightarrow> lsm_entry list \<Rightarrow> bool" where
  "at_key k es \<longleftrightarrow> es \<noteq> [] \<and> fst (hd es) = k"

lemma count_update:
  "i < length xs \<Longrightarrow> P (xs ! i) \<Longrightarrow> \<not> P y \<Longrightarrow> Suc (length (filter P (xs[i := y]))) = length (filter P xs)"
  by (induction xs arbitrary: i) (auto split: nat.splits)

lemma pop_key_id: "\<not> at_key k es \<Longrightarrow> pop_key k es = es"
  by (auto simp: pop_key_def at_key_def)

lemma map_pop_key_id: "(\<And>i. (k, i) \<notin> heads ess) \<Longrightarrow> map (pop_key k) ess = ess"
  by (intro map_idI pop_key_id) (auto simp: heads_iff at_key_def in_set_conv_nth)

lemma asc_tl:
  assumes "asc es" "es \<noteq> []" "fst (hd es) = k"
  shows "pop_key k (tl es) = tl es" "\<not> at_key k (tl es)" "tl es = [] \<or> k \<le> fst (hd (tl es))"
    "pop_key k es = tl es"
proof -
  obtain e es' where es: "es = e # es'"
    using assms(2) by (cases es) auto
  show "pop_key k (tl es) = tl es" "\<not> at_key k (tl es)" "tl es = [] \<or> k \<le> fst (hd (tl es))"
    "pop_key k es = tl es"
    using assms unfolding es by (cases es'; auto simp: pop_key_def at_key_def)+
qed

section \<open>The contract of a cursor, and the merge over it\<close>

locale lsm_cursor =
  fixes ops :: "'c LSMCursor" and cinv :: "'c \<Rightarrow> bool" and rest :: "'c \<Rightarrow> lsm_entry list"
  assumes rest_asc: "cinv c \<Longrightarrow> asc (rest c)"
    and Valid_iff: "cinv c \<Longrightarrow> cur_Valid ops c \<longleftrightarrow> rest c \<noteq> []"
    and Key_eq: "cinv c \<Longrightarrow> rest c \<noteq> [] \<Longrightarrow> cur_Key ops c = fst (hd (rest c))"
    and Value_eq: "cinv c \<Longrightarrow> rest c \<noteq> [] \<Longrightarrow> cur_Value ops c = snd (hd (rest c))"
    and Next_ok: "cinv c \<Longrightarrow> rest c \<noteq> [] \<Longrightarrow> \<exists>c'. cur_Next ops c = Inr c' \<and> cinv c' \<and> rest c' = tl (rest c)"
begin

definition rests :: "'c list \<Rightarrow> lsm_entry list list" where
  "rests cs = map rest cs"

definition cs_ok :: "'c list \<Rightarrow> bool" where
  "cs_ok cs \<longleftrightarrow> (\<forall>c\<in>set cs. cinv c)"

definition heap_of :: "'c list \<Rightarrow> heap_item list" where
  "heap_of cs = sorted_list_of_set (heads (rests cs))"

lemma rests_asc: "cs_ok cs \<Longrightarrow> \<forall>es\<in>set (rests cs). asc es"
  by (auto simp: cs_ok_def rests_def rest_asc)

lemma Merge_step_ok:
  assumes "cs_ok cs" "(k, i) \<in> heads (rests cs)" "heap = sorted_list_of_set (heads (rests cs) - {(k, i)})"
  obtains cs' where "Merge_step ops i cs heap = Inr (cs', heap_of cs')" "cs_ok cs'" "length cs' = length cs"
    "rests cs' = (rests cs)[i := tl (rests cs ! i)]"
proof -
  have i: "i < length cs" "rest (cs ! i) \<noteq> []" "cinv (cs ! i)" "fst (hd (rest (cs ! i))) = k"
    using assms(1,2) by (auto simp: heads_iff rests_def cs_ok_def)
  obtain c where c: "cur_Next ops (cs ! i) = Inr c" "cinv c" "rest c = tl (rest (cs ! i))"
    using Next_ok i by blast
  let ?cs = "cs[i := c]"
  have r: "rests ?cs = (rests cs)[i := rest c]"
    by (simp add: rests_def map_update)
  obtain e es where e: "rest (cs ! i) = e # es"
    using i(2) by (cases "rest (cs ! i)") auto
  have h: "heads (rests ?cs) = (heads (rests cs) - {(k, i)}) \<union> (if rest c = [] then {} else {(fst (hd (rest c)), i)})"
    unfolding r using heads_update[of i "rests cs" e es "rest c"] i e by (simp add: rests_def)
  have new: "(fst (hd (rest c)), i) \<notin> heads (rests cs) - {(k, i)}"
    using heads_other assms(2) by blast
  have "insort (fst (hd (rest c)), i) heap = sorted_list_of_set (insert (fst (hd (rest c)), i) (heads (rests cs) - {(k, i)}))"
    using new assms(3) sorted_list_of_set_insert[of "heads (rests cs) - {(k, i)}"] by simp
  then have "Merge_step ops i cs heap = Inr (?cs, heap_of ?cs)"
    using c assms(3) Valid_iff[OF c(2)] Key_eq[OF c(2)]
    by (simp add: Merge_step_def heap_of_def h heap_push_def)
  moreover have "cs_ok ?cs"
    using assms(1) c(2) set_update_subset_insert[of cs i c] by (auto simp: cs_ok_def)
  ultimately show ?thesis
    using that[of ?cs] r c(3) i(1) by (simp add: rests_def)
qed

lemma Merge_skip_ok:
  assumes "cs_ok cs" "\<forall>es\<in>set (rests cs). es = [] \<or> k \<le> fst (hd es)"
    and "length (filter (at_key k) (rests cs)) < fuel"
  shows "\<exists>cs'. Merge_skip ops fuel k cs (heap_of cs) = Inr (cs', heap_of cs') \<and> cs_ok cs' \<and>
    length cs' = length cs \<and> rests cs' = map (pop_key k) (rests cs)"
  using assms
proof (induction fuel arbitrary: cs)
  case (Suc fuel)
  let ?H = "heads (rests cs)"
  show ?case
  proof (cases "\<exists>i. (k, i) \<in> ?H")
    case False
    then have "rests cs = map (pop_key k) (rests cs)"
      using map_pop_key_id by simp
    moreover have "heap_of cs = [] \<or> fst (hd (heap_of cs)) \<noteq> k"
      using False Min_in[of ?H] by (cases "?H = {}"; cases "Min ?H")
        (auto simp: heap_of_def sorted_list_of_set_nonempty)
    ultimately show ?thesis
      using Suc.prems(1) by (auto split: list.splits)
  next
    case True
    then have ne: "?H \<noteq> {}"
      by blast
    obtain key i where m: "Min ?H = (key, i)"
      by fastforce
    note mh = Min_heads[OF ne rests_asc[OF Suc.prems(1)] m]
    obtain j where "j < length (rests cs)" "rests cs ! j \<noteq> []" "fst (hd (rests cs ! j)) = k"
      using True by (auto simp: heads_iff)
    then have "key \<le> k"
      using mh(2)[of "rests cs ! j"] by simp
    moreover have "k \<le> key"
      using mh(1) Suc.prems(2) by (auto simp: heads_iff)
    ultimately have "key = k"
      by simp
    have heap: "heap_of cs = (k, i) # sorted_list_of_set (?H - {(k, i)})"
      using sorted_list_of_set_nonempty[of ?H] ne m \<open>key = k\<close> by (simp add: heap_of_def)
    obtain cs' where s: "Merge_step ops i cs (sorted_list_of_set (?H - {(k, i)})) = Inr (cs', heap_of cs')"
      "cs_ok cs'" "length cs' = length cs" "rests cs' = (rests cs)[i := tl (rests cs ! i)]"
      using mh(1) \<open>key = k\<close> by (auto intro: Merge_step_ok[OF Suc.prems(1), of k i])
    have i: "i < length (rests cs)" "rests cs ! i \<noteq> []" "fst (hd (rests cs ! i)) = k"
      using mh(1) \<open>key = k\<close> by (auto simp: heads_iff)
    have "asc (rests cs ! i)"
      using rests_asc[OF Suc.prems(1)] i(1) by simp
    note tl = asc_tl[OF this i(2,3)]
    have pop: "map (pop_key k) (rests cs') = map (pop_key k) (rests cs)"
      using i(1) list_update_id[of "map (pop_key k) (rests cs)" i] by (simp add: s(4) map_update tl(1,4))
    have "\<exists>cs''. Merge_skip ops fuel k cs' (heap_of cs') = Inr (cs'', heap_of cs'') \<and> cs_ok cs'' \<and>
        length cs'' = length cs' \<and> rests cs'' = map (pop_key k) (rests cs')"
    proof (rule Suc.IH[OF s(2)])
      show "\<forall>es\<in>set (rests cs'). es = [] \<or> k \<le> fst (hd es)"
        using Suc.prems(2) tl(3) unfolding s(4) by (auto dest!: set_update_subset_insert[THEN subsetD])
      have "at_key k (rests cs ! i)"
        using i by (simp add: at_key_def)
      then show "length (filter (at_key k) (rests cs')) < fuel"
        using Suc.prems(3) count_update[of i "rests cs" "at_key k", OF i(1) _ tl(2)] s(4) by simp
    qed
    then show ?thesis
      using heap s pop by auto
  qed
qed simp

text \<open>A merge iterator whose heap mirrors its cursors.\<close>

definition merge_ok :: "'c LSMMergeIterator \<Rightarrow> bool" where
  "merge_ok m \<longleftrightarrow> cs_ok (mi_cursors m) \<and> mi_heap m = heap_of (mi_cursors m)"

lemma heads_empty: "heads ess = {} \<Longrightarrow> es \<in> set ess \<Longrightarrow> es = []"
  by (auto simp: heads_def in_set_conv_nth)

lemma Advance_done:
  assumes "merge_ok m" "heads (rests (mi_cursors m)) = {}"
  shows "Merge_Advance ops m = Inr (m\<lparr>mi_valid := False\<rparr>)" "first_hit (rests (mi_cursors m)) = Map.empty"
proof -
  show "Merge_Advance ops m = Inr (m\<lparr>mi_valid := False\<rparr>)"
    using assms by (simp add: Merge_Advance_def merge_ok_def heap_of_def)
  have "map_of es k = None" if "es \<in> set (rests (mi_cursors m))" for es k
    using heads_empty[OF assms(2) that] by simp
  then show "first_hit (rests (mi_cursors m)) = Map.empty"
    by (intro ext first_hit_None)
qed

lemma Advance_entry:
  assumes ok: "merge_ok m" and ne: "heads (rests (mi_cursors m)) \<noteq> {}"
  obtains k v m' where "Merge_Advance ops m = Inr m'" "merge_ok m'" "mi_valid m'"
    "mi_current_key m' = k" "mi_current_value m' = v"
    "first_hit (rests (mi_cursors m)) k = Some v"
    "\<exists>es\<in>set (rests (mi_cursors m)). at_key k es"
    "\<forall>es\<in>set (rests (mi_cursors m)). es = [] \<or> k \<le> fst (hd es)"
    "rests (mi_cursors m') = map (pop_key k) (rests (mi_cursors m))"
proof -
  let ?cs = "mi_cursors m" let ?ess = "rests (mi_cursors m)"
  have cs: "cs_ok ?cs"
    using ok by (simp add: merge_ok_def)
  obtain k i where m: "Min (heads ?ess) = (k, i)"
    by fastforce
  note mh = Min_heads[OF ne rests_asc[OF cs] m]
  have heap: "mi_heap m = (k, i) # sorted_list_of_set (heads ?ess - {(k, i)})"
    using sorted_list_of_set_nonempty[of "heads ?ess"] ne m ok by (simp add: heap_of_def merge_ok_def)
  obtain cs' where s: "Merge_step ops i ?cs (sorted_list_of_set (heads ?ess - {(k, i)})) = Inr (cs', heap_of cs')"
    "cs_ok cs'" "length cs' = length ?cs" "rests cs' = ?ess[i := tl (?ess ! i)]"
    using mh(1) by (auto intro: Merge_step_ok[OF cs, of k i])
  have i: "i < length ?ess" "?ess ! i \<noteq> []" "fst (hd (?ess ! i)) = k"
    using mh(1) by (auto simp: heads_iff)
  have "asc (?ess ! i)"
    using rests_asc[OF cs] i(1) by simp
  note tl = asc_tl[OF this i(2,3)]
  have pop: "map (pop_key k) (rests cs') = map (pop_key k) ?ess"
    using i(1) list_update_id[of "map (pop_key k) ?ess" i] by (simp add: s(4) map_update tl(1,4))
  have "\<forall>es\<in>set (rests cs'). es = [] \<or> k \<le> fst (hd es)"
    using mh(2) tl(3) unfolding s(4) by (auto dest!: set_update_subset_insert[THEN subsetD])
  moreover have "length (filter (at_key k) (rests cs')) < length cs' + 1"
    by (simp add: rests_def less_Suc_eq_le)
  ultimately obtain cs'' where t: "Merge_skip ops (length cs' + 1) k cs' (heap_of cs') = Inr (cs'', heap_of cs'')"
    "cs_ok cs''" "rests cs'' = map (pop_key k) ?ess"
    using Merge_skip_ok[OF s(2)] pop by metis
  have "cur_Value ops (?cs ! i) = snd (hd (?ess ! i))"
    using cs i by (intro trans[OF Value_eq]) (auto simp: rests_def cs_ok_def)
  then have "Merge_Advance ops m = Inr (m\<lparr>mi_cursors := cs'', mi_heap := heap_of cs'', mi_current_key := k,
      mi_current_value := snd (hd (?ess ! i)), mi_valid := True\<rparr>)"
    using heap s(1) t(1) by (simp add: Merge_Advance_def)
  moreover have "\<exists>es\<in>set ?ess. at_key k es"
    using i by (auto simp: at_key_def)
  ultimately show ?thesis
    using that[of _ k "snd (hd (?ess ! i))"] mh(2,3) t by (simp add: merge_ok_def)
qed

lemma first_hit_popped:
  assumes "\<forall>es\<in>set ess. asc es" "first_hit ess k = Some v" "\<forall>es\<in>set ess. es = [] \<or> k \<le> fst (hd es)"
  shows "first_hit ess = (first_hit (map (pop_key k) ess))(k \<mapsto> v)"
    "\<And>k' v'. first_hit (map (pop_key k) ess) k' = Some v' \<Longrightarrow> k < k'"
proof -
  show "first_hit ess = (first_hit (map (pop_key k) ess))(k \<mapsto> v)"
    using assms(2) first_hit_pop by (auto simp: fun_eq_iff)
  fix k' v'
  assume "first_hit (map (pop_key k) ess) k' = Some v'"
  from first_hit_keys[OF this] obtain es e where "es \<in> set ess" "e \<in> set (pop_key k es)" "fst e = k'"
    by auto
  then show "k < k'"
    using pop_key_above[of es k e] assms(1,3) by auto
qed

lemma sum_list_pop:
  assumes "\<exists>es\<in>set ess. at_key k es"
  shows "sum_list (map length (map (pop_key k) ess)) < sum_list (map length ess)"
  using assms
proof (induction ess)
  case (Cons es ess)
  have "sum_list (map length (map (pop_key k) ess)) \<le> sum_list (map length ess)"
    by (induction ess) (auto simp: pop_key_def intro!: add_le_mono)
  moreover have "length (pop_key k es) \<le> length es"
    by (simp add: pop_key_def)
  moreover have "at_key k es \<Longrightarrow> length (pop_key k es) < length es"
    by (simp add: pop_key_def at_key_def)
  ultimately show ?case
    using Cons by (cases "at_key k es") auto
qed simp

lemma Merge_drain_ok:
  assumes "merge_ok m" "sum_list (map length (rests (mi_cursors m))) < fuel"
  shows "\<exists>m' out. Merge_Advance ops m = Inr m' \<and> Merge_drain fuel ops m' = Inr out \<and> asc out \<and>
    map_of out = first_hit (rests (mi_cursors m))"
  using assms
proof (induction fuel arbitrary: m)
  case (Suc fuel)
  show ?case
  proof (cases "heads (rests (mi_cursors m)) = {}")
    case True
    then show ?thesis
      using Advance_done[OF Suc.prems(1)] by simp
  next
    case False
    obtain k v m' where a: "Merge_Advance ops m = Inr m'" "merge_ok m'" "mi_valid m'"
      "mi_current_key m' = k" "mi_current_value m' = v"
      "first_hit (rests (mi_cursors m)) k = Some v"
      "\<exists>es\<in>set (rests (mi_cursors m)). at_key k es"
      "\<forall>es\<in>set (rests (mi_cursors m)). es = [] \<or> k \<le> fst (hd es)"
      "rests (mi_cursors m') = map (pop_key k) (rests (mi_cursors m))"
      by (rule Advance_entry[OF Suc.prems(1) False])
    have asc: "\<forall>es\<in>set (rests (mi_cursors m)). asc es"
      using Suc.prems(1) rests_asc[of "mi_cursors m"] unfolding merge_ok_def by blast
    note fh = first_hit_popped[OF asc a(6,8)]
    have "sum_list (map length (rests (mi_cursors m'))) < fuel"
      using sum_list_pop[OF a(7)] Suc.prems(2) a(9) by simp
    from Suc.IH[OF a(2) this] obtain m'' out where o: "Merge_Advance ops m' = Inr m''"
      "Merge_drain fuel ops m'' = Inr out" "asc out" "map_of out = first_hit (rests (mi_cursors m'))"
      by blast
    have "k < fst e" if "e \<in> set out" for e
    proof -
      have "distinct_keys out"
        using o(3) strict_sorted_iff by blast
      then have "first_hit (rests (mi_cursors m')) (fst e) = Some (snd e)"
        using that o(4) by (metis map_of_is_SomeI prod.collapse)
      then show ?thesis
        using fh(2) a(9) by simp
    qed
    then have "asc ((k, v) # out)"
      using o(3) by auto
    moreover have "map_of ((k, v) # out) = first_hit (rests (mi_cursors m))"
      using fh(1) o(4) a(9) by simp
    ultimately show ?thesis
      using a o(1,2) by (intro exI[of _ m'] exI[of _ "(k, v) # out"]) (simp add: Merge_Next_def)
  qed
qed simp

lemma Merge_init_heap_prefix:
  assumes "cs_ok cs" "j \<le> length cs"
  shows "fold (\<lambda>i heap. if cur_Valid ops (cs ! i) then heap_push (cur_Key ops (cs ! i), i) heap else heap) [0..<j] [] =
    sorted_list_of_set {h \<in> heads (rests cs). snd h < j}"
  using assms(2)
proof (induction j)
  case (Suc j)
  let ?S = "{h \<in> heads (rests cs). snd h < j}"
  have c: "cinv (cs ! j)" "rests cs ! j = rest (cs ! j)" "j < length (rests cs)"
    using assms(1) Suc.prems by (auto simp: cs_ok_def rests_def)
  have split: "{h \<in> heads (rests cs). snd h < Suc j} =
      ?S \<union> (if rest (cs ! j) = [] then {} else {(fst (hd (rest (cs ! j))), j)})"
    using c by (auto simp: heads_iff less_Suc_eq)
  have ins: "insort (k, j) (sorted_list_of_set ?S) = sorted_list_of_set (insert (k, j) ?S)" for k
    using sorted_list_of_set_insert[of ?S "(k, j)"] by simp
  show ?case
    using Suc ins Valid_iff[OF c(1)] Key_eq[OF c(1)] by (simp add: split heap_push_def)
qed simp

lemma Merge_init_heap_ok: "cs_ok cs \<Longrightarrow> Merge_init_heap ops cs = heap_of cs"
  using Merge_init_heap_prefix[of cs "length cs"]
  by (auto simp: Merge_init_heap_def heap_of_def heads_def rests_def intro!: arg_cong[of _ _ sorted_list_of_set])

text \<open>The whole merge: one entry per key, ascending, the first source winning; and it ends.\<close>

lemma merge_all:
  assumes "cs_ok cs" "sum_list (map length (rests cs)) < fuel"
  shows "\<exists>m out. LSMMergeIterator ops cs = Inr m \<and> Merge_drain fuel ops m = Inr out \<and> asc out \<and>
    map_of out = first_hit (rests cs)"
  using Merge_drain_ok[of "\<lparr>mi_cursors = cs, mi_heap = Merge_init_heap ops cs, mi_current_key = 0,
        mi_current_value = \<lparr>lv_value = [], lv_deleted = False\<rparr>, mi_valid = False\<rparr>" fuel] assms
  by (auto simp: LSMMergeIterator_def merge_ok_def Merge_init_heap_ok)

end

section \<open>Memtable cursors satisfy the contract\<close>

definition mt_cursor_inv :: "memtable_cursor \<Rightarrow> bool" where
  "mt_cursor_inv c \<longleftrightarrow> (\<exists>xs ys. sl_ok (mt_list (fst c)) (xs @ ys) \<and> snd c = first_of ys)"

definition mt_cursor_rest :: "memtable_cursor \<Rightarrow> lsm_entry list" where
  "mt_cursor_rest c = (case mt_drain (fst c) (snd c) of Inl _ \<Rightarrow> [] | Inr es \<Rightarrow> es)"

lemma mt_cursor_rest_eq:
  assumes "sl_ok (mt_list m) (xs @ ys)"
  shows "mt_cursor_rest (m, first_of ys) = sl_entries_of (mt_list m) ys"
  using drain_suffix[OF assms refl, of "length (sl_nodes (mt_list m))"] sl_ok_facts(2)[OF assms]
  by (simp add: mt_cursor_rest_def mt_drain_def)

lemma mt_cursor_cases:
  assumes "mt_cursor_inv c"
  obtains m xs ys where "c = (m, first_of ys)" "sl_ok (mt_list m) (xs @ ys)"
    "mt_cursor_rest c = sl_entries_of (mt_list m) ys"
  using assms mt_cursor_rest_eq by (cases c) (auto simp: mt_cursor_inv_def)

lemma mt_cursor_next:
  assumes "mt_cursor_inv c" "mt_cursor_rest c \<noteq> []"
  shows "\<exists>c'. MemTableCursor_Next c = Inr c' \<and> mt_cursor_inv c' \<and> mt_cursor_rest c' = tl (mt_cursor_rest c)"
proof -
  obtain m xs ys where c: "c = (m, first_of ys)" "sl_ok (mt_list m) (xs @ ys)"
    "mt_cursor_rest c = sl_entries_of (mt_list m) ys"
    by (rule mt_cursor_cases[OF assms(1)])
  then obtain a zs where ys: "ys = a # zs"
    using assms(2) by (cases ys) (auto simp: sl_entries_of_def)
  have "sl_ok (mt_list m) ((xs @ [a]) @ zs)"
    using c(2) ys by simp
  moreover have "MemTableCursor_Next c = Inr (m, first_of zs)"
    using c(1) ys SL_Next_spec[OF c(2)[unfolded ys] refl] by (simp add: MemTableCursor_Next_def first_of_def)
  moreover have "mt_cursor_inv (m, first_of zs)"
    unfolding mt_cursor_inv_def using calculation(1)
    by (intro exI[of _ "xs @ [a]"] exI[of _ zs]) simp
  ultimately show ?thesis
    using mt_cursor_rest_eq[of m "xs @ [a]" zs] c(3) ys by (simp add: sl_entries_of_def)
qed

interpretation memtable_cursor: lsm_cursor MemTableCursor mt_cursor_inv mt_cursor_rest
proof (unfold_locales, goal_cases)
  case (1 c)
  then show ?case
    by (rule mt_cursor_cases)
       (auto simp: sl_ok_def sl_entries_of_def comp_def SL_iter_entry_def sorted_wrt_append)
next
  case (2 c)
  then show ?case
    by (rule mt_cursor_cases)
       (auto simp: MemTableCursor_def MemTableCursor_Valid_def sl_entries_of_def first_of_def split: list.splits)
next
  case (3 c)
  from 3(1) show ?case
    by (rule mt_cursor_cases)
       (use 3(2) in \<open>auto simp: MemTableCursor_def MemTableCursor_Key_def sl_entries_of_def first_of_def split: list.splits\<close>)
next
  case (4 c)
  from 4(1) show ?case
    by (rule mt_cursor_cases)
       (use 4(2) in \<open>auto simp: MemTableCursor_def MemTableCursor_Value_def sl_entries_of_def first_of_def split: list.splits\<close>)
next
  case (5 c)
  then show ?case
    using mt_cursor_next by (simp add: MemTableCursor_def)
qed

lemma mt_cursor_LowerBound:
  assumes "mt_inv m"
  obtains it where "MemTable_LowerBound key m = Inr it" "mt_cursor_inv (m, it)"
    "mt_cursor_rest (m, it) = filter (\<lambda>e. key \<le> fst e) (mt_entries m)"
proof -
  obtain ns where ok: "sl_ok (mt_list m) ns"
    using assms by (auto simp: mt_inv_def sl_inv_def)
  let ?hi = "from_key (mt_list m) key ns"
  have "MemTable_LowerBound key m = Inr (first_of ?hi)"
    unfolding MemTable_LowerBound_def
    by (rule descend_spec[OF ok, of key "[]"])
       (simp add: SL_LowerBound_def candidate_spec[OF ok] first_of_def)
  moreover have split: "sl_ok (mt_list m) (below (mt_list m) key ns @ ?hi)"
    using ok by (simp add: below_from_key)
  ultimately show ?thesis
    using that[of "first_of ?hi"] mt_cursor_rest_eq[OF split] from_key_entries[OF ok, of key]
    by (auto simp: mt_cursor_inv_def mt_entries_def sl_entries_eq(2)[OF ok])
qed

end
