(* ===== verification/Bloom_Filter.thy ===== *)
theory Bloom_Filter
  imports Base Complex_Main
begin

unbundle bit_operations_syntax

text \<open>
  \<^verbatim>\<open>src/src/lsm/bloom_filter.{h,cpp}\<close>: the Bloom filter in front of every SSTable.

  Hashing is 64-bit word arithmetic, as in the source. The two sizing formulas are given over the
  reals; the code evaluates them in \<open>double\<close>, so users of the filter take the two sizes as a
  parameter and rely only on the bounds \<open>std::max\<close> and \<open>std::clamp\<close> enforce (\<open>sizing_ok\<close>).
  Reading or writing the bit array outside its bounds is undefined.
\<close>

section \<open>Sizing\<close>

definition OptimalNumBits :: "nat \<Rightarrow> real \<Rightarrow> nat" where
  "OptimalNumBits expected_keys false_positive_rate =
     (let n = (if expected_keys = 0 then 1 else expected_keys);
          m = - real n * ln false_positive_rate / (ln 2 * ln 2)
      in max 8 (nat \<lceil>m\<rceil>))"

definition OptimalNumHashes :: "nat \<Rightarrow> nat \<Rightarrow> nat" where
  "OptimalNumHashes num_bits expected_keys =
     (let n = (if expected_keys = 0 then 1 else expected_keys);
          k = (real num_bits / real n) * ln 2
      in nat (min 32 (max 1 \<lfloor>k + 1 / 2\<rfloor>)))"

type_synonym bloom_sizing = "nat \<Rightarrow> nat \<times> nat"

definition optimal_sizing :: "real \<Rightarrow> bloom_sizing" where
  "optimal_sizing rate n = (let bits = OptimalNumBits n rate in (bits, OptimalNumHashes bits n))"

definition sizing_ok :: "bloom_sizing \<Rightarrow> bool" where
  "sizing_ok sz \<longleftrightarrow> (\<forall>n. 8 \<le> fst (sz n) \<and> 1 \<le> snd (sz n) \<and> snd (sz n) \<le> 32)"

section \<open>State and operations\<close>

record bloom_filter =
  bf_bits :: "byte list"
  bf_num_bits :: nat
  bf_num_hashes :: nat

definition BloomFilter :: "bloom_sizing \<Rightarrow> nat \<Rightarrow> bloom_filter" where
  "BloomFilter sz expected_keys =
     (let (num_bits, num_hashes) = sz expected_keys
      in \<lparr>bf_bits = replicate ((num_bits + 7) div 8) 0, bf_num_bits = num_bits, bf_num_hashes = num_hashes\<rparr>)"

definition BloomFilter_from_bytes :: "byte list \<Rightarrow> nat \<Rightarrow> nat \<Rightarrow> bloom_filter" where
  "BloomFilter_from_bytes bytes num_bits num_hashes =
     \<lparr>bf_bits = bytes, bf_num_bits = num_bits, bf_num_hashes = num_hashes\<rparr>"

definition Mix :: "64 word \<Rightarrow> 64 word \<Rightarrow> 64 word" where
  "Mix x seed =
     (let x = x XOR seed;
          x = x + 0x9E3779B97F4A7C15;
          x = (x XOR drop_bit 30 x) * 0xBF58476D1CE4E5B9;
          x = (x XOR drop_bit 27 x) * 0x94D049BB133111EB;
          x = x XOR drop_bit 31 x
      in x)"

definition BitIndex :: "bloom_filter \<Rightarrow> 64 word \<Rightarrow> 64 word \<Rightarrow> nat \<Rightarrow> nat" where
  "BitIndex bf h1 h2 i = unat (h1 + of_nat i * h2) mod bf_num_bits bf"

definition hash1 :: "KeyType \<Rightarrow> 64 word" where
  "hash1 key = Mix (of_int key) 0x9E3779B97F4A7C15"

definition hash2 :: "KeyType \<Rightarrow> 64 word" where
  "hash2 key = Mix (of_int key) 0xC2B2AE3D27D4EB4F"

definition bit_mask :: "nat \<Rightarrow> byte" where
  "bit_mask b = push_bit (b mod 8) 1"

abbreviation bloom_bounds :: "'a result" where
  "bloom_bounds \<equiv> Inl (UndefinedBehaviour ''bits_ indexed out of range'')"

fun Bloom_Add_loop :: "bloom_filter \<Rightarrow> 64 word \<Rightarrow> 64 word \<Rightarrow> nat list \<Rightarrow> bloom_filter result" where
  "Bloom_Add_loop bf h1 h2 [] = Inr bf"
| "Bloom_Add_loop bf h1 h2 (i # is) =
     (let b = BitIndex bf h1 h2 i in
      if b div 8 \<ge> length (bf_bits bf) then bloom_bounds
      else Bloom_Add_loop
             (bf\<lparr>bf_bits := (bf_bits bf)[b div 8 := bf_bits bf ! (b div 8) OR bit_mask b]\<rparr>) h1 h2 is)"

definition Bloom_Add :: "KeyType \<Rightarrow> bloom_filter \<Rightarrow> bloom_filter result" where
  "Bloom_Add key bf = Bloom_Add_loop bf (hash1 key) (hash2 key) [0..<bf_num_hashes bf]"

fun Bloom_Test_loop :: "bloom_filter \<Rightarrow> 64 word \<Rightarrow> 64 word \<Rightarrow> nat list \<Rightarrow> bool result" where
  "Bloom_Test_loop bf h1 h2 [] = Inr True"
| "Bloom_Test_loop bf h1 h2 (i # is) =
     (let b = BitIndex bf h1 h2 i in
      if b div 8 \<ge> length (bf_bits bf) then bloom_bounds
      else if bf_bits bf ! (b div 8) AND bit_mask b = 0 then Inr False
      else Bloom_Test_loop bf h1 h2 is)"

definition Bloom_MightContain :: "KeyType \<Rightarrow> bloom_filter \<Rightarrow> bool result" where
  "Bloom_MightContain key bf = Bloom_Test_loop bf (hash1 key) (hash2 key) [0..<bf_num_hashes bf]"

fun Bloom_AddAll :: "KeyType list \<Rightarrow> bloom_filter \<Rightarrow> bloom_filter result" where
  "Bloom_AddAll [] bf = Inr bf"
| "Bloom_AddAll (key # keys) bf =
     (case Bloom_Add key bf of Inl e \<Rightarrow> Inl e | Inr bf \<Rightarrow> Bloom_AddAll keys bf)"

section \<open>Invariant and lemmas\<close>

definition bloom_ok :: "bloom_filter \<Rightarrow> bool" where
  "bloom_ok bf \<longleftrightarrow> 0 < bf_num_bits bf \<and> bf_num_bits bf \<le> 8 * length (bf_bits bf)"

definition bit_set :: "byte list \<Rightarrow> nat \<Rightarrow> bool" where
  "bit_set bytes b \<longleftrightarrow> bytes ! (b div 8) AND bit_mask b \<noteq> 0"

text \<open>The bits that stand for a key.\<close>

definition key_bits :: "bloom_filter \<Rightarrow> KeyType \<Rightarrow> nat set" where
  "key_bits bf key = BitIndex bf (hash1 key) (hash2 key) ` {0..<bf_num_hashes bf}"

lemma OptimalNumHashes_bounds: "1 \<le> OptimalNumHashes b n" "OptimalNumHashes b n \<le> 32"
proof -
  have "1 \<le> nat (min 32 (max 1 k))" "nat (min 32 (max 1 k)) \<le> 32" for k :: int by linarith+
  then show "1 \<le> OptimalNumHashes b n" "OptimalNumHashes b n \<le> 32"
    by (simp_all add: OptimalNumHashes_def Let_def)
qed

lemma optimal_sizing_ok: "sizing_ok (optimal_sizing rate)"
  using OptimalNumHashes_bounds by (simp add: sizing_ok_def optimal_sizing_def Let_def) (simp add: OptimalNumBits_def Let_def)

lemma bloom_ok_new [inv_intros]: "8 \<le> fst (sz n) \<Longrightarrow> bloom_ok (BloomFilter sz n)"
  by (auto simp: bloom_ok_def BloomFilter_def split: prod.split)

lemma BitIndex_bounds: "bloom_ok bf \<Longrightarrow> BitIndex bf h1 h2 i div 8 < length (bf_bits bf)"
proof -
  assume ok: "bloom_ok bf"
  have "BitIndex bf h1 h2 i < bf_num_bits bf" using ok by (simp add: BitIndex_def bloom_ok_def)
  with ok show ?thesis by (simp add: bloom_ok_def less_mult_imp_div_less mult.commute)
qed

lemma BitIndex_bits [simp]: "BitIndex (bf\<lparr>bf_bits := bs\<rparr>) = BitIndex bf"
  by (simp add: BitIndex_def fun_eq_iff)

lemma bit_mask_iff: "x AND bit_mask b \<noteq> 0 \<longleftrightarrow> bit x (b mod 8)"
proof -
  have "x AND bit_mask b = (if bit x (b mod 8) then bit_mask b else 0)"
    by (rule bit_word_eqI) (auto simp: bit_mask_def bit_simps)
  moreover have "bit (bit_mask b) (b mod 8)" by (simp add: bit_mask_def bit_simps)
  then have "bit_mask b \<noteq> 0" by auto
  ultimately show ?thesis by simp
qed

lemma bit_set_or:
  assumes "b div 8 < length bs"
  shows "bit_set (bs[b div 8 := bs ! (b div 8) OR bit_mask b]) c \<longleftrightarrow> c = b \<or> bit_set bs c"
proof (cases "c div 8 = b div 8")
  case True
  have "bit (bit_mask b) (c mod 8) \<longleftrightarrow> c mod 8 = b mod 8" by (auto simp: bit_mask_def bit_simps)
  moreover have "c mod 8 = b mod 8 \<longleftrightarrow> c = b" using True by (metis mod_div_decomp)
  ultimately show ?thesis using True assms by (auto simp: bit_set_def bit_mask_iff bit_or_iff)
next
  case False
  then show ?thesis by (auto simp: bit_set_def)
qed

text \<open>Same sizes: the filters agree on which bits stand for which key.\<close>

definition same_shape :: "bloom_filter \<Rightarrow> bloom_filter \<Rightarrow> bool" where
  "same_shape bf bf' \<longleftrightarrow> bf_num_bits bf' = bf_num_bits bf \<and> bf_num_hashes bf' = bf_num_hashes bf \<and>
     length (bf_bits bf') = length (bf_bits bf)"

lemma same_shape_simps:
  assumes "same_shape bf bf'"
  shows "BitIndex bf' = BitIndex bf" "key_bits bf' = key_bits bf" "bloom_ok bf' = bloom_ok bf"
  using assms by (simp_all add: same_shape_def BitIndex_def key_bits_def bloom_ok_def fun_eq_iff)

lemma Add_loop_spec:
  assumes "bloom_ok bf"
  shows "\<exists>bf'. Bloom_Add_loop bf h1 h2 is = Inr bf' \<and> same_shape bf bf' \<and>
     (\<forall>c. bit_set (bf_bits bf') c \<longleftrightarrow> bit_set (bf_bits bf) c \<or> c \<in> BitIndex bf h1 h2 ` set is)"
  using assms
proof (induction "is" arbitrary: bf)
  case (Cons i "is")
  let ?b = "BitIndex bf h1 h2 i"
  let ?bf = "bf\<lparr>bf_bits := (bf_bits bf)[?b div 8 := bf_bits bf ! (?b div 8) OR bit_mask ?b]\<rparr>"
  have b: "?b div 8 < length (bf_bits bf)" using BitIndex_bounds[OF Cons.prems] .
  have "bloom_ok ?bf" using Cons.prems by (simp add: bloom_ok_def)
  from Cons.IH[OF this] obtain bf' where bf': "Bloom_Add_loop ?bf h1 h2 is = Inr bf'" "same_shape ?bf bf'"
    "\<forall>c. bit_set (bf_bits bf') c \<longleftrightarrow> bit_set (bf_bits ?bf) c \<or> c \<in> BitIndex ?bf h1 h2 ` set is" by blast
  have "Bloom_Add_loop bf h1 h2 (i # is) = Inr bf'" using b bf'(1) by (simp add: Let_def)
  moreover have "same_shape bf bf'" using bf'(2) by (simp add: same_shape_def)
  moreover have "bit_set (bf_bits bf') c \<longleftrightarrow> bit_set (bf_bits bf) c \<or> c \<in> BitIndex bf h1 h2 ` set (i # is)" for c
    using bf'(3) bit_set_or[OF b] by auto
  ultimately show ?case by blast
qed (simp add: same_shape_def)

lemma Add_spec:
  assumes "bloom_ok bf"
  shows "\<exists>bf'. Bloom_Add key bf = Inr bf' \<and> same_shape bf bf' \<and>
     (\<forall>c. bit_set (bf_bits bf') c \<longleftrightarrow> bit_set (bf_bits bf) c \<or> c \<in> key_bits bf key)"
  using Add_loop_spec[OF assms, of "hash1 key" "hash2 key" "[0..<bf_num_hashes bf]"]
  by (simp add: Bloom_Add_def key_bits_def)

lemma AddAll_spec:
  assumes "bloom_ok bf"
  shows "\<exists>bf'. Bloom_AddAll keys bf = Inr bf' \<and> same_shape bf bf' \<and>
     (\<forall>c. bit_set (bf_bits bf') c \<longleftrightarrow> bit_set (bf_bits bf) c \<or> (\<exists>key\<in>set keys. c \<in> key_bits bf key))"
  using assms
proof (induction keys arbitrary: bf)
  case (Cons key keys)
  from Add_spec[OF Cons.prems] obtain bf1 where bf1: "Bloom_Add key bf = Inr bf1" "same_shape bf bf1"
    "\<forall>c. bit_set (bf_bits bf1) c \<longleftrightarrow> bit_set (bf_bits bf) c \<or> c \<in> key_bits bf key" by blast
  note shape = same_shape_simps[OF bf1(2)]
  from Cons.IH[of bf1] Cons.prems obtain bf2 where bf2: "Bloom_AddAll keys bf1 = Inr bf2" "same_shape bf1 bf2"
    "\<forall>c. bit_set (bf_bits bf2) c \<longleftrightarrow> bit_set (bf_bits bf1) c \<or> (\<exists>key\<in>set keys. c \<in> key_bits bf key)"
    by (auto simp: shape)
  then show ?case using bf1 by (intro exI[of _ bf2]) (auto simp: same_shape_def)
qed (simp add: same_shape_def)

lemma Test_loop_spec:
  assumes "bloom_ok bf"
  shows "Bloom_Test_loop bf h1 h2 is = Inr (\<forall>i\<in>set is. bit_set (bf_bits bf) (BitIndex bf h1 h2 i))"
  using BitIndex_bounds[OF assms, of h1 h2] by (induction "is") (auto simp: Let_def bit_set_def not_le)

lemma MightContain_spec:
  assumes "bloom_ok bf"
  shows "Bloom_MightContain key bf = Inr (\<forall>b\<in>key_bits bf key. bit_set (bf_bits bf) b)"
  by (simp add: Bloom_MightContain_def Test_loop_spec[OF assms] key_bits_def)

lemma bit_set_new:
  assumes "8 \<le> fst (sz n)" "c < fst (sz n)"
  shows "\<not> bit_set (bf_bits (BloomFilter sz n)) c"
proof -
  obtain b h where sz: "sz n = (b, h)" by (cases "sz n")
  have "c div 8 < (b + 7) div 8" using assms sz by simp
  then show ?thesis by (simp add: bit_set_def BloomFilter_def sz)
qed

text \<open>What a filter built from a list of keys answers.\<close>

lemma bloom_built:
  assumes "sizing_ok sz"
  shows "\<exists>bf. Bloom_AddAll keys (BloomFilter sz n) = Inr bf \<and> bloom_ok bf \<and>
     bf_num_bits bf = fst (sz n) \<and> bf_num_hashes bf = snd (sz n) \<and> length (bf_bits bf) = (fst (sz n) + 7) div 8 \<and>
     (\<forall>key. Bloom_MightContain key bf =
        Inr (\<forall>b\<in>key_bits bf key. \<exists>k\<in>set keys. b \<in> key_bits bf k))"
proof -
  let ?new = "BloomFilter sz n"
  have sz: "8 \<le> fst (sz n)" using assms by (simp add: sizing_ok_def)
  have ok: "bloom_ok ?new" using sz by (rule bloom_ok_new)
  from AddAll_spec[OF ok] obtain bf where bf: "Bloom_AddAll keys ?new = Inr bf" "same_shape ?new bf"
    "\<forall>c. bit_set (bf_bits bf) c \<longleftrightarrow> bit_set (bf_bits ?new) c \<or> (\<exists>k\<in>set keys. c \<in> key_bits ?new k)" by blast
  note shape = same_shape_simps[OF bf(2)]
  have "b < fst (sz n)" if "b \<in> key_bits ?new key" for b key
    using that sz by (auto simp: key_bits_def BitIndex_def BloomFilter_def split: prod.splits)
  then have "\<not> bit_set (bf_bits ?new) b" if "b \<in> key_bits ?new key" for b key
    using that bit_set_new[of sz n, OF sz] by blast
  moreover have "bf_num_bits bf = fst (sz n)" "bf_num_hashes bf = snd (sz n)" "length (bf_bits bf) = (fst (sz n) + 7) div 8"
    using bf(2) by (auto simp: same_shape_def BloomFilter_def split: prod.splits)
  ultimately show ?thesis
    using bf(1,3) ok by (intro exI[of _ bf]) (auto simp: shape MightContain_spec)
qed

section \<open>Property\<close>

text \<open>
  C28. A filter built from a list of keys never denies one of them, whatever its size and number of
  hashes, and building it never indexes outside the bit array; a key is let through only if
  each of its bits was set by some key of the list, and an empty filter lets nothing through.
\<close>

theorem bloom_no_false_negatives:
  assumes "sizing_ok sz"
  shows "\<exists>bf. Bloom_AddAll keys (BloomFilter sz n) = Inr bf \<and>
     (\<forall>key\<in>set keys. Bloom_MightContain key bf = Inr True) \<and>
     (\<forall>key. Bloom_MightContain key bf = Inr (\<forall>b\<in>key_bits bf key. \<exists>k\<in>set keys. b \<in> key_bits bf k)) \<and>
     (keys = [] \<longrightarrow> (\<forall>key. Bloom_MightContain key bf = Inr False))"
proof -
  from bloom_built[OF assms, of keys n] obtain bf where bf: "Bloom_AddAll keys (BloomFilter sz n) = Inr bf"
    "bf_num_hashes bf = snd (sz n)"
    "\<forall>key. Bloom_MightContain key bf = Inr (\<forall>b\<in>key_bits bf key. \<exists>k\<in>set keys. b \<in> key_bits bf k)" by blast
  have "0 < snd (sz n)" using assms[unfolded sizing_ok_def, rule_format, of n] by linarith
  then have "key_bits bf key \<noteq> {}" for key by (simp add: key_bits_def bf(2))
  with bf show ?thesis by (intro exI[of _ bf]) auto
qed

theorem bloom_no_false_negatives_witness:
  "\<exists>bf. Bloom_AddAll [3, - 5] (BloomFilter (\<lambda>_. (20, 7)) 2) = Inr bf \<and> Bloom_MightContain (- 5) bf = Inr True"
  using bloom_no_false_negatives[of "\<lambda>_. (20, 7)" "[3, - 5]" 2] by (auto simp: sizing_ok_def)

end
