(* ===== verification/SSTable.thy ===== *)
theory SSTable
  imports Page_Codec Merge_Iterator Bloom_Filter
begin

text \<open>
  \<^verbatim>\<open>src/src/lsm/sstable.{h,cpp}\<close>: the immutable sorted runs of the LSM-tree, down to the bytes of
  their pages, and the SSTable cursor of \<^verbatim>\<open>src/src/lsm/lsm_cursor.h\<close>.

  \<open>Build\<close> and \<open>Open\<close> work on the file through the disk manager model. Data pages are read from the
  same file: the buffer pool of each table only caches (theory \<open>Buffer_Pool_Client\<close>), which holds as
  long as a frame is free, that is for at most eight pages pinned at a time. The page structs are
  shorter than a page, so \<open>WritePage\<close> also picks up the bytes that follow them in memory; they are
  the parameter \<open>slack\<close>, and no theorem depends on them. Sizes of the Bloom filter are a parameter
  as well (see \<open>Bloom_Filter\<close>). The theorems show that a table built from a sorted run and opened
  again answers every lookup and every scan from the run.
\<close>

section \<open>Page formats\<close>

definition sizeof_DataEntry :: nat where
  "sizeof_DataEntry = 80"

definition kMaxEntriesPerDataPage :: nat where
  "kMaxEntriesPerDataPage = (PAGE_SIZE - 8) div sizeof_DataEntry"

definition sizeof_IndexEntry :: nat where
  "sizeof_IndexEntry = 16"

definition kMaxIndexEntriesPerPage :: nat where
  "kMaxIndexEntriesPerPage = (PAGE_SIZE - 8) div sizeof_IndexEntry"

definition DataEntry_bytes :: "lsm_entry \<Rightarrow> byte list" where
  "DataEntry_bytes e =
     le_bytes 8 (fst e) @ [if lv_deleted (snd e) then 1 else 0] @ [0] @
     le_bytes 2 (int (length (lv_value (snd e)))) @
     bytes_of (lv_value (snd e)) @ replicate (MAX_VALUE_SIZE - length (lv_value (snd e))) 0 @ replicate 4 0"

definition DataEntry_read :: "byte list \<Rightarrow> lsm_entry" where
  "DataEntry_read bs =
     (le_sint (field 0 8 bs),
      \<lparr>lv_value = string_of (field 12 (nat (le_uint (field 10 2 bs))) bs), lv_deleted = field 8 1 bs \<noteq> [0]\<rparr>)"

definition DataPage_bytes :: "lsm_entry list \<Rightarrow> byte list" where
  "DataPage_bytes es =
     le_bytes 8 (int (length es)) @ concat (map DataEntry_bytes es) @
     replicate (sizeof_DataEntry * (kMaxEntriesPerDataPage - length es)) 0"

definition DataPage_count :: "byte list \<Rightarrow> int" where
  "DataPage_count pg = le_sint (field 0 8 pg)"

definition DataPage_entry :: "byte list \<Rightarrow> nat \<Rightarrow> lsm_entry" where
  "DataPage_entry pg i = DataEntry_read (drop (8 + sizeof_DataEntry * i) pg)"

definition IndexEntry_bytes :: "KeyType \<times> page_id_t \<Rightarrow> byte list" where
  "IndexEntry_bytes e = le_bytes 8 (fst e) @ le_bytes 8 (snd e)"

definition IndexPage_bytes :: "(KeyType \<times> page_id_t) list \<Rightarrow> byte list" where
  "IndexPage_bytes es =
     le_bytes 8 (int (length es)) @ concat (map IndexEntry_bytes es) @
     replicate (sizeof_IndexEntry * (kMaxIndexEntriesPerPage - length es)) 0"

definition IndexPage_entry :: "byte list \<Rightarrow> nat \<Rightarrow> KeyType \<times> page_id_t" where
  "IndexPage_entry pg i =
     (let bs = field (8 + sizeof_IndexEntry * i) 16 pg in (le_sint (field 0 8 bs), le_sint (field 8 8 bs)))"

record HeaderPage =
  hp_num_entries :: int
  hp_min_key :: KeyType
  hp_max_key :: KeyType
  hp_num_data_pages :: int
  hp_first_data_page_id :: page_id_t
  hp_num_index_entries :: int
  hp_first_index_page_id :: page_id_t
  hp_bloom_num_bytes :: int
  hp_bloom_num_bits :: nat
  hp_bloom_num_hashes :: int
  hp_first_bloom_page_id :: page_id_t

definition HeaderPage_bytes :: "HeaderPage \<Rightarrow> byte list" where
  "HeaderPage_bytes h =
     le_bytes 8 (hp_num_entries h) @ le_bytes 8 (hp_min_key h) @ le_bytes 8 (hp_max_key h) @
     le_bytes 4 (hp_num_data_pages h) @ replicate 4 0 @ le_bytes 8 (hp_first_data_page_id h) @
     le_bytes 8 (hp_num_index_entries h) @ le_bytes 8 (hp_first_index_page_id h) @
     le_bytes 8 (hp_bloom_num_bytes h) @ le_bytes 8 (int (hp_bloom_num_bits h)) @
     le_bytes 4 (hp_bloom_num_hashes h) @ replicate 4 0 @ le_bytes 8 (hp_first_bloom_page_id h)"

definition HeaderPage_read :: "byte list \<Rightarrow> HeaderPage" where
  "HeaderPage_read pg =
     \<lparr>hp_num_entries = le_sint (field 0 8 pg), hp_min_key = le_sint (field 8 8 pg),
      hp_max_key = le_sint (field 16 8 pg), hp_num_data_pages = le_sint (field 24 4 pg),
      hp_first_data_page_id = le_sint (field 32 8 pg), hp_num_index_entries = le_sint (field 40 8 pg),
      hp_first_index_page_id = le_sint (field 48 8 pg), hp_bloom_num_bytes = le_sint (field 56 8 pg),
      hp_bloom_num_bits = nat (le_uint (field 64 8 pg)), hp_bloom_num_hashes = le_sint (field 72 4 pg),
      hp_first_bloom_page_id = le_sint (field 80 8 pg)\<rparr>"

section \<open>Build\<close>

text \<open>
  The three loops of \<open>Build\<close> that write a vector page by page: allocate a page, fill it with the
  next \<open>n\<close> elements, write it. The first page id, the ids of all pages and the disk manager are
  returned.
\<close>

function Build_pages :: "(nat \<Rightarrow> byte) \<Rightarrow> nat \<Rightarrow> ('a list \<Rightarrow> byte list) \<Rightarrow> 'a list \<Rightarrow> page_id_t \<Rightarrow> disk_manager \<Rightarrow>
    (page_id_t \<times> page_id_t list \<times> disk_manager) result" where
  "Build_pages slack n page_bytes xs first dm =
     (if xs = [] \<or> n = 0 then Inr (first, [], dm)
      else
        let (pid, dm) = DiskManager_AllocatePage dm;
            first = (if first = INVALID_PAGE_ID then pid else first)
        in case DiskManager_WritePage pid (page_image slack (page_bytes (take n xs))) dm of
             (Inl e, dm) \<Rightarrow> Inl e
           | (Inr _, dm) \<Rightarrow>
               (case Build_pages slack n page_bytes (drop n xs) first dm of
                  Inl e \<Rightarrow> Inl e
                | Inr (first, pids, dm) \<Rightarrow> Inr (first, pid # pids, dm)))"
  by pat_completeness auto
termination
  by (relation "measure (\<lambda>(_, _, _, xs, _, _). length xs)") auto

declare Build_pages.simps [simp del]

fun Build_bloom :: "lsm_entry list \<Rightarrow> bloom_filter \<Rightarrow> bloom_filter result" where
  "Build_bloom [] bloom = Inr bloom"
| "Build_bloom (e # es) bloom =
     (if length (lv_value (snd e)) > MAX_VALUE_SIZE
      then Inl (InvalidArgument ''SSTable::Build: value exceeds MAX_VALUE_SIZE'')
      else case Bloom_Add (fst e) bloom of Inl err \<Rightarrow> Inl err | Inr bloom \<Rightarrow> Build_bloom es bloom)"

text \<open>The keys of the sparse index: the first key of every data page.\<close>

function chunks :: "nat \<Rightarrow> 'a list \<Rightarrow> 'a list list" where
  "chunks n xs = (if xs = [] \<or> n = 0 then [] else take n xs # chunks n (drop n xs))"
  by pat_completeness auto
termination
  by (relation "measure (\<lambda>(_, xs). length xs)") auto

declare chunks.simps [simp del]

definition SSTable_Build :: "(nat \<Rightarrow> byte) \<Rightarrow> bloom_sizing \<Rightarrow> byte list \<Rightarrow> lsm_entry list \<Rightarrow> byte list result" where
  "SSTable_Build slack sizing file entries =
     (let dm = DiskManager_open file;
          (header_page_id, dm) = DiskManager_AllocatePage dm;
          bloom = BloomFilter sizing (max (length entries) 1)
      in case Build_bloom entries bloom of
           Inl e \<Rightarrow> Inl e
         | Inr bloom \<Rightarrow>
      (case Build_pages slack kMaxEntriesPerDataPage DataPage_bytes entries INVALID_PAGE_ID dm of
         Inl e \<Rightarrow> Inl e
       | Inr (first_data_page_id, data_pages, dm) \<Rightarrow>
      (let index = zip (map (fst \<circ> hd) (chunks kMaxEntriesPerDataPage entries)) data_pages in
       case Build_pages slack kMaxIndexEntriesPerPage IndexPage_bytes index INVALID_PAGE_ID dm of
         Inl e \<Rightarrow> Inl e
       | Inr (first_index_page_id, _, dm) \<Rightarrow>
      (case Build_pages slack PAGE_SIZE (\<lambda>chunk. chunk @ replicate (PAGE_SIZE - length chunk) 0) (bf_bits bloom)
              INVALID_PAGE_ID dm of
         Inl e \<Rightarrow> Inl e
       | Inr (first_bloom_page_id, _, dm) \<Rightarrow>
      (let header = \<lparr>hp_num_entries = int (length entries),
              hp_min_key = (if entries = [] then 0 else fst (hd entries)),
              hp_max_key = (if entries = [] then 0 else fst (last entries)),
              hp_num_data_pages = int (length data_pages), hp_first_data_page_id = first_data_page_id,
              hp_num_index_entries = int (length index), hp_first_index_page_id = first_index_page_id,
              hp_bloom_num_bytes = int (length (bf_bits bloom)), hp_bloom_num_bits = bf_num_bits bloom,
              hp_bloom_num_hashes = int (bf_num_hashes bloom), hp_first_bloom_page_id = first_bloom_page_id\<rparr>
       in case DiskManager_WritePage header_page_id (page_image slack (HeaderPage_bytes header)) dm of
            (Inl e, dm) \<Rightarrow> Inl e
          | (Inr _, dm) \<Rightarrow> Inr (dm_file dm))))))"

section \<open>Open\<close>

record sstable =
  sst_path :: string
  sst_disk_manager :: disk_manager
  sst_num_entries :: int
  sst_min_key :: KeyType
  sst_max_key :: KeyType
  sst_num_data_pages :: int
  sst_first_data_page_id :: page_id_t
  sst_sparse_index :: "(KeyType \<times> page_id_t) list"
  sst_bloom :: bloom_filter
  sst_id :: int
  sst_obsolete :: bool

text \<open>
  Reading the index pages. A page with a count of zero would be followed by ever further pages, all
  of them empty; a page with more entries than fit is read out of bounds.
\<close>

fun Open_index :: "nat \<Rightarrow> disk_manager \<Rightarrow> int \<Rightarrow> page_id_t \<Rightarrow> (KeyType \<times> page_id_t) list \<Rightarrow>
    ((KeyType \<times> page_id_t) list \<times> disk_manager) result" where
  "Open_index 0 dm remaining pid index = (if remaining > 0 then endless else Inr (index, dm))"
| "Open_index (Suc fuel) dm remaining pid index =
     (if remaining > 0 then
        (case DiskManager_ReadPage pid dm of
           (Inl e, dm) \<Rightarrow> Inl e
         | (Inr ibuf, dm) \<Rightarrow>
             let count = le_sint (field 0 8 ibuf) in
             if count > int kMaxIndexEntriesPerPage then Inl (UndefinedBehaviour ''index page read out of bounds'')
             else Open_index fuel dm (remaining - count) (pid + 1)
                    (index @ map (IndexPage_entry ibuf) [0..<nat count]))
      else Inr (index, dm))"

function Open_bloom :: "disk_manager \<Rightarrow> nat \<Rightarrow> page_id_t \<Rightarrow> byte list \<Rightarrow> (byte list \<times> disk_manager) result" where
  "Open_bloom dm num_bytes pid bytes =
     (if length bytes < num_bytes then
        (case DiskManager_ReadPage pid dm of
           (Inl e, dm) \<Rightarrow> Inl e
         | (Inr bbuf, dm) \<Rightarrow>
             let chunk = min (num_bytes - length bytes) PAGE_SIZE in
             if length bbuf < chunk then Inl (UndefinedBehaviour ''short page'')
             else Open_bloom dm num_bytes (pid + 1) (bytes @ take chunk bbuf))
      else Inr (bytes, dm))"
  by pat_completeness auto
termination
  by (relation "measure (\<lambda>(_, num_bytes, _, bytes). num_bytes - length bytes)") (auto simp: PAGE_SIZE_def)

declare Open_bloom.simps [simp del]

definition SSTable_Open :: "string \<Rightarrow> byte list \<Rightarrow> sstable result" where
  "SSTable_Open path file =
     (case DiskManager_ReadPage 0 (DiskManager_open file) of
        (Inl e, dm) \<Rightarrow> Inl e
      | (Inr buf, dm) \<Rightarrow>
          let header = HeaderPage_read buf in
          (case Open_index (nat (hp_num_index_entries header)) dm (hp_num_index_entries header)
                  (hp_first_index_page_id header) [] of
             Inl e \<Rightarrow> Inl e
           | Inr (index, dm) \<Rightarrow>
          (case Open_bloom dm (nat (hp_bloom_num_bytes header)) (hp_first_bloom_page_id header) [] of
             Inl e \<Rightarrow> Inl e
           | Inr (bytes, dm) \<Rightarrow>
               Inr \<lparr>sst_path = path, sst_disk_manager = dm, sst_num_entries = hp_num_entries header,
                    sst_min_key = hp_min_key header, sst_max_key = hp_max_key header,
                    sst_num_data_pages = hp_num_data_pages header,
                    sst_first_data_page_id = hp_first_data_page_id header, sst_sparse_index = index,
                    sst_bloom = BloomFilter_from_bytes bytes (hp_bloom_num_bits header)
                                  (nat (hp_bloom_num_hashes header)),
                    sst_id = - 1, sst_obsolete = False\<rparr>)))"

definition SSTable_MarkObsolete :: "sstable \<Rightarrow> sstable" where
  "SSTable_MarkObsolete sst = sst\<lparr>sst_obsolete := True\<rparr>"

definition SSTable_SetId :: "int \<Rightarrow> sstable \<Rightarrow> sstable" where
  "SSTable_SetId i sst = sst\<lparr>sst_id := i\<rparr>"

section \<open>Lookup\<close>

definition SSTable_FetchPage :: "sstable \<Rightarrow> page_id_t \<Rightarrow> byte list result" where
  "SSTable_FetchPage sst pid = fst (DiskManager_ReadPage pid (sst_disk_manager sst))"

definition SSTable_MightContain :: "KeyType \<Rightarrow> sstable \<Rightarrow> bool result" where
  "SSTable_MightContain key sst =
     (if sst_num_entries sst = 0 \<or> key < sst_min_key sst \<or> key > sst_max_key sst then Inr False
      else Bloom_MightContain key (sst_bloom sst))"

text \<open>
  \<open>std::upper_bound\<close> and \<open>std::lower_bound\<close> on a sorted range: the number of elements before the
  bound.
\<close>

definition SSTable_FindPagePos :: "KeyType \<Rightarrow> sstable \<Rightarrow> nat" where
  "SSTable_FindPagePos key sst =
     (let it = length (takeWhile (\<lambda>entry. \<not> key < fst entry) (sst_sparse_index sst))
      in if it = 0 then 0 else it - 1)"

definition DataPage_lower_bound :: "byte list \<Rightarrow> KeyType \<Rightarrow> nat" where
  "DataPage_lower_bound pg key =
     length (takeWhile (\<lambda>i. fst (DataPage_entry pg i) < key) [0..<nat (DataPage_count pg)])"

definition SSTable_Get :: "KeyType \<Rightarrow> sstable \<Rightarrow> LSMValue option result" where
  "SSTable_Get key sst =
     (case SSTable_MightContain key sst of
        Inl e \<Rightarrow> Inl e
      | Inr False \<Rightarrow> Inr None
      | Inr True \<Rightarrow>
          let page_pos = SSTable_FindPagePos key sst in
          if page_pos \<ge> length (sst_sparse_index sst)
          then Inl (UndefinedBehaviour ''sparse_index_ out of bounds'')
          else
          (case SSTable_FetchPage sst (snd (sst_sparse_index sst ! page_pos)) of
             Inl e \<Rightarrow> Inl e
           | Inr view \<Rightarrow>
               let it = DataPage_lower_bound view key in
               if int it \<noteq> DataPage_count view \<and> fst (DataPage_entry view it) = key
               then Inr (Some (snd (DataPage_entry view it)))
               else Inr None))"

section \<open>Iterators\<close>

text \<open>The page an iterator holds is the frame it has pinned; no page means the iterator is exhausted.\<close>

record sst_iterator =
  it_page :: "byte list option"
  it_page_id :: page_id_t
  it_index :: int
  it_page_pos :: nat
  it_cached_key :: KeyType
  it_cached_value :: LSMValue

definition sst_iterator_default :: sst_iterator where
  "sst_iterator_default =
     \<lparr>it_page = None, it_page_id = INVALID_PAGE_ID, it_index = 0, it_page_pos = 0, it_cached_key = 0,
      it_cached_value = \<lparr>lv_value = [], lv_deleted = False\<rparr>\<rparr>"

definition SSTIter_LoadCurrent :: "sst_iterator \<Rightarrow> sst_iterator result" where
  "SSTIter_LoadCurrent it =
     (case it_page it of
        None \<Rightarrow> Inl (UndefinedBehaviour ''null page'')
      | Some view \<Rightarrow>
          let e = DataPage_entry view (nat (it_index it)) in
          Inr (it\<lparr>it_cached_key := fst e, it_cached_value := snd e\<rparr>))"

definition SSTable_NewIterator :: "KeyType \<Rightarrow> sstable \<Rightarrow> sst_iterator result" where
  "SSTable_NewIterator start_key sst =
     (if sst_num_entries sst = 0 \<or> start_key > sst_max_key sst then Inr sst_iterator_default
      else
        let page_pos = SSTable_FindPagePos (max start_key (sst_min_key sst)) sst in
        if page_pos \<ge> length (sst_sparse_index sst)
        then Inl (UndefinedBehaviour ''sparse_index_ out of bounds'')
        else
          let page_id = snd (sst_sparse_index sst ! page_pos) in
          (case SSTable_FetchPage sst page_id of
             Inl e \<Rightarrow> Inl e
           | Inr view \<Rightarrow>
               let index = int (DataPage_lower_bound view start_key) in
               if index \<ge> DataPage_count view then
                 let page_pos = page_pos + 1; page_id = sst_first_data_page_id sst + int page_pos in
                 (case SSTable_FetchPage sst page_id of
                    Inl e \<Rightarrow> Inl e
                  | Inr view \<Rightarrow>
                      SSTIter_LoadCurrent (sst_iterator_default\<lparr>it_page := Some view, it_page_id := page_id,
                        it_index := 0, it_page_pos := page_pos\<rparr>))
               else
                 SSTIter_LoadCurrent (sst_iterator_default\<lparr>it_page := Some view, it_page_id := page_id,
                   it_index := index, it_page_pos := page_pos\<rparr>)))"

definition SSTIter_Next :: "sstable \<Rightarrow> sst_iterator \<Rightarrow> sst_iterator result" where
  "SSTIter_Next sst it =
     (case it_page it of
        None \<Rightarrow> Inl (UndefinedBehaviour ''null page'')
      | Some view \<Rightarrow>
          let it = it\<lparr>it_index := it_index it + 1\<rparr> in
          if it_index it \<ge> DataPage_count view then
            let it = it\<lparr>it_page := None, it_page_pos := it_page_pos it + 1\<rparr> in
            if int (it_page_pos it) \<ge> sst_num_data_pages sst then Inr (it\<lparr>it_page_id := INVALID_PAGE_ID\<rparr>)
            else
              let page_id = sst_first_data_page_id sst + int (it_page_pos it) in
              (case SSTable_FetchPage sst page_id of
                 Inl e \<Rightarrow> Inl e
               | Inr view \<Rightarrow>
                   SSTIter_LoadCurrent (it\<lparr>it_page_id := page_id, it_page := Some view, it_index := 0\<rparr>))
          else SSTIter_LoadCurrent it)"

text \<open>The SSTable cursor: a table and an iterator of it.\<close>

type_synonym sstable_cursor = "sstable \<times> sst_iterator"

definition SSTableCursor_Next :: "sstable_cursor \<Rightarrow> sstable_cursor result" where
  "SSTableCursor_Next c = (case SSTIter_Next (fst c) (snd c) of Inl e \<Rightarrow> Inl e | Inr it \<Rightarrow> Inr (fst c, it))"

definition SSTableCursor :: "sstable_cursor LSMCursor" where
  "SSTableCursor = \<lparr>cur_Valid = (\<lambda>c. it_page (snd c) \<noteq> None), cur_Key = (\<lambda>c. it_cached_key (snd c)),
     cur_Value = (\<lambda>c. it_cached_value (snd c)), cur_Next = SSTableCursor_Next\<rparr>"

section \<open>Page formats: round trips\<close>

lemma page_limits [simp]: "kMaxEntriesPerDataPage = 51" "kMaxIndexEntriesPerPage = 255"
  by (simp_all add: kMaxEntriesPerDataPage_def kMaxIndexEntriesPerPage_def PAGE_SIZE_def
      sizeof_DataEntry_def sizeof_IndexEntry_def)

text \<open>The entries a table can store: keys in range, values of at most \<open>MAX_VALUE_SIZE\<close> bytes.\<close>

definition entry_fits :: "lsm_entry \<Rightarrow> bool" where
  "entry_fits e \<longleftrightarrow> is_int64 (fst e) \<and> length (lv_value (snd e)) \<le> MAX_VALUE_SIZE"

lemma length_DataEntry_bytes: "entry_fits e \<Longrightarrow> length (DataEntry_bytes e) = sizeof_DataEntry"
  by (simp add: DataEntry_bytes_def entry_fits_def sizeof_DataEntry_def MAX_VALUE_SIZE_def)

lemma DataEntry_round_trip:
  assumes "entry_fits e"
  shows "DataEntry_read (DataEntry_bytes e @ rest) = e"
proof -
  obtain k v d where e: "e = (k, \<lparr>lv_value = v, lv_deleted = d\<rparr>)"
    by (cases e) (metis LSMValue.cases)
  have "is_int64 k" "length v \<le> 64"
    using assms by (simp_all add: e entry_fits_def MAX_VALUE_SIZE_def)
  then show ?thesis
    by (simp add: e DataEntry_read_def DataEntry_bytes_def codec field_def)
qed

lemma drop_concat:
  assumes "\<And>e. e \<in> set es \<Longrightarrow> length (enc e) = sz" "i < length es"
  shows "\<exists>rest'. drop (sz * i) (concat (map enc es) @ rest) = enc (es ! i) @ rest'"
  using assms
proof (induction es arbitrary: i)
  case (Cons e es)
  show ?case
  proof (cases i)
    case 0
    then show ?thesis
      by auto
  next
    case (Suc j)
    have "\<exists>rest'. drop (sz * j) (concat (map enc es) @ rest) = enc (es ! j) @ rest'"
      using Cons.prems Suc by (intro Cons.IH) auto
    then show ?thesis
      using Cons.prems(1)[of e] Suc by simp
  qed
qed simp

lemma DataPage_round_trip:
  assumes "\<forall>e\<in>set es. entry_fits e" "length es \<le> kMaxEntriesPerDataPage"
  shows "length (DataPage_bytes es) \<le> PAGE_SIZE"
    "DataPage_count (page_image slack (DataPage_bytes es)) = int (length es)"
    "i < length es \<Longrightarrow> DataPage_entry (page_image slack (DataPage_bytes es)) i = es ! i"
proof -
  have len: "length (concat (map DataEntry_bytes es)) = 80 * length es"
    using length_concat_map[of es DataEntry_bytes sizeof_DataEntry] assms(1) length_DataEntry_bytes
    by (auto simp: sizeof_DataEntry_def)
  then show "length (DataPage_bytes es) \<le> PAGE_SIZE"
    using assms(2) by (simp add: DataPage_bytes_def sizeof_DataEntry_def PAGE_SIZE_def)
  show "DataPage_count (page_image slack (DataPage_bytes es)) = int (length es)"
    using assms(2)
    by (simp add: DataPage_count_def page_image_def DataPage_bytes_def field_left field_all le_sint_le_bytes)
  assume i: "i < length es"
  obtain rest where "drop (sizeof_DataEntry * i) (concat (map DataEntry_bytes es) @
      replicate (sizeof_DataEntry * (kMaxEntriesPerDataPage - length es)) 0 @
      map slack [0..<PAGE_SIZE - length (DataPage_bytes es)]) = DataEntry_bytes (es ! i) @ rest"
    using drop_concat[of es DataEntry_bytes sizeof_DataEntry i] assms(1) length_DataEntry_bytes i by blast
  then have "drop (8 + sizeof_DataEntry * i) (page_image slack (DataPage_bytes es)) = DataEntry_bytes (es ! i) @ rest"
    by (simp add: page_image_def DataPage_bytes_def)
  then show "DataPage_entry (page_image slack (DataPage_bytes es)) i = es ! i"
    using DataEntry_round_trip assms(1) i by (simp add: DataPage_entry_def)
qed

lemma IndexPage_round_trip:
  assumes "\<forall>e\<in>set es. is_int64 (fst e) \<and> is_int64 (snd e)" "length es \<le> kMaxIndexEntriesPerPage"
  shows "length (IndexPage_bytes es) \<le> PAGE_SIZE"
    "le_sint (field 0 8 (page_image slack (IndexPage_bytes es))) = int (length es)"
    "i < length es \<Longrightarrow> IndexPage_entry (page_image slack (IndexPage_bytes es)) i = es ! i"
proof -
  have sz: "length (IndexEntry_bytes e) = 16" for e
    by (simp add: IndexEntry_bytes_def)
  have len: "length (concat (map IndexEntry_bytes es)) = 16 * length es"
    using length_concat_map[of es IndexEntry_bytes 16] sz by simp
  then show "length (IndexPage_bytes es) \<le> PAGE_SIZE"
    using assms(2) by (simp add: IndexPage_bytes_def sizeof_IndexEntry_def PAGE_SIZE_def)
  show "le_sint (field 0 8 (page_image slack (IndexPage_bytes es))) = int (length es)"
    using assms(2) by (simp add: page_image_def IndexPage_bytes_def field_left field_all le_sint_le_bytes)
  assume i: "i < length es"
  have "field (8 + sizeof_IndexEntry * i) 16 (page_image slack (IndexPage_bytes es)) = IndexEntry_bytes (es ! i)"
    using field_concat[of es IndexEntry_bytes 16 i] sz i
    by (simp add: page_image_def IndexPage_bytes_def sizeof_IndexEntry_def field_right)
  moreover have "is_int64 (fst (es ! i))" "is_int64 (snd (es ! i))"
    using assms(1) i by auto
  ultimately show "IndexPage_entry (page_image slack (IndexPage_bytes es)) i = es ! i"
    by (simp add: IndexPage_entry_def IndexEntry_bytes_def codec)
qed

definition header_fits :: "HeaderPage \<Rightarrow> bool" where
  "header_fits h \<longleftrightarrow> is_int64 (hp_num_entries h) \<and> is_int64 (hp_min_key h) \<and> is_int64 (hp_max_key h) \<and>
     0 \<le> hp_num_data_pages h \<and> hp_num_data_pages h < 2 ^ 31 \<and> is_int64 (hp_first_data_page_id h) \<and>
     is_int64 (hp_num_index_entries h) \<and> is_int64 (hp_first_index_page_id h) \<and>
     is_int64 (hp_bloom_num_bytes h) \<and> hp_bloom_num_bits h < 2 ^ 64 \<and>
     0 \<le> hp_bloom_num_hashes h \<and> hp_bloom_num_hashes h < 2 ^ 31 \<and> is_int64 (hp_first_bloom_page_id h)"

lemma HeaderPage_round_trip:
  assumes "header_fits h"
  shows "length (HeaderPage_bytes h) \<le> PAGE_SIZE"
    "HeaderPage_read (page_image slack (HeaderPage_bytes h)) = h"
proof -
  show "length (HeaderPage_bytes h) \<le> PAGE_SIZE"
    by (simp add: HeaderPage_bytes_def PAGE_SIZE_def)
  have "le_sint (le_bytes 4 (hp_num_data_pages h)) = hp_num_data_pages h"
    "le_sint (le_bytes 4 (hp_bloom_num_hashes h)) = hp_bloom_num_hashes h"
    using assms by (auto simp: header_fits_def intro!: le_sint_le_bytes)
  then show "HeaderPage_read (page_image slack (HeaderPage_bytes h)) = h"
    using assms by (cases h) (simp add: HeaderPage_read_def page_image_def HeaderPage_bytes_def header_fits_def codec)
qed

section \<open>The loops of Build and Open\<close>

lemma chunks_Nil [simp]: "chunks n [] = []"
  by (simp add: chunks.simps)

lemma chunks_step: "xs \<noteq> [] \<Longrightarrow> 0 < n \<Longrightarrow> chunks n xs = take n xs # chunks n (drop n xs)"
  by (subst chunks.simps) simp

lemma concat_chunks: "0 < n \<Longrightarrow> concat (chunks n xs) = xs"
proof (induction n xs rule: chunks.induct)
  case (1 n xs)
  then show ?case
    by (cases "xs = []") (simp_all add: chunks_step)
qed

lemma chunks_sizes: "c \<in> set (chunks n xs) \<Longrightarrow> c \<noteq> [] \<and> length c \<le> n \<and> set c \<subseteq> set xs"
proof (induction n xs rule: chunks.induct)
  case (1 n xs)
  then show ?case
    by (cases "xs = [] \<or> n = 0")
       (auto simp: chunks_step chunks.simps[of 0] dest: in_set_takeD in_set_dropD)
qed

lemma length_chunks: "length (chunks n xs) \<le> length xs"
proof (induction n xs rule: chunks.induct)
  case (1 n xs)
  show ?case
  proof (cases "xs = [] \<or> n = 0")
    case False
    then have "length (chunks n (drop n xs)) \<le> length xs - n"
      using 1 by auto
    then show ?thesis
      using False by (cases xs) (auto simp: chunks_step)
  qed (auto simp: chunks.simps)
qed

lemma chunks_count: "0 < n \<Longrightarrow> n * length (chunks n xs) < length xs + n"
proof (induction n xs rule: chunks.induct)
  case (1 n xs)
  show ?case
  proof (cases "xs = []")
    case False
    then have "n * length (chunks n (drop n xs)) < length (drop n xs) + n"
      using 1 by simp
    then show ?thesis
      using False 1 by (cases "n \<le> length xs") (auto simp: chunks_step)
  qed (use 1 in simp)
qed

lemma chunks_eq_Nil: "0 < n \<Longrightarrow> chunks n xs = [] \<longleftrightarrow> xs = []"
  by (cases "xs = []") (simp_all add: chunks_step)

text \<open>The pages from \<open>p\<close> on hold the given images.\<close>

definition pages_at :: "disk_manager \<Rightarrow> page_id_t \<Rightarrow> byte list list \<Rightarrow> bool" where
  "pages_at dm p pgs \<longleftrightarrow> (\<forall>j < length pgs. disk_page dm (p + int j) = pgs ! j)"

lemma pages_at_Cons: "pages_at dm p (pg # pgs) \<longleftrightarrow> disk_page dm p = pg \<and> pages_at dm (p + 1) pgs"
  by (simp add: pages_at_def All_less_Suc2 add.assoc)

lemma pages_at_unchanged:
  assumes "pages_at dm p pgs" "\<And>q. p \<le> q \<Longrightarrow> q < p + int (length pgs) \<Longrightarrow> disk_page dm' q = disk_page dm q"
  shows "pages_at dm' p pgs"
  using assms by (auto simp: pages_at_def)

lemma Build_pages_spec:
  assumes "0 < n" "dm_invar dm" "\<And>ys. set ys \<subseteq> set xs \<Longrightarrow> length ys \<le> n \<Longrightarrow> length (page_bytes ys) \<le> PAGE_SIZE"
  shows "\<exists>dm'. Build_pages slack n page_bytes xs first dm =
      Inr (if first = INVALID_PAGE_ID \<and> xs \<noteq> [] then dm_next_page_id dm else first,
           map (\<lambda>j. dm_next_page_id dm + int j) [0..<length (chunks n xs)], dm') \<and>
    dm_invar dm' \<and> dm_next_page_id dm' = dm_next_page_id dm + int (length (chunks n xs)) \<and>
    length (dm_file dm) \<le> length (dm_file dm') \<and>
    (xs \<noteq> [] \<longrightarrow> nat (dm_next_page_id dm') * PAGE_SIZE \<le> length (dm_file dm')) \<and>
    (\<forall>q. 0 \<le> q \<longrightarrow> q < dm_next_page_id dm \<longrightarrow> disk_page dm' q = disk_page dm q) \<and>
    pages_at dm' (dm_next_page_id dm) (map (\<lambda>c. page_image slack (page_bytes c)) (chunks n xs))"
  using assms
proof (induction n xs arbitrary: first dm rule: chunks.induct)
  case (1 n xs)
  show ?case
  proof (cases "xs = []")
    case True
    then show ?thesis
      using 1 by (simp add: Build_pages.simps[of slack n] pages_at_def)
  next
    case False
    let ?p = "dm_next_page_id dm" and ?pg = "page_image slack (page_bytes (take n xs))"
    let ?d1 = "dm\<lparr>dm_next_page_id := ?p + 1\<rparr>"
    let ?d2 = "wrote_page ?d1 ?p ?pg" and ?first = "if first = INVALID_PAGE_ID then ?p else first"
    have p: "0 \<le> ?p" and len: "length ?pg = PAGE_SIZE"
      using "1.prems"(2) "1.prems"(3)[of "take n xs"] by (auto simp: dm_invar_def set_take_subset)
    have inv: "dm_invar ?d2"
      using "1.prems"(2) p len by (intro inv_intros) auto
    note w = wrote_page_simps[OF p len, where d = ?d1]
    have "\<exists>dm'. Build_pages slack n page_bytes (drop n xs) ?first ?d2 =
        Inr (if ?first = INVALID_PAGE_ID \<and> drop n xs \<noteq> [] then dm_next_page_id ?d2 else ?first,
             map (\<lambda>j. dm_next_page_id ?d2 + int j) [0..<length (chunks n (drop n xs))], dm') \<and>
        dm_invar dm' \<and> dm_next_page_id dm' = dm_next_page_id ?d2 + int (length (chunks n (drop n xs))) \<and>
        length (dm_file ?d2) \<le> length (dm_file dm') \<and>
        (drop n xs \<noteq> [] \<longrightarrow> nat (dm_next_page_id dm') * PAGE_SIZE \<le> length (dm_file dm')) \<and>
        (\<forall>q. 0 \<le> q \<longrightarrow> q < dm_next_page_id ?d2 \<longrightarrow> disk_page dm' q = disk_page ?d2 q) \<and>
        pages_at dm' (dm_next_page_id ?d2) (map (\<lambda>c. page_image slack (page_bytes c)) (chunks n (drop n xs)))"
      using "1.prems" False inv by (intro "1.IH") (auto dest: in_set_dropD)
    then obtain dm' where b: "Build_pages slack n page_bytes (drop n xs) ?first ?d2 =
        Inr (?first, map (\<lambda>j. ?p + 1 + int j) [0..<length (chunks n (drop n xs))], dm')"
      and d: "dm_invar dm'" "dm_next_page_id dm' = ?p + 1 + int (length (chunks n (drop n xs)))"
      "\<And>q. 0 \<le> q \<Longrightarrow> q < ?p + 1 \<Longrightarrow> disk_page dm' q = disk_page ?d2 q"
      "pages_at dm' (?p + 1) (map (\<lambda>c. page_image slack (page_bytes c)) (chunks n (drop n xs)))"
      "length (dm_file ?d2) \<le> length (dm_file dm')"
      "drop n xs \<noteq> [] \<longrightarrow> nat (dm_next_page_id dm') * PAGE_SIZE \<le> length (dm_file dm')"
      using p by (auto simp: w INVALID_PAGE_ID_def)
    have "Build_pages slack n page_bytes xs first dm =
        Inr (?first, ?p # map (\<lambda>j. ?p + 1 + int j) [0..<length (chunks n (drop n xs))], dm')"
      using False "1.prems"(1) b
      by (subst Build_pages.simps) (simp add: DiskManager_AllocatePage_def WritePage_wrote[OF p len] Let_def)
    moreover have "?p # map (\<lambda>j. ?p + 1 + int j) [0..<m] = map (\<lambda>j. ?p + int j) [0..<Suc m]" for m
      by (simp only: upt_conv_Cons[of 0 "Suc m"] map_Suc_upt[symmetric]) (simp add: add.assoc)
    moreover have "nat (dm_next_page_id dm') * PAGE_SIZE \<le> length (dm_file dm')"
      using d(2,5,6) p w(4) by (cases "drop n xs = []") (auto simp: nat_add_distrib)
    moreover have "length (dm_file dm) \<le> length (dm_file dm')"
      using d(5) w(4) by simp
    ultimately show ?thesis
      using False "1.prems"(1) d(1-4) p by (simp add: chunks_step pages_at_Cons w)
  qed
qed

lemma pages_at_num_reads [simp]: "pages_at (dm\<lparr>dm_num_reads := n\<rparr>) p pgs = pages_at dm p pgs"
  by (simp add: pages_at_def)

lemma Open_index_spec:
  assumes "pages_at dm p (map (\<lambda>c. page_image slack (IndexPage_bytes c)) cs)" "0 \<le> p" "length cs \<le> fuel"
    and "\<And>c. c \<in> set cs \<Longrightarrow> c \<noteq> [] \<and> length c \<le> kMaxIndexEntriesPerPage"
    and "\<And>e. e \<in> set (concat cs) \<Longrightarrow> is_int64 (fst e) \<and> is_int64 (snd e)"
  shows "\<exists>n. Open_index fuel dm (int (length (concat cs))) p acc = Inr (acc @ concat cs, dm\<lparr>dm_num_reads := n\<rparr>)"
  using assms
proof (induction cs arbitrary: fuel dm p acc)
  case Nil
  then show ?case
    by (cases fuel) (auto intro!: exI[of _ "dm_num_reads dm"])
next
  case (Cons c cs)
  then obtain m where m: "fuel = Suc m" "length cs \<le> m"
    by (cases fuel) auto
  let ?pg = "page_image slack (IndexPage_bytes c)" and ?dm = "dm\<lparr>dm_num_reads := dm_num_reads dm + 1\<rparr>"
  have c: "c \<noteq> []" "length c \<le> kMaxIndexEntriesPerPage" "\<forall>e\<in>set c. is_int64 (fst e) \<and> is_int64 (snd e)"
    using Cons.prems(4)[of c] Cons.prems(5) by auto
  note rt = IndexPage_round_trip(2,3)[OF c(3,2), where slack = slack]
  have page: "disk_page dm p = ?pg"
    using Cons.prems(1) by (simp add: pages_at_Cons)
  have es: "map (IndexPage_entry ?pg) [0..<length c] = c"
    by (rule nth_equalityI) (simp_all add: rt(2))
  have "\<exists>n. Open_index m ?dm (int (length (concat cs))) (p + 1) (acc @ c) = Inr ((acc @ c) @ concat cs, ?dm\<lparr>dm_num_reads := n\<rparr>)"
    using Cons.prems m(2) by (intro Cons.IH) (auto simp: pages_at_Cons)
  moreover have "0 < int (length c) + int (length (concat cs))"
    using c(1) by (simp add: add_pos_nonneg)
  ultimately show ?case
    using m(1) c(1,2) rt(1) es page Cons.prems(2) by (simp add: ReadPage_eq Let_def)
qed

lemma Open_bloom_spec:
  assumes "pages_at dm p (map (\<lambda>c. page_image slack (c @ replicate (PAGE_SIZE - length c) 0)) (chunks PAGE_SIZE bytes))" "0 \<le> p"
  shows "\<exists>n. Open_bloom dm (length acc + length bytes) p acc = Inr (acc @ bytes, dm\<lparr>dm_num_reads := n\<rparr>)"
  using assms
proof (induction "PAGE_SIZE" bytes arbitrary: dm p acc rule: chunks.induct)
  case (1 xs)
  show ?case
  proof (cases "xs = []")
    case True
    then show ?thesis
      by (auto simp: Open_bloom.simps[of dm] intro!: exI[of _ "dm_num_reads dm"])
  next
    case False
    let ?c = "take PAGE_SIZE xs" and ?dm = "dm\<lparr>dm_num_reads := dm_num_reads dm + 1\<rparr>"
    have pg: "disk_page dm p = ?c @ replicate (PAGE_SIZE - length ?c) 0"
      using "1.prems"(1) False by (simp add: chunks_step pages_at_Cons page_image_def)
    have "\<exists>n. Open_bloom ?dm (length (acc @ ?c) + length (drop PAGE_SIZE xs)) (p + 1) (acc @ ?c) =
        Inr ((acc @ ?c) @ drop PAGE_SIZE xs, ?dm\<lparr>dm_num_reads := n\<rparr>)"
      using "1.prems" False by (intro "1.hyps") (auto simp: chunks_step pages_at_Cons)
    moreover have "length (acc @ ?c) + length (drop PAGE_SIZE xs) = length acc + length xs"
      by simp
    moreover have "min (length xs) PAGE_SIZE = length ?c"
      by simp
    ultimately show ?thesis
      using False "1.prems"(2) pg
      by (subst Open_bloom.simps) (auto simp: ReadPage_eq Let_def min_def split: if_splits)
  qed
qed

section \<open>A built file\<close>

definition sst_index :: "page_id_t \<Rightarrow> lsm_entry list \<Rightarrow> (KeyType \<times> page_id_t) list" where
  "sst_index first es =
     zip (map (fst \<circ> hd) (chunks kMaxEntriesPerDataPage es))
       (map (\<lambda>j. first + int j) [0..<length (chunks kMaxEntriesPerDataPage es)])"

definition num_data :: "lsm_entry list \<Rightarrow> int" where
  "num_data es = int (length (chunks kMaxEntriesPerDataPage es))"

definition num_index :: "page_id_t \<Rightarrow> lsm_entry list \<Rightarrow> int" where
  "num_index first es = int (length (chunks kMaxIndexEntriesPerPage (sst_index first es)))"

text \<open>The header of a table whose header page is \<open>h\<close>.\<close>

definition sst_header :: "page_id_t \<Rightarrow> lsm_entry list \<Rightarrow> bloom_filter \<Rightarrow> HeaderPage" where
  "sst_header h es bf =
     \<lparr>hp_num_entries = int (length es), hp_min_key = (if es = [] then 0 else fst (hd es)),
      hp_max_key = (if es = [] then 0 else fst (last es)), hp_num_data_pages = num_data es,
      hp_first_data_page_id = (if es = [] then INVALID_PAGE_ID else h + 1),
      hp_num_index_entries = num_data es,
      hp_first_index_page_id = (if es = [] then INVALID_PAGE_ID else h + 1 + num_data es),
      hp_bloom_num_bytes = int (length (bf_bits bf)), hp_bloom_num_bits = bf_num_bits bf,
      hp_bloom_num_hashes = int (bf_num_hashes bf),
      hp_first_bloom_page_id = h + 1 + num_data es + num_index (h + 1) es\<rparr>"

definition sst_layout :: "disk_manager \<Rightarrow> (nat \<Rightarrow> byte) \<Rightarrow> page_id_t \<Rightarrow> lsm_entry list \<Rightarrow> bloom_filter \<Rightarrow> bool" where
  "sst_layout dm slack h es bf \<longleftrightarrow>
     disk_page dm h = page_image slack (HeaderPage_bytes (sst_header h es bf)) \<and>
     pages_at dm (h + 1) (map (\<lambda>c. page_image slack (DataPage_bytes c)) (chunks kMaxEntriesPerDataPage es)) \<and>
     pages_at dm (h + 1 + num_data es)
       (map (\<lambda>c. page_image slack (IndexPage_bytes c)) (chunks kMaxIndexEntriesPerPage (sst_index (h + 1) es))) \<and>
     pages_at dm (h + 1 + num_data es + num_index (h + 1) es)
       (map (\<lambda>c. page_image slack (c @ replicate (PAGE_SIZE - length c) 0)) (chunks PAGE_SIZE (bf_bits bf)))"

definition sst_fits :: "bloom_sizing \<Rightarrow> lsm_entry list \<Rightarrow> bool" where
  "sst_fits sz es \<longleftrightarrow> asc es \<and> (\<forall>e\<in>set es. entry_fits e) \<and> length es < 2 ^ 30 \<and>
     sizing_ok sz \<and> fst (sz (max (length es) 1)) < 2 ^ 38"

text \<open>The filter of a table lets every key of the table through.\<close>

definition bloom_covers :: "bloom_filter \<Rightarrow> lsm_entry list \<Rightarrow> bool" where
  "bloom_covers bf es \<longleftrightarrow>
     (\<forall>k. is_ok (Bloom_MightContain k bf)) \<and> (\<forall>k\<in>keys_of es. Bloom_MightContain k bf = Inr True)"

lemma Build_bloom_AddAll:
  "\<forall>e\<in>set es. entry_fits e \<Longrightarrow> Build_bloom es bf = Bloom_AddAll (map fst es) bf"
  by (induction es arbitrary: bf) (auto simp: entry_fits_def split: sum.splits)

lemma Build_bloom_ok:
  assumes "sst_fits sz es"
  obtains bf where "Build_bloom es (BloomFilter sz (max (length es) 1)) = Inr bf" "bloom_covers bf es"
    "0 < length (bf_bits bf)" "int (length (bf_bits bf)) < 2 ^ 38" "bf_num_bits bf < 2 ^ 38" "bf_num_hashes bf \<le> 32"
proof -
  let ?n = "max (length es) 1"
  have sz: "sizing_ok sz" and fits: "\<forall>e\<in>set es. entry_fits e" and small: "fst (sz ?n) < 2 ^ 38"
    using assms by (auto simp: sst_fits_def)
  have b: "8 \<le> fst (sz ?n)" "snd (sz ?n) \<le> 32"
    using sz by (auto simp: sizing_ok_def)
  obtain bf where bf: "Bloom_AddAll (map fst es) (BloomFilter sz ?n) = Inr bf"
    "bf_num_bits bf = fst (sz ?n)" "bf_num_hashes bf = snd (sz ?n)" "length (bf_bits bf) = (fst (sz ?n) + 7) div 8"
    "\<forall>key. Bloom_MightContain key bf =
        Inr (\<forall>b\<in>key_bits bf key. \<exists>k\<in>set (map fst es). b \<in> key_bits bf k)"
    using bloom_built[OF sz, of "map fst es" ?n] by blast
  have "bloom_covers bf es"
    using bf(5) by (auto simp: bloom_covers_def)
  moreover have "0 < length (bf_bits bf)" "length (bf_bits bf) < 2 ^ 38"
    using b(1) small unfolding bf(4) by auto
  ultimately show ?thesis
    using that[of bf] bf(1-3) b small Build_bloom_AddAll[OF fits] by (simp flip: of_nat_less_iff)
qed

lemma sst_index_props:
  assumes "\<forall>e\<in>set es. entry_fits e" "length es < 2 ^ 30" "0 \<le> first" "first < 2 ^ 40"
  shows "length (sst_index first es) = length (chunks kMaxEntriesPerDataPage es)"
    "\<forall>e\<in>set (sst_index first es). is_int64 (fst e) \<and> is_int64 (snd e)"
proof -
  let ?cs = "chunks kMaxEntriesPerDataPage es"
  show "length (sst_index first es) = length ?cs"
    by (simp add: sst_index_def)
  have n: "length ?cs < 2 ^ 30"
    using length_chunks[of kMaxEntriesPerDataPage es] assms(2) by linarith
  have "is_int64 (fst (hd c))" if "c \<in> set ?cs" for c
  proof -
    have "hd c \<in> set es"
      using chunks_sizes[OF that] by (meson hd_in_set subsetD)
    then show ?thesis
      using assms(1) by (simp add: entry_fits_def)
  qed
  moreover have "is_int64 (first + int j)" if "j < length ?cs" for j
    using that n assms(3,4) by (auto simp: is_int64_def INVALID_KEY_def INT64_MAX_def)
  ultimately show "\<forall>e\<in>set (sst_index first es). is_int64 (fst e) \<and> is_int64 (snd e)"
    by (auto simp: sst_index_def set_zip)
qed

lemma header_fits_sst:
  assumes fits: "sst_fits sz es" and h: "0 \<le> h" "h < 2 ^ 32"
    and bf: "int (length (bf_bits bf)) < 2 ^ 38" "bf_num_bits bf < 2 ^ 38" "bf_num_hashes bf \<le> 32"
  shows "header_fits (sst_header h es bf)"
proof -
  have n: "length es < 2 ^ 30" and e: "\<forall>e\<in>set es. entry_fits e"
    using fits by (auto simp: sst_fits_def)
  have d: "0 \<le> num_data es" "num_data es < 2 ^ 30"
    using length_chunks[of kMaxEntriesPerDataPage es] n by (auto simp: num_data_def)
  have "length (sst_index (h + 1) es) \<le> length es"
    using length_chunks[of kMaxEntriesPerDataPage es] by (simp add: sst_index_def)
  then have i: "0 \<le> num_index (h + 1) es" "num_index (h + 1) es < 2 ^ 30"
    using length_chunks[of kMaxIndexEntriesPerPage "sst_index (h + 1) es"] n by (auto simp: num_index_def)
  have "es \<noteq> [] \<Longrightarrow> is_int64 (fst (hd es)) \<and> is_int64 (fst (last es))"
    using e by (simp add: entry_fits_def)
  then show ?thesis
    using n d i h bf
    by (auto simp: header_fits_def sst_header_def is_int64_def INVALID_KEY_def INT64_MAX_def INVALID_PAGE_ID_def)
qed

lemma Build_pages_ok:
  assumes "0 < n" "dm_invar dm" "\<And>ys. set ys \<subseteq> set xs \<Longrightarrow> length ys \<le> n \<Longrightarrow> length (page_bytes ys) \<le> PAGE_SIZE"
  obtains dm' where "Build_pages slack n page_bytes xs INVALID_PAGE_ID dm =
      Inr (if xs = [] then INVALID_PAGE_ID else dm_next_page_id dm,
           map (\<lambda>j. dm_next_page_id dm + int j) [0..<length (chunks n xs)], dm')"
    "dm_invar dm'" "dm_next_page_id dm' = dm_next_page_id dm + int (length (chunks n xs))"
    "xs \<noteq> [] \<longrightarrow> nat (dm_next_page_id dm') * PAGE_SIZE \<le> length (dm_file dm')"
    "\<forall>q. 0 \<le> q \<longrightarrow> q < dm_next_page_id dm \<longrightarrow> disk_page dm' q = disk_page dm q"
    "pages_at dm' (dm_next_page_id dm) (map (\<lambda>c. page_image slack (page_bytes c)) (chunks n xs))"
proof -
  from Build_pages_spec[of n dm xs page_bytes slack INVALID_PAGE_ID, OF assms]
  obtain dm' where "Build_pages slack n page_bytes xs INVALID_PAGE_ID dm =
      Inr (if INVALID_PAGE_ID = INVALID_PAGE_ID \<and> xs \<noteq> [] then dm_next_page_id dm else INVALID_PAGE_ID,
           map (\<lambda>j. dm_next_page_id dm + int j) [0..<length (chunks n xs)], dm')"
    "dm_invar dm'" "dm_next_page_id dm' = dm_next_page_id dm + int (length (chunks n xs))"
    "xs \<noteq> [] \<longrightarrow> nat (dm_next_page_id dm') * PAGE_SIZE \<le> length (dm_file dm')"
    "\<forall>q. 0 \<le> q \<longrightarrow> q < dm_next_page_id dm \<longrightarrow> disk_page dm' q = disk_page dm q"
    "pages_at dm' (dm_next_page_id dm) (map (\<lambda>c. page_image slack (page_bytes c)) (chunks n xs))"
    by blast
  then show ?thesis
    using that[of dm'] by (cases "xs = []") simp_all
qed

abbreviation zero_padded :: "byte list \<Rightarrow> byte list" where
  "zero_padded c \<equiv> c @ replicate (PAGE_SIZE - length c) 0"

text \<open>The first page after a table whose header page is \<open>h\<close>.\<close>

definition sst_end :: "page_id_t \<Rightarrow> lsm_entry list \<Rightarrow> byte list \<Rightarrow> page_id_t" where
  "sst_end h es bits = h + 1 + num_data es + num_index (h + 1) es + int (length (chunks PAGE_SIZE bits))"

text \<open>The three page-writing loops of \<open>Build\<close>, one after the other, for a header page \<open>h\<close>.\<close>

lemma Build_sections:
  assumes e: "\<forall>e\<in>set es. entry_fits e" and n: "length es < 2 ^ 30" and h0: "0 \<le> h" "h < 2 ^ 32"
    and d1: "dm_invar d1" "dm_next_page_id d1 = h + 1" and bits: "bits \<noteq> []"
  obtains d2 d3 d4 pids pids' where
    "Build_pages slack kMaxEntriesPerDataPage DataPage_bytes es INVALID_PAGE_ID d1 =
      Inr (if es = [] then INVALID_PAGE_ID else h + 1,
           map (\<lambda>j. h + 1 + int j) [0..<length (chunks kMaxEntriesPerDataPage es)], d2)"
    "Build_pages slack kMaxIndexEntriesPerPage IndexPage_bytes (sst_index (h + 1) es) INVALID_PAGE_ID d2 =
      Inr (if es = [] then INVALID_PAGE_ID else h + 1 + num_data es, pids, d3)"
    "Build_pages slack PAGE_SIZE zero_padded bits INVALID_PAGE_ID d3 =
      Inr (h + 1 + num_data es + num_index (h + 1) es, pids', d4)"
    "length (dm_file d4) = nat (sst_end h es bits) * PAGE_SIZE"
    "\<forall>q. 0 \<le> q \<longrightarrow> q \<le> h \<longrightarrow> disk_page d4 q = disk_page d1 q"
    "pages_at d4 (h + 1) (map (\<lambda>c. page_image slack (DataPage_bytes c)) (chunks kMaxEntriesPerDataPage es))"
    "pages_at d4 (h + 1 + num_data es)
       (map (\<lambda>c. page_image slack (IndexPage_bytes c)) (chunks kMaxIndexEntriesPerPage (sst_index (h + 1) es)))"
    "pages_at d4 (h + 1 + num_data es + num_index (h + 1) es)
       (map (\<lambda>c. page_image slack (zero_padded c)) (chunks PAGE_SIZE bits))"
proof -
  let ?cs = "chunks kMaxEntriesPerDataPage es" and ?idx = "sst_index (h + 1) es"
  have fit1: "length (DataPage_bytes ys) \<le> PAGE_SIZE" if "set ys \<subseteq> set es" "length ys \<le> kMaxEntriesPerDataPage" for ys
    using that e by (intro DataPage_round_trip(1)) auto
  have fit2: "length (IndexPage_bytes ys) \<le> PAGE_SIZE" if "set ys \<subseteq> set ?idx" "length ys \<le> kMaxIndexEntriesPerPage" for ys
    using that sst_index_props(2)[OF e n, of "h + 1"] h0 by (intro IndexPage_round_trip(1)) auto
  have fit3: "length (zero_padded ys) \<le> PAGE_SIZE" if "set ys \<subseteq> set (bits)" "length ys \<le> PAGE_SIZE" for ys
    using that by simp
  obtain d2 where d2: "Build_pages slack kMaxEntriesPerDataPage DataPage_bytes es INVALID_PAGE_ID d1 =
      Inr (if es = [] then INVALID_PAGE_ID else h + 1, map (\<lambda>j. h + 1 + int j) [0..<length ?cs], d2)"
    "dm_invar d2" "dm_next_page_id d2 = h + 1 + num_data es"
    "\<forall>q. 0 \<le> q \<longrightarrow> q < h + 1 \<longrightarrow> disk_page d2 q = disk_page d1 q"
    "pages_at d2 (h + 1) (map (\<lambda>c. page_image slack (DataPage_bytes c)) ?cs)"
    by (rule Build_pages_ok[of kMaxEntriesPerDataPage d1 es DataPage_bytes slack, OF _ d1(1) fit1])
       (simp_all add: num_data_def d1(2))
  obtain d3 where d3: "Build_pages slack kMaxIndexEntriesPerPage IndexPage_bytes ?idx INVALID_PAGE_ID d2 =
      Inr (if ?idx = [] then INVALID_PAGE_ID else h + 1 + num_data es,
        map (\<lambda>j. h + 1 + num_data es + int j) [0..<length (chunks kMaxIndexEntriesPerPage ?idx)], d3)"
    "dm_invar d3" "dm_next_page_id d3 = h + 1 + num_data es + num_index (h + 1) es"
    "\<forall>q. 0 \<le> q \<longrightarrow> q < h + 1 + num_data es \<longrightarrow> disk_page d3 q = disk_page d2 q"
    "pages_at d3 (h + 1 + num_data es) (map (\<lambda>c. page_image slack (IndexPage_bytes c)) (chunks kMaxIndexEntriesPerPage ?idx))"
    by (rule Build_pages_ok[of kMaxIndexEntriesPerPage d2 ?idx IndexPage_bytes slack, OF _ d2(2) fit2])
       (simp_all add: num_index_def d2(3))
  obtain d4 pids where d4: "Build_pages slack PAGE_SIZE zero_padded (bits) INVALID_PAGE_ID d3 =
      Inr (h + 1 + num_data es + num_index (h + 1) es, pids, d4)"
    "length (dm_file d4) = nat (sst_end h es bits) * PAGE_SIZE"
    "\<forall>q. 0 \<le> q \<longrightarrow> q < h + 1 + num_data es + num_index (h + 1) es \<longrightarrow> disk_page d4 q = disk_page d3 q"
    "pages_at d4 (h + 1 + num_data es + num_index (h + 1) es) (map (\<lambda>c. page_image slack (zero_padded c)) (chunks PAGE_SIZE (bits)))"
    by (rule Build_pages_ok[of PAGE_SIZE d3 "bits" zero_padded slack, OF _ d3(2) fit3])
       (use bits in \<open>auto simp: d3(3) num_data_def num_index_def sst_end_def dm_invar_def intro: antisym\<close>)
  have nonneg: "0 \<le> num_data es" "0 \<le> num_index (h + 1) es"
    by (simp_all add: num_data_def num_index_def)
  have idx: "?idx = [] \<longleftrightarrow> es = []"
    by (simp add: sst_index_def chunks_eq_Nil)
  have same: "disk_page d4 q = disk_page d2 q" if "0 \<le> q" "q < h + 1 + num_data es" for q
    using that d3(4) d4(3) nonneg by simp
  have "pages_at d4 (h + 1) (map (\<lambda>c. page_image slack (DataPage_bytes c)) ?cs)"
    by (rule pages_at_unchanged[OF d2(5)]) (use h0 same in \<open>auto simp: num_data_def\<close>)
  moreover have "pages_at d4 (h + 1 + num_data es)
      (map (\<lambda>c. page_image slack (IndexPage_bytes c)) (chunks kMaxIndexEntriesPerPage ?idx))"
    by (rule pages_at_unchanged[OF d3(5)]) (use h0 nonneg d4(3) in \<open>auto simp: num_index_def\<close>)
  moreover have "\<forall>q. 0 \<le> q \<longrightarrow> q \<le> h \<longrightarrow> disk_page d4 q = disk_page d1 q"
    using same d2(4) nonneg by auto
  ultimately show ?thesis
    using that[OF d2(1) d3(1)[unfolded idx] d4(1,2)] d4(4) by simp
qed

lemma sst_end_bound:
  assumes "length es < 2 ^ 30" "int (length bits) < 2 ^ 38"
  shows "sst_end h es bits < h + 2 ^ 32"
proof -
  have "num_data es < 2 ^ 30"
    using length_chunks[of kMaxEntriesPerDataPage es] assms(1) by (simp add: num_data_def)
  moreover have "num_index (h + 1) es \<le> num_data es"
    using length_chunks[of kMaxIndexEntriesPerPage "sst_index (h + 1) es"]
    by (simp add: num_index_def num_data_def sst_index_def)
  moreover have "int (length (chunks PAGE_SIZE bits)) \<le> 2 ^ 30"
    using chunks_count[of PAGE_SIZE bits] assms(2) by (simp add: PAGE_SIZE_def)
  ultimately show ?thesis
    by (simp add: sst_end_def)
qed

lemma Build_layout:
  assumes fits: "sst_fits sz es" and h: "h = dm_next_page_id (DiskManager_open f)" "h < 2 ^ 32"
  obtains dm bf where "SSTable_Build slack sz f es = Inr (dm_file dm)"
    "sst_layout dm slack h es bf" "bloom_covers bf es" "header_fits (sst_header h es bf)"
    "\<And>q. 0 \<le> q \<Longrightarrow> q < h \<Longrightarrow> disk_page dm q = disk_page (DiskManager_open f) q"
    "length (dm_file dm) = nat (sst_end h es (bf_bits bf)) * PAGE_SIZE" "sst_end h es (bf_bits bf) < h + 2 ^ 32"
proof -
  let ?d0 = "DiskManager_open f" and ?idx = "sst_index (h + 1) es"
  let ?d1 = "?d0\<lparr>dm_next_page_id := h + 1\<rparr>"
  have e: "\<forall>e\<in>set es. entry_fits e" and n: "length es < 2 ^ 30"
    using fits by (auto simp: sst_fits_def)
  have h0: "0 \<le> h" and inv1: "dm_invar ?d1" "dm_next_page_id ?d1 = h + 1"
    using dm_invar_open[of f] dm_invar_allocate[of ?d0] h(1) by (auto simp: dm_invar_def)
  obtain bf where bf: "Build_bloom es (BloomFilter sz (max (length es) 1)) = Inr bf" "bloom_covers bf es"
    "0 < length (bf_bits bf)" "int (length (bf_bits bf)) < 2 ^ 38" "bf_num_bits bf < 2 ^ 38" "bf_num_hashes bf \<le> 32"
    by (rule Build_bloom_ok[OF fits])
  have bits: "bf_bits bf \<noteq> []"
    using bf(3) by simp
  have hdr: "header_fits (sst_header h es bf)"
    by (rule header_fits_sst[OF fits h0 h(2) bf(4-6)])
  let ?pg = "page_image slack (HeaderPage_bytes (sst_header h es bf))"
  have len: "length ?pg = PAGE_SIZE"
    using HeaderPage_round_trip(1)[OF hdr] by simp
  show ?thesis
  proof (rule Build_sections[OF e n h0 h(2) inv1 bits, where slack = slack])
    fix d2 d3 d4 pids pids'
    assume s: "Build_pages slack kMaxEntriesPerDataPage DataPage_bytes es INVALID_PAGE_ID ?d1 =
        Inr (if es = [] then INVALID_PAGE_ID else h + 1,
             map (\<lambda>j. h + 1 + int j) [0..<length (chunks kMaxEntriesPerDataPage es)], d2)"
      "Build_pages slack kMaxIndexEntriesPerPage IndexPage_bytes ?idx INVALID_PAGE_ID d2 =
        Inr (if es = [] then INVALID_PAGE_ID else h + 1 + num_data es, pids, d3)"
      "Build_pages slack PAGE_SIZE zero_padded (bf_bits bf) INVALID_PAGE_ID d3 =
        Inr (h + 1 + num_data es + num_index (h + 1) es, pids', d4)"
      and flen: "length (dm_file d4) = nat (sst_end h es (bf_bits bf)) * PAGE_SIZE"
      and old: "\<forall>q. 0 \<le> q \<longrightarrow> q \<le> h \<longrightarrow> disk_page d4 q = disk_page ?d1 q"
      and pgs: "pages_at d4 (h + 1) (map (\<lambda>c. page_image slack (DataPage_bytes c)) (chunks kMaxEntriesPerDataPage es))"
      "pages_at d4 (h + 1 + num_data es)
         (map (\<lambda>c. page_image slack (IndexPage_bytes c)) (chunks kMaxIndexEntriesPerPage ?idx))"
      "pages_at d4 (h + 1 + num_data es + num_index (h + 1) es)
         (map (\<lambda>c. page_image slack (zero_padded c)) (chunks PAGE_SIZE (bf_bits bf)))"
    note w = wrote_page_simps(1)[OF h0 len, where d = d4]
    have idx: "zip (map (fst \<circ> hd) (chunks kMaxEntriesPerDataPage es))
        (map (\<lambda>j. h + 1 + int j) [0..<length (chunks kMaxEntriesPerDataPage es)]) = ?idx"
      by (simp add: sst_index_def)
    have hlen: "int (length ?idx) = num_data es"
      "int (length (map (\<lambda>j. h + 1 + int j) [0..<length (chunks kMaxEntriesPerDataPage es)])) = num_data es"
      by (simp_all add: sst_index_def num_data_def)
    have "SSTable_Build slack sz f es = Inr (dm_file (wrote_page d4 h ?pg))"
      unfolding SSTable_Build_def DiskManager_AllocatePage_def Let_def h(1)[symmetric] prod.case bf(1) sum.case s idx hlen
      using WritePage_wrote[OF h0 len, of d4] by (simp add: sst_header_def)
    moreover have "sst_layout (wrote_page d4 h ?pg) slack h es bf"
      unfolding sst_layout_def
      by (intro conjI; (rule pages_at_unchanged[OF pgs(1)] pages_at_unchanged[OF pgs(2)] pages_at_unchanged[OF pgs(3)])?)
         (use w h0 in \<open>auto simp: num_data_def num_index_def\<close>)
    moreover have page_in: "nat h * PAGE_SIZE + PAGE_SIZE \<le> nat (sst_end h es (bf_bits bf)) * PAGE_SIZE"
      using h0 by (simp add: sst_end_def num_data_def num_index_def nat_add_distrib algebra_simps)
    ultimately show ?thesis
      using that[of "wrote_page d4 h ?pg" bf] bf(2) hdr old w flen page_in sst_end_bound[OF n bf(4), of h]
        wrote_page_simps(4)[OF h0 len, of d4] by simp
  qed
qed

section \<open>An open table\<close>

text \<open>The entries of a data page of a table, and of the whole table.\<close>

definition sst_page_entries :: "sstable \<Rightarrow> nat \<Rightarrow> lsm_entry list" where
  "sst_page_entries sst j =
     (let pg = disk_page (sst_disk_manager sst) (sst_first_data_page_id sst + int j)
      in map (DataPage_entry pg) [0..<nat (DataPage_count pg)])"

definition sst_entries :: "sstable \<Rightarrow> lsm_entry list" where
  "sst_entries sst = concat (map (sst_page_entries sst) [0..<nat (sst_num_data_pages sst)])"

text \<open>A table that holds the run \<open>es\<close>.\<close>

definition sst_holds :: "sstable \<Rightarrow> lsm_entry list \<Rightarrow> bool" where
  "sst_holds sst es \<longleftrightarrow> asc es \<and> (\<forall>e\<in>set es. entry_fits e) \<and> sst_num_entries sst = int (length es) \<and>
     (es \<noteq> [] \<longrightarrow> sst_min_key sst = fst (hd es) \<and> sst_max_key sst = fst (last es) \<and> 0 \<le> sst_first_data_page_id sst) \<and>
     sst_num_data_pages sst = num_data es \<and>
     sst_sparse_index sst = (if es = [] then [] else sst_index (sst_first_data_page_id sst) es) \<and>
     (\<exists>slack. pages_at (sst_disk_manager sst) (sst_first_data_page_id sst)
        (map (\<lambda>c. page_image slack (DataPage_bytes c)) (chunks kMaxEntriesPerDataPage es))) \<and>
     bloom_covers (sst_bloom sst) es"

lemma disk_page_open [simp]: "disk_page (DiskManager_open (dm_file dm)) = disk_page dm"
  by (simp add: disk_page_def DiskManager_open_def fun_eq_iff)

lemma pages_at_open [simp]: "pages_at (DiskManager_open (dm_file dm)) p pgs = pages_at dm p pgs"
  by (simp add: pages_at_def)

lemma pages_at_Nil [simp]: "pages_at dm p []"
  by (simp add: pages_at_def)

lemma BloomFilter_from_bytes_id: "BloomFilter_from_bytes (bf_bits bf) (bf_num_bits bf) (bf_num_hashes bf) = bf"
  by (cases bf) (simp add: BloomFilter_from_bytes_def)

lemma Open_layout:
  assumes lay: "sst_layout dm slack 0 es bf" and hdr: "header_fits (sst_header 0 es bf)"
    and bf: "bloom_covers bf es" and es: "asc es" "\<forall>e\<in>set es. entry_fits e" "length es < 2 ^ 30"
  obtains sst where "SSTable_Open path (dm_file dm) = Inr sst" "sst_holds sst es" "sst_path sst = path"
    "sst_id sst = - 1" "\<not> sst_obsolete sst"
proof -
  let ?d0 = "DiskManager_open (dm_file dm)" and ?idx = "sst_index 1 es" and ?h = "sst_header 0 es bf"
  let ?ip = "if es = [] then INVALID_PAGE_ID else 1 + num_data es" and ?bp = "1 + num_data es + num_index 1 es"
  define d1 where "d1 = ?d0\<lparr>dm_num_reads := dm_num_reads ?d0 + 1\<rparr>"
  have pgs: "disk_page dm 0 = page_image slack (HeaderPage_bytes ?h)"
    "pages_at dm 1 (map (\<lambda>c. page_image slack (DataPage_bytes c)) (chunks kMaxEntriesPerDataPage es))"
    "pages_at dm (1 + num_data es) (map (\<lambda>c. page_image slack (IndexPage_bytes c)) (chunks kMaxIndexEntriesPerPage ?idx))"
    "pages_at dm ?bp (map (\<lambda>c. page_image slack (zero_padded c)) (chunks PAGE_SIZE (bf_bits bf)))"
    using lay by (simp_all add: sst_layout_def)
  have nonneg: "0 \<le> num_data es" "0 \<le> num_index 1 es"
    by (simp_all add: num_data_def num_index_def)
  have r1: "DiskManager_ReadPage 0 ?d0 = (Inr (page_image slack (HeaderPage_bytes ?h)), d1)"
    by (simp add: ReadPage_eq pgs(1) d1_def)
  have hr: "HeaderPage_read (page_image slack (HeaderPage_bytes ?h)) = ?h"
    by (rule HeaderPage_round_trip(2)[OF hdr])
  have len: "int (length ?idx) = num_data es" and idx: "concat (chunks kMaxIndexEntriesPerPage ?idx) = ?idx"
    by (simp_all add: sst_index_def num_data_def concat_chunks)
  have "\<exists>n. Open_index (nat (num_data es)) d1 (num_data es) ?ip [] = Inr ([] @ ?idx, d1\<lparr>dm_num_reads := n\<rparr>)"
  proof (cases "es = []")
    case True
    then show ?thesis
      by (auto simp: num_data_def sst_index_def intro!: exI[of _ "dm_num_reads d1"])
  next
    case False
    have "length (chunks kMaxIndexEntriesPerPage ?idx) \<le> nat (num_data es)"
      using length_chunks[of kMaxIndexEntriesPerPage ?idx] len by simp
    then show ?thesis
      using Open_index_spec[of d1 "1 + num_data es" slack "chunks kMaxIndexEntriesPerPage ?idx" "nat (num_data es)" "[]"]
        pgs(3) nonneg chunks_sizes[of _ kMaxIndexEntriesPerPage ?idx] sst_index_props(2)[OF es(2,3), of 1] False len
      unfolding idx by (simp add: d1_def)
  qed
  then obtain n1 where r2: "Open_index (nat (num_data es)) d1 (num_data es) ?ip [] = Inr (?idx, d1\<lparr>dm_num_reads := n1\<rparr>)"
    by auto
  obtain n2 where r3: "Open_bloom (d1\<lparr>dm_num_reads := n1\<rparr>) (length (bf_bits bf)) ?bp [] =
      Inr (bf_bits bf, d1\<lparr>dm_num_reads := n2\<rparr>)"
    using Open_bloom_spec[of "d1\<lparr>dm_num_reads := n1\<rparr>" ?bp slack "bf_bits bf" "[]"] pgs(4) nonneg
    by (auto simp: d1_def)
  let ?sst = "\<lparr>sst_path = path, sst_disk_manager = d1\<lparr>dm_num_reads := n2\<rparr>, sst_num_entries = int (length es),
      sst_min_key = hp_min_key ?h, sst_max_key = hp_max_key ?h, sst_num_data_pages = num_data es,
      sst_first_data_page_id = hp_first_data_page_id ?h, sst_sparse_index = ?idx, sst_bloom = bf,
      sst_id = - 1, sst_obsolete = False\<rparr>"
  have "SSTable_Open path (dm_file dm) = Inr ?sst"
  proof -
    have sel: "hp_num_index_entries ?h = num_data es" "hp_first_index_page_id ?h = ?ip"
      "nat (hp_bloom_num_bytes ?h) = length (bf_bits bf)" "hp_first_bloom_page_id ?h = ?bp"
      "hp_num_entries ?h = int (length es)" "hp_num_data_pages ?h = num_data es"
      "hp_bloom_num_bits ?h = bf_num_bits bf" "nat (hp_bloom_num_hashes ?h) = bf_num_hashes bf"
      by (simp_all add: sst_header_def)
    show ?thesis
      unfolding SSTable_Open_def r1 prod.case sum.case Let_def hr sel r2 r3 BloomFilter_from_bytes_id by simp
  qed
  moreover have "sst_holds ?sst es"
    using es bf pgs(2) by (auto simp: sst_holds_def sst_header_def d1_def sst_index_def)
  ultimately show ?thesis
    using that by simp
qed

end
