(* ===== verification/SSTable_Reads.thy ===== *)
theory SSTable_Reads
  imports SSTable
begin

text \<open>
  Lookups and scans of an open SSTable: \<open>Get\<close> agrees with the run the table holds, an iterator
  started at a key yields the entries of the run from that key on, and the SSTable cursor meets the
  contract the merge iterator relies on. The properties at the end compose \<open>Build\<close>, \<open>Open\<close>, \<open>Get\<close>
  and the iterators.
\<close>

section \<open>Sorted runs cut into pages\<close>

lemma concat_split: "p < length cs \<Longrightarrow> concat cs = concat (take p cs) @ cs ! p @ concat (drop (Suc p) cs)"
  by (metis concat.simps(2) concat_append id_take_nth_drop)

lemma asc_concat:
  assumes "asc (concat cs)" "i < j" "j < length cs" "e \<in> set (cs ! i)" "e' \<in> set (cs ! j)"
  shows "fst e < fst e'"
proof -
  have "asc (concat (take j cs) @ (cs ! j @ concat (drop (Suc j) cs)))"
    using assms(1) concat_split[OF assms(3)] by simp
  moreover have "cs ! i \<in> set (take j cs)"
    using assms(2,3) by (auto simp: in_set_conv_nth intro!: exI[of _ i])
  then have "e \<in> set (concat (take j cs))"
    using assms(4) by auto
  ultimately show ?thesis
    using assms(5) by (auto simp: sorted_wrt_append)
qed

lemma in_concat_take: "e \<in> set (concat (take p cs)) \<Longrightarrow> \<exists>j<p. j < length cs \<and> e \<in> set (cs ! j)"
proof -
  assume "e \<in> set (concat (take p cs))"
  then obtain c where "c \<in> set (take p cs)" "e \<in> set c"
    by auto
  then show ?thesis
    by (metis in_set_conv_nth length_take min_less_iff_conj nth_take)
qed

lemma in_concat_drop: "e \<in> set (concat (drop p cs)) \<Longrightarrow> \<exists>j\<ge>p. j < length cs \<and> e \<in> set (cs ! j)"
proof -
  assume "e \<in> set (concat (drop p cs))"
  then obtain c where c: "c \<in> set (drop p cs)" "e \<in> set c"
    by auto
  then obtain i where "i < length cs - p" "c = cs ! (p + i)"
    by (metis in_set_conv_nth length_drop nth_drop less_diff_conv less_imp_le_nat less_or_eq_imp_le trans_less_add2 zero_less_diff add.commute le_add_diff_inverse nat_le_linear not_less_zero diff_is_0_eq)
  then show ?thesis
    using c(2) by (intro exI[of _ "p + i"]) auto
qed

lemma asc_chunk:
  assumes "asc (concat cs)" "p < length cs"
  shows "asc (cs ! p)"
  using assms(1) by (simp add: concat_split[OF assms(2)] sorted_wrt_append)

lemma map_of_concat_at:
  assumes "p < length cs" "\<And>j. j < length cs \<Longrightarrow> j \<noteq> p \<Longrightarrow> k \<notin> keys_of (cs ! j)"
  shows "map_of (concat cs) k = map_of (cs ! p) k"
proof -
  have "k \<notin> keys_of c" if c: "c \<in> set (take p cs)" for c
  proof -
    obtain j where "j < p" "c = cs ! j"
      using c assms(1) by (auto simp: in_set_conv_nth)
    then show ?thesis
      using assms by simp
  qed
  then have "map_of (concat (take p cs)) k = None"
    by (auto simp: map_of_eq_None_iff)
  moreover have "k \<notin> keys_of c" if c: "c \<in> set (drop (Suc p) cs)" for c
  proof -
    obtain j where "Suc p + j < length cs" "c = cs ! (Suc p + j)"
      using c assms(1) by (auto simp: in_set_conv_nth less_diff_conv add.commute)
    then show ?thesis
      using assms(2)[of "Suc p + j"] by simp
  qed
  then have "map_of (concat (drop (Suc p) cs)) k = None"
    by (auto simp: map_of_eq_None_iff)
  ultimately show ?thesis
    by (subst concat_split[OF assms(1)]) (simp add: map_add_def split: option.splits)
qed

text \<open>The page position the sparse index leads to.\<close>

definition page_for :: "lsm_entry list list \<Rightarrow> KeyType \<Rightarrow> nat \<Rightarrow> bool" where
  "page_for cs k p \<longleftrightarrow> p < length cs \<and> fst (hd (cs ! p)) \<le> k \<and> (Suc p < length cs \<longrightarrow> k < fst (hd (cs ! Suc p)))"

lemma page_for_other:
  assumes "asc (concat cs)" "\<forall>c\<in>set cs. c \<noteq> []" "page_for cs k p" "j < length cs" "e \<in> set (cs ! j)"
  shows "j < p \<Longrightarrow> fst e < k" "p < j \<Longrightarrow> k < fst e"
proof -
  have p: "p < length cs" "fst (hd (cs ! p)) \<le> k" "hd (cs ! p) \<in> set (cs ! p)"
    using assms(2,3) by (auto simp: page_for_def)
  show "fst e < k" if "j < p"
    using asc_concat[OF assms(1) that p(1) assms(5) p(3)] p(2) by simp
  show "k < fst e" if "p < j"
  proof -
    have "Suc p < length cs"
      using that assms(4) by simp
    then have s: "k < fst (hd (cs ! Suc p))" "hd (cs ! Suc p) \<in> set (cs ! Suc p)"
      using assms(2,3) by (auto simp: page_for_def)
    show ?thesis
    proof (cases "j = Suc p")
      case True
      then show ?thesis
        using s assms(5) asc_chunk[OF assms(1) \<open>Suc p < length cs\<close>] by (cases "cs ! Suc p") auto
    next
      case False
      then show ?thesis
        using asc_concat[OF assms(1) _ assms(4) s(2) assms(5)] that s(1) by simp
    qed
  qed
qed

section \<open>Pages of an open table\<close>

definition view_of :: "byte list \<Rightarrow> lsm_entry list \<Rightarrow> bool" where
  "view_of pg c \<longleftrightarrow> DataPage_count pg = int (length c) \<and> map (DataPage_entry pg) [0..<length c] = c"

abbreviation pages_of :: "lsm_entry list \<Rightarrow> lsm_entry list list" where
  "pages_of es \<equiv> chunks kMaxEntriesPerDataPage es"

lemma pages_of_facts:
  "concat (pages_of es) = es" "\<forall>c\<in>set (pages_of es). c \<noteq> []" "pages_of es = [] \<longleftrightarrow> es = []"
  using chunks_sizes[of _ kMaxEntriesPerDataPage es] concat_chunks[of kMaxEntriesPerDataPage es]
    chunks_eq_Nil[of kMaxEntriesPerDataPage es] by auto

lemma sst_holds_page:
  assumes "sst_holds sst es" "j < length (pages_of es)"
  shows "view_of (disk_page (sst_disk_manager sst) (sst_first_data_page_id sst + int j)) (pages_of es ! j)"
    "SSTable_FetchPage sst (sst_first_data_page_id sst + int j) =
       Inr (disk_page (sst_disk_manager sst) (sst_first_data_page_id sst + int j))"
    "sst_page_entries sst j = pages_of es ! j"
proof -
  let ?pg = "disk_page (sst_disk_manager sst) (sst_first_data_page_id sst + int j)"
  let ?c = "pages_of es ! j"
  have ne: "es \<noteq> []"
    using assms(2) by (auto simp del: page_limits)
  obtain slack where pg: "?pg = page_image slack (DataPage_bytes ?c)"
    using assms by (auto simp: sst_holds_def pages_at_def simp del: page_limits)
  have c: "?c \<in> set (pages_of es)"
    using assms(2) by (rule nth_mem)
  have fit: "\<forall>e\<in>set ?c. entry_fits e" "length ?c \<le> kMaxEntriesPerDataPage"
    using chunks_sizes[OF c] assms(1) by (auto simp: sst_holds_def simp del: page_limits)
  have "map (DataPage_entry ?pg) [0..<length ?c] = ?c"
    by (rule nth_equalityI) (simp_all add: pg DataPage_round_trip(3)[OF fit] del: page_limits)
  then show v: "view_of ?pg ?c"
    using DataPage_round_trip(2)[OF fit, of slack] by (simp add: view_of_def pg del: page_limits)
  show "SSTable_FetchPage sst (sst_first_data_page_id sst + int j) = Inr ?pg"
    using assms(1) ne by (simp add: SSTable_FetchPage_def ReadPage_eq sst_holds_def)
  show "sst_page_entries sst j = ?c"
    using v by (simp add: sst_page_entries_def view_of_def Let_def)
qed

lemma sst_entries_eq:
  assumes "sst_holds sst es"
  shows "sst_entries sst = es"
proof -
  have "map (sst_page_entries sst) [0..<length (pages_of es)] = pages_of es"
    by (rule nth_equalityI) (simp_all add: sst_holds_page(3)[OF assms] del: page_limits)
  moreover have "nat (sst_num_data_pages sst) = length (pages_of es)"
    using assms by (simp add: sst_holds_def num_data_def)
  ultimately show ?thesis
    using pages_of_facts(1)[of es] by (simp add: sst_entries_def)
qed

lemma lower_bound_view:
  assumes "view_of pg c"
  shows "DataPage_lower_bound pg k = length (takeWhile (\<lambda>e. fst e < k) c)"
proof -
  have "takeWhile (\<lambda>e. fst e < k) c = takeWhile (\<lambda>e. fst e < k) (map (DataPage_entry pg) [0..<length c])"
    using assms by (simp add: view_of_def)
  also have "\<dots> = map (DataPage_entry pg) (takeWhile (\<lambda>i. fst (DataPage_entry pg i) < k) [0..<length c])"
    by (simp add: takeWhile_map comp_def)
  finally show ?thesis
    using assms by (simp add: DataPage_lower_bound_def view_of_def)
qed

lemma view_entry: "view_of pg c \<Longrightarrow> i < length c \<Longrightarrow> DataPage_entry pg i = c ! i"
  by (metis (no_types, lifting) view_of_def add_0 length_map length_upt nth_map nth_upt)

lemma lower_bound_lookup:
  fixes k :: KeyType
  assumes "asc c"
  defines "it \<equiv> length (takeWhile (\<lambda>e. fst e < k) c)"
  shows "map_of c k = (if it < length c \<and> fst (c ! it) = k then Some (snd (c ! it)) else None)"
  using assms(1) unfolding it_def
proof (induction c)
  case (Cons a c)
  have "map_of c k = None" if "k < fst a"
    using Cons.prems that by (force simp: map_of_eq_None_iff)
  then show ?case
    using Cons linorder_less_linear[of k "fst a"] by (cases a) (auto split: if_splits)
qed simp
section \<open>Lookup\<close>

lemma sst_index_nth:
  "j < length (pages_of es) \<Longrightarrow> sst_index first es ! j = (fst (hd (pages_of es ! j)), first + int j)"
  by (simp add: sst_index_def del: page_limits)

lemma FindPagePos_spec:
  assumes holds: "sst_holds sst es" and ne: "es \<noteq> []" and k: "fst (hd es) \<le> k"
  shows "page_for (pages_of es) k (SSTable_FindPagePos k sst)"
    "SSTable_FindPagePos k sst < length (sst_sparse_index sst)"
    "snd (sst_sparse_index sst ! SSTable_FindPagePos k sst) =
       sst_first_data_page_id sst + int (SSTable_FindPagePos k sst)"
proof -
  let ?cs = "pages_of es" and ?idx = "sst_index (sst_first_data_page_id sst) es" and ?P = "\<lambda>e. \<not> k < fst e"
  define it where "it = length (takeWhile ?P ?idx)"
  have idx: "sst_sparse_index sst = ?idx" and len: "length ?idx = length ?cs"
    using holds ne by (simp_all add: sst_holds_def sst_index_def)
  have "?cs \<noteq> []" and "hd (hd ?cs) = hd es"
    using ne chunks_step[OF ne, of kMaxEntriesPerDataPage] by (simp_all add: hd_take)
  then have zero: "?P (?idx ! 0)"
    using k sst_index_nth[of 0 es] by (simp add: hd_conv_nth del: page_limits)
  have "it \<noteq> 0"
    using zero len \<open>?cs \<noteq> []\<close> unfolding it_def by (cases ?idx) auto
  have le: "it \<le> length ?cs"
    unfolding it_def len[symmetric] by (rule length_takeWhile_le)
  have pos: "SSTable_FindPagePos k sst = it - 1"
    using \<open>it \<noteq> 0\<close> by (simp add: SSTable_FindPagePos_def idx it_def)
  have lt: "it - 1 < length (takeWhile ?P ?idx)"
    using \<open>it \<noteq> 0\<close> by (simp add: it_def)
  have "?P (takeWhile ?P ?idx ! (it - 1))"
    using set_takeWhileD[OF nth_mem[OF lt]] by blast
  then have "?P (?idx ! (it - 1))"
    by (simp only: takeWhile_nth[OF lt] not_False_eq_True)
  moreover have "it < length ?cs \<Longrightarrow> \<not> ?P (?idx ! it)"
    unfolding it_def len[symmetric] by (rule nth_length_takeWhile)
  ultimately show pf: "page_for ?cs k (SSTable_FindPagePos k sst)"
    using \<open>it \<noteq> 0\<close> le sst_index_nth[of _ es] by (simp add: pos page_for_def del: page_limits)
  show "SSTable_FindPagePos k sst < length (sst_sparse_index sst)"
    using pf by (simp add: page_for_def idx len del: page_limits)
  show "snd (sst_sparse_index sst ! SSTable_FindPagePos k sst) = sst_first_data_page_id sst + int (SSTable_FindPagePos k sst)"
    using pf sst_index_nth[of _ es] by (simp add: page_for_def idx del: page_limits)
qed

lemma sst_holds_asc: "sst_holds sst es \<Longrightarrow> asc (concat (pages_of es))"
  by (simp add: sst_holds_def concat_chunks)

lemma asc_bounds:
  assumes "asc es" "e \<in> set es"
  shows "fst (hd es) \<le> fst e" "fst e \<le> fst (last es)"
proof -
  show "fst (hd es) \<le> fst e"
    using assms by (cases es) auto
  have "asc (butlast es @ [last es])" "e \<in> set (butlast es @ [last es])"
    using assms by (cases "es = []"; simp)+
  then show "fst e \<le> fst (last es)"
    by (auto simp: sorted_wrt_append simp del: append_butlast_last_id)
qed

lemma asc_outside: "asc es \<Longrightarrow> k < fst (hd es) \<or> fst (last es) < k \<Longrightarrow> map_of es k = None"
  using asc_bounds[of es] by (force simp: map_of_eq_None_iff)

lemma Get_spec:
  assumes holds: "sst_holds sst es"
  shows "SSTable_Get k sst = Inr (map_of es k)" "is_ok (SSTable_MightContain k sst)"
    "SSTable_MightContain k sst = Inr False \<Longrightarrow> map_of es k = None"
proof -
  have es: "asc es" "sst_num_entries sst = int (length es)"
    "es \<noteq> [] \<Longrightarrow> sst_min_key sst = fst (hd es) \<and> sst_max_key sst = fst (last es)"
    and bf: "is_ok (Bloom_MightContain k (sst_bloom sst))"
      "k \<in> keys_of es \<Longrightarrow> Bloom_MightContain k (sst_bloom sst) = Inr True"
    using holds by (auto simp: sst_holds_def bloom_covers_def)
  show ok: "is_ok (SSTable_MightContain k sst)"
    using bf(1) by (simp add: SSTable_MightContain_def)
  show none: "map_of es k = None" if "SSTable_MightContain k sst = Inr False"
  proof (cases "es = []")
    case False
    then show ?thesis
      using that es bf(2) asc_outside[OF es(1), of k]
      by (auto simp: SSTable_MightContain_def map_of_eq_None_iff split: if_splits)
  qed simp
  show "SSTable_Get k sst = Inr (map_of es k)"
  proof (cases "SSTable_MightContain k sst")
    case (Inl e)
    then show ?thesis
      using ok by simp
  next
    case (Inr b)
    show ?thesis
    proof (cases b)
      case False
      then show ?thesis
        using Inr none by (simp add: SSTable_Get_def)
    next
      case True
      then have ne: "es \<noteq> []" and k: "fst (hd es) \<le> k"
        using Inr es by (auto simp: SSTable_MightContain_def split: if_splits)
      let ?p = "SSTable_FindPagePos k sst" and ?cs = "pages_of es"
      note fp = FindPagePos_spec[OF holds ne k]
      have p: "?p < length ?cs"
        using fp(1) by (simp add: page_for_def)
      note pg = sst_holds_page[OF holds p]
      have other: "k \<notin> keys_of (?cs ! j)" if "j < length ?cs" "j \<noteq> ?p" for j
        using page_for_other[OF sst_holds_asc[OF holds] pages_of_facts(2) fp(1) that(1)] that(2)
        by (metis (no_types, lifting) image_iff less_irrefl linorder_neqE_nat)
      have m: "map_of es k = map_of (?cs ! ?p) k"
        using map_of_concat_at[OF p other] pages_of_facts(1)[of es] by simp
      show ?thesis
        using Inr True fp(2,3) pg(1,2) lower_bound_view[OF pg(1), of k] view_entry[OF pg(1)]
          lower_bound_lookup[OF asc_chunk[OF sst_holds_asc[OF holds] p], of k]
          length_takeWhile_le[of "\<lambda>e. fst e < k" "?cs ! ?p"]
        by (auto simp: SSTable_Get_def Let_def m view_of_def simp del: page_limits)
    qed
  qed
qed

section \<open>Iterators\<close>

definition sst_inv :: "sstable \<Rightarrow> bool" where
  "sst_inv sst \<longleftrightarrow> sst_holds sst (sst_entries sst)"

abbreviation sst_pages :: "sstable \<Rightarrow> lsm_entry list list" where
  "sst_pages sst \<equiv> pages_of (sst_entries sst)"

text \<open>The iterator stands on entry \<open>i\<close> of page \<open>p\<close>.\<close>

definition iter_at :: "sstable \<Rightarrow> nat \<Rightarrow> nat \<Rightarrow> sst_iterator \<Rightarrow> bool" where
  "iter_at sst p i it \<longleftrightarrow> p < length (sst_pages sst) \<and> i < length (sst_pages sst ! p) \<and>
     it_page it = Some (disk_page (sst_disk_manager sst) (sst_first_data_page_id sst + int p)) \<and>
     it_index it = int i \<and> it_page_pos it = p \<and> (it_cached_key it, it_cached_value it) = sst_pages sst ! p ! i"

definition sst_cursor_inv :: "sstable_cursor \<Rightarrow> bool" where
  "sst_cursor_inv c \<longleftrightarrow> sst_inv (fst c) \<and> (it_page (snd c) = None \<or> (\<exists>p i. iter_at (fst c) p i (snd c)))"

definition sst_rest :: "sstable_cursor \<Rightarrow> lsm_entry list" where
  "sst_rest c =
     (case it_page (snd c) of
        None \<Rightarrow> []
      | Some _ \<Rightarrow> drop (nat (it_index (snd c))) (sst_page_entries (fst c) (it_page_pos (snd c))) @
          concat (map (sst_page_entries (fst c)) [Suc (it_page_pos (snd c))..<nat (sst_num_data_pages (fst c))]))"

lemma sst_inv_facts:
  assumes "sst_inv sst"
  shows "nat (sst_num_data_pages sst) = length (sst_pages sst)" "sst_num_data_pages sst = int (length (sst_pages sst))"
    "\<And>j. j < length (sst_pages sst) \<Longrightarrow> sst_page_entries sst j = sst_pages sst ! j"
    "\<And>j. j < length (sst_pages sst) \<Longrightarrow> sst_pages sst ! j \<noteq> []"
proof -
  have h: "sst_holds sst (sst_entries sst)"
    using assms by (simp add: sst_inv_def)
  then show "nat (sst_num_data_pages sst) = length (sst_pages sst)" "sst_num_data_pages sst = int (length (sst_pages sst))"
    by (simp_all add: sst_holds_def num_data_def)
  show "sst_page_entries sst j = sst_pages sst ! j" if "j < length (sst_pages sst)" for j
    by (rule sst_holds_page(3)[OF h that])
  show "sst_pages sst ! j \<noteq> []" if "j < length (sst_pages sst)" for j
    using pages_of_facts(2)[of "sst_entries sst"] nth_mem[OF that] by blast
qed

lemma sst_rest_at:
  assumes "sst_inv sst" "iter_at sst p i it"
  shows "sst_rest (sst, it) = drop i (sst_pages sst ! p) @ concat (drop (Suc p) (sst_pages sst))"
proof -
  have "map (sst_page_entries sst) [Suc p..<length (sst_pages sst)] = drop (Suc p) (sst_pages sst)"
    by (rule nth_equalityI) (auto simp: sst_inv_facts(3)[OF assms(1)] simp del: page_limits)
  then show ?thesis
    using assms(2) sst_inv_facts(1,3)[OF assms(1)] by (simp add: sst_rest_def iter_at_def del: page_limits)
qed

lemma LoadCurrent_at:
  assumes "sst_inv sst" "p < length (sst_pages sst)" "i < length (sst_pages sst ! p)"
    and "it_page it = Some (disk_page (sst_disk_manager sst) (sst_first_data_page_id sst + int p))"
    and "it_index it = int i" "it_page_pos it = p"
  shows "\<exists>it'. SSTIter_LoadCurrent it = Inr it' \<and> iter_at sst p i it'"
proof -
  have "DataPage_entry (disk_page (sst_disk_manager sst) (sst_first_data_page_id sst + int p)) i = sst_pages sst ! p ! i"
    using view_entry[OF sst_holds_page(1)] assms(1-3) by (simp add: sst_inv_def del: page_limits)
  then show ?thesis
    using assms(2-6) by (simp add: SSTIter_LoadCurrent_def iter_at_def Let_def)
qed

lemma drop_tl: "i < length xs \<Longrightarrow> drop (Suc i) xs = tl (drop i xs)"
  by (simp add: drop_Suc tl_drop)

lemma SSTIter_Next_ok:
  assumes inv: "sst_inv sst" and at: "iter_at sst p i it"
  shows "\<exists>it'. SSTIter_Next sst it = Inr it' \<and> sst_cursor_inv (sst, it') \<and> sst_rest (sst, it') = tl (sst_rest (sst, it))"
proof -
  let ?cs = "sst_pages sst" and ?pg = "\<lambda>p. disk_page (sst_disk_manager sst) (sst_first_data_page_id sst + int p)"
  have h: "sst_holds sst (sst_entries sst)"
    using inv by (simp add: sst_inv_def)
  have a: "p < length ?cs" "i < length (?cs ! p)" "it_page it = Some (?pg p)" "it_index it = int i" "it_page_pos it = p"
    using at by (auto simp: iter_at_def)
  have count: "DataPage_count (?pg p) = int (length (?cs ! p))"
    using sst_holds_page(1)[OF h a(1)] by (simp add: view_of_def)
  have rest: "tl (sst_rest (sst, it)) = drop (Suc i) (?cs ! p) @ concat (drop (Suc p) ?cs)"
    using sst_rest_at[OF inv at] a(2) drop_tl[OF a(2)] by simp
  show ?thesis
  proof (cases "Suc i < length (?cs ! p)")
    case True
    then obtain it' where it': "SSTIter_LoadCurrent (it\<lparr>it_index := int i + 1\<rparr>) = Inr it'" "iter_at sst p (Suc i) it'"
      using LoadCurrent_at[OF inv a(1) True, of "it\<lparr>it_index := int i + 1\<rparr>"] a by auto
    then have "SSTIter_Next sst it = Inr it'"
      using a count True by (simp add: SSTIter_Next_def Let_def)
    then show ?thesis
      using it'(2) inv rest sst_rest_at[OF inv it'(2)] by (auto simp: sst_cursor_inv_def)
  next
    case False
    then have last: "Suc i = length (?cs ! p)"
      using a(2) by simp
    show ?thesis
    proof (cases "Suc p < length ?cs")
      case True
      let ?it = "it\<lparr>it_page_pos := Suc p, it_page_id := sst_first_data_page_id sst + int (Suc p),
        it_page := Some (?pg (Suc p)), it_index := 0\<rparr>"
      obtain it' where it': "SSTIter_LoadCurrent ?it = Inr it'" "iter_at sst (Suc p) 0 it'"
        using LoadCurrent_at[OF inv True, of 0 ?it] sst_inv_facts(4)[OF inv True] by auto
      have "SSTIter_Next sst it = SSTIter_LoadCurrent ?it"
        using a count last True sst_holds_page(2)[OF h True] sst_inv_facts(2)[OF inv]
        by (simp add: SSTIter_Next_def Let_def del: page_limits)
      moreover have "concat (drop (Suc p) ?cs) = ?cs ! Suc p @ concat (drop (Suc (Suc p)) ?cs)"
        using True by (simp add: Cons_nth_drop_Suc[symmetric])
      ultimately show ?thesis
        using it' inv rest last sst_rest_at[OF inv it'(2)] by (auto simp: sst_cursor_inv_def)
    next
      case False
      then have "SSTIter_Next sst it = Inr (it\<lparr>it_index := int i + 1, it_page := None, it_page_pos := Suc p,
          it_page_id := INVALID_PAGE_ID\<rparr>)"
        using a count last sst_inv_facts(2)[OF inv] by (simp add: SSTIter_Next_def Let_def del: page_limits)
      then show ?thesis
        using False last rest inv by (simp add: sst_cursor_inv_def sst_rest_def)
    qed
  qed
qed

lemma asc_filter_from: "asc c \<Longrightarrow> filter (\<lambda>e. k \<le> fst e) c = dropWhile (\<lambda>e. fst e < k) c"
proof (induction c)
  case (Cons a c)
  show ?case
  proof (cases "fst a < k")
    case False
    then have "\<forall>x\<in>set c. k \<le> fst x"
      using Cons.prems by auto
    then show ?thesis
      using False by (simp add: filter_id_conv)
  qed (use Cons in simp)
qed simp

lemma filter_from_page:
  assumes "asc (concat cs)" "\<forall>c\<in>set cs. c \<noteq> []" "page_for cs k' p" "k \<le> k'" "\<And>e. e \<in> set (concat cs) \<Longrightarrow> fst e < k' \<Longrightarrow> fst e < k"
  shows "filter (\<lambda>e. k \<le> fst e) (concat cs) = dropWhile (\<lambda>e. fst e < k) (cs ! p) @ concat (drop (Suc p) cs)"
proof -
  have p: "p < length cs"
    using assms(3) by (simp add: page_for_def)
  have lo: "fst e < k" if e: "e \<in> set (concat (take p cs))" for e
  proof -
    obtain j where j: "j < p" "e \<in> set (cs ! j)"
      using in_concat_take[OF e] by blast
    then have "fst e < k'"
      using page_for_other(1)[OF assms(1-3), of j e] p by simp
    moreover have "e \<in> set (concat cs)"
      using e by (auto dest: in_set_takeD)
    ultimately show ?thesis
      using assms(5) by blast
  qed
  have hi: "k \<le> fst e" if e: "e \<in> set (concat (drop (Suc p) cs))" for e
  proof -
    obtain j where j: "Suc p \<le> j" "j < length cs" "e \<in> set (cs ! j)"
      using in_concat_drop[OF e] by blast
    then show ?thesis
      using page_for_other(2)[OF assms(1-3), of j e] assms(4) by simp
  qed
  have "filter (\<lambda>e. k \<le> fst e) (concat (take p cs)) = []"
    using lo by (force simp: filter_empty_conv)
  moreover have "filter (\<lambda>e. k \<le> fst e) (concat (drop (Suc p) cs)) = concat (drop (Suc p) cs)"
    using hi by (auto simp: filter_id_conv)
  ultimately show ?thesis
    unfolding concat_split[OF p] using asc_filter_from[OF asc_chunk[OF assms(1) p]] by simp
qed

lemma next_position:
  assumes "p < length cs" "i \<le> length (cs ! p)" "\<forall>c\<in>set cs. c \<noteq> []" "drop i (cs ! p) @ concat (drop (Suc p) cs) \<noteq> []"
  defines "q \<equiv> (if i = length (cs ! p) then Suc p else p)" and "j \<equiv> (if i = length (cs ! p) then 0 else i)"
  shows "q < length cs" "j < length (cs ! q)"
    "drop j (cs ! q) @ concat (drop (Suc q) cs) = drop i (cs ! p) @ concat (drop (Suc p) cs)"
proof -
  show "q < length cs" and "j < length (cs ! q)"
    using assms(1-4) by (cases "Suc p < length cs"; auto simp: q_def j_def)+
  show "drop j (cs ! q) @ concat (drop (Suc q) cs) = drop i (cs ! p) @ concat (drop (Suc p) cs)"
  proof (cases "i = length (cs ! p)")
    case True
    then have "drop (Suc p) cs = cs ! Suc p # drop (Suc (Suc p)) cs"
      using \<open>q < length cs\<close> by (simp add: q_def Cons_nth_drop_Suc)
    then show ?thesis
      using True by (simp add: q_def j_def)
  qed (simp add: q_def j_def)
qed

lemma NewIterator_ok:
  assumes inv: "sst_inv sst"
  shows "\<exists>it. SSTable_NewIterator k sst = Inr it \<and> sst_cursor_inv (sst, it) \<and>
    sst_rest (sst, it) = filter (\<lambda>e. k \<le> fst e) (sst_entries sst)"
proof -
  let ?es = "sst_entries sst" and ?cs = "sst_pages sst"
  let ?pg = "\<lambda>p. disk_page (sst_disk_manager sst) (sst_first_data_page_id sst + int p)"
  have h: "sst_holds sst ?es"
    using inv by (simp add: sst_inv_def)
  note ac = sst_holds_asc[OF h] and fc = pages_of_facts[of ?es]
  have es: "asc ?es" "sst_num_entries sst = int (length ?es)"
    "?es \<noteq> [] \<Longrightarrow> sst_min_key sst = fst (hd ?es) \<and> sst_max_key sst = fst (last ?es)"
    using h by (auto simp: sst_holds_def)
  show ?thesis
  proof (cases "?es = [] \<or> fst (last ?es) < k")
    case True
    have "filter (\<lambda>e. k \<le> fst e) ?es = []"
      using True asc_bounds(2)[OF es(1)] by (force simp: filter_empty_conv)
    then show ?thesis
      using True es inv by (auto simp: SSTable_NewIterator_def sst_cursor_inv_def sst_rest_def sst_iterator_default_def)
  next
    case False
    let ?k = "max k (fst (hd ?es))"
    define p where "p = SSTable_FindPagePos ?k sst"
    note fp = FindPagePos_spec[OF h, of ?k, folded p_def]
    have pf: "page_for ?cs ?k p" "p < length (sst_sparse_index sst)"
      "snd (sst_sparse_index sst ! p) = sst_first_data_page_id sst + int p"
      using False fp by auto
    then have p: "p < length ?cs"
      by (simp add: page_for_def)
    define i where "i = length (takeWhile (\<lambda>e. fst e < k) (?cs ! p))"
    have rest: "filter (\<lambda>e. k \<le> fst e) ?es = drop i (?cs ! p) @ concat (drop (Suc p) ?cs)"
    proof -
      have "fst e < k" if "e \<in> set (concat ?cs)" "fst e < ?k" for e
        using that(2) asc_bounds(1)[OF es(1), of e] that(1)[unfolded fc(1)] by simp
      then show ?thesis
        using filter_from_page[OF ac fc(2) pf(1), of k] fc(1) by (simp add: dropWhile_eq_drop i_def)
    qed
    have lb: "DataPage_lower_bound (?pg p) k = i" and count: "DataPage_count (?pg p) = int (length (?cs ! p))"
      using sst_holds_page(1)[OF h p] lower_bound_view[of "?pg p" "?cs ! p" k] by (auto simp: i_def view_of_def)
    have "i \<le> length (?cs ! p)"
      by (simp add: i_def length_takeWhile_le)
    define q j where "q = (if i = length (?cs ! p) then Suc p else p)" and "j = (if i = length (?cs ! p) then 0 else i)"
    have "last ?es \<in> set (filter (\<lambda>e. k \<le> fst e) ?es)"
      using False by auto
    then have "drop i (?cs ! p) @ concat (drop (Suc p) ?cs) \<noteq> []"
      unfolding rest by force
    note q = next_position[OF p \<open>i \<le> length (?cs ! p)\<close> fc(2) this, folded q_def j_def]
    let ?it = "sst_iterator_default\<lparr>it_page := Some (?pg q), it_page_id := sst_first_data_page_id sst + int q,
        it_index := int j, it_page_pos := q\<rparr>"
    obtain it where it: "SSTIter_LoadCurrent ?it = Inr it" "iter_at sst q j it"
      using LoadCurrent_at[OF inv q(1,2), of ?it] by auto
    have "SSTable_NewIterator k sst = SSTIter_LoadCurrent ?it"
      using False es pf(2,3) lb count \<open>i \<le> length (?cs ! p)\<close> sst_holds_page(2)[OF h p] sst_holds_page(2)[OF h q(1)]
      by (cases "i = length (?cs ! p)")
         (simp_all add: SSTable_NewIterator_def p_def[symmetric] Let_def q_def j_def add.assoc del: page_limits)
    then show ?thesis
      using it inv q(3) rest sst_rest_at[OF inv it(2)] by (auto simp: sst_cursor_inv_def)
  qed
qed

section \<open>SSTable cursors satisfy the contract\<close>

interpretation sstable_cursor: lsm_cursor SSTableCursor sst_cursor_inv sst_rest
proof (unfold_locales, goal_cases)
  case (1 c)
  then have inv: "sst_inv (fst c)"
    by (simp add: sst_cursor_inv_def)
  then have asc: "asc (concat (sst_pages (fst c)))"
    using sst_holds_asc by (simp add: sst_inv_def)
  show ?case
  proof (cases "it_page (snd c)")
    case (Some pg)
    then obtain p i where at: "iter_at (fst c) p i (snd c)"
      using 1 by (auto simp: sst_cursor_inv_def)
    then have p: "p < length (sst_pages (fst c))"
      by (simp add: iter_at_def)
    have "concat (sst_pages (fst c)) = (concat (take p (sst_pages (fst c))) @ take i (sst_pages (fst c) ! p)) @ sst_rest c"
      using concat_split[OF p] sst_rest_at[OF inv at] by (metis append.assoc append_take_drop_id prod.collapse)
    then show ?thesis
      using asc by (simp only: map_append sorted_wrt_append)
  qed (simp add: sst_rest_def)
next
  case (2 c)
  then show ?case
    using sst_rest_at[of "fst c" _ _ "snd c"]
    by (auto simp: SSTableCursor_def sst_cursor_inv_def sst_rest_def iter_at_def)
next
  case (3 c)
  then obtain p i where at: "sst_inv (fst c)" "iter_at (fst c) p i (snd c)"
    by (auto simp: sst_cursor_inv_def sst_rest_def)
  then show ?case
    using sst_rest_at[OF at] by (auto simp: SSTableCursor_def iter_at_def hd_append hd_drop_conv_nth dest: sym)
next
  case (4 c)
  then obtain p i where at: "sst_inv (fst c)" "iter_at (fst c) p i (snd c)"
    by (auto simp: sst_cursor_inv_def sst_rest_def)
  then show ?case
    using sst_rest_at[OF at] by (auto simp: SSTableCursor_def iter_at_def hd_append hd_drop_conv_nth dest: sym)
next
  case (5 c)
  then obtain p i where at: "sst_inv (fst c)" "iter_at (fst c) p i (snd c)"
    by (auto simp: sst_cursor_inv_def sst_rest_def)
  then show ?case
    using SSTIter_Next_ok[OF at] by (cases c) (auto simp: SSTableCursor_def SSTableCursor_Next_def)
qed

section \<open>Building, opening and reading back\<close>

text \<open>Everything a cursor yields from its position on.\<close>

fun cursor_drain :: "nat \<Rightarrow> 'c LSMCursor \<Rightarrow> 'c \<Rightarrow> lsm_entry list result" where
  "cursor_drain 0 ops c = endless"
| "cursor_drain (Suc fuel) ops c =
     (if \<not> cur_Valid ops c then Inr []
      else case cur_Next ops c of
             Inl e \<Rightarrow> Inl e
           | Inr c' \<Rightarrow>
               (case cursor_drain fuel ops c' of
                  Inl e \<Rightarrow> Inl e
                | Inr es \<Rightarrow> Inr ((cur_Key ops c, cur_Value ops c) # es)))"

context lsm_cursor
begin

lemma cursor_drain_rest: "cinv c \<Longrightarrow> length (rest c) < fuel \<Longrightarrow> cursor_drain fuel ops c = Inr (rest c)"
proof (induction fuel arbitrary: c)
  case (Suc fuel)
  show ?case
  proof (cases "rest c = []")
    case True
    then show ?thesis
      using Valid_iff[OF Suc.prems(1)] by simp
  next
    case False
    obtain c' where c': "cur_Next ops c = Inr c'" "cinv c'" "rest c' = tl (rest c)"
      using Next_ok[OF Suc.prems(1) False] by blast
    have "length (rest c') < fuel"
      using c'(3) Suc.prems(2) False by (cases "rest c") auto
    then have "cursor_drain fuel ops c' = Inr (tl (rest c))"
      using Suc.IH[OF c'(2)] c'(3) by simp
    moreover have "(cur_Key ops c, cur_Value ops c) # tl (rest c) = rest c"
      using Key_eq[OF Suc.prems(1) False] Value_eq[OF Suc.prems(1) False] False by simp
    ultimately show ?thesis
      using Valid_iff[OF Suc.prems(1)] False c'(1) by simp
  qed
qed simp

end

lemma open_empty_next: "dm_next_page_id (DiskManager_open []) = 0"
  by (simp add: DiskManager_open_def PAGE_SIZE_def)

text \<open>A table whose pages sit at the start of a file can be opened.\<close>

lemma Open_built:
  assumes "sst_fits sz es" "sst_layout dm slack 0 es bf" "header_fits (sst_header 0 es bf)" "bloom_covers bf es"
  obtains sst where "SSTable_Open path (dm_file dm) = Inr sst" "sst_holds sst es" "sst_path sst = path"
    "sst_id sst = - 1" "\<not> sst_obsolete sst"
  by (rule Open_layout[OF assms(2-4), of path]) (use assms(1) in \<open>auto simp: sst_fits_def\<close>)

lemma Build_fresh:
  assumes "sst_fits sz es"
  obtains dm bf where "SSTable_Build slack sz [] es = Inr (dm_file dm)" "sst_layout dm slack 0 es bf"
    "bloom_covers bf es" "header_fits (sst_header 0 es bf)"
    "length (dm_file dm) = nat (sst_end 0 es (bf_bits bf)) * PAGE_SIZE" "sst_end 0 es (bf_bits bf) < 2 ^ 32"
  by (rule Build_layout[OF assms, of 0 "[]" slack]) (simp_all add: open_empty_next)

lemma Build_Open:
  assumes "sst_fits sz es"
  obtains img sst where "SSTable_Build slack sz [] es = Inr img" "SSTable_Open path img = Inr sst"
    "sst_holds sst es" "sst_path sst = path" "sst_id sst = - 1" "\<not> sst_obsolete sst"
proof -
  obtain dm bf where b: "SSTable_Build slack sz [] es = Inr (dm_file dm)" "sst_layout dm slack 0 es bf"
    "bloom_covers bf es" "header_fits (sst_header 0 es bf)"
    by (rule Build_fresh[OF assms]) blast
  show ?thesis
    by (rule Open_built[OF assms b(2,4,3), of path]) (rule that[OF b(1)])
qed

lemma sst_holds_inv: "sst_holds sst es \<Longrightarrow> sst_inv sst"
  by (simp add: sst_inv_def sst_entries_eq)

lemma sst_scan:
  assumes "sst_holds sst es"
  shows "\<exists>it. SSTable_NewIterator k sst = Inr it \<and>
    cursor_drain (length es + 1) SSTableCursor (sst, it) = Inr (filter (\<lambda>e. k \<le> fst e) es)"
proof -
  obtain it where it: "SSTable_NewIterator k sst = Inr it" "sst_cursor_inv (sst, it)"
    "sst_rest (sst, it) = filter (\<lambda>e. k \<le> fst e) es"
    using NewIterator_ok[OF sst_holds_inv[OF assms], of k] sst_entries_eq[OF assms] by auto
  have "length (sst_rest (sst, it)) < length es + 1"
    unfolding it(3) by (simp add: less_Suc_eq_le)
  from sstable_cursor.cursor_drain_rest[OF it(2) this] show ?thesis
    using it(1,3) by auto
qed

text \<open>
  C12. A sorted run of entries survives the disk: the file \<open>Build\<close> writes for it, opened again, answers
  \<open>Get\<close> for every key exactly as the run does, and an iterator from any start key yields exactly
  the entries of the run from that key on, whatever memory follows the page buffers.
\<close>

theorem sstable_round_trip:
  assumes "sst_fits sz es"
  shows "\<exists>img sst. SSTable_Build slack sz [] es = Inr img \<and> SSTable_Open path img = Inr sst \<and>
    (\<forall>k. SSTable_Get k sst = Inr (map_of es k)) \<and>
    (\<forall>k. \<exists>it. SSTable_NewIterator k sst = Inr it \<and>
       cursor_drain (length es + 1) SSTableCursor (sst, it) = Inr (filter (\<lambda>e. k \<le> fst e) es))"
proof -
  obtain img sst where b: "SSTable_Build slack sz [] es = Inr img" "SSTable_Open path img = Inr sst" "sst_holds sst es"
    by (rule Build_Open[OF assms])
  then show ?thesis
    using Get_spec(1)[OF b(3)] sst_scan[OF b(3)] by (intro exI[of _ img] exI[of _ sst]) simp
qed

definition demo_run :: "lsm_entry list" where
  "demo_run = [(- 3, LSMValue_Value ''a''), (7, LSMValue_Tombstone), (12, LSMValue_Value ''bc'')]"

definition demo_run2 :: "lsm_entry list" where
  "demo_run2 = [(7, LSMValue_Value ''new'')]"

lemma demo_fits: "sst_fits (\<lambda>_. (40, 7)) demo_run" "sst_fits (\<lambda>_. (40, 7)) demo_run2"
  by (simp_all add: demo_run_def demo_run2_def sst_fits_def sizing_ok_def entry_fits_def is_int64_def INVALID_KEY_def
      INT64_MAX_def LSMValue_Value_def LSMValue_Tombstone_def MAX_VALUE_SIZE_def)

theorem sstable_round_trip_witness:
  "\<exists>img sst. SSTable_Build (\<lambda>_. 0xCC) (\<lambda>_. (40, 7)) [] demo_run = Inr img \<and> SSTable_Open ''db.sst0'' img = Inr sst \<and>
     SSTable_Get 12 sst = Inr (Some (LSMValue_Value ''bc'')) \<and> SSTable_Get 8 sst = Inr None"
  using sstable_round_trip[OF demo_fits(1), of "\<lambda>_. 0xCC" "''db.sst0''"] by (force simp: demo_run_def)

lemma sst_layout_unchanged:
  assumes "sst_layout dm slack 0 es bf" "\<And>q. 0 \<le> q \<Longrightarrow> q < sst_end 0 es (bf_bits bf) \<Longrightarrow> disk_page dm' q = disk_page dm q"
  shows "sst_layout dm' slack 0 es bf"
  using assms unfolding sst_layout_def
  by (auto simp: sst_end_def num_data_def num_index_def pages_at_def simp del: page_limits)

lemma SSTable_rebuild:
  assumes "sst_fits sz es" "sst_fits sz es2" "SSTable_Build slack sz [] es = Inr img" "SSTable_Build slack sz img es2 = Inr img2"
  obtains sst where "SSTable_Open path img2 = Inr sst" "sst_holds sst es"
proof -
  obtain dm bf where b: "SSTable_Build slack sz [] es = Inr (dm_file dm)" "sst_layout dm slack 0 es bf"
    "bloom_covers bf es" "header_fits (sst_header 0 es bf)"
    "length (dm_file dm) = nat (sst_end 0 es (bf_bits bf)) * PAGE_SIZE" "sst_end 0 es (bf_bits bf) < 2 ^ 32"
    by (rule Build_fresh[OF assms(1)])
  have img: "img = dm_file dm"
    using assms(3) b(1) by simp
  define h where "h = dm_next_page_id (DiskManager_open img)"
  have h: "h = sst_end 0 es (bf_bits bf)"
    using b(5) by (simp add: h_def img DiskManager_open_def sst_end_def num_data_def num_index_def PAGE_SIZE_def)
  have "h < 2 ^ 32"
    using b(6) h by simp
  obtain dm2 where "SSTable_Build slack sz img es2 = Inr (dm_file dm2)"
    and old: "\<And>q. 0 \<le> q \<Longrightarrow> q < h \<Longrightarrow> disk_page dm2 q = disk_page (DiskManager_open img) q"
    by (rule Build_layout[OF assms(2) h_def \<open>h < 2 ^ 32\<close>, of slack]) blast
  then have img2: "img2 = dm_file dm2"
    using assms(4) by simp
  have "sst_layout dm2 slack 0 es bf"
    by (rule sst_layout_unchanged[OF b(2)]) (use old h img in simp)
  from Open_built[OF assms(1) this b(4,3), of path] show ?thesis
    using that img2 by blast
qed

lemma SSTable_rebuild_succeeds:
  assumes "sst_fits sz es" "sst_fits sz es2"
  obtains img img2 where "SSTable_Build slack sz [] es = Inr img" "SSTable_Build slack sz img es2 = Inr img2"
proof -
  obtain dm bf where b: "SSTable_Build slack sz [] es = Inr (dm_file dm)" "sst_layout dm slack 0 es bf"
    "bloom_covers bf es" "header_fits (sst_header 0 es bf)"
    "length (dm_file dm) = nat (sst_end 0 es (bf_bits bf)) * PAGE_SIZE" "sst_end 0 es (bf_bits bf) < 2 ^ 32"
    by (rule Build_fresh[OF assms(1)])
  have "dm_next_page_id (DiskManager_open (dm_file dm)) < 2 ^ 32"
    using b(5,6) by (simp add: DiskManager_open_def PAGE_SIZE_def)
  then show ?thesis
    by (rule Build_layout[OF assms(2) refl, of "dm_file dm" slack]) (rule that[OF b(1)])
qed

text \<open>
  C33. \<open>Build\<close> on a path that already holds a table does not replace it: the new table is appended and
  its header is not page 0, so \<open>Open\<close> serves the old entries. Reusing the id of a table whose
  registration in the manifest was lost therefore brings the old entries back and loses the new.
\<close>

theorem sstable_rebuild_serves_old:
  assumes "sst_fits sz es" "sst_fits sz es2" "SSTable_Build slack sz [] es = Inr img" "SSTable_Build slack sz img es2 = Inr img2"
  shows "\<exists>sst. SSTable_Open path img2 = Inr sst \<and> (\<forall>k. SSTable_Get k sst = Inr (map_of es k))"
proof -
  obtain sst where "SSTable_Open path img2 = Inr sst" "sst_holds sst es"
    by (rule SSTable_rebuild[OF assms])
  then show ?thesis
    using Get_spec(1) by blast
qed

theorem sstable_rebuild_serves_old_witness:
  "\<exists>img img2 sst. SSTable_Build (\<lambda>_. 0) (\<lambda>_. (40, 7)) [] demo_run = Inr img \<and>
     SSTable_Build (\<lambda>_. 0) (\<lambda>_. (40, 7)) img demo_run2 = Inr img2 \<and> SSTable_Open ''db.sst0'' img2 = Inr sst \<and>
     SSTable_Get 7 sst = Inr (Some LSMValue_Tombstone) \<and> map_of demo_run2 7 = Some (LSMValue_Value ''new'')"
proof -
  obtain img img2 where b: "SSTable_Build (\<lambda>_. 0) (\<lambda>_. (40, 7)) [] demo_run = Inr img"
    "SSTable_Build (\<lambda>_. 0) (\<lambda>_. (40, 7)) img demo_run2 = Inr img2"
    by (rule SSTable_rebuild_succeeds[OF demo_fits])
  show ?thesis
    using sstable_rebuild_serves_old[OF demo_fits b, of "''db.sst0''"] b by (force simp: demo_run_def demo_run2_def)
qed

end
