(* ===== verification/Log_Manager.thy ===== *)
theory Log_Manager
  imports Page_Codec
begin

text \<open>
  \<^verbatim>\<open>src/src/wal/log_record.h\<close> and \<^verbatim>\<open>src/src/wal/log_manager.{h,cpp}\<close>: the append-only, page-based
  write-ahead log, down to the bytes of its records.

  The log stands for the list of its records, numbered by position. The theorems show that
  appending extends that list, that records are read back from the current page and from earlier
  pages alike, and that a log reopened from its file holds the same records.
\<close>

section \<open>Log records\<close>

text \<open>The last constructor stands for the integers no enumerator names.\<close>

datatype LogRecordType =
    INVALID | BEGIN | UPDATE | COMMIT | ABORT | CLR | CHECKPOINT_BEGIN | ACTIVE_TXN | CHECKPOINT_END
  | other_LogRecordType int

datatype LogOpType = NONE | PUT | DELETE | other_LogOpType int

fun LogRecordType_int :: "LogRecordType \<Rightarrow> int" where
  "LogRecordType_int INVALID = 0"
| "LogRecordType_int BEGIN = 1"
| "LogRecordType_int UPDATE = 2"
| "LogRecordType_int COMMIT = 3"
| "LogRecordType_int ABORT = 4"
| "LogRecordType_int CLR = 5"
| "LogRecordType_int CHECKPOINT_BEGIN = 6"
| "LogRecordType_int ACTIVE_TXN = 7"
| "LogRecordType_int CHECKPOINT_END = 8"
| "LogRecordType_int (other_LogRecordType i) = i"

definition LogRecordType_of :: "int \<Rightarrow> LogRecordType" where
  "LogRecordType_of i =
     (if 0 \<le> i \<and> i \<le> 8
      then [INVALID, BEGIN, UPDATE, COMMIT, ABORT, CLR, CHECKPOINT_BEGIN, ACTIVE_TXN, CHECKPOINT_END] ! nat i
      else other_LogRecordType i)"

fun LogOpType_int :: "LogOpType \<Rightarrow> int" where
  "LogOpType_int NONE = 0"
| "LogOpType_int PUT = 1"
| "LogOpType_int DELETE = 2"
| "LogOpType_int (other_LogOpType i) = i"

definition LogOpType_of :: "int \<Rightarrow> LogOpType" where
  "LogOpType_of i = (if 0 \<le> i \<and> i \<le> 2 then [NONE, PUT, DELETE] ! nat i else other_LogOpType i)"

record log_record =
  lr_lsn :: int
  lr_txn_id :: int
  lr_prev_lsn :: int
  lr_type :: LogRecordType
  lr_op :: LogOpType
  lr_key :: KeyType
  lr_has_old_value :: bool
  lr_old_value :: string
  lr_has_new_value :: bool
  lr_new_value :: string
  lr_undo_next_lsn :: int
  lr_active_txn_id :: int
  lr_active_txn_last_lsn :: int

definition LogRecord :: log_record where
  "LogRecord =
     \<lparr>lr_lsn = - 1, lr_txn_id = - 1, lr_prev_lsn = - 1, lr_type = INVALID, lr_op = NONE, lr_key = 0,
      lr_has_old_value = False, lr_old_value = [], lr_has_new_value = False, lr_new_value = [],
      lr_undo_next_lsn = - 1, lr_active_txn_id = - 1, lr_active_txn_last_lsn = - 1\<rparr>"

definition LogRecord_SetOldValue :: "string \<Rightarrow> log_record \<Rightarrow> log_record" where
  "LogRecord_SetOldValue v r = r\<lparr>lr_has_old_value := True, lr_old_value := v\<rparr>"

definition LogRecord_SetNewValue :: "string \<Rightarrow> log_record \<Rightarrow> log_record" where
  "LogRecord_SetNewValue v r = r\<lparr>lr_has_new_value := True, lr_new_value := v\<rparr>"

definition sizeof_LogRecord :: nat where
  "sizeof_LogRecord = 200"

text \<open>A flag, its padding, the length and the characters of a value.\<close>

definition value_bytes :: "bool \<Rightarrow> string \<Rightarrow> byte list" where
  "value_bytes has v =
     [if has then 1 else 0, 0] @ le_bytes 2 (int (length v)) @ bytes_of v @ replicate (MAX_VALUE_SIZE - length v) 0"

definition LogRecord_bytes :: "log_record \<Rightarrow> byte list" where
  "LogRecord_bytes r =
     le_bytes 8 (lr_lsn r) @ le_bytes 8 (lr_txn_id r) @ le_bytes 8 (lr_prev_lsn r) @
     le_bytes 4 (LogRecordType_int (lr_type r)) @ le_bytes 4 (LogOpType_int (lr_op r)) @ le_bytes 8 (lr_key r) @
     value_bytes (lr_has_old_value r) (lr_old_value r) @ value_bytes (lr_has_new_value r) (lr_new_value r) @
     le_bytes 8 (lr_undo_next_lsn r) @ le_bytes 8 (lr_active_txn_id r) @ le_bytes 8 (lr_active_txn_last_lsn r)"

definition LogRecord_read :: "byte list \<Rightarrow> log_record" where
  "LogRecord_read bs =
     \<lparr>lr_lsn = le_sint (field 0 8 bs), lr_txn_id = le_sint (field 8 8 bs), lr_prev_lsn = le_sint (field 16 8 bs),
      lr_type = LogRecordType_of (le_sint (field 24 4 bs)), lr_op = LogOpType_of (le_sint (field 28 4 bs)),
      lr_key = le_sint (field 32 8 bs),
      lr_has_old_value = field 40 1 bs \<noteq> [0],
      lr_old_value = string_of (field 44 (nat (le_uint (field 42 2 bs))) bs),
      lr_has_new_value = field 108 1 bs \<noteq> [0],
      lr_new_value = string_of (field 112 (nat (le_uint (field 110 2 bs))) bs),
      lr_undo_next_lsn = le_sint (field 176 8 bs), lr_active_txn_id = le_sint (field 184 8 bs),
      lr_active_txn_last_lsn = le_sint (field 192 8 bs)\<rparr>"

section \<open>The log manager\<close>

definition kMaxRecordsPerPage :: nat where
  "kMaxRecordsPerPage = (PAGE_SIZE - 8) div sizeof_LogRecord"

record log_manager =
  lm_disk_manager :: disk_manager
  lm_next_lsn :: int
  lm_current_page_id :: page_id_t
  lm_current_page_buf :: "byte list"

definition LogPage_count :: "byte list \<Rightarrow> int" where
  "LogPage_count pg = le_sint (field 0 8 pg)"

definition LogPage_record :: "byte list \<Rightarrow> nat \<Rightarrow> log_record" where
  "LogPage_record pg i = LogRecord_read (drop (8 + sizeof_LogRecord * i) pg)"

text \<open>Storing \<open>bs\<close> at an offset of a buffer.\<close>

definition poke :: "nat \<Rightarrow> byte list \<Rightarrow> byte list \<Rightarrow> byte list" where
  "poke off bs buf = take off buf @ bs @ drop (off + length bs) buf"

definition LogManager_open :: "byte list \<Rightarrow> log_manager result" where
  "LogManager_open log_file =
     (let dm = DiskManager_open log_file in
      if DiskManager_GetNumPages dm = 0 then
        let (pid, dm) = DiskManager_AllocatePage dm in
        Inr \<lparr>lm_disk_manager = dm, lm_next_lsn = 0, lm_current_page_id = pid, lm_current_page_buf = zero_page\<rparr>
      else
        let pid = int (DiskManager_GetNumPages dm) - 1 in
        (case DiskManager_ReadPage pid dm of
           (Inl e, dm) \<Rightarrow> Inl e
         | (Inr buf, dm) \<Rightarrow>
             Inr \<lparr>lm_disk_manager = dm, lm_next_lsn = pid * int kMaxRecordsPerPage + LogPage_count buf,
                  lm_current_page_id = pid, lm_current_page_buf = buf\<rparr>))"

definition LogManager_Append :: "log_record \<Rightarrow> log_manager \<Rightarrow> (int \<times> log_manager) result" where
  "LogManager_Append record lm =
     (let record = record\<lparr>lr_lsn := lm_next_lsn lm\<rparr>;
          buf = lm_current_page_buf lm
      in case (if LogPage_count buf \<ge> int kMaxRecordsPerPage then
                 (case DiskManager_WritePage (lm_current_page_id lm) buf (lm_disk_manager lm) of
                    (Inl e, dm) \<Rightarrow> Inl e
                  | (Inr _, dm) \<Rightarrow>
                      let (pid, dm) = DiskManager_AllocatePage dm in
                      Inr (pid, dm, poke 0 (le_bytes 8 0) buf))
               else Inr (lm_current_page_id lm, lm_disk_manager lm, buf)) of
           Inl e \<Rightarrow> Inl e
         | Inr (pid, dm, buf) \<Rightarrow>
             let count = LogPage_count buf;
                 buf = poke (8 + sizeof_LogRecord * nat count) (LogRecord_bytes record) buf;
                 buf = poke 0 (le_bytes 8 (count + 1)) buf
             in case DiskManager_WritePage pid buf dm of
                  (Inl e, dm) \<Rightarrow> Inl e
                | (Inr _, dm) \<Rightarrow>
                    Inr (lr_lsn record,
                         \<lparr>lm_disk_manager = dm, lm_next_lsn = lm_next_lsn lm + 1, lm_current_page_id = pid,
                          lm_current_page_buf = buf\<rparr>))"

definition LogManager_Flush :: "log_manager \<Rightarrow> log_manager" where
  "LogManager_Flush lm = lm\<lparr>lm_disk_manager := DiskManager_Sync (lm_disk_manager lm)\<rparr>"

definition LogManager_GetNextLsn :: "log_manager \<Rightarrow> int" where
  "LogManager_GetNextLsn lm = lm_next_lsn lm"

definition LogManager_GetLogSizeBytes :: "log_manager \<Rightarrow> nat" where
  "LogManager_GetLogSizeBytes lm = DiskManager_GetNumPages (lm_disk_manager lm) * PAGE_SIZE"

text \<open>The page of a record: the buffered one or one read from the file.\<close>

definition LogManager_page :: "log_manager \<Rightarrow> page_id_t \<Rightarrow> byte list result" where
  "LogManager_page lm pid =
     (if pid = lm_current_page_id lm then Inr (lm_current_page_buf lm)
      else fst (DiskManager_ReadPage pid (lm_disk_manager lm)))"

definition LogManager_ReadRecord :: "int \<Rightarrow> log_manager \<Rightarrow> log_record result" where
  "LogManager_ReadRecord lsn lm =
     (let pid = c_div lsn (int kMaxRecordsPerPage); index = c_mod lsn (int kMaxRecordsPerPage) in
      case LogManager_page lm pid of
        Inl e \<Rightarrow> Inl e
      | Inr page \<Rightarrow>
          if index < 0 then Inl (UndefinedBehaviour ''negative index'') else Inr (LogPage_record page (nat index)))"

text \<open>
  One iteration of the outer loop of \<open>ReadFrom\<close> takes the records of one page. A page whose count
  says that it has no more records makes the loop spin for ever.
\<close>

fun LogManager_ReadFrom_loop :: "nat \<Rightarrow> int \<Rightarrow> log_manager \<Rightarrow> log_record list result" where
  "LogManager_ReadFrom_loop 0 lsn lm =
     (if lsn < lm_next_lsn lm then Inl (UndefinedBehaviour ''loop without end'') else Inr [])"
| "LogManager_ReadFrom_loop (Suc fuel) lsn lm =
     (if lsn < lm_next_lsn lm then
        (case LogManager_page lm (c_div lsn (int kMaxRecordsPerPage)) of
           Inl e \<Rightarrow> Inl e
         | Inr page \<Rightarrow>
             if c_mod lsn (int kMaxRecordsPerPage) < 0 then Inl (UndefinedBehaviour ''negative index'') else
             let idx = nat (c_mod lsn (int kMaxRecordsPerPage));
                 n = min (nat (LogPage_count page) - idx) (nat (lm_next_lsn lm - lsn))
             in case LogManager_ReadFrom_loop fuel (lsn + int n) lm of
                  Inl e \<Rightarrow> Inl e
                | Inr rs \<Rightarrow> Inr (map (LogPage_record page) [idx..<idx + n] @ rs))
      else Inr [])"

definition LogManager_ReadFrom :: "int \<Rightarrow> log_manager \<Rightarrow> log_record list result" where
  "LogManager_ReadFrom start_lsn lm =
     (if start_lsn \<ge> lm_next_lsn lm then Inr []
      else LogManager_ReadFrom_loop (nat (lm_next_lsn lm - start_lsn)) start_lsn lm)"

definition LogManager_ReadAll :: "log_manager \<Rightarrow> log_record list result" where
  "LogManager_ReadAll lm = LogManager_ReadFrom 0 lm"

section \<open>Round trip of a record\<close>

definition record_fits :: "log_record \<Rightarrow> bool" where
  "record_fits r \<longleftrightarrow> is_int64 (lr_lsn r) \<and> is_int64 (lr_txn_id r) \<and> is_int64 (lr_prev_lsn r) \<and>
     (\<forall>i. lr_type r \<noteq> other_LogRecordType i) \<and> (\<forall>i. lr_op r \<noteq> other_LogOpType i) \<and> is_int64 (lr_key r) \<and>
     length (lr_old_value r) \<le> MAX_VALUE_SIZE \<and> length (lr_new_value r) \<le> MAX_VALUE_SIZE \<and>
     is_int64 (lr_undo_next_lsn r) \<and> is_int64 (lr_active_txn_id r) \<and> is_int64 (lr_active_txn_last_lsn r)"

lemma kMaxRecordsPerPage_eq [simp]: "kMaxRecordsPerPage = 20"
  by (simp add: kMaxRecordsPerPage_def PAGE_SIZE_def sizeof_LogRecord_def)

lemma LogRecordType_round_trip:
  "\<forall>i. t \<noteq> other_LogRecordType i \<Longrightarrow> LogRecordType_of (le_sint (le_bytes 4 (LogRecordType_int t))) = t"
  by (cases t) (simp_all add: le_sint_le_bytes LogRecordType_of_def)

lemma LogOpType_round_trip:
  "\<forall>i. t \<noteq> other_LogOpType i \<Longrightarrow> LogOpType_of (le_sint (le_bytes 4 (LogOpType_int t))) = t"
  by (cases t) (simp_all add: le_sint_le_bytes LogOpType_of_def)

lemma length_value_bytes: "length v \<le> MAX_VALUE_SIZE \<Longrightarrow> length (value_bytes has v) = 68"
  by (simp add: value_bytes_def MAX_VALUE_SIZE_def)

lemma value_bytes_fields:
  assumes "length v \<le> MAX_VALUE_SIZE"
  shows "field 0 1 (value_bytes has v @ rest) \<noteq> [0] \<longleftrightarrow> has"
    "field 2 2 (value_bytes has v @ rest) = le_bytes 2 (int (length v))"
    "string_of (field 4 (length v) (value_bytes has v @ rest)) = v"
  using assms by (simp_all add: value_bytes_def MAX_VALUE_SIZE_def codec field_def)

lemma length_LogRecord_bytes: "record_fits r \<Longrightarrow> length (LogRecord_bytes r) = sizeof_LogRecord"
  by (simp add: LogRecord_bytes_def record_fits_def length_value_bytes sizeof_LogRecord_def)

lemma LogRecord_round_trip:
  assumes "record_fits r"
  shows "LogRecord_read (LogRecord_bytes r @ rest) = r"
proof -
  have v: "length (lr_old_value r) \<le> MAX_VALUE_SIZE" "length (lr_new_value r) \<le> MAX_VALUE_SIZE"
    using assms by (simp_all add: record_fits_def)
  have small: "int (length (lr_old_value r)) < 65536" "int (length (lr_new_value r)) < 65536"
    using v by (simp_all add: MAX_VALUE_SIZE_def)
  note len = length_value_bytes[OF v(1)] length_value_bytes[OF v(2)]
  note vb = value_bytes_fields[OF v(1)] value_bytes_fields[OF v(2)]
  have "lr_has_old_value (LogRecord_read (LogRecord_bytes r @ rest)) = lr_has_old_value r"
    "lr_old_value (LogRecord_read (LogRecord_bytes r @ rest)) = lr_old_value r"
    "lr_has_new_value (LogRecord_read (LogRecord_bytes r @ rest)) = lr_has_new_value r"
    "lr_new_value (LogRecord_read (LogRecord_bytes r @ rest)) = lr_new_value r"
    using vb len small by (simp_all add: LogRecord_read_def LogRecord_bytes_def field_right le_uint_small)
  moreover have "lr_type (LogRecord_read (LogRecord_bytes r @ rest)) = lr_type r"
    "lr_op (LogRecord_read (LogRecord_bytes r @ rest)) = lr_op r"
    using assms LogRecordType_round_trip[of "lr_type r"] LogOpType_round_trip[of "lr_op r"]
    by (simp_all add: LogRecord_read_def LogRecord_bytes_def record_fits_def codec)
  ultimately show ?thesis
    using assms len
    by (intro log_record.equality) (simp_all add: LogRecord_read_def LogRecord_bytes_def record_fits_def codec)
qed

section \<open>Log pages\<close>

lemma length_poke [simp]: "off + length bs \<le> length buf \<Longrightarrow> length (poke off bs buf) = length buf"
  by (simp add: poke_def)

lemma field_poke:
  assumes "off + length bs \<le> length buf"
  shows "o' + n \<le> off \<Longrightarrow> field o' n (poke off bs buf) = field o' n buf"
    "off + length bs \<le> o' \<Longrightarrow> field o' n (poke off bs buf) = field o' n buf"
    "n = length bs \<Longrightarrow> field off n (poke off bs buf) = bs"
proof -
  have t: "length (take off buf) = off"
    using assms by simp
  show "field o' n (poke off bs buf) = field o' n buf" if "o' + n \<le> off"
    using that t by (metis append_take_drop_id field_left poke_def)
  show "field o' n (poke off bs buf) = field o' n buf" if "off + length bs \<le> o'"
    using that t by (simp add: poke_def field_def)
  show "field off n (poke off bs buf) = bs" if "n = length bs"
    using that t by (simp add: poke_def field_def)
qed

text \<open>A page that holds the records \<open>rs\<close>.\<close>

definition page_has :: "byte list \<Rightarrow> log_record list \<Rightarrow> bool" where
  "page_has pg rs \<longleftrightarrow> length pg = PAGE_SIZE \<and> field 0 8 pg = le_bytes 8 (int (length rs)) \<and>
     length rs \<le> kMaxRecordsPerPage \<and>
     (\<forall>i < length rs. field (8 + sizeof_LogRecord * i) sizeof_LogRecord pg = LogRecord_bytes (rs ! i))"

lemma page_has_count: "page_has pg rs \<Longrightarrow> LogPage_count pg = int (length rs)"
  by (simp add: page_has_def LogPage_count_def le_sint_le_bytes)

lemma page_has_record:
  assumes "page_has pg rs" "i < length rs" "record_fits (rs ! i)"
  shows "LogPage_record pg i = rs ! i"
proof -
  let ?o = "8 + sizeof_LogRecord * i"
  have f: "field ?o sizeof_LogRecord pg = LogRecord_bytes (rs ! i)"
    using assms(1,2) by (simp add: page_has_def)
  have "drop ?o pg = LogRecord_bytes (rs ! i) @ drop sizeof_LogRecord (drop ?o pg)"
    unfolding f[symmetric] field_def by (rule append_take_drop_id[symmetric])
  then show ?thesis
    unfolding LogPage_record_def by (rule ssubst) (rule LogRecord_round_trip[OF assms(3)])
qed

lemma page_has_zero: "page_has zero_page []"
  by (simp add: page_has_def zero_page_def field_def PAGE_SIZE_def) (simp add: eval_nat_numeral)

lemma page_has_reset: "page_has pg rs \<Longrightarrow> page_has (poke 0 (le_bytes 8 0) pg) []"
  by (auto simp: page_has_def field_poke PAGE_SIZE_def)

lemma page_has_append:
  assumes "page_has pg rs" "length rs < kMaxRecordsPerPage" "record_fits r"
  defines "pg' \<equiv> poke 0 (le_bytes 8 (int (length rs) + 1)) (poke (8 + sizeof_LogRecord * length rs) (LogRecord_bytes r) pg)"
  shows "page_has pg' (rs @ [r])"
proof -
  let ?o = "8 + sizeof_LogRecord * length rs"
  have len: "length pg = PAGE_SIZE" "length (LogRecord_bytes r) = sizeof_LogRecord"
    using assms(1,3) by (auto simp: page_has_def length_LogRecord_bytes)
  have "sizeof_LogRecord * length rs + sizeof_LogRecord \<le> sizeof_LogRecord * kMaxRecordsPerPage"
    using assms(2) by (metis Suc_leI mult_Suc_right mult_le_mono2 add.commute)
  then have fit: "?o + length (LogRecord_bytes r) \<le> length pg"
    using len by (simp add: sizeof_LogRecord_def PAGE_SIZE_def)
  let ?p = "poke ?o (LogRecord_bytes r) pg"
  have fit0: "0 + length (le_bytes 8 (int (length rs) + 1)) \<le> length ?p"
    using fit len by (simp add: PAGE_SIZE_def)
  have "field (8 + sizeof_LogRecord * i) sizeof_LogRecord pg' = LogRecord_bytes ((rs @ [r]) ! i)" if "i < Suc (length rs)" for i
  proof -
    have "field (8 + sizeof_LogRecord * i) sizeof_LogRecord pg' = field (8 + sizeof_LogRecord * i) sizeof_LogRecord ?p"
      unfolding pg'_def by (rule field_poke(2)[OF fit0]) simp
    also have "\<dots> = LogRecord_bytes ((rs @ [r]) ! i)"
    proof (cases "i = length rs")
      case True
      then show ?thesis
        using field_poke(3)[OF fit, of sizeof_LogRecord] len(2) by simp
    next
      case False
      then have i: "i < length rs"
        using that by simp
      then have "sizeof_LogRecord * i + sizeof_LogRecord \<le> sizeof_LogRecord * length rs"
        by (metis Suc_leI mult_Suc_right mult_le_mono2 add.commute)
      then show ?thesis
        using field_poke(1)[OF fit, of "8 + sizeof_LogRecord * i" sizeof_LogRecord] assms(1) i
        by (simp add: page_has_def nth_append)
    qed
    finally show ?thesis .
  qed
  moreover have "field 0 8 pg' = le_bytes 8 (int (length rs) + 1)"
    unfolding pg'_def by (rule field_poke(3)[OF fit0]) simp
  ultimately show ?thesis
    using assms(2) len fit fit0 by (simp add: page_has_def pg'_def add.commute)
qed

section \<open>The log as a list of records\<close>

definition page_records :: "log_record list \<Rightarrow> nat \<Rightarrow> log_record list" where
  "page_records rs p = take kMaxRecordsPerPage (drop (kMaxRecordsPerPage * p) rs)"

definition lm_holds :: "log_manager \<Rightarrow> log_record list \<Rightarrow> bool" where
  "lm_holds lm rs \<longleftrightarrow>
     (\<exists>c. lm_next_lsn lm = int (length rs) \<and> lm_current_page_id lm = int c \<and>
        kMaxRecordsPerPage * c \<le> length rs \<and> length rs \<le> kMaxRecordsPerPage * c + kMaxRecordsPerPage \<and>
        (rs = [] \<longrightarrow> dm_file (lm_disk_manager lm) = []) \<and>
        (rs \<noteq> [] \<longrightarrow> kMaxRecordsPerPage * c < length rs \<and> disk_page (lm_disk_manager lm) (int c) = lm_current_page_buf lm \<and>
           length (dm_file (lm_disk_manager lm)) = (c + 1) * PAGE_SIZE) \<and>
        page_has (lm_current_page_buf lm) (page_records rs c) \<and>
        (\<forall>p<c. page_has (disk_page (lm_disk_manager lm) (int p)) (page_records rs p)) \<and>
        dm_invar (lm_disk_manager lm) \<and> dm_next_page_id (lm_disk_manager lm) = int c + 1) \<and>
     (\<forall>i < length rs. lr_lsn (rs ! i) = int i \<and> record_fits (rs ! i))"

lemma page_records_full: "p < c \<Longrightarrow> kMaxRecordsPerPage * c \<le> length rs \<Longrightarrow> page_records (rs @ [r]) p = page_records rs p"
proof -
  assume "p < c" "kMaxRecordsPerPage * c \<le> length rs"
  then have "kMaxRecordsPerPage * p + kMaxRecordsPerPage \<le> length rs"
    by simp
  then show ?thesis
    by (simp add: page_records_def)
qed

lemma page_records_last:
  "kMaxRecordsPerPage * c \<le> length rs \<Longrightarrow> length rs \<le> kMaxRecordsPerPage * c + kMaxRecordsPerPage \<Longrightarrow>
   page_records rs c = drop (kMaxRecordsPerPage * c) rs"
  by (simp add: page_records_def)

lemma lm_holds_fresh: "\<exists>lm. LogManager_open [] = Inr lm \<and> lm_holds lm []"
proof -
  have "dm_invar (DiskManager_open [])"
    by (rule dm_invar_open)
  then show ?thesis
    using page_has_zero
    by (auto simp: LogManager_open_def DiskManager_GetNumPages_def DiskManager_open_def DiskManager_AllocatePage_def
        lm_holds_def page_records_def dm_invar_def PAGE_SIZE_def intro!: exI[of _ "0::nat"])
qed

text \<open>Writing the buffered page after a record was added to it.\<close>

lemma Append_write:
  assumes "kMaxRecordsPerPage * c \<le> length rs" "length rs < kMaxRecordsPerPage * c + kMaxRecordsPerPage"
    and "page_has buf (page_records rs c)" "\<forall>p<c. page_has (disk_page dm (int p)) (page_records rs p)"
    and "dm_invar dm" "dm_next_page_id dm = int c + 1" "length (dm_file dm) \<le> (c + 1) * PAGE_SIZE"
    and "\<forall>i < length rs. lr_lsn (rs ! i) = int i \<and> record_fits (rs ! i)" "record_fits r" "lr_lsn r = int (length rs)"
  defines "buf' \<equiv> poke 0 (le_bytes 8 (LogPage_count buf + 1))
      (poke (8 + sizeof_LogRecord * nat (LogPage_count buf)) (LogRecord_bytes r) buf)"
  shows "\<exists>dm'. DiskManager_WritePage (int c) buf' dm = (Inr (), dm') \<and>
     lm_holds \<lparr>lm_disk_manager = dm', lm_next_lsn = int (length rs) + 1, lm_current_page_id = int c,
               lm_current_page_buf = buf'\<rparr> (rs @ [r])"
proof -
  have pr: "page_records rs c = drop (kMaxRecordsPerPage * c) rs"
    using assms(1,2) by (simp add: page_records_last del: kMaxRecordsPerPage_eq)
  have len: "length (page_records rs c) = length rs - kMaxRecordsPerPage * c"
    by (simp add: pr del: kMaxRecordsPerPage_eq)
  have "length (page_records rs c) < kMaxRecordsPerPage"
    using len assms(1,2) by simp
  then have "page_has buf' (page_records rs c @ [r])"
    using page_has_append[OF assms(3) _ assms(9)] page_has_count[OF assms(3)] by (simp add: buf'_def)
  moreover have "page_records (rs @ [r]) c = page_records rs c @ [r]"
    using assms(1,2) len by (simp add: page_records_def)
  ultimately have buf: "page_has buf' (page_records (rs @ [r]) c)"
    by simp
  then have bl: "length buf' = PAGE_SIZE"
    by (simp add: page_has_def)
  let ?dm = "wrote_page dm (int c) buf'"
  note w = wrote_page_simps[OF _ bl, of "int c" , where d = dm, simplified]
  have "\<forall>p<c. page_has (disk_page ?dm (int p)) (page_records (rs @ [r]) p)"
    using assms(1,4) w(1) page_records_full[of _ c rs r] by auto
  moreover have "dm_invar ?dm"
    using assms(5,6) bl by (intro inv_intros) auto
  moreover have "length (dm_file ?dm) = (c + 1) * PAGE_SIZE"
    using assms(7) w by (simp add: algebra_simps)
  moreover have "\<forall>i < length (rs @ [r]). lr_lsn ((rs @ [r]) ! i) = int i \<and> record_fits ((rs @ [r]) ! i)"
    using assms(8-10) by (auto simp: nth_append less_Suc_eq)
  ultimately show ?thesis
    using assms(1,2,6) buf w WritePage_wrote[of "int c" buf' dm, OF _ bl]
    by (intro exI[of _ ?dm]) (auto simp: lm_holds_def intro!: exI[of _ c])
qed

lemma Append_holds:
  assumes holds: "lm_holds lm rs" and r: "record_fits r" "int (length rs) \<le> INT64_MAX"
  shows "\<exists>lm'. LogManager_Append r lm = Inr (int (length rs), lm') \<and> lm_holds lm' (rs @ [r\<lparr>lr_lsn := int (length rs)\<rparr>])"
proof -
  let ?r = "r\<lparr>lr_lsn := int (length rs)\<rparr>" and ?dm = "lm_disk_manager lm" and ?buf = "lm_current_page_buf lm"
  obtain c where c: "lm_next_lsn lm = int (length rs)" "lm_current_page_id lm = int c"
    "kMaxRecordsPerPage * c \<le> length rs" "length rs \<le> kMaxRecordsPerPage * c + kMaxRecordsPerPage"
    "rs = [] \<Longrightarrow> dm_file ?dm = []"
    "rs \<noteq> [] \<Longrightarrow> kMaxRecordsPerPage * c < length rs \<and> disk_page ?dm (int c) = ?buf \<and>
           length (dm_file ?dm) = (c + 1) * PAGE_SIZE"
    and pages: "page_has ?buf (page_records rs c)" "\<forall>p<c. page_has (disk_page ?dm (int p)) (page_records rs p)"
    and dm: "dm_invar ?dm" "dm_next_page_id ?dm = int c + 1"
    and recs: "\<forall>i < length rs. lr_lsn (rs ! i) = int i \<and> record_fits (rs ! i)"
    using holds unfolding lm_holds_def by blast
  have fits: "record_fits ?r" "lr_lsn ?r = int (length rs)"
    using r by (auto simp: record_fits_def is_int64_def INVALID_KEY_def)
  have count: "LogPage_count ?buf = int (length (page_records rs c))"
    by (rule page_has_count[OF pages(1)])
  have plen: "length (page_records rs c) = length rs - kMaxRecordsPerPage * c"
    using page_records_last[OF c(3,4)] by (simp del: kMaxRecordsPerPage_eq)
  show ?thesis
  proof (cases "length rs < kMaxRecordsPerPage * c + kMaxRecordsPerPage")
    case True
    have "length (dm_file ?dm) \<le> (c + 1) * PAGE_SIZE"
      using c(5,6) by (cases "rs = []") auto
    note aw = Append_write[OF c(3) True pages dm this recs fits]
    have "\<not> int kMaxRecordsPerPage \<le> LogPage_count ?buf"
      using True c(3) count plen by simp
    then show ?thesis
      using aw by (auto simp: LogManager_Append_def Let_def c(1,2) simp del: kMaxRecordsPerPage_eq)
  next
    case False
    then have full: "length rs = kMaxRecordsPerPage * (c + 1)"
      using c(4) by simp
    then have ne: "rs \<noteq> []"
      by auto
    have bl: "length ?buf = PAGE_SIZE"
      using pages(1) by (simp add: page_has_def)
    let ?d1 = "wrote_page ?dm (int c) ?buf" and ?b2 = "poke 0 (le_bytes 8 0) ?buf"
    let ?d2 = "?d1\<lparr>dm_next_page_id := int c + 2\<rparr>"
    note w = wrote_page_simps[OF _ bl, of "int c", where d = ?dm, simplified]
    have b2: "page_has ?b2 (page_records rs (c + 1))"
      using page_has_reset[OF pages(1)] full by (simp add: page_records_def)
    have p2: "\<forall>p<c + 1. page_has (disk_page ?d2 (int p)) (page_records rs p)"
      using pages w(1) by (auto simp: less_Suc_eq)
    have "dm_invar ?d1"
      using dm bl by (intro inv_intros) auto
    then have inv: "dm_invar ?d2"
      using dm_invar_allocate[of ?d1] w(2) dm(2) by (simp add: add.assoc)
    have next2: "dm_next_page_id ?d2 = int (c + 1) + 1" and file2: "length (dm_file ?d2) \<le> (c + 1 + 1) * PAGE_SIZE"
      using c(6)[OF ne] w by (simp_all add: algebra_simps)
    have lt: "length rs < kMaxRecordsPerPage * (c + 1) + kMaxRecordsPerPage"
      using full by simp
    note aw = Append_write[OF eq_imp_le[OF full[symmetric]] lt b2 p2 inv next2 file2 recs fits]
    have "int kMaxRecordsPerPage \<le> LogPage_count ?buf"
      using full count plen by simp
    then have step: "(if LogPage_count ?buf \<ge> int kMaxRecordsPerPage then
        (case DiskManager_WritePage (int c) ?buf ?dm of (Inl e, dm) \<Rightarrow> Inl e
         | (Inr _, dm) \<Rightarrow> let (pid, dm) = DiskManager_AllocatePage dm in Inr (pid, dm, poke 0 (le_bytes 8 0) ?buf))
        else Inr (int c, ?dm, ?buf)) = Inr (int (c + 1), ?d2, ?b2)"
      using WritePage_wrote[of "int c" ?buf ?dm, OF _ bl] w(2) dm(2)
      by (simp add: DiskManager_AllocatePage_def add.commute del: kMaxRecordsPerPage_eq)
    show ?thesis
      unfolding LogManager_Append_def Let_def c(1,2) step[unfolded Let_def] sum.case prod.case using aw by auto
  qed
qed

lemma page_of:
  assumes "lm_holds lm rs" "p * kMaxRecordsPerPage < length rs"
  obtains pg where "LogManager_page lm (int p) = Inr pg" "page_has pg (page_records rs p)"
proof -
  obtain c where c: "lm_current_page_id lm = int c" "length rs \<le> kMaxRecordsPerPage * c + kMaxRecordsPerPage"
    "page_has (lm_current_page_buf lm) (page_records rs c)"
    "\<forall>p<c. page_has (disk_page (lm_disk_manager lm) (int p)) (page_records rs p)"
    using assms(1) unfolding lm_holds_def by blast
  have "kMaxRecordsPerPage * p < kMaxRecordsPerPage * (c + 1)"
    using assms(2) c(2) by (simp add: mult.commute)
  then have "p \<le> c"
    by simp
  then show ?thesis
    using that c by (cases "p = c") (auto simp: LogManager_page_def ReadPage_eq)
qed

lemma page_records_nth: "i < length (page_records rs p) \<Longrightarrow> page_records rs p ! i = rs ! (kMaxRecordsPerPage * p + i)"
  by (auto simp: page_records_def intro!: nth_drop)

lemma nth_page_records:
  "i < length rs \<Longrightarrow> i mod kMaxRecordsPerPage < length (page_records rs (i div kMaxRecordsPerPage)) \<and>
     page_records rs (i div kMaxRecordsPerPage) ! (i mod kMaxRecordsPerPage) = rs ! i"
  by (simp add: page_records_def) (metis add.commute div_mult_mod_eq less_diff_conv2 mult.commute nat_le_linear not_less add_diff_cancel_right' le_add2 minus_mult_div_eq_mod diff_less_mono div_times_less_eq_dividend)

lemma ReadRecord_holds:
  assumes "lm_holds lm rs" "i < length rs"
  shows "LogManager_ReadRecord (int i) lm = Inr (rs ! i)"
proof -
  let ?p = "i div kMaxRecordsPerPage" and ?j = "i mod kMaxRecordsPerPage"
  have "?p * kMaxRecordsPerPage < length rs"
    using assms(2) by (metis div_times_less_eq_dividend le_less_trans)
  then obtain pg where pg: "LogManager_page lm (int ?p) = Inr pg" "page_has pg (page_records rs ?p)"
    by (rule page_of[OF assms(1)])
  have "record_fits (rs ! i)"
    using assms by (auto simp: lm_holds_def)
  then have "LogPage_record pg ?j = rs ! i"
    using page_has_record[OF pg(2)] nth_page_records[OF assms(2)] by auto
  then show ?thesis
    using pg(1) by (simp add: LogManager_ReadRecord_def Let_def zdiv_int zmod_int nat_mod_distrib)
qed

lemma ReadFrom_loop_holds:
  assumes holds: "lm_holds lm rs"
  shows "s \<le> length rs \<Longrightarrow> length rs - s \<le> fuel \<Longrightarrow> LogManager_ReadFrom_loop fuel (int s) lm = Inr (drop s rs)"
proof (induction fuel arbitrary: s)
  case 0
  then show ?case
    using holds by (auto simp: lm_holds_def)
next
  case (Suc fuel)
  have nxt: "lm_next_lsn lm = int (length rs)"
    using holds by (auto simp: lm_holds_def)
  show ?case
  proof (cases "s < length rs")
    case False
    then show ?thesis
      using nxt Suc.prems(1) by simp
  next
    case True
    let ?p = "s div kMaxRecordsPerPage" and ?idx = "s mod kMaxRecordsPerPage"
    let ?rs = "page_records rs ?p"
    have "?p * kMaxRecordsPerPage < length rs"
      using True by (metis div_times_less_eq_dividend le_less_trans)
    then obtain pg where pg: "LogManager_page lm (int ?p) = Inr pg" "page_has pg ?rs"
      by (rule page_of[OF holds])
    define m where "m = length ?rs - ?idx"
    have s: "s = kMaxRecordsPerPage * ?p + ?idx"
      by (rule mult_div_mod_eq[symmetric])
    have idx: "?idx < length ?rs"
      using nth_page_records[OF True] by blast
    have "length ?rs \<le> length rs - kMaxRecordsPerPage * ?p"
      by (simp add: page_records_def)
    then have "m \<le> length rs - s"
      unfolding m_def by (metis diff_diff_left diff_le_mono s)
    have m: "0 < m" "s + m \<le> length rs"
      using idx \<open>m \<le> length rs - s\<close> True by (auto simp: m_def)
    have take: "map (LogPage_record pg) [?idx..<?idx + m] = take m (drop s rs)"
    proof (rule nth_equalityI)
      fix j
      assume "j < length (map (LogPage_record pg) [?idx..<?idx + m])"
      then have j: "j < m"
        by simp
      then have "?idx + j < length ?rs"
        by (simp add: m_def)
      moreover have "?rs ! (?idx + j) = rs ! (s + j)"
        using page_records_nth[OF calculation] by (metis add.assoc s)
      moreover have "record_fits (rs ! (s + j))"
        using holds j m(2) by (auto simp: lm_holds_def)
      ultimately have "LogPage_record pg (?idx + j) = rs ! (s + j)"
        using page_has_record[OF pg(2)] by simp
      then show "map (LogPage_record pg) [?idx..<?idx + m] ! j = take m (drop s rs) ! j"
        using j m(2) by simp
    qed (use m in simp)
    have n: "min (nat (LogPage_count pg) - ?idx) (nat (int (length rs) - int s)) = m"
      using page_has_count[OF pg(2)] \<open>m \<le> length rs - s\<close> by (simp add: m_def nat_diff_distrib)
    have rec: "LogManager_ReadFrom_loop fuel (int (s + m)) lm = Inr (drop (s + m) rs)"
      using Suc.prems m by (intro Suc.IH) auto
    have div: "c_div (int s) (int kMaxRecordsPerPage) = int ?p" "c_mod (int s) (int kMaxRecordsPerPage) = int ?idx"
      by (simp_all add: zdiv_int zmod_int)
    have "take m (drop s rs) @ drop (s + m) rs = drop s rs"
      by (metis add.commute append_take_drop_id drop_drop)
    then show ?thesis
      using True nxt pg(1) div n take rec by (simp add: Let_def del: kMaxRecordsPerPage_eq)
  qed
qed

lemma ReadAll_holds: "lm_holds lm rs \<Longrightarrow> LogManager_ReadAll lm = Inr rs"
  using ReadFrom_loop_holds[of lm rs 0 "length rs"]
  by (auto simp: LogManager_ReadAll_def LogManager_ReadFrom_def lm_holds_def)

lemma ReadFrom_holds: "lm_holds lm rs \<Longrightarrow> s \<le> length rs \<Longrightarrow> LogManager_ReadFrom (int s) lm = Inr (drop s rs)"
  using ReadFrom_loop_holds[of lm rs s "length rs - s"]
  by (auto simp: LogManager_ReadFrom_def lm_holds_def nat_diff_distrib)

lemma reopen_holds:
  assumes "lm_holds lm rs"
  shows "\<exists>lm'. LogManager_open (dm_file (lm_disk_manager lm)) = Inr lm' \<and> lm_holds lm' rs"
proof (cases "rs = []")
  case True
  then show ?thesis
    using assms lm_holds_fresh by (auto simp: lm_holds_def)
next
  case False
  let ?dm = "lm_disk_manager lm"
  let ?d0 = "DiskManager_open (dm_file ?dm)"
  let ?d1 = "?d0\<lparr>dm_num_reads := dm_num_reads ?d0 + 1\<rparr>"
  obtain c where c: "kMaxRecordsPerPage * c \<le> length rs" "length rs \<le> kMaxRecordsPerPage * c + kMaxRecordsPerPage"
    "kMaxRecordsPerPage * c < length rs" "disk_page ?dm (int c) = lm_current_page_buf lm"
    "length (dm_file ?dm) = (c + 1) * PAGE_SIZE"
    and pages: "page_has (lm_current_page_buf lm) (page_records rs c)"
      "\<forall>p<c. page_has (disk_page ?dm (int p)) (page_records rs p)"
    and recs: "\<forall>i < length rs. lr_lsn (rs ! i) = int i \<and> record_fits (rs ! i)"
    using assms False unfolding lm_holds_def by blast
  have np: "dm_next_page_id ?d0 = int c + 1"
    using c(5) by (simp add: DiskManager_open_def PAGE_SIZE_def)
  have dp: "disk_page ?d0 = disk_page ?dm"
    by (simp add: disk_page_def DiskManager_open_def fun_eq_iff)
  have inv: "dm_invar ?d1"
    by (intro inv_intros)
  have "LogManager_open (dm_file ?dm) = Inr \<lparr>lm_disk_manager = ?d1,
      lm_next_lsn = int c * int kMaxRecordsPerPage + LogPage_count (lm_current_page_buf lm),
      lm_current_page_id = int c, lm_current_page_buf = lm_current_page_buf lm\<rparr>"
    using np by (simp add: LogManager_open_def DiskManager_GetNumPages_def ReadPage_eq dp c(4) Let_def nat_add_distrib)
  moreover have "int c * int kMaxRecordsPerPage + LogPage_count (lm_current_page_buf lm) = int (length rs)"
    using page_has_count[OF pages(1)] page_records_last[OF c(1,2)] c(1) by (simp add: of_nat_diff)
  moreover have "dm_file ?d1 = dm_file ?dm"
    by (simp add: DiskManager_open_def)
  ultimately show ?thesis
    using c pages recs inv np False by (auto simp: lm_holds_def dp simp del: kMaxRecordsPerPage_eq)
qed

lemma Flush_holds: "lm_holds lm rs \<Longrightarrow> lm_holds (LogManager_Flush lm) rs"
  by (auto simp: lm_holds_def LogManager_Flush_def DiskManager_Sync_def dm_invar_def)

lemma Flush_synced: "dm_synced (lm_disk_manager (LogManager_Flush lm)) = dm_file (lm_disk_manager (LogManager_Flush lm))"
  by (simp add: LogManager_Flush_def DiskManager_Sync_def)

section \<open>Property\<close>

fun LogManager_AppendAll :: "log_record list \<Rightarrow> log_manager \<Rightarrow> log_manager result" where
  "LogManager_AppendAll [] lm = Inr lm"
| "LogManager_AppendAll (r # rs) lm =
     (case LogManager_Append r lm of Inl e \<Rightarrow> Inl e | Inr (_, lm) \<Rightarrow> LogManager_AppendAll rs lm)"

text \<open>The records with the sequence numbers they get.\<close>

fun numbered :: "nat \<Rightarrow> log_record list \<Rightarrow> log_record list" where
  "numbered n [] = []"
| "numbered n (r # rs) = r\<lparr>lr_lsn := int n\<rparr> # numbered (Suc n) rs"

lemma length_numbered [simp]: "length (numbered n rs) = length rs"
  by (induction n rs rule: numbered.induct) auto

lemma AppendAll_holds:
  assumes "lm_holds lm old" "\<forall>r\<in>set rs. record_fits r" "int (length old + length rs) \<le> INT64_MAX"
  shows "\<exists>lm'. LogManager_AppendAll rs lm = Inr lm' \<and> lm_holds lm' (old @ numbered (length old) rs)"
  using assms
proof (induction rs arbitrary: lm old)
  case (Cons r rs)
  have "record_fits r" "int (length old) \<le> INT64_MAX"
    using Cons.prems by auto
  from Append_holds[OF Cons.prems(1) this] obtain lm1
    where a: "LogManager_Append r lm = Inr (int (length old), lm1)" "lm_holds lm1 (old @ [r\<lparr>lr_lsn := int (length old)\<rparr>])"
    by blast
  from Cons.IH[OF a(2)] Cons.prems a(1) show ?case
    by simp
qed auto

lemma open_append:
  assumes "\<forall>r\<in>set rs. record_fits r" "int (length rs) \<le> INT64_MAX"
  obtains lm0 lm where "LogManager_open [] = Inr lm0" "LogManager_AppendAll rs lm0 = Inr lm" "lm_holds lm (numbered 0 rs)"
proof -
  obtain lm0 where lm0: "LogManager_open [] = Inr lm0" "lm_holds lm0 []"
    using lm_holds_fresh by blast
  from AppendAll_holds[OF lm0(2) assms(1)] assms(2) lm0(1) that show ?thesis
    by auto
qed

text \<open>
  C13. Records appended to a fresh log are numbered from 0 and read back in order, each also by its
  number, from the buffered page and from earlier pages; and once the log is flushed, what a
  crash leaves of its file reopens as a log with exactly these records and the next number.
\<close>

theorem log_round_trip:
  assumes "\<forall>r\<in>set rs. record_fits r" "int (length rs) \<le> INT64_MAX"
  shows "\<exists>lm0 lm lm'. LogManager_open [] = Inr lm0 \<and> LogManager_AppendAll rs lm0 = Inr lm \<and>
    LogManager_ReadAll lm = Inr (numbered 0 rs) \<and>
    (\<forall>i < length rs. LogManager_ReadRecord (int i) lm = Inr (numbered 0 rs ! i)) \<and>
    LogManager_open (dm_synced (lm_disk_manager (LogManager_Flush lm))) = Inr lm' \<and>
    LogManager_ReadAll lm' = Inr (numbered 0 rs) \<and> LogManager_GetNextLsn lm' = int (length rs)"
proof -
  obtain lm0 lm where l: "LogManager_open [] = Inr lm0" "LogManager_AppendAll rs lm0 = Inr lm" "lm_holds lm (numbered 0 rs)"
    by (rule open_append[OF assms])
  obtain lm' where r: "LogManager_open (dm_synced (lm_disk_manager (LogManager_Flush lm))) = Inr lm'" "lm_holds lm' (numbered 0 rs)"
    using reopen_holds[OF Flush_holds[OF l(3)]] Flush_synced[of lm] by auto
  have "LogManager_GetNextLsn lm' = int (length rs)"
    using r(2) by (auto simp: LogManager_GetNextLsn_def lm_holds_def)
  then show ?thesis
    using l r ReadAll_holds[OF l(3)] ReadAll_holds[OF r(2)] ReadRecord_holds[OF l(3)]
    by (intro exI[of _ lm0] exI[of _ lm] exI[of _ lm']) simp
qed

theorem log_round_trip_witness:
  "\<exists>lm0 lm. LogManager_open [] = Inr lm0 \<and>
     LogManager_AppendAll [LogRecord\<lparr>lr_type := BEGIN, lr_txn_id := 4\<rparr>, LogRecord_SetNewValue ''v'' LogRecord] lm0 = Inr lm \<and>
     LogManager_ReadRecord 1 lm = Inr ((LogRecord_SetNewValue ''v'' LogRecord)\<lparr>lr_lsn := 1\<rparr>)"
proof -
  let ?rs = "[LogRecord\<lparr>lr_type := BEGIN, lr_txn_id := 4\<rparr>, LogRecord_SetNewValue ''v'' LogRecord]"
  have "\<forall>r\<in>set ?rs. record_fits r" "int (length ?rs) \<le> INT64_MAX"
    by (simp_all add: LogRecord_def LogRecord_SetNewValue_def record_fits_def is_int64_def INVALID_KEY_def INT64_MAX_def
        MAX_VALUE_SIZE_def)
  from log_round_trip[OF this] show ?thesis
    by (elim exE conjE) (force dest: spec[of _ 1] simp del: LogManager_AppendAll.simps)
qed

end
