(* ===== verification/LSM_Engine.thy ===== *)
theory LSM_Engine
  imports SSTable_Reads Log_Manager Decimal
begin

text \<open>
  \<^verbatim>\<open>src/src/lsm/lsm_tree_engine.{h,cpp}\<close>: the LSM-tree storage engine.

  The engine's state carries the files of its directory. A file that the engine holds open through
  a disk manager (the manifest, the current memtable log) lives in that disk manager; \<open>LSM_disk\<close> puts
  it back among the files, which is what the operating system sees at any moment. Flush and
  compaction release the engine's mutex in the middle; they are composed of the parts between
  (\<open>swap\<close>, \<open>build\<close>, \<open>install\<close> and \<open>pick\<close>, \<open>merge\<close>, \<open>install\<close>), so that other operations can be put
  in between. Pointer identity of tables is identity of their ids. The directory is one the engine
  has to itself; the coin flips of the skip list, the memory behind page buffers and the
  floating-point sizing of the Bloom filters are the parameters in \<open>lsm_env\<close>.
\<close>

section \<open>The environment\<close>

record lsm_env =
  env_coins :: "nat \<Rightarrow> nat \<Rightarrow> bool"
  env_slack :: "nat \<Rightarrow> byte"
  env_sizing :: bloom_sizing

type_synonym files = "(string \<times> byte list) list"

text \<open>Opening a file creates it when it is missing.\<close>

definition fs_read :: "string \<Rightarrow> files \<Rightarrow> byte list" where
  "fs_read path fs = (case map_of fs path of None \<Rightarrow> [] | Some bs \<Rightarrow> bs)"

definition fs_create :: "string \<Rightarrow> files \<Rightarrow> files" where
  "fs_create path fs = AList.update path (fs_read path fs) fs"

text \<open>\<open>std::filesystem::path\<close>: the parts of a path before and after the last slash.\<close>

definition path_filename :: "string \<Rightarrow> string" where
  "path_filename p = rev (takeWhile (\<lambda>c. c \<noteq> CHR ''/'') (rev p))"

definition path_parent :: "string \<Rightarrow> string" where
  "path_parent p =
     (let r = dropWhile (\<lambda>c. c \<noteq> CHR ''/'') (rev p)
      in if dropWhile (\<lambda>c. c = CHR ''/'') r = [] then rev r else rev (dropWhile (\<lambda>c. c = CHR ''/'') r))"

section \<open>The manifest page\<close>

definition kMaxManifestTiers :: nat where
  "kMaxManifestTiers = 8"

definition kMaxSSTablesPerManifestTier :: nat where
  "kMaxSSTablesPerManifestTier = 16"

definition kWriteStallTierSize :: nat where
  "kWriteStallTierSize = 8"

record ManifestPage =
  mp_next_sstable_id :: int
  mp_tier_count :: "int list"
  mp_tier_ids :: "int list list"

definition ManifestPage_bytes :: "ManifestPage \<Rightarrow> byte list" where
  "ManifestPage_bytes mp =
     le_bytes 8 (mp_next_sstable_id mp) @ concat (map (le_bytes 4) (mp_tier_count mp)) @
     concat (map (\<lambda>ids. concat (map (le_bytes 8) ids)) (mp_tier_ids mp))"

definition ManifestPage_read :: "byte list \<Rightarrow> ManifestPage" where
  "ManifestPage_read pg =
     \<lparr>mp_next_sstable_id = le_sint (field 0 8 pg),
      mp_tier_count = map (\<lambda>t. le_sint (field (8 + 4 * t) 4 pg)) [0..<kMaxManifestTiers],
      mp_tier_ids = map (\<lambda>t. map (\<lambda>j. le_sint (field (40 + 128 * t + 8 * j) 8 pg)) [0..<kMaxSSTablesPerManifestTier])
        [0..<kMaxManifestTiers]\<rparr>"

section \<open>State\<close>

record lsm_engine =
  le_files :: files
  le_db_path :: string
  le_flush_threshold_bytes :: nat
  le_tier_threshold :: int
  le_manifest :: disk_manager
  le_next_sstable_id :: int
  le_wal_enabled :: bool
  le_next_wal_generation :: int
  le_memtable_wal :: "log_manager option"
  le_active_memtable :: memtable
  le_tiers :: "sstable list list"
  le_stop :: bool
  le_compaction_running :: bool

definition SSTablePath :: "string \<Rightarrow> int \<Rightarrow> string" where
  "SSTablePath db_path i = db_path @ ''.sst'' @ to_string i"

definition MemWALPath :: "string \<Rightarrow> int \<Rightarrow> string" where
  "MemWALPath db_path generation = db_path @ ''.memwal'' @ to_string generation"

text \<open>What the operating system sees of the engine's files.\<close>

definition LSM_disk :: "lsm_engine \<Rightarrow> files" where
  "LSM_disk e =
     AList.update (le_db_path e) (dm_file (le_manifest e))
       (case le_memtable_wal e of
          None \<Rightarrow> le_files e
        | Some lm \<Rightarrow> AList.update (MemWALPath (le_db_path e) (le_next_wal_generation e - 1))
                       (dm_file (lm_disk_manager lm)) (le_files e))"

section \<open>The manifest\<close>

fun Load_tier :: "string \<Rightarrow> int list \<Rightarrow> files \<Rightarrow> (sstable list \<times> files) result" where
  "Load_tier db_path [] fs = Inr ([], fs)"
| "Load_tier db_path (i # ids) fs =
     (let path = SSTablePath db_path i; fs = fs_create path fs in
      case SSTable_Open path (fs_read path fs) of
        Inl e \<Rightarrow> Inl e
      | Inr sst \<Rightarrow>
          (case Load_tier db_path ids fs of
             Inl e \<Rightarrow> Inl e
           | Inr (ssts, fs) \<Rightarrow> Inr (SSTable_SetId i sst # ssts, fs)))"

fun Load_tiers :: "string \<Rightarrow> int list list \<Rightarrow> files \<Rightarrow> (sstable list list \<times> files) result" where
  "Load_tiers db_path [] fs = Inr ([], fs)"
| "Load_tiers db_path (ids # idss) fs =
     (case Load_tier db_path ids fs of
        Inl e \<Rightarrow> Inl e
      | Inr (ssts, fs) \<Rightarrow>
          (case Load_tiers db_path idss fs of
             Inl e \<Rightarrow> Inl e
           | Inr (tiers, fs) \<Rightarrow> Inr (ssts # tiers, fs)))"

text \<open>The tiers up to the highest one with a table; a count above the capacity reads past the array.\<close>

definition Manifest_tiers :: "ManifestPage \<Rightarrow> int list list result" where
  "Manifest_tiers mp =
     (let n = length (rev (dropWhile (\<lambda>c. \<not> c > 0) (rev (mp_tier_count mp)))) in
      if \<exists>c\<in>set (mp_tier_count mp). c > int kMaxSSTablesPerManifestTier
      then Inl (UndefinedBehaviour ''tier_ids read out of bounds'')
      else Inr (map (\<lambda>t. take (nat (mp_tier_count mp ! t)) (mp_tier_ids mp ! t)) [0..<n]))"

definition LSM_LoadManifestOrInitialize ::
    "lsm_env \<Rightarrow> string \<Rightarrow> files \<Rightarrow> (disk_manager \<times> int \<times> sstable list list \<times> files) result" where
  "LSM_LoadManifestOrInitialize env db_path fs =
     (let dm = DiskManager_open (fs_read db_path fs); fs = AList.delete db_path fs in
      if DiskManager_GetNumPages dm = 0 then
        let mp = \<lparr>mp_next_sstable_id = 0, mp_tier_count = replicate kMaxManifestTiers 0,
                  mp_tier_ids = replicate kMaxManifestTiers (replicate kMaxSSTablesPerManifestTier 0)\<rparr>;
            (page_id, dm) = DiskManager_AllocatePage dm
        in (case DiskManager_WritePage page_id (page_image (env_slack env) (ManifestPage_bytes mp)) dm of
              (Inl e, dm) \<Rightarrow> Inl e
            | (Inr _, dm) \<Rightarrow> Inr (dm, 0, [], fs))
      else
        (case DiskManager_ReadPage 0 dm of
           (Inl e, dm) \<Rightarrow> Inl e
         | (Inr buf, dm) \<Rightarrow>
             let mp = ManifestPage_read buf in
             (case Manifest_tiers mp of
                Inl e \<Rightarrow> Inl e
              | Inr idss \<Rightarrow>
                  (case Load_tiers db_path idss fs of
                     Inl e \<Rightarrow> Inl e
                   | Inr (tiers, fs) \<Rightarrow> Inr (dm, mp_next_sstable_id mp, tiers, fs)))))"

definition pad_to :: "nat \<Rightarrow> 'a \<Rightarrow> 'a list \<Rightarrow> 'a list" where
  "pad_to n x xs = xs @ replicate (n - length xs) x"

definition Manifest_of :: "int \<Rightarrow> sstable list list \<Rightarrow> ManifestPage" where
  "Manifest_of next_id tiers =
     \<lparr>mp_next_sstable_id = next_id,
      mp_tier_count = pad_to kMaxManifestTiers 0 (map (\<lambda>tier. int (length tier)) tiers),
      mp_tier_ids = pad_to kMaxManifestTiers (replicate kMaxSSTablesPerManifestTier 0)
        (map (\<lambda>tier. pad_to kMaxSSTablesPerManifestTier 0 (map sst_id tier)) tiers)\<rparr>"

definition LSM_PersistManifestLocked :: "lsm_env \<Rightarrow> lsm_engine \<Rightarrow> unit result \<times> lsm_engine" where
  "LSM_PersistManifestLocked env e =
     (if length (le_tiers e) > kMaxManifestTiers
      then (Inl (RuntimeError ''LSMTreeEngine: exceeded manifest tier capacity''), e)
      else if \<exists>tier\<in>set (le_tiers e). length tier > kMaxSSTablesPerManifestTier
      then (Inl (RuntimeError ''LSMTreeEngine: exceeded manifest per-tier SSTable capacity''), e)
      else
        (case DiskManager_WritePage 0
                (page_image (env_slack env) (ManifestPage_bytes (Manifest_of (le_next_sstable_id e) (le_tiers e))))
                (le_manifest e) of
           (Inl err, dm) \<Rightarrow> (Inl err, e)
         | (Inr _, dm) \<Rightarrow> (Inr (), e\<lparr>le_manifest := dm\<rparr>)))"

section \<open>Startup\<close>

text \<open>One log record replayed into the memtable and logged again.\<close>

fun Recover_replay :: "lsm_env \<Rightarrow> log_record list \<Rightarrow> memtable \<Rightarrow> log_manager \<Rightarrow> (memtable \<times> log_manager) result" where
  "Recover_replay env [] mt wal = Inr (mt, wal)"
| "Recover_replay env (rec # recs) mt wal =
     (case (if lr_op rec = PUT then MemTable_Put (env_coins env (length recs)) (lr_key rec) (lr_new_value rec) mt
            else if lr_op rec = DELETE then MemTable_Delete (env_coins env (length recs)) (lr_key rec) mt
            else Inr mt) of
        Inl e \<Rightarrow> Inl e
      | Inr mt \<Rightarrow>
          (case LogManager_Append rec wal of
             Inl e \<Rightarrow> Inl e
           | Inr (_, wal) \<Rightarrow> Recover_replay env recs mt wal))"

fun Recover_generations ::
    "lsm_env \<Rightarrow> string \<Rightarrow> int list \<Rightarrow> files \<Rightarrow> memtable \<Rightarrow> log_manager \<Rightarrow> (files \<times> memtable \<times> log_manager) result" where
  "Recover_generations env db_path [] fs mt wal = Inr (fs, mt, wal)"
| "Recover_generations env db_path (gen # gens) fs mt wal =
     (let path = MemWALPath db_path gen; fs = fs_create path fs in
      case LogManager_open (fs_read path fs) of
        Inl e \<Rightarrow> Inl e
      | Inr old_wal \<Rightarrow>
          (case LogManager_ReadAll old_wal of
             Inl e \<Rightarrow> Inl e
           | Inr recs \<Rightarrow>
               (case Recover_replay env recs mt wal of
                  Inl e \<Rightarrow> Inl e
                | Inr (mt, wal) \<Rightarrow> Recover_generations env db_path gens fs mt wal)))"

text \<open>The generations of the log files found in the directory, in the order of the directory.\<close>

definition generation_suffix :: "string \<Rightarrow> string \<Rightarrow> string option" where
  "generation_suffix db_path p =
     (let prefix = path_filename db_path @ ''.memwal'';
          fname = path_filename p;
          suffix = drop (length prefix) fname
      in if path_parent p = path_parent db_path \<and> take (length prefix) fname = prefix \<and>
            suffix \<noteq> [] \<and> list_all isdigit suffix
         then Some suffix else None)"

fun found_generations :: "string \<Rightarrow> string list \<Rightarrow> int list result" where
  "found_generations db_path [] = Inr []"
| "found_generations db_path (p # ps) =
     (case generation_suffix db_path p of
        None \<Rightarrow> found_generations db_path ps
      | Some suffix \<Rightarrow>
          (case stoll_digits suffix of
             Inl e \<Rightarrow> Inl e
           | Inr g \<Rightarrow> (case found_generations db_path ps of Inl e \<Rightarrow> Inl e | Inr gs \<Rightarrow> Inr (g # gs))))"

definition LSM_RecoverMemWALOnStartup :: "lsm_env \<Rightarrow> lsm_engine \<Rightarrow> lsm_engine result" where
  "LSM_RecoverMemWALOnStartup env e =
     (case found_generations (le_db_path e) (map fst (le_files e)) of
        Inl err \<Rightarrow> Inl err
      | Inr gens \<Rightarrow>
          let gens = sort gens;
              new_generation = (if gens = [] then 0 else last gens + 1);
              path = MemWALPath (le_db_path e) new_generation
          in case LogManager_open (fs_read path (le_files e)) of
               Inl err \<Rightarrow> Inl err
             | Inr wal \<Rightarrow>
                 (case Recover_generations env (le_db_path e) gens (AList.delete path (le_files e))
                         (le_active_memtable e) wal of
                    Inl err \<Rightarrow> Inl err
                  | Inr (fs, mt, wal) \<Rightarrow>
                      Inr (e\<lparr>le_files := fold (\<lambda>gen. AList.delete (MemWALPath (le_db_path e) gen)) gens fs,
                             le_next_wal_generation := new_generation + 1,
                             le_memtable_wal := Some (LogManager_Flush wal),
                             le_active_memtable := mt\<rparr>)))"

definition LSMTreeEngine :: "lsm_env \<Rightarrow> string \<Rightarrow> nat \<Rightarrow> int \<Rightarrow> bool \<Rightarrow> files \<Rightarrow> lsm_engine result" where
  "LSMTreeEngine env db_path flush_threshold tier_threshold enable_wal fs =
     (case LSM_LoadManifestOrInitialize env db_path fs of
        Inl err \<Rightarrow> Inl err
      | Inr (dm, next_id, tiers, fs) \<Rightarrow>
          let e = \<lparr>le_files = fs, le_db_path = db_path, le_flush_threshold_bytes = flush_threshold,
                   le_tier_threshold = tier_threshold, le_manifest = dm, le_next_sstable_id = next_id,
                   le_wal_enabled = enable_wal, le_next_wal_generation = 0, le_memtable_wal = None,
                   le_active_memtable = MemTable, le_tiers = tiers, le_stop = False,
                   le_compaction_running = False\<rparr>
          in if enable_wal then LSM_RecoverMemWALOnStartup env e else Inr e)"

section \<open>Compaction\<close>

fun LSM_find_tier :: "int \<Rightarrow> nat \<Rightarrow> sstable list list \<Rightarrow> nat option" where
  "LSM_find_tier threshold t [] = None"
| "LSM_find_tier threshold t (tier # tiers) =
     (if int (length tier) \<ge> threshold then Some t else LSM_find_tier threshold (t + 1) tiers)"

definition LSM_FindTierNeedingCompactionLocked :: "lsm_engine \<Rightarrow> nat option" where
  "LSM_FindTierNeedingCompactionLocked e = LSM_find_tier (le_tier_threshold e) 0 (le_tiers e)"

record compact_job =
  cj_tier :: nat
  cj_tables :: "sstable list"
  cj_bottommost :: bool

definition LSM_Compact_pick :: "lsm_engine \<Rightarrow> compact_job option" where
  "LSM_Compact_pick e =
     (case LSM_FindTierNeedingCompactionLocked e of
        None \<Rightarrow> None
      | Some tier \<Rightarrow>
          Some \<lparr>cj_tier = tier, cj_tables = le_tiers e ! tier,
                cj_bottommost = list_all (\<lambda>t. t = []) (drop (tier + 1) (le_tiers e))\<rparr>)"

fun open_cursors :: "KeyType \<Rightarrow> sstable list \<Rightarrow> sstable_cursor list result" where
  "open_cursors k [] = Inr []"
| "open_cursors k (sst # ssts) =
     (case SSTable_NewIterator k sst of
        Inl e \<Rightarrow> Inl e
      | Inr it \<Rightarrow> (case open_cursors k ssts of Inl e \<Rightarrow> Inl e | Inr cs \<Rightarrow> Inr ((sst, it) # cs)))"

text \<open>Building the table of a run of entries under a new id, and opening it.\<close>

definition LSM_new_table :: "lsm_env \<Rightarrow> lsm_entry list \<Rightarrow> lsm_engine \<Rightarrow> sstable result \<times> lsm_engine" where
  "LSM_new_table env entries e =
     (let i = le_next_sstable_id e;
          e = e\<lparr>le_next_sstable_id := i + 1\<rparr>;
          path = SSTablePath (le_db_path e) i
      in case SSTable_Build (env_slack env) (env_sizing env) (fs_read path (le_files e)) entries of
           Inl err \<Rightarrow> (Inl err, e)
         | Inr img \<Rightarrow>
             let e = e\<lparr>le_files := AList.update path img (le_files e)\<rparr> in
             (case SSTable_Open path img of
                Inl err \<Rightarrow> (Inl err, e)
              | Inr sst \<Rightarrow> (Inr (SSTable_SetId i sst), e)))"

text \<open>
  The merge of the chosen tables; the entries of all of them and one more step are enough for the
  merge loop.
\<close>

definition LSM_merged :: "compact_job \<Rightarrow> lsm_entry list result" where
  "LSM_merged job =
     (case open_cursors INVALID_KEY (cj_tables job) of
        Inl err \<Rightarrow> Inl err
      | Inr cursors \<Rightarrow>
          (case LSMMergeIterator SSTableCursor cursors of
             Inl err \<Rightarrow> Inl err
           | Inr merge \<Rightarrow>
               (case Merge_drain (nat (sum_list (map sst_num_entries (cj_tables job))) + 1) SSTableCursor merge of
                  Inl err \<Rightarrow> Inl err
                | Inr es \<Rightarrow> Inr (filter (\<lambda>(k, v). \<not> (lv_deleted v \<and> cj_bottommost job)) es))))"

definition LSM_Compact_merge :: "lsm_env \<Rightarrow> compact_job \<Rightarrow> lsm_engine \<Rightarrow> sstable option result \<times> lsm_engine" where
  "LSM_Compact_merge env job e =
     (case LSM_merged job of
        Inl err \<Rightarrow> (Inl err, e)
      | Inr merged \<Rightarrow>
          if merged = [] then (Inr None, e)
          else (case LSM_new_table env merged e of
                  (Inl err, e) \<Rightarrow> (Inl err, e)
                | (Inr sst, e) \<Rightarrow> (Inr (Some sst), e)))"

text \<open>
  The obsolete tables delete their files when the last reference to them goes, here at the end of
  the function, whether or not the manifest could be written.
\<close>

definition LSM_Compact_install :: "lsm_env \<Rightarrow> compact_job \<Rightarrow> sstable option \<Rightarrow> lsm_engine \<Rightarrow> unit result \<times> lsm_engine" where
  "LSM_Compact_install env job new_sst e =
     (let next_tier = cj_tier job + 1;
          tiers = pad_to (next_tier + 1) [] (le_tiers e);
          tiers = (case new_sst of None \<Rightarrow> tiers | Some sst \<Rightarrow> tiers[next_tier := sst # tiers ! next_tier]);
          remaining = filter (\<lambda>sst. sst_id sst \<notin> set (map sst_id (cj_tables job))) (tiers ! cj_tier job);
          tiers = tiers[cj_tier job := remaining];
          obsolete = map SSTable_MarkObsolete (cj_tables job);
          (r, e) = LSM_PersistManifestLocked env (e\<lparr>le_tiers := tiers\<rparr>)
      in (r, e\<lparr>le_files := fold (\<lambda>sst. AList.delete (sst_path sst)) (filter sst_obsolete obsolete) (le_files e)\<rparr>))"

definition LSM_CompactOneTierIfNeeded :: "lsm_env \<Rightarrow> lsm_engine \<Rightarrow> bool result \<times> lsm_engine" where
  "LSM_CompactOneTierIfNeeded env e =
     (if le_compaction_running e then (Inr False, e)
      else
        case LSM_Compact_pick e of
          None \<Rightarrow> (Inr False, e)
        | Some job \<Rightarrow>
            (case LSM_Compact_merge env job e of
               (Inl err, e) \<Rightarrow> (Inl err, e)
             | (Inr new_sst, e) \<Rightarrow>
                 (case LSM_Compact_install env job new_sst e of
                    (Inl err, e) \<Rightarrow> (Inl err, e)
                  | (Inr _, e) \<Rightarrow> (Inr True, e))))"

text \<open>The background thread: rounds of its loop in which \<open>stop\<close> is not seen.\<close>

fun LSM_CompactionLoop :: "nat \<Rightarrow> lsm_env \<Rightarrow> lsm_engine \<Rightarrow> unit result \<times> lsm_engine" where
  "LSM_CompactionLoop 0 env e = (Inr (), e)"
| "LSM_CompactionLoop (Suc rounds) env e =
     (if le_stop e then (Inr (), e)
      else case LSM_CompactOneTierIfNeeded env e of
             (Inl err, e) \<Rightarrow> (Inl err, e)
           | (Inr _, e) \<Rightarrow> LSM_CompactionLoop rounds env e)"

section \<open>Flush\<close>

record flush_job =
  fj_memtable :: memtable
  fj_wal_path :: "string option"

text \<open>The swap, under the mutex: the old log is closed and a new generation opened.\<close>

definition LSM_Flush_swap :: "lsm_engine \<Rightarrow> flush_job result \<times> lsm_engine" where
  "LSM_Flush_swap e =
     (let old = le_active_memtable e; e = e\<lparr>le_active_memtable := MemTable\<rparr> in
      if le_wal_enabled e then
        let old_wal_path = MemWALPath (le_db_path e) (le_next_wal_generation e - 1);
            fs = (case le_memtable_wal e of
                    None \<Rightarrow> le_files e
                  | Some lm \<Rightarrow> AList.update old_wal_path (dm_file (lm_disk_manager lm)) (le_files e));
            new_path = MemWALPath (le_db_path e) (le_next_wal_generation e);
            e = e\<lparr>le_next_wal_generation := le_next_wal_generation e + 1\<rparr>
        in (case LogManager_open (fs_read new_path fs) of
              Inl err \<Rightarrow> (Inl err, e)
            | Inr lm \<Rightarrow>
                (Inr \<lparr>fj_memtable = old, fj_wal_path = Some old_wal_path\<rparr>,
                 e\<lparr>le_files := AList.delete new_path fs, le_memtable_wal := Some lm\<rparr>))
      else (Inr \<lparr>fj_memtable = old, fj_wal_path = None\<rparr>, e))"

definition remove_wal :: "string option \<Rightarrow> lsm_engine \<Rightarrow> lsm_engine" where
  "remove_wal path e = (case path of None \<Rightarrow> e | Some p \<Rightarrow> e\<lparr>le_files := AList.delete p (le_files e)\<rparr>)"

definition LSM_Flush_build :: "lsm_env \<Rightarrow> flush_job \<Rightarrow> lsm_engine \<Rightarrow> sstable result \<times> lsm_engine" where
  "LSM_Flush_build env job e =
     (case mt_drain (fj_memtable job) (MemTable_Begin (fj_memtable job)) of
        Inl err \<Rightarrow> (Inl err, e)
      | Inr entries \<Rightarrow>
          (case LSM_new_table env entries e of
             (Inl err, e) \<Rightarrow> (Inl err, e)
           | (Inr sst, e) \<Rightarrow> (Inr sst, remove_wal (fj_wal_path job) e)))"

text \<open>The installation, under the mutex, and the help with a backlogged tier.\<close>

definition LSM_Flush_install :: "lsm_env \<Rightarrow> sstable \<Rightarrow> lsm_engine \<Rightarrow> bool result \<times> lsm_engine" where
  "LSM_Flush_install env sst e =
     (let tiers = (if le_tiers e = [] then [[]] else le_tiers e);
          tiers = tiers[0 := sst # tiers ! 0]
      in case LSM_PersistManifestLocked env (e\<lparr>le_tiers := tiers\<rparr>) of
           (Inl err, e) \<Rightarrow> (Inl err, e)
         | (Inr _, e) \<Rightarrow> (Inr (length (tiers ! 0) \<ge> kWriteStallTierSize), e))"

definition LSM_FlushActiveMemtable :: "lsm_env \<Rightarrow> lsm_engine \<Rightarrow> unit result \<times> lsm_engine" where
  "LSM_FlushActiveMemtable env e =
     (case LSM_Flush_swap e of
        (Inl err, e) \<Rightarrow> (Inl err, e)
      | (Inr job, e) \<Rightarrow>
          if MemTable_EntryCount (fj_memtable job) = 0 then (Inr (), remove_wal (fj_wal_path job) e)
          else
            (case LSM_Flush_build env job e of
               (Inl err, e) \<Rightarrow> (Inl err, e)
             | (Inr sst, e) \<Rightarrow>
                 (case LSM_Flush_install env sst e of
                    (Inl err, e) \<Rightarrow> (Inl err, e)
                  | (Inr backlogged, e) \<Rightarrow>
                      if backlogged then
                        (case LSM_CompactOneTierIfNeeded env e of
                           (Inl err, e) \<Rightarrow> (Inl err, e)
                         | (Inr _, e) \<Rightarrow> (Inr (), e))
                      else (Inr (), e))))"

text \<open>The destructor, after the background thread has ended.\<close>

definition LSM_close :: "lsm_env \<Rightarrow> lsm_engine \<Rightarrow> unit result \<times> lsm_engine" where
  "LSM_close env e =
     (let e = e\<lparr>le_stop := True\<rparr> in
      if MemTable_EntryCount (le_active_memtable e) > 0 then LSM_FlushActiveMemtable env e else (Inr (), e))"

section \<open>Reads and writes\<close>

fun LSM_Get_tables :: "KeyType \<Rightarrow> sstable list \<Rightarrow> string option result" where
  "LSM_Get_tables key [] = Inr None"
| "LSM_Get_tables key (sst # ssts) =
     (case SSTable_MightContain key sst of
        Inl err \<Rightarrow> Inl err
      | Inr might \<Rightarrow>
          if \<not> might then LSM_Get_tables key ssts
          else (case SSTable_Get key sst of
                  Inl err \<Rightarrow> Inl err
                | Inr (Some v) \<Rightarrow> Inr (if lv_deleted v then None else Some (lv_value v))
                | Inr None \<Rightarrow> LSM_Get_tables key ssts))"

definition LSM_Get :: "KeyType \<Rightarrow> lsm_engine \<Rightarrow> string option result" where
  "LSM_Get key e =
     (case MemTable_Get key (le_active_memtable e) of
        Inl err \<Rightarrow> Inl err
      | Inr (Some v) \<Rightarrow> Inr (if lv_deleted v then None else Some (lv_value v))
      | Inr None \<Rightarrow> LSM_Get_tables key (concat (le_tiers e)))"

text \<open>Logging one record to the memtable's log and forcing it to disk.\<close>

definition LSM_log :: "log_record \<Rightarrow> lsm_engine \<Rightarrow> lsm_engine result" where
  "LSM_log rec e =
     (if le_wal_enabled e then
        (case le_memtable_wal e of
           None \<Rightarrow> Inl (UndefinedBehaviour ''null memtable_wal_'')
         | Some lm \<Rightarrow>
             (case LogManager_Append rec lm of
                Inl err \<Rightarrow> Inl err
              | Inr (_, lm) \<Rightarrow> Inr (e\<lparr>le_memtable_wal := Some (LogManager_Flush lm)\<rparr>)))
      else Inr e)"

definition put_record :: "KeyType \<Rightarrow> string \<Rightarrow> log_record" where
  "put_record key value = LogRecord_SetNewValue value (LogRecord\<lparr>lr_type := UPDATE, lr_op := PUT, lr_key := key\<rparr>)"

definition delete_record :: "KeyType \<Rightarrow> log_record" where
  "delete_record key = LogRecord\<lparr>lr_type := UPDATE, lr_op := DELETE, lr_key := key\<rparr>"

definition LSM_maybe_flush :: "lsm_env \<Rightarrow> lsm_engine \<Rightarrow> unit result \<times> lsm_engine" where
  "LSM_maybe_flush env e =
     (if MemTable_ApproximateSizeBytes (le_active_memtable e) \<ge> le_flush_threshold_bytes e
      then LSM_FlushActiveMemtable env e else (Inr (), e))"

definition LSM_Put :: "lsm_env \<Rightarrow> KeyType \<Rightarrow> string \<Rightarrow> lsm_engine \<Rightarrow> unit result \<times> lsm_engine" where
  "LSM_Put env key value e =
     (if length value > MAX_VALUE_SIZE
      then (Inl (InvalidArgument ''LSMTreeEngine::Put: value exceeds MAX_VALUE_SIZE''), e)
      else
        case LSM_log (put_record key value) e of
          Inl err \<Rightarrow> (Inl err, e)
        | Inr e \<Rightarrow>
            (case MemTable_Put (env_coins env 0) key value (le_active_memtable e) of
               Inl err \<Rightarrow> (Inl err, e)
             | Inr mt \<Rightarrow> LSM_maybe_flush env (e\<lparr>le_active_memtable := mt\<rparr>)))"

definition LSM_Delete :: "lsm_env \<Rightarrow> KeyType \<Rightarrow> lsm_engine \<Rightarrow> bool result \<times> lsm_engine" where
  "LSM_Delete env key e =
     (case LSM_Get key e of
        Inl err \<Rightarrow> (Inl err, e)
      | Inr found \<Rightarrow>
          (case LSM_log (delete_record key) e of
             Inl err \<Rightarrow> (Inl err, e)
           | Inr e \<Rightarrow>
               (case MemTable_Delete (env_coins env 0) key (le_active_memtable e) of
                  Inl err \<Rightarrow> (Inl err, e)
                | Inr mt \<Rightarrow>
                    (case LSM_maybe_flush env (e\<lparr>le_active_memtable := mt\<rparr>) of
                       (Inl err, e) \<Rightarrow> (Inl err, e)
                     | (Inr _, e) \<Rightarrow> (Inr (found \<noteq> None), e)))))"

section \<open>Scans\<close>

text \<open>A cursor of either kind; the virtual methods dispatch on it.\<close>

type_synonym engine_cursor = "memtable_cursor + sstable_cursor"

definition EngineCursor :: "engine_cursor LSMCursor" where
  "EngineCursor =
     \<lparr>cur_Valid = case_sum (cur_Valid MemTableCursor) (cur_Valid SSTableCursor),
      cur_Key = case_sum (cur_Key MemTableCursor) (cur_Key SSTableCursor),
      cur_Value = case_sum (cur_Value MemTableCursor) (cur_Value SSTableCursor),
      cur_Next = case_sum (\<lambda>c. map_sum id Inl (cur_Next MemTableCursor c)) (\<lambda>c. map_sum id Inr (cur_Next SSTableCursor c))\<rparr>"

text \<open>
  The scan iterator: the merge iterator with tombstones skipped. The loop that skips them is given
  one step per entry of the engine at the time of the scan and one more.
\<close>

record scan_iterator =
  si_merge :: "engine_cursor LSMMergeIterator"
  si_fuel :: nat

fun SkipTombstones :: "nat \<Rightarrow> engine_cursor LSMMergeIterator \<Rightarrow> engine_cursor LSMMergeIterator result" where
  "SkipTombstones 0 merge = endless"
| "SkipTombstones (Suc fuel) merge =
     (if mi_valid merge \<and> lv_deleted (mi_current_value merge) then
        (case Merge_Next EngineCursor merge of Inl e \<Rightarrow> Inl e | Inr merge \<Rightarrow> SkipTombstones fuel merge)
      else Inr merge)"

definition LSMScanIterator :: "nat \<Rightarrow> engine_cursor LSMMergeIterator \<Rightarrow> scan_iterator result" where
  "LSMScanIterator fuel merge =
     (case SkipTombstones fuel merge of Inl e \<Rightarrow> Inl e | Inr merge \<Rightarrow> Inr \<lparr>si_merge = merge, si_fuel = fuel\<rparr>)"

definition LSMScan_IsValid :: "scan_iterator \<Rightarrow> bool" where
  "LSMScan_IsValid it = mi_valid (si_merge it)"

definition LSMScan_Next :: "scan_iterator \<Rightarrow> scan_iterator result" where
  "LSMScan_Next it =
     (case Merge_Next EngineCursor (si_merge it) of
        Inl e \<Rightarrow> Inl e
      | Inr merge \<Rightarrow>
          (case SkipTombstones (si_fuel it) merge of Inl e \<Rightarrow> Inl e | Inr merge \<Rightarrow> Inr (it\<lparr>si_merge := merge\<rparr>)))"

definition LSMScan_GetKey :: "scan_iterator \<Rightarrow> KeyType" where
  "LSMScan_GetKey it = mi_current_key (si_merge it)"

definition LSMScan_GetValue :: "scan_iterator \<Rightarrow> string" where
  "LSMScan_GetValue it = lv_value (mi_current_value (si_merge it))"

definition LSM_total_entries :: "lsm_engine \<Rightarrow> nat" where
  "LSM_total_entries e =
     MemTable_EntryCount (le_active_memtable e) + nat (sum_list (map sst_num_entries (concat (le_tiers e))))"

definition LSM_Scan :: "KeyType \<Rightarrow> lsm_engine \<Rightarrow> scan_iterator result" where
  "LSM_Scan start_key e =
     (case MemTable_LowerBound start_key (le_active_memtable e) of
        Inl err \<Rightarrow> Inl err
      | Inr mit \<Rightarrow>
          (case open_cursors start_key (filter (\<lambda>sst. \<not> sst_max_key sst < start_key) (concat (le_tiers e))) of
             Inl err \<Rightarrow> Inl err
           | Inr cursors \<Rightarrow>
               (case LSMMergeIterator EngineCursor (Inl (le_active_memtable e, mit) # map Inr cursors) of
                  Inl err \<Rightarrow> Inl err
                | Inr merge \<Rightarrow> LSMScanIterator (LSM_total_entries e + 1) merge)))"

section \<open>Introspection\<close>

definition LSM_NumSSTables :: "lsm_engine \<Rightarrow> nat" where
  "LSM_NumSSTables e = sum_list (map length (le_tiers e))"

definition LSM_NumTiers :: "lsm_engine \<Rightarrow> nat" where
  "LSM_NumTiers e = length (le_tiers e)"

definition LSM_TotalSSTableBytesOnDisk :: "lsm_engine \<Rightarrow> nat" where
  "LSM_TotalSSTableBytesOnDisk e =
     sum_list (map (\<lambda>sst. case map_of (le_files e) (sst_path sst) of None \<Rightarrow> 0 | Some bs \<Rightarrow> length bs) (concat (le_tiers e)))"

definition LSM_GetWALSizeBytes :: "lsm_engine \<Rightarrow> nat result" where
  "LSM_GetWALSizeBytes e =
     (if le_wal_enabled e then
        (case le_memtable_wal e of
           None \<Rightarrow> Inl (UndefinedBehaviour ''null memtable_wal_'')
         | Some lm \<Rightarrow> Inr (LogManager_GetLogSizeBytes lm))
      else Inr 0)"

end
