(* ===== verification/LSM_Reads.thy ===== *)
theory LSM_Reads
  imports LSM_Engine
begin

text \<open>
  What the LSM-tree engine stands for, and that its reads agree with it. The runs of an engine, the
  memtable first, then the tables tier by tier, newest first, stand for the map whose value of a
  key is that of the first run that has the key, unless it is a tombstone. \<open>Get\<close> computes this map
  and a scan enumerates it in ascending order.
\<close>

section \<open>The map an engine stands for\<close>

definition visible :: "LSMValue option \<Rightarrow> string option" where
  "visible r = (case r of None \<Rightarrow> None | Some v \<Rightarrow> if lv_deleted v then None else Some (lv_value v))"

lemma visible_simps [simp]: "visible None = None" "visible (Some v) = (if lv_deleted v then None else Some (lv_value v))"
  by (simp_all add: visible_def)

definition lsm_runs :: "lsm_engine \<Rightarrow> lsm_entry list list" where
  "lsm_runs e = mt_entries (le_active_memtable e) # map sst_entries (concat (le_tiers e))"

definition lsm_map :: "lsm_engine \<Rightarrow> KeyType \<Rightarrow> string option" where
  "lsm_map e k = visible (first_hit (lsm_runs e) k)"

text \<open>The part of the engine's invariant that reads rely on.\<close>

definition readable :: "lsm_engine \<Rightarrow> bool" where
  "readable e \<longleftrightarrow> mt_inv (le_active_memtable e) \<and> (\<forall>sst\<in>set (concat (le_tiers e)). sst_inv sst)"

lemma sst_inv_Get:
  assumes "sst_inv sst"
  shows "SSTable_Get k sst = Inr (map_of (sst_entries sst) k)"
    "\<exists>b. SSTable_MightContain k sst = Inr b \<and> (\<not> b \<longrightarrow> map_of (sst_entries sst) k = None)"
proof -
  have h: "sst_holds sst (sst_entries sst)"
    using assms by (simp add: sst_inv_def)
  show "SSTable_Get k sst = Inr (map_of (sst_entries sst) k)"
    by (rule Get_spec(1)[OF h])
  show "\<exists>b. SSTable_MightContain k sst = Inr b \<and> (\<not> b \<longrightarrow> map_of (sst_entries sst) k = None)"
    using Get_spec(2,3)[OF h, of k] by (cases "SSTable_MightContain k sst") auto
qed

lemma Get_tables_ok:
  "\<forall>sst\<in>set ssts. sst_inv sst \<Longrightarrow> LSM_Get_tables k ssts = Inr (visible (first_hit (map sst_entries ssts) k))"
proof (induction ssts)
  case (Cons sst ssts)
  obtain b where b: "SSTable_MightContain k sst = Inr b" "\<not> b \<longrightarrow> map_of (sst_entries sst) k = None"
    using sst_inv_Get(2)[of sst k] Cons.prems by auto
  show ?case
    using b Cons sst_inv_Get(1)[of sst k] by (cases b) (auto split: option.splits)
qed simp

lemma LSM_Get_ok: "readable e \<Longrightarrow> LSM_Get k e = Inr (lsm_map e k)"
  using Get_tables_ok[of "concat (le_tiers e)" k]
  by (auto simp: LSM_Get_def readable_def MemTable_Get_spec lsm_map_def lsm_runs_def split: option.splits)

section \<open>Scans\<close>

text \<open>The engine's cursors of both kinds satisfy the contract of cursors.\<close>

definition engine_cursor_inv :: "engine_cursor \<Rightarrow> bool" where
  "engine_cursor_inv = case_sum mt_cursor_inv sst_cursor_inv"

definition engine_cursor_rest :: "engine_cursor \<Rightarrow> lsm_entry list" where
  "engine_cursor_rest = case_sum mt_cursor_rest sst_rest"

interpretation engine_cursor: lsm_cursor EngineCursor engine_cursor_inv engine_cursor_rest
proof (unfold_locales, goal_cases)
  case (1 c)
  then show ?case
    using memtable_cursor.rest_asc sstable_cursor.rest_asc
    by (cases c) (auto simp: engine_cursor_inv_def engine_cursor_rest_def)
next
  case (2 c)
  then show ?case
    using memtable_cursor.Valid_iff sstable_cursor.Valid_iff
    by (cases c) (auto simp: EngineCursor_def engine_cursor_inv_def engine_cursor_rest_def)
next
  case (3 c)
  then show ?case
    using memtable_cursor.Key_eq sstable_cursor.Key_eq
    by (cases c) (auto simp: EngineCursor_def engine_cursor_inv_def engine_cursor_rest_def)
next
  case (4 c)
  then show ?case
    using memtable_cursor.Value_eq sstable_cursor.Value_eq
    by (cases c) (auto simp: EngineCursor_def engine_cursor_inv_def engine_cursor_rest_def)
next
  case (5 c)
  then show ?case
  proof (cases c)
    case (Inl m)
    then show ?thesis
      using 5 memtable_cursor.Next_ok[of m]
      by (auto simp: EngineCursor_def engine_cursor_inv_def engine_cursor_rest_def)
  next
    case (Inr s)
    then show ?thesis
      using 5 sstable_cursor.Next_ok[of s]
      by (auto simp: EngineCursor_def engine_cursor_inv_def engine_cursor_rest_def)
  qed
qed

lemma open_cursors_ok:
  assumes "\<forall>sst\<in>set ssts. sst_inv sst"
  shows "\<exists>cs. open_cursors k ssts = Inr cs \<and> (\<forall>c\<in>set cs. sst_cursor_inv c) \<and>
    map sst_rest cs = map (\<lambda>sst. filter (\<lambda>e. k \<le> fst e) (sst_entries sst)) ssts"
  using assms
proof (induction ssts)
  case (Cons sst ssts)
  obtain it where it: "SSTable_NewIterator k sst = Inr it" "sst_cursor_inv (sst, it)"
    "sst_rest (sst, it) = filter (\<lambda>e. k \<le> fst e) (sst_entries sst)"
    using NewIterator_ok[of sst k] Cons.prems by auto
  from Cons.IH Cons.prems obtain cs where "open_cursors k ssts = Inr cs" "\<forall>c\<in>set cs. sst_cursor_inv c"
    "map sst_rest cs = map (\<lambda>sst. filter (\<lambda>e. k \<le> fst e) (sst_entries sst)) ssts"
    by auto
  with it show ?case
    by simp
qed simp

lemma map_of_filter_from: "map_of (filter (\<lambda>e. k \<le> fst e) es) k' = (if k \<le> k' then map_of es k' else None)"
  by (induction es) auto

lemma first_hit_filter_from:
  "first_hit (map (filter (\<lambda>e. k \<le> fst e)) ess) k' = (if k \<le> k' then first_hit ess k' else None)"
  by (induction ess) (auto simp: map_of_filter_from split: option.splits)

text \<open>A run that ends before the start key contributes nothing.\<close>

lemma first_hit_skip:
  "\<forall>x\<in>set xs. \<not> P x \<longrightarrow> f x = [] \<Longrightarrow> first_hit (map f (filter P xs)) k = first_hit (map f xs) k"
  by (induction xs) (auto split: option.splits)

lemma drain_more_fuel: "Merge_drain f ops m = Inr es \<Longrightarrow> f \<le> f' \<Longrightarrow> Merge_drain f' ops m = Inr es"
proof (induction f arbitrary: f' m es)
  case (Suc f)
  then obtain g where g: "f' = Suc g" "f \<le> g"
    by (cases f') auto
  show ?case
  proof (cases "mi_valid m")
    case True
    then obtain m1 es1 where "Merge_Next ops m = Inr m1" "Merge_drain f ops m1 = Inr es1"
      "es = (mi_current_key m, mi_current_value m) # es1"
      using Suc.prems(1) by (auto split: sum.splits)
    then show ?thesis
      using True g Suc.IH[of m1 es1 g] by simp
  qed (use Suc.prems(1) g in simp)
qed simp

lemma drain_length: "Merge_drain f ops m = Inr es \<Longrightarrow> length es < f"
  by (induction f arbitrary: m es) (auto split: sum.splits if_splits)

lemma SkipTombstones_ok:
  "Merge_drain f EngineCursor m = Inr es \<Longrightarrow>
     \<exists>m'. SkipTombstones f m = Inr m' \<and>
       Merge_drain f EngineCursor m' = Inr (dropWhile (\<lambda>e. lv_deleted (snd e)) es)"
proof (induction f arbitrary: m es)
  case (Suc f)
  show ?case
  proof (cases "mi_valid m")
    case False
    then show ?thesis
      using Suc.prems by auto
  next
    case True
    then obtain m1 es1 where m1: "Merge_Next EngineCursor m = Inr m1" "Merge_drain f EngineCursor m1 = Inr es1"
      "es = (mi_current_key m, mi_current_value m) # es1"
      using Suc.prems by (auto split: sum.splits)
    show ?thesis
    proof (cases "lv_deleted (mi_current_value m)")
      case True
      from Suc.IH[OF m1(2)] obtain m' where "SkipTombstones f m1 = Inr m'"
        "Merge_drain f EngineCursor m' = Inr (dropWhile (\<lambda>e. lv_deleted (snd e)) es1)"
        by blast
      then show ?thesis
        using True \<open>mi_valid m\<close> m1 drain_more_fuel[of f EngineCursor m' _ "Suc f"] by auto
    next
      case False
      then show ?thesis
        using Suc.prems m1(3) by auto
    qed
  qed
qed simp

text \<open>The entries a scan shows.\<close>

definition shown :: "lsm_entry list \<Rightarrow> (KeyType \<times> string) list" where
  "shown es = map (\<lambda>(k, v). (k, lv_value v)) (filter (\<lambda>e. \<not> lv_deleted (snd e)) es)"

text \<open>A client's loop \<open>for (; it->IsValid(); it->Next())\<close>.\<close>

fun LSMScan_drain :: "nat \<Rightarrow> scan_iterator \<Rightarrow> (KeyType \<times> string) list result" where
  "LSMScan_drain 0 it = endless"
| "LSMScan_drain (Suc fuel) it =
     (if \<not> LSMScan_IsValid it then Inr []
      else case LSMScan_Next it of
             Inl e \<Rightarrow> Inl e
           | Inr it' \<Rightarrow>
               (case LSMScan_drain fuel it' of
                  Inl e \<Rightarrow> Inl e
                | Inr es \<Rightarrow> Inr ((LSMScan_GetKey it, LSMScan_GetValue it) # es)))"

text \<open>An iterator that still has the entries \<open>es\<close> to merge, the first of them not a tombstone.\<close>

definition scan_at :: "scan_iterator \<Rightarrow> lsm_entry list \<Rightarrow> bool" where
  "scan_at it es \<longleftrightarrow> Merge_drain (si_fuel it) EngineCursor (si_merge it) = Inr es \<and>
     (es \<noteq> [] \<longrightarrow> \<not> lv_deleted (snd (hd es)))"

lemma scan_at_cases:
  assumes "scan_at it es"
  shows "es = [] \<Longrightarrow> \<not> LSMScan_IsValid it"
    "es = x # xs \<Longrightarrow> LSMScan_IsValid it \<and> LSMScan_GetKey it = fst x \<and> LSMScan_GetValue it = lv_value (snd x) \<and>
       (\<exists>it'. LSMScan_Next it = Inr it' \<and> scan_at it' (dropWhile (\<lambda>e. lv_deleted (snd e)) xs))"
proof -
  obtain f where f: "si_fuel it = Suc f"
    using assms by (cases "si_fuel it") (auto simp: scan_at_def)
  show "\<not> LSMScan_IsValid it" if "es = []"
    using assms that f by (auto simp: scan_at_def LSMScan_IsValid_def split: if_splits sum.splits)
  assume es: "es = x # xs"
  then obtain m1 where m1: "mi_valid (si_merge it)" "Merge_Next EngineCursor (si_merge it) = Inr m1"
    "Merge_drain f EngineCursor m1 = Inr xs" "x = (mi_current_key (si_merge it), mi_current_value (si_merge it))"
    using assms f by (auto simp: scan_at_def split: if_splits sum.splits)
  have "Merge_drain (Suc f) EngineCursor m1 = Inr xs"
    by (rule drain_more_fuel[OF m1(3)]) simp
  from SkipTombstones_ok[OF this] obtain m2 where m2: "SkipTombstones (Suc f) m1 = Inr m2"
    "Merge_drain (Suc f) EngineCursor m2 = Inr (dropWhile (\<lambda>e. lv_deleted (snd e)) xs)"
    by blast
  have "scan_at (it\<lparr>si_merge := m2\<rparr>) (dropWhile (\<lambda>e. lv_deleted (snd e)) xs)"
    using m2(2) f hd_dropWhile[of "\<lambda>e. lv_deleted (snd e)" xs] by (auto simp: scan_at_def)
  then show "LSMScan_IsValid it \<and> LSMScan_GetKey it = fst x \<and> LSMScan_GetValue it = lv_value (snd x) \<and>
       (\<exists>it'. LSMScan_Next it = Inr it' \<and> scan_at it' (dropWhile (\<lambda>e. lv_deleted (snd e)) xs))"
    using m1 m2(1) f
    by (simp add: LSMScan_IsValid_def LSMScan_GetKey_def LSMScan_GetValue_def LSMScan_Next_def)
qed

lemma shown_dropWhile: "shown (dropWhile (\<lambda>e. lv_deleted (snd e)) es) = shown es"
  by (induction es) (auto simp: shown_def)

lemma scan_drain_ok: "scan_at it es \<Longrightarrow> length es < fuel \<Longrightarrow> LSMScan_drain fuel it = Inr (shown es)"
proof (induction fuel arbitrary: it es)
  case (Suc fuel)
  show ?case
  proof (cases es)
    case Nil
    then show ?thesis
      using scan_at_cases(1)[OF Suc.prems(1)] by (simp add: shown_def)
  next
    case (Cons x xs)
    from scan_at_cases(2)[OF Suc.prems(1) Cons] obtain it' where it': "LSMScan_IsValid it"
      "LSMScan_GetKey it = fst x" "LSMScan_GetValue it = lv_value (snd x)" "LSMScan_Next it = Inr it'"
      "scan_at it' (dropWhile (\<lambda>e. lv_deleted (snd e)) xs)"
      by blast
    have "\<not> lv_deleted (snd x)"
      using Suc.prems(1) Cons by (simp add: scan_at_def)
    moreover have "LSMScan_drain fuel it' = Inr (shown xs)"
      using Suc.IH[OF it'(5)] Suc.prems(2) Cons length_dropWhile_le[of "\<lambda>e. lv_deleted (snd e)" xs]
      by (simp add: shown_dropWhile)
    ultimately show ?thesis
      using it' Cons by (simp add: shown_def case_prod_unfold)
  qed
qed simp

lemma sst_inv_facts2:
  assumes "sst_inv sst"
  shows "asc (sst_entries sst)" "sst_num_entries sst = int (length (sst_entries sst))"
    "sst_max_key sst < k \<Longrightarrow> filter (\<lambda>e. k \<le> fst e) (sst_entries sst) = []"
proof -
  have h: "asc (sst_entries sst)" "sst_num_entries sst = int (length (sst_entries sst))"
    "sst_entries sst \<noteq> [] \<Longrightarrow> sst_max_key sst = fst (last (sst_entries sst))"
    using assms by (auto simp: sst_inv_def sst_holds_def)
  then show "asc (sst_entries sst)" "sst_num_entries sst = int (length (sst_entries sst))"
    by blast+
  show "filter (\<lambda>e. k \<le> fst e) (sst_entries sst) = []" if "sst_max_key sst < k"
  proof (cases "sst_entries sst = []")
    case False
    then show ?thesis
      using h(1,3) that asc_bounds[OF h(1)] by (force simp: filter_empty_conv)
  qed simp
qed

lemma sum_num_entries:
  assumes "\<forall>sst\<in>set ssts. sst_inv sst"
  shows "sum_list (map sst_num_entries ssts) = int (sum_list (map (length \<circ> sst_entries) ssts))"
  using assms by (induction ssts) (auto simp: sst_inv_facts2)

lemma sum_length_filter: "sum_list (map (\<lambda>x. length (filter P (f x))) xs) \<le> sum_list (map (\<lambda>x. length (f x)) xs)"
  by (induction xs) (auto intro: add_mono)

lemma sum_list_filter_le: "sum_list (map (f :: 'a \<Rightarrow> nat) (filter P xs)) \<le> sum_list (map f xs)"
  by (induction xs) auto

lemma total_entries_eq:
  assumes "readable e"
  shows "LSM_total_entries e = sum_list (map length (lsm_runs e))"
  using assms sum_num_entries[of "concat (le_tiers e)"]
  by (simp add: readable_def LSM_total_entries_def lsm_runs_def MemTable_EntryCount_spec comp_def)

lemma map_of_shown: "asc es \<Longrightarrow> map_of (shown es) k = visible (map_of es k)"
proof (induction es)
  case (Cons e es)
  have "map_of es (fst e) = None"
    using Cons.prems by (auto simp: map_of_eq_None_keys)
  then show ?case
    using Cons by (cases e) (auto simp: shown_def)
qed (simp add: shown_def)

lemma asc_shown: "asc es \<Longrightarrow> sorted_wrt (<) (map fst (shown es))"
  by (induction es) (auto simp: shown_def)

lemma LSM_Scan_ok:
  assumes "readable e"
  shows "\<exists>it es. LSM_Scan k e = Inr it \<and> scan_at it (dropWhile (\<lambda>e. lv_deleted (snd e)) es) \<and> asc es \<and>
    length es < LSM_total_entries e + 1 \<and> (\<forall>k'. map_of es k' = (if k \<le> k' then first_hit (lsm_runs e) k' else None))"
proof -
  let ?mt = "le_active_memtable e" and ?ssts = "concat (le_tiers e)"
  let ?keep = "filter (\<lambda>sst. \<not> sst_max_key sst < k) ?ssts" and ?from = "filter (\<lambda>e. k \<le> fst e)"
  have r: "mt_inv ?mt" "\<forall>sst\<in>set ?ssts. sst_inv sst"
    using assms by (auto simp: readable_def)
  obtain mit where mit: "MemTable_LowerBound k ?mt = Inr mit" "mt_cursor_inv (?mt, mit)"
    "mt_cursor_rest (?mt, mit) = ?from (mt_entries ?mt)"
    by (rule mt_cursor_LowerBound[OF r(1)])
  obtain cs where cs: "open_cursors k ?keep = Inr cs" "\<forall>c\<in>set cs. sst_cursor_inv c"
    "map sst_rest cs = map (\<lambda>sst. ?from (sst_entries sst)) ?keep"
    using open_cursors_ok[of ?keep k] r(2) by auto
  let ?cs = "Inl (?mt, mit) # map Inr cs"
  have ok: "engine_cursor.cs_ok ?cs"
    unfolding engine_cursor.cs_ok_def using mit(2) cs(2) by (auto simp: engine_cursor_inv_def)
  have rests: "engine_cursor.rests ?cs = ?from (mt_entries ?mt) # map (\<lambda>sst. ?from (sst_entries sst)) ?keep"
    unfolding engine_cursor.rests_def using mit(3) cs(3) by (simp add: engine_cursor_rest_def comp_def)
  have skip: "first_hit (map (\<lambda>sst. ?from (sst_entries sst)) ?keep) k' = first_hit (map (\<lambda>sst. ?from (sst_entries sst)) ?ssts) k'" for k'
    by (rule first_hit_skip) (use r(2) sst_inv_facts2(3) in auto)
  have "first_hit (engine_cursor.rests ?cs) k' = first_hit (map ?from (lsm_runs e)) k'" for k'
    unfolding rests by (auto simp: skip lsm_runs_def comp_def split: option.split)
  then have hits: "first_hit (engine_cursor.rests ?cs) k' = (if k \<le> k' then first_hit (lsm_runs e) k' else None)" for k'
    by (simp add: first_hit_filter_from)
  have "sum_list (map length (engine_cursor.rests ?cs)) \<le> LSM_total_entries e"
    using add_mono[OF length_filter_le order.trans[OF sum_length_filter sum_list_filter_le]]
    by (simp add: total_entries_eq[OF assms] rests lsm_runs_def comp_def)
  then have "sum_list (map length (engine_cursor.rests ?cs)) < LSM_total_entries e + 1"
    by simp
  from engine_cursor.merge_all[OF ok this] obtain m out where m: "LSMMergeIterator EngineCursor ?cs = Inr m"
    "Merge_drain (LSM_total_entries e + 1) EngineCursor m = Inr out" "asc out" "map_of out = first_hit (engine_cursor.rests ?cs)"
    by blast
  from SkipTombstones_ok[OF m(2)] obtain m' where m': "SkipTombstones (LSM_total_entries e + 1) m = Inr m'"
    "Merge_drain (LSM_total_entries e + 1) EngineCursor m' = Inr (dropWhile (\<lambda>e. lv_deleted (snd e)) out)"
    by blast
  have "LSM_Scan k e = Inr \<lparr>si_merge = m', si_fuel = LSM_total_entries e + 1\<rparr>"
    using mit(1) cs(1) m(1) m'(1) by (simp add: LSM_Scan_def LSMScanIterator_def)
  moreover have "scan_at \<lparr>si_merge = m', si_fuel = LSM_total_entries e + 1\<rparr> (dropWhile (\<lambda>e. lv_deleted (snd e)) out)"
    using m'(2) hd_dropWhile[of "\<lambda>e. lv_deleted (snd e)" out] by (auto simp: scan_at_def)
  ultimately show ?thesis
    using m(3,4) hits drain_length[OF m(2)] by auto
qed

text \<open>Everything a scan yields.\<close>

lemma LSM_Scan_drain:
  assumes "readable e"
  shows "\<exists>it out. LSM_Scan k e = Inr it \<and> LSMScan_drain (LSM_total_entries e + 1) it = Inr out \<and>
    sorted_wrt (<) (map fst out) \<and> (\<forall>k'. map_of out k' = (if k \<le> k' then lsm_map e k' else None))"
proof -
  obtain it es where it: "LSM_Scan k e = Inr it" "scan_at it (dropWhile (\<lambda>e. lv_deleted (snd e)) es)" "asc es"
    "length es < LSM_total_entries e + 1" "\<forall>k'. map_of es k' = (if k \<le> k' then first_hit (lsm_runs e) k' else None)"
    using LSM_Scan_ok[OF assms] by blast
  have "LSMScan_drain (LSM_total_entries e + 1) it = Inr (shown es)"
    using scan_drain_ok[OF it(2), of "LSM_total_entries e + 1"] it(4) length_dropWhile_le[of "\<lambda>e. lv_deleted (snd e)" es]
    by (simp add: shown_dropWhile)
  then show ?thesis
    using it(1,5) asc_shown[OF it(3)] map_of_shown[OF it(3)] by (auto simp: lsm_map_def)
qed

end
