(* ===== verification/LSM_Writes.thy ===== *)
theory LSM_Writes
  imports LSM_Reads "HOL-Library.Multiset"
begin

text \<open>
  The invariant of the LSM-tree engine and that its writes keep it and refine updates of the map:
  building a table, writing the manifest, compaction (with a flush allowed in the middle), flush,
  \<open>Put\<close> and \<open>Delete\<close>.
\<close>

section \<open>The invariant\<close>

definition env_ok :: "lsm_env \<Rightarrow> bool" where
  "env_ok env \<longleftrightarrow> sizing_ok (env_sizing env) \<and> (\<forall>n < 2 ^ 30. fst (env_sizing env n) < 2 ^ 38)"

text \<open>A table of the engine: readable, and its file can be opened again with the same entries.\<close>

definition table_ok :: "string \<Rightarrow> int \<Rightarrow> files \<Rightarrow> sstable \<Rightarrow> bool" where
  "table_ok db_path next_id fs sst \<longleftrightarrow>
     sst_inv sst \<and> \<not> sst_obsolete sst \<and>
     0 \<le> sst_id sst \<and> sst_id sst < next_id \<and> sst_path sst = SSTablePath db_path (sst_id sst) \<and>
     sst_path sst \<in> keys_of fs \<and>
     (\<exists>s. SSTable_Open (sst_path sst) (fs_read (sst_path sst) fs) = Inr s \<and> sst_holds s (sst_entries sst) \<and>
          sst_path s = sst_path sst \<and> \<not> sst_obsolete s)"

definition tables_ok :: "string \<Rightarrow> int \<Rightarrow> files \<Rightarrow> sstable list \<Rightarrow> bool" where
  "tables_ok db_path next_id fs ssts \<longleftrightarrow>
     (\<forall>sst\<in>set ssts. table_ok db_path next_id fs sst) \<and> distinct (map sst_id ssts) \<and> 0 \<le> next_id \<and>
     (\<forall>i\<ge>next_id. SSTablePath db_path i \<notin> keys_of fs) \<and> distinct_keys fs"

text \<open>The tables of the tiers, and those that are built but not installed yet.\<close>

abbreviation engine_tables_ok :: "sstable list \<Rightarrow> lsm_engine \<Rightarrow> bool" where
  "engine_tables_ok extra e \<equiv> tables_ok (le_db_path e) (le_next_sstable_id e) (le_files e) (concat (le_tiers e) @ extra)"

definition manifest_fits :: "sstable list list \<Rightarrow> bool" where
  "manifest_fits tiers \<longleftrightarrow> length tiers \<le> kMaxManifestTiers \<and> (\<forall>tier\<in>set tiers. length tier \<le> kMaxSSTablesPerManifestTier)"

definition manifest_ok :: "lsm_engine \<Rightarrow> bool" where
  "manifest_ok e \<longleftrightarrow> manifest_fits (le_tiers e) \<and> dm_file (le_manifest e) \<noteq> [] \<and>
     ManifestPage_read (disk_page (le_manifest e) 0) = Manifest_of (le_next_sstable_id e) (le_tiers e)"

text \<open>The memtable that a log replays to.\<close>

definition replay_record :: "log_record \<Rightarrow> (KeyType \<rightharpoonup> LSMValue) \<Rightarrow> (KeyType \<rightharpoonup> LSMValue)" where
  "replay_record r m =
     (if lr_op r = PUT then m(lr_key r \<mapsto> LSMValue_Value (lr_new_value r))
      else if lr_op r = DELETE then m(lr_key r \<mapsto> LSMValue_Tombstone) else m)"

text \<open>Neither the manifest nor a memtable log.\<close>

definition plain_file :: "string \<Rightarrow> string \<Rightarrow> bool" where
  "plain_file db_path p \<longleftrightarrow> generation_suffix db_path p = None \<and> p \<noteq> db_path"

definition wal_ok :: "lsm_engine \<Rightarrow> bool" where
  "wal_ok e \<longleftrightarrow> keys_of (le_files e) \<subseteq> Collect (plain_file (le_db_path e)) \<and>
     (if le_wal_enabled e then
        0 < le_next_wal_generation e \<and>
        (\<exists>lm recs. le_memtable_wal e = Some lm \<and> lm_holds lm recs \<and>
           map_of (mt_entries (le_active_memtable e)) = fold replay_record recs Map.empty)
      else le_memtable_wal e = None)"

definition mem_inv :: "lsm_env \<Rightarrow> sstable list \<Rightarrow> lsm_engine \<Rightarrow> bool" where
  "mem_inv env extra e \<longleftrightarrow> env_ok env \<and> mt_inv (le_active_memtable e) \<and>
     (\<forall>x\<in>set (mt_entries (le_active_memtable e)). entry_fits x) \<and> engine_tables_ok extra e \<and> wal_ok e"

text \<open>The invariant between operations, when no compaction is under way.\<close>

definition lsm_inv :: "lsm_env \<Rightarrow> lsm_engine \<Rightarrow> bool" where
  "lsm_inv env e \<longleftrightarrow> mem_inv env [] e \<and> manifest_ok e \<and> \<not> le_compaction_running e"

text \<open>
  Room for \<open>n\<close> more writes: a write adds at most one entry and, with the flush and the compaction
  it may trigger, two tables and one log generation. The numbers of the on-disk formats bound how
  far this can go.
\<close>

definition lsm_room :: "lsm_engine \<Rightarrow> nat \<Rightarrow> bool" where
  "lsm_room e n \<longleftrightarrow> sum_list (map length (lsm_runs e)) + n < 2 ^ 30 \<and>
     le_next_sstable_id e + 2 * int n \<le> INT64_MAX \<and> le_next_wal_generation e + int n \<le> INT64_MAX \<and>
     (\<forall>lm. le_memtable_wal e = Some lm \<longrightarrow> lm_next_lsn lm + int n \<le> INT64_MAX)"

lemma table_ok_readable: "table_ok db_path next_id fs sst \<Longrightarrow> sst_inv sst"
  by (simp add: table_ok_def)

lemma mem_inv_readable: "mem_inv env extra e \<Longrightarrow> readable e"
  by (auto simp: mem_inv_def readable_def tables_ok_def table_ok_def)

section \<open>Names of files\<close>

lemma SSTablePath_inj: "0 \<le> i \<Longrightarrow> 0 \<le> j \<Longrightarrow> SSTablePath db i = SSTablePath db j \<longleftrightarrow> i = j"
  by (simp add: SSTablePath_def to_string_inj)

lemma no_slash_to_string: "CHR ''/'' \<notin> set (to_string i)"
  using nat_to_string_digits[of "CHR ''/''"] by (auto simp: to_string_def isdigit_def)

lemma path_parts_append:
  assumes "CHR ''/'' \<notin> set s"
  shows "path_filename (p @ s) = path_filename p @ s" "path_parent (p @ s) = path_parent p"
proof -
  have "takeWhile (\<lambda>c. c \<noteq> CHR ''/'') (rev (p @ s)) = rev s @ takeWhile (\<lambda>c. c \<noteq> CHR ''/'') (rev p)"
    using assms by (simp, intro takeWhile_append2) auto
  then show "path_filename (p @ s) = path_filename p @ s"
    by (simp add: path_filename_def)
  have "dropWhile (\<lambda>c. c \<noteq> CHR ''/'') (rev (p @ s)) = dropWhile (\<lambda>c. c \<noteq> CHR ''/'') (rev p)"
    using assms by (simp, intro dropWhile_append2) auto
  then show "path_parent (p @ s) = path_parent p"
    by (simp add: path_parent_def)
qed

lemma SSTablePath_plain: "plain_file db (SSTablePath db i)"
proof -
  have "CHR ''/'' \<notin> set (''.sst'' @ to_string i)"
    using no_slash_to_string by auto
  note parts = path_parts_append[OF this, of db]
  have "take 7 (''.sst'' @ to_string i) \<noteq> ''.memwal''"
    by (auto simp: numeral_eq_Suc)
  then show ?thesis
    using parts by (simp add: plain_file_def generation_suffix_def SSTablePath_def Let_def)
qed

lemma generation_suffix_MemWALPath: "0 \<le> g \<Longrightarrow> generation_suffix db (MemWALPath db g) = Some (to_string g)"
proof -
  assume g: "0 \<le> g"
  have "CHR ''/'' \<notin> set (''.memwal'' @ to_string g)"
    using no_slash_to_string by auto
  note parts = path_parts_append[OF this, of db]
  have "list_all isdigit (to_string g)" "to_string g \<noteq> []"
    using g nat_to_string_digits by (auto simp: to_string_nonneg list_all_iff)
  then show ?thesis
    using parts by (simp add: generation_suffix_def MemWALPath_def Let_def)
qed

lemma generation_suffix_db: "generation_suffix db db = None"
  by (simp add: generation_suffix_def Let_def)

lemma paths_differ:
  assumes "0 \<le> g"
  shows "MemWALPath db g \<noteq> SSTablePath db i" "MemWALPath db g \<noteq> db"
  using generation_suffix_MemWALPath[OF assms, of db] SSTablePath_plain[of db i] generation_suffix_db[of db]
  by (auto simp: plain_file_def)

lemma MemWALPath_inj: "0 \<le> i \<Longrightarrow> 0 \<le> j \<Longrightarrow> MemWALPath db i = MemWALPath db j \<longleftrightarrow> i = j"
  by (simp add: MemWALPath_def to_string_inj)

lemma fs_read_update [simp]: "fs_read p (AList.update q bs fs) = (if p = q then bs else fs_read p fs)"
  by (simp add: fs_read_def)

lemma fs_read_delete [simp]: "fs_read p (AList.delete q fs) = (if p = q then [] else fs_read p fs)"
  by (simp add: fs_read_def)

lemma fs_read_missing: "p \<notin> keys_of fs \<Longrightarrow> fs_read p fs = []"
  by (simp add: fs_read_def map_of_eq_None_keys[symmetric] del: map_of_eq_None_keys)

section \<open>Building a table\<close>

lemma tables_ok_sub:
  "tables_ok db n fs ssts \<Longrightarrow> set ssts' \<subseteq> set ssts \<Longrightarrow> distinct (map sst_id ssts') \<Longrightarrow> tables_ok db n fs ssts'"
  by (auto simp: tables_ok_def)

lemma tables_ok_prefix: "tables_ok db n fs (ssts @ ssts') \<Longrightarrow> tables_ok db n fs ssts"
  by (auto simp: tables_ok_def)

lemma sst_holds_SetId [simp]: "sst_holds (SSTable_SetId i sst) es = sst_holds sst es"
  by (simp add: sst_holds_def SSTable_SetId_def)

lemma SetId_fields [simp]: "sst_id (SSTable_SetId i sst) = i" "sst_path (SSTable_SetId i sst) = sst_path sst"
  "sst_obsolete (SSTable_SetId i sst) = sst_obsolete sst"
  by (simp_all add: SSTable_SetId_def)

lemma sst_fits_env: "env_ok env \<Longrightarrow> asc es \<Longrightarrow> \<forall>x\<in>set es. entry_fits x \<Longrightarrow> length es < 2 ^ 30 \<Longrightarrow> sst_fits (env_sizing env) es"
  by (simp add: env_ok_def sst_fits_def)

lemma table_ok_frame:
  assumes "table_ok db n fs sst" "0 \<le> n" "n \<le> n'" "\<And>i. 0 \<le> i \<Longrightarrow> i < n \<Longrightarrow> map_of fs' (SSTablePath db i) = map_of fs (SSTablePath db i)"
  shows "table_ok db n' fs' sst"
  using assms(1-3) assms(4)[of "sst_id sst"]
  by (auto simp: table_ok_def fs_read_def dom_map_of_conv_image_fst[symmetric] simp del: dom_map_of_conv_image_fst)

lemma new_table_ok:
  assumes env: "env_ok env" and tabs: "tables_ok (le_db_path e) (le_next_sstable_id e) (le_files e) ssts"
    and es: "asc es" "\<forall>x\<in>set es. entry_fits x" "length es < 2 ^ 30"
  obtains img sst where
    "LSM_new_table env es e =
       (Inr sst, e\<lparr>le_next_sstable_id := le_next_sstable_id e + 1,
                   le_files := AList.update (SSTablePath (le_db_path e) (le_next_sstable_id e)) img (le_files e)\<rparr>)"
    "tables_ok (le_db_path e) (le_next_sstable_id e + 1)
       (AList.update (SSTablePath (le_db_path e) (le_next_sstable_id e)) img (le_files e)) (ssts @ [sst])"
    "sst_entries sst = es"
proof -
  let ?db = "le_db_path e" and ?n = "le_next_sstable_id e" and ?path = "SSTablePath (le_db_path e) (le_next_sstable_id e)"
  obtain img s where b: "SSTable_Build (env_slack env) (env_sizing env) [] es = Inr img" "SSTable_Open ?path img = Inr s"
    "sst_holds s es" "sst_path s = ?path" "sst_id s = - 1" "\<not> sst_obsolete s"
    by (rule Build_Open[OF sst_fits_env[OF env es]])
  let ?fs = "AList.update ?path img (le_files e)" and ?sst = "SSTable_SetId ?n s"
  have t: "\<forall>sst\<in>set ssts. table_ok ?db ?n (le_files e) sst" "distinct (map sst_id ssts)"
    "0 \<le> ?n" "\<forall>i\<ge>?n. SSTablePath ?db i \<notin> keys_of (le_files e)" "distinct_keys (le_files e)"
    using tabs by (auto simp: tables_ok_def)
  have "fs_read ?path (le_files e) = []"
    using t(4) by (intro fs_read_missing) auto
  then have new: "LSM_new_table env es e = (Inr ?sst, e\<lparr>le_next_sstable_id := ?n + 1, le_files := ?fs\<rparr>)"
    using b(1,2) by (simp add: LSM_new_table_def Let_def)
  have "sst_entries ?sst = es"
    using sst_entries_eq[of ?sst es] b(3) by simp
  moreover have "table_ok ?db (?n + 1) ?fs ?sst"
    using b calculation t(3) by (auto simp: table_ok_def sst_inv_def)
  moreover have "table_ok ?db (?n + 1) ?fs sst" if "sst \<in> set ssts" for sst
    by (rule table_ok_frame[OF t(1)[rule_format, OF that] t(3)]) (auto simp: SSTablePath_inj)
  moreover have "\<forall>i\<ge>?n + 1. SSTablePath ?db i \<notin> keys_of ?fs"
    using t(3,4) by (auto simp: SSTablePath_inj)
  moreover have "\<forall>sst\<in>set ssts. sst_id sst < ?n"
    using t(1) unfolding table_ok_def by blast
  then have "?n \<notin> sst_id ` set ssts"
    by force
  ultimately show ?thesis
    using that[OF new] t(2,3,5) by (auto simp: tables_ok_def)
qed

section \<open>The manifest\<close>

lemma length_pad_to [simp]: "length xs \<le> n \<Longrightarrow> length (pad_to n x xs) = n"
  by (simp add: pad_to_def)

lemma set_pad_to: "set (pad_to n x xs) \<subseteq> insert x (set xs)"
  by (auto simp: pad_to_def)

lemma concat_bytes_field:
  assumes "\<forall>x\<in>set xs. length (enc x) = sz" "i < length xs" "length pre = off"
  shows "field (off + sz * i) sz (pre @ concat (map enc xs) @ rest) = enc (xs ! i)"
  using field_concat[of xs enc sz i rest] assms by (simp add: field_right)

lemma le_sint_i32: "- (2 ^ 31) \<le> x \<Longrightarrow> x < 2 ^ 31 \<Longrightarrow> le_sint (le_bytes 4 x) = x"
  by (rule le_sint_le_bytes) auto

text \<open>A manifest page read back.\<close>

lemma ManifestPage_round_trip:
  assumes mp: "length (mp_tier_count mp) = kMaxManifestTiers" "length (mp_tier_ids mp) = kMaxManifestTiers"
    "\<forall>ids\<in>set (mp_tier_ids mp). length ids = kMaxSSTablesPerManifestTier"
    and small: "is_int64 (mp_next_sstable_id mp)" "\<forall>c\<in>set (mp_tier_count mp). 0 \<le> c \<and> c < 2 ^ 31"
    "\<forall>ids\<in>set (mp_tier_ids mp). \<forall>i\<in>set ids. is_int64 i"
  shows "length (ManifestPage_bytes mp) = 1064" "ManifestPage_read (page_image slack (ManifestPage_bytes mp)) = mp"
proof -
  let ?rest = "map slack [0..<PAGE_SIZE - length (ManifestPage_bytes mp)]"
  let ?A = "le_bytes 8 (mp_next_sstable_id mp)" and ?B = "concat (map (le_bytes 4) (mp_tier_count mp))"
  let ?row = "\<lambda>ids. concat (map (le_bytes 8) ids)" and ?C = "concat (map (\<lambda>ids. concat (map (le_bytes 8) ids)) (mp_tier_ids mp))"
  have B: "length ?B = 32"
    using length_concat_map[of "mp_tier_count mp" "le_bytes 4" 4] mp(1) by (simp add: kMaxManifestTiers_def)
  have row: "\<forall>ids\<in>set (mp_tier_ids mp). length (?row ids) = 128"
    using mp(3) length_concat_map[of _ "le_bytes 8" 8] by (simp add: kMaxSSTablesPerManifestTier_def)
  then have C: "length ?C = 1024"
    using length_concat_map[of "mp_tier_ids mp" ?row 128] mp(2) by (simp add: kMaxManifestTiers_def)
  show "length (ManifestPage_bytes mp) = 1064"
    using B C by (simp add: ManifestPage_bytes_def)
  have pg: "page_image slack (ManifestPage_bytes mp) = ?A @ ?B @ ?C @ ?rest"
    by (simp add: page_image_def ManifestPage_bytes_def)
  have 1: "le_sint (field 0 8 (?A @ ?B @ ?C @ ?rest)) = mp_next_sstable_id mp"
    using small(1) by (simp add: codec)
  have 2: "map (\<lambda>t. le_sint (field (8 + 4 * t) 4 (?A @ ?B @ ?C @ ?rest))) [0..<kMaxManifestTiers] = mp_tier_count mp"
  proof (rule nth_equalityI)
    fix t assume t: "t < length (map (\<lambda>t. le_sint (field (8 + 4 * t) 4 (?A @ ?B @ ?C @ ?rest))) [0..<kMaxManifestTiers])"
    then have "mp_tier_count mp ! t \<in> set (mp_tier_count mp)"
      using mp(1) by simp
    then have "le_sint (le_bytes 4 (mp_tier_count mp ! t)) = mp_tier_count mp ! t"
      using small(2) by (intro le_sint_i32) auto
    then show "map (\<lambda>t. le_sint (field (8 + 4 * t) 4 (?A @ ?B @ ?C @ ?rest))) [0..<kMaxManifestTiers] ! t = mp_tier_count mp ! t"
      using t mp(1) concat_bytes_field[of "mp_tier_count mp" "le_bytes 4" 4 t ?A 8 "?C @ ?rest"]
      by simp
  qed (simp add: mp(1))
  have 3: "map (\<lambda>j. le_sint (field (40 + 128 * t + 8 * j) 8 (?A @ ?B @ ?C @ ?rest))) [0..<kMaxSSTablesPerManifestTier]
      = mp_tier_ids mp ! t" (is "?L = _") if t: "t < kMaxManifestTiers" for t
  proof (rule nth_equalityI)
    have in_ids: "mp_tier_ids mp ! t \<in> set (mp_tier_ids mp)"
      using t mp(2) by simp
    then show len: "length ?L = length (mp_tier_ids mp ! t)"
      using mp(3) by simp
    fix j assume "j < length ?L"
    then have j: "j < length (mp_tier_ids mp ! t)" "j < 16"
      using len by (simp_all add: kMaxSSTablesPerManifestTier_def)
    have "field (40 + 128 * t) 128 ((?A @ ?B) @ ?C @ ?rest) = ?row (mp_tier_ids mp ! t)"
      by (rule concat_bytes_field) (use row t mp(2) B in auto)
    then have "field (40 + 128 * t + 8 * j) 8 (?A @ ?B @ ?C @ ?rest) = field (8 * j) 8 (?row (mp_tier_ids mp ! t))"
      using field_field[of "8 * j" 8 128 "40 + 128 * t" "?A @ ?B @ ?C @ ?rest"] j(2) by simp
    also have "\<dots> = le_bytes 8 (mp_tier_ids mp ! t ! j)"
      using field_concat[of "mp_tier_ids mp ! t" "le_bytes 8" 8 j "[]"] j(1) by simp
    finally show "?L ! j = mp_tier_ids mp ! t ! j"
      using j small(3) in_ids nth_mem[OF j(1)] by (simp add: kMaxSSTablesPerManifestTier_def codec)
  qed
  have 4: "map (\<lambda>t. map (\<lambda>j. le_sint (field (40 + 128 * t + 8 * j) 8 (?A @ ?B @ ?C @ ?rest))) [0..<kMaxSSTablesPerManifestTier])
      [0..<kMaxManifestTiers] = mp_tier_ids mp"
    by (rule nth_equalityI) (use 3 mp(2) in simp_all)
  show "ManifestPage_read (page_image slack (ManifestPage_bytes mp)) = mp"
    unfolding pg ManifestPage_read_def 1 2 4 by simp
qed

lemma Manifest_of_round_trip:
  assumes "manifest_fits tiers" "is_int64 next_id" "\<forall>sst\<in>set (concat tiers). is_int64 (sst_id sst)"
  shows "length (ManifestPage_bytes (Manifest_of next_id tiers)) = 1064"
    "ManifestPage_read (page_image slack (ManifestPage_bytes (Manifest_of next_id tiers))) = Manifest_of next_id tiers"
proof -
  let ?mp = "Manifest_of next_id tiers"
  have fits: "length tiers \<le> kMaxManifestTiers" "\<forall>tier\<in>set tiers. length tier \<le> kMaxSSTablesPerManifestTier"
    using assms(1) by (auto simp: manifest_fits_def)
  have "length (mp_tier_count ?mp) = kMaxManifestTiers" "length (mp_tier_ids ?mp) = kMaxManifestTiers"
    using fits(1) by (simp_all add: Manifest_of_def)
  moreover have "\<forall>ids\<in>set (mp_tier_ids ?mp). length ids = kMaxSSTablesPerManifestTier"
    using fits(2) set_pad_to by (fastforce simp: Manifest_of_def)
  moreover have "\<forall>c\<in>set (mp_tier_count ?mp). 0 \<le> c \<and> c < 2 ^ 31"
    using fits(2) set_pad_to by (fastforce simp: Manifest_of_def kMaxSSTablesPerManifestTier_def)
  moreover have "is_int64 0"
    by (simp add: is_int64_def INVALID_KEY_def INT64_MAX_def)
  then have "\<forall>ids\<in>set (mp_tier_ids ?mp). \<forall>i\<in>set ids. is_int64 i"
    using assms(3) by (auto simp: Manifest_of_def pad_to_def)
  ultimately show "length (ManifestPage_bytes ?mp) = 1064" "ManifestPage_read (page_image slack (ManifestPage_bytes ?mp)) = ?mp"
    using ManifestPage_round_trip[of ?mp] assms(2) by (simp_all add: Manifest_of_def)
qed

lemma tables_ok_ids:
  assumes "tables_ok db n fs ssts" "n \<le> INT64_MAX"
  shows "is_int64 n" "\<forall>sst\<in>set ssts. is_int64 (sst_id sst)"
proof -
  have n: "0 \<le> n" "\<forall>sst\<in>set ssts. 0 \<le> sst_id sst \<and> sst_id sst < n"
    using assms(1) unfolding tables_ok_def table_ok_def by blast+
  show "is_int64 n" "\<forall>sst\<in>set ssts. is_int64 (sst_id sst)"
    using n assms(2) by (auto simp: is_int64_def INVALID_KEY_def)
qed

lemma Persist_ok:
  assumes "tables_ok (le_db_path e) (le_next_sstable_id e) fs (concat (le_tiers e))" "manifest_fits (le_tiers e)" "le_next_sstable_id e \<le> INT64_MAX"
  obtains dm where "LSM_PersistManifestLocked env e = (Inr (), e\<lparr>le_manifest := dm\<rparr>)" "manifest_ok (e\<lparr>le_manifest := dm\<rparr>)"
proof -
  let ?mp = "Manifest_of (le_next_sstable_id e) (le_tiers e)"
  note rt = Manifest_of_round_trip[OF assms(2) tables_ok_ids[OF assms(1,3)]]
  let ?pg = "page_image (env_slack env) (ManifestPage_bytes ?mp)"
  have len: "length ?pg = PAGE_SIZE"
    using rt(1) by (simp add: PAGE_SIZE_def)
  obtain dm where dm: "DiskManager_WritePage 0 ?pg (le_manifest e) = (Inr (), dm)" "disk_page dm 0 = ?pg" "dm_file dm \<noteq> []"
    using WritePage_eq[OF order.refl len, of "le_manifest e"] by (force simp: PAGE_SIZE_def)
  have "LSM_PersistManifestLocked env e = (Inr (), e\<lparr>le_manifest := dm\<rparr>)"
    using assms(2) dm(1) by (auto simp: LSM_PersistManifestLocked_def manifest_fits_def not_less)
  moreover have "manifest_ok (e\<lparr>le_manifest := dm\<rparr>)"
    using assms(2) dm(2,3) rt(2) by (simp add: manifest_ok_def)
  ultimately show ?thesis
    by (rule that)
qed

lemma Persist_full:
  "\<not> manifest_fits (le_tiers e) \<Longrightarrow> \<exists>msg. LSM_PersistManifestLocked env e = (Inl (RuntimeError msg), e)"
  by (auto simp: LSM_PersistManifestLocked_def manifest_fits_def not_le)

lemma Persist_cases:
  assumes "tables_ok (le_db_path e) (le_next_sstable_id e) fs (concat (le_tiers e))" "le_next_sstable_id e \<le> INT64_MAX"
  obtains (ok) dm where "LSM_PersistManifestLocked env e = (Inr (), e\<lparr>le_manifest := dm\<rparr>)" "manifest_ok (e\<lparr>le_manifest := dm\<rparr>)"
    "manifest_fits (le_tiers e)"
  | (full) msg where "LSM_PersistManifestLocked env e = (Inl (RuntimeError msg), e)" "\<not> manifest_fits (le_tiers e)"
  using Persist_ok[OF assms(1) _ assms(2), of env] Persist_full[of e env] by blast

section \<open>Compaction\<close>

lemma first_hit_append:
  "first_hit (xs @ ys) k = (case first_hit xs k of Some v \<Rightarrow> Some v | None \<Rightarrow> first_hit ys k)"
  by (induction xs) (auto split: option.splits)

lemma first_hit_Some: "first_hit ess k = Some v \<Longrightarrow> \<exists>es\<in>set ess. map_of es k = Some v"
  by (induction ess) (auto split: option.splits)

lemma map_of_filter_asc:
  "asc es \<Longrightarrow> map_of (filter P es) k = (case map_of es k of Some v \<Rightarrow> if P (k, v) then Some v else None | None \<Rightarrow> None)"
proof (induction es)
  case (Cons e es)
  have "map_of es (fst e) = None"
    using Cons.prems by (auto simp: map_of_eq_None_keys)
  then show ?case
    using Cons by (cases e) auto
qed simp

lemma asc_filter: "asc es \<Longrightarrow> asc (filter P es)"
  by (induction es) auto

lemma asc_distinct: "asc es \<Longrightarrow> distinct_keys es"
  by (simp add: strict_sorted_iff)

lemma sst_inv_fits: "sst_inv sst \<Longrightarrow> \<forall>x\<in>set (sst_entries sst). entry_fits x"
  by (simp add: sst_inv_def sst_holds_def)

lemma merged_ok:
  assumes "\<forall>sst\<in>set (cj_tables job). sst_inv sst"
  obtains merged where "LSM_merged job = Inr merged" "asc merged"
    "\<And>k. map_of merged k = (case first_hit (map sst_entries (cj_tables job)) k of
        Some v \<Rightarrow> if lv_deleted v \<and> cj_bottommost job then None else Some v | None \<Rightarrow> None)"
    "length merged \<le> sum_list (map (length \<circ> sst_entries) (cj_tables job))" "\<forall>x\<in>set merged. entry_fits x"
proof -
  let ?ss = "cj_tables job"
  obtain cs where cs: "open_cursors INVALID_KEY ?ss = Inr cs" "\<forall>c\<in>set cs. sst_cursor_inv c"
    "map sst_rest cs = map (\<lambda>sst. filter (\<lambda>e. INVALID_KEY \<le> fst e) (sst_entries sst)) ?ss"
    using open_cursors_ok[OF assms] by blast
  have rests: "sstable_cursor.rests cs = map sst_entries ?ss"
    unfolding sstable_cursor.rests_def cs(3)
    using assms sst_inv_fits by (intro map_cong refl filter_True) (auto simp: entry_fits_def is_int64_def)
  have ok: "sstable_cursor.cs_ok cs"
    unfolding sstable_cursor.cs_ok_def using cs(2) .
  have fuel: "nat (sum_list (map sst_num_entries ?ss)) + 1 = sum_list (map length (sstable_cursor.rests cs)) + 1"
    using sum_num_entries[OF assms] by (simp add: rests)
  from sstable_cursor.merge_all[OF ok, of "nat (sum_list (map sst_num_entries ?ss)) + 1"] fuel
  obtain m out where m: "LSMMergeIterator SSTableCursor cs = Inr m"
    "Merge_drain (nat (sum_list (map sst_num_entries ?ss)) + 1) SSTableCursor m = Inr out" "asc out"
    "map_of out = first_hit (map sst_entries ?ss)"
    by (auto simp: rests)
  let ?P = "\<lambda>(k, v). \<not> (lv_deleted v \<and> cj_bottommost job)"
  have "LSM_merged job = Inr (filter ?P out)"
    using cs(1) m(1,2) by (simp add: LSM_merged_def)
  moreover have "asc (filter ?P out)"
    by (rule asc_filter[OF m(3)])
  moreover have "map_of (filter ?P out) k = (case first_hit (map sst_entries ?ss) k of
        Some v \<Rightarrow> if lv_deleted v \<and> cj_bottommost job then None else Some v | None \<Rightarrow> None)" for k
    unfolding map_of_filter_asc[OF m(3)] m(4) by (auto split: option.split)
  moreover have "length (filter ?P out) \<le> sum_list (map (length \<circ> sst_entries) ?ss)"
    using drain_length[OF m(2)] fuel by (intro order.trans[OF length_filter_le]) (simp add: rests comp_def)
  moreover have "entry_fits x" if "x \<in> set (filter ?P out)" for x
  proof -
    have "first_hit (map sst_entries ?ss) (fst x) = Some (snd x)"
      using that map_of_in_set[OF asc_distinct[OF m(3)], of "fst x" "snd x"] m(4) by simp
    from first_hit_Some[OF this] obtain sst where "sst \<in> set ?ss" "map_of (sst_entries sst) (fst x) = Some (snd x)"
      by auto
    then show ?thesis
      using assms sst_inv_fits[of sst] map_of_SomeD[of "sst_entries sst" "fst x" "snd x"] by auto
  qed
  ultimately show ?thesis
    by (intro that[of "filter ?P out"]) blast+
qed

definition new_tables :: "sstable option \<Rightarrow> sstable list" where
  "new_tables new_sst = (case new_sst of None \<Rightarrow> [] | Some sst \<Rightarrow> [sst])"

text \<open>Replacing the merged tables of a tier by the result, at the front of the next tier.\<close>

definition compacted :: "sstable list list \<Rightarrow> sstable list \<Rightarrow> sstable option \<Rightarrow> sstable list list \<Rightarrow> sstable list list" where
  "compacted upper fresh new_sst lower =
     upper @ fresh # (new_tables new_sst @ hd (pad_to 1 [] lower)) # tl lower"

lemma pad_to_1 [simp]: "pad_to (Suc 0) [] B = (if B = [] then [[]] else B)"
  by (auto simp: pad_to_def Suc_le_eq)

lemma concat_compacted: "concat (compacted A fresh new_sst B) = concat A @ fresh @ new_tables new_sst @ concat B"
  by (cases B) (simp_all add: compacted_def)

lemma map_of_fold_delete:
  "map_of (fold (\<lambda>x. AList.delete (f x)) xs fs) p = (if p \<in> f ` set xs then None else map_of fs p)"
  by (induction xs arbitrary: fs) auto

lemma distinct_keys_fold_delete: "distinct_keys fs \<Longrightarrow> distinct_keys (fold (\<lambda>x. AList.delete (f x)) xs fs)"
  by (induction xs arbitrary: fs) auto

lemma keys_fold_delete: "keys_of (fold (\<lambda>x. AList.delete (f x)) xs fs) = keys_of fs - f ` set xs"
  by (induction xs arbitrary: fs) auto

lemma install_tiers:
  assumes "le_tiers e = A @ (fresh @ tables) # B" "sst_id ` set fresh \<inter> sst_id ` set tables = {}"
    "cj_tier job = length A" "cj_tables job = tables"
  shows "LSM_Compact_install env job new_sst e =
    (let (r, e) = LSM_PersistManifestLocked env (e\<lparr>le_tiers := compacted A fresh new_sst B\<rparr>)
     in (r, e\<lparr>le_files := fold (\<lambda>sst. AList.delete (sst_path sst)) tables (le_files e)\<rparr>))"
proof -
  have pad: "pad_to (length A + 1 + 1) [] (le_tiers e) = A @ (fresh @ tables) # pad_to 1 [] B"
    by (simp add: assms(1) pad_to_def)
  have rem: "filter (\<lambda>sst. sst_id sst \<notin> sst_id ` set tables) fresh = fresh"
    "filter (\<lambda>sst. sst_id sst \<notin> sst_id ` set tables) tables = []"
    using assms(2) by (auto simp: filter_id_conv filter_empty_conv)
  have "fold (\<lambda>sst. AList.delete (sst_path sst)) (filter sst_obsolete (map SSTable_MarkObsolete tables)) fs =
      fold (\<lambda>sst. AList.delete (sst_path sst)) tables fs" for fs :: files
    by (induction tables arbitrary: fs) (simp_all add: SSTable_MarkObsolete_def)
  then show ?thesis
    unfolding LSM_Compact_install_def Let_def assms(3,4) pad
    by (cases new_sst; cases B)
       (simp_all add: nth_append list_update_append rem compacted_def new_tables_def case_prod_unfold)
qed

text \<open>A compaction under way, whatever flushes have put in front of the tier meanwhile, and its result.\<close>

definition compaction_picked :: "compact_job \<Rightarrow> lsm_engine \<Rightarrow> bool" where
  "compaction_picked job e \<longleftrightarrow>
     (\<exists>A fresh B. le_tiers e = A @ (fresh @ cj_tables job) # B \<and> cj_tier job = length A \<and>
        (cj_bottommost job \<longrightarrow> concat B = []))"

definition compaction_result :: "compact_job \<Rightarrow> sstable option \<Rightarrow> bool" where
  "compaction_result job new_sst \<longleftrightarrow>
     (\<forall>k. first_hit (map sst_entries (new_tables new_sst)) k =
        (case first_hit (map sst_entries (cj_tables job)) k of
           Some v \<Rightarrow> if lv_deleted v \<and> cj_bottommost job then None else Some v | None \<Rightarrow> None)) \<and>
     sum_list (map (length \<circ> sst_entries) (new_tables new_sst)) \<le> sum_list (map (length \<circ> sst_entries) (cj_tables job))"

lemma compaction_keeps_map:
  assumes "\<forall>k. first_hit N k =
      (case first_hit T k of Some v \<Rightarrow> if lv_deleted v \<and> bottommost then None else Some v | None \<Rightarrow> None)"
    "bottommost \<longrightarrow> R = []"
  shows "visible (first_hit (P @ N @ R) k) = visible (first_hit (P @ T @ R) k)"
  using assms by (auto simp: first_hit_append split: option.splits)

lemma tables_ok_delete:
  assumes "tables_ok db n fs (ssts @ gone)"
  shows "tables_ok db n (fold (\<lambda>sst. AList.delete (sst_path sst)) gone fs) ssts"
proof -
  let ?fs = "fold (\<lambda>sst. AList.delete (sst_path sst)) gone fs"
  have t: "\<forall>sst\<in>set (ssts @ gone). table_ok db n fs sst" "distinct (map sst_id (ssts @ gone))" "0 \<le> n"
    "\<forall>i\<ge>n. SSTablePath db i \<notin> keys_of fs" "distinct_keys fs"
    using assms by (auto simp: tables_ok_def)
  have "table_ok db n ?fs sst" if "sst \<in> set ssts" for sst
  proof -
    have sst: "table_ok db n fs sst"
      using t(1) that by auto
    have "sst_path sst \<noteq> sst_path s" if "s \<in> set gone" for s
      using t(1,2) that \<open>sst \<in> set ssts\<close> SSTablePath_inj[of "sst_id sst" "sst_id s" db] unfolding table_ok_def by auto
    then have "map_of ?fs (sst_path sst) = map_of fs (sst_path sst)"
      by (auto simp: map_of_fold_delete)
    then show ?thesis
      using sst by (auto simp: table_ok_def fs_read_def dom_map_of_conv_image_fst[symmetric] simp del: dom_map_of_conv_image_fst)
  qed
  then show ?thesis
    using t by (auto simp: tables_ok_def distinct_keys_fold_delete keys_fold_delete)
qed

lemma tables_ok_perm: "tables_ok db n fs ssts \<Longrightarrow> mset ssts = mset ssts' \<Longrightarrow> tables_ok db n fs ssts'"
  unfolding tables_ok_def by (metis mset_eq_setD mset_map mset_eq_imp_distinct_iff)

lemma wal_ok_tables:
  assumes "wal_ok e" "le_db_path e' = le_db_path e" "le_wal_enabled e' = le_wal_enabled e"
    "le_next_wal_generation e' = le_next_wal_generation e" "le_memtable_wal e' = le_memtable_wal e"
    "le_active_memtable e' = le_active_memtable e"
    "keys_of (le_files e') \<subseteq> keys_of (le_files e) \<union> Collect (plain_file (le_db_path e))"
  shows "wal_ok e'"
proof -
  have "keys_of (le_files e') \<subseteq> Collect (plain_file (le_db_path e))"
    using assms(1,7) unfolding wal_ok_def by blast
  then show ?thesis
    using assms(1) unfolding wal_ok_def assms(2-6) by blast
qed

text \<open>What compaction leaves alone.\<close>

definition same_logs :: "lsm_engine \<Rightarrow> lsm_engine \<Rightarrow> bool" where
  "same_logs e e' \<longleftrightarrow> le_db_path e' = le_db_path e \<and> le_wal_enabled e' = le_wal_enabled e \<and>
     le_next_wal_generation e' = le_next_wal_generation e \<and> le_memtable_wal e' = le_memtable_wal e \<and>
     le_active_memtable e' = le_active_memtable e \<and> le_flush_threshold_bytes e' = le_flush_threshold_bytes e \<and>
     le_tier_threshold e' = le_tier_threshold e \<and> le_stop e' = le_stop e \<and>
     le_compaction_running e' = le_compaction_running e"

text \<open>The step that installs the result of a compaction.\<close>

lemma install_result:
  assumes tiers: "le_tiers e = A @ (fresh @ cj_tables job) # B" "cj_tier job = length A"
    and tabs: "engine_tables_ok (new_tables new_sst) e" and next_id: "le_next_sstable_id e \<le> INT64_MAX"
    and r: "LSM_Compact_install env job new_sst e = (r, e')"
  defines "fs \<equiv> fold (\<lambda>sst. AList.delete (sst_path sst)) (cj_tables job) (le_files e)"
  shows "\<exists>m. e' = e\<lparr>le_tiers := compacted A fresh new_sst B, le_manifest := m, le_files := fs\<rparr>"
    "tables_ok (le_db_path e) (le_next_sstable_id e) fs (concat (compacted A fresh new_sst B))"
    "r = Inr () \<and> manifest_ok e' \<and> manifest_fits (compacted A fresh new_sst B) \<or>
     (\<exists>msg. r = Inl (RuntimeError msg)) \<and> \<not> manifest_fits (compacted A fresh new_sst B)"
proof -
  let ?tiers = "compacted A fresh new_sst B" and ?gone = "cj_tables job"
  let ?e1 = "e\<lparr>le_tiers := compacted A fresh new_sst B\<rparr>"
  have disj: "sst_id ` set fresh \<inter> sst_id ` set ?gone = {}"
    using tabs unfolding tables_ok_def tiers(1) by auto
  have perm: "tables_ok (le_db_path e) (le_next_sstable_id e) (le_files e) (concat ?tiers @ ?gone)"
    by (rule tables_ok_perm[OF tabs]) (simp add: tiers(1) concat_compacted)
  show tabs': "tables_ok (le_db_path e) (le_next_sstable_id e) fs (concat ?tiers)"
    unfolding fs_def by (rule tables_ok_delete[OF perm])
  have i: "(r, e') = (let (r, e) = LSM_PersistManifestLocked env ?e1
      in (r, e\<lparr>le_files := fold (\<lambda>sst. AList.delete (sst_path sst)) ?gone (le_files e)\<rparr>))"
    using install_tiers[OF tiers(1) disj tiers(2) refl, of env new_sst] r by simp
  have t1: "tables_ok (le_db_path ?e1) (le_next_sstable_id ?e1) fs (concat (le_tiers ?e1))" "le_next_sstable_id ?e1 \<le> INT64_MAX"
    using tabs' next_id by simp_all
  have e': "(\<exists>m. e' = ?e1\<lparr>le_manifest := m, le_files := fs\<rparr>) \<and>
    (r = Inr () \<and> manifest_ok e' \<and> manifest_fits ?tiers \<or> (\<exists>msg. r = Inl (RuntimeError msg)) \<and> \<not> manifest_fits ?tiers)"
    using t1
  proof (cases rule: Persist_cases[where env = env])
    case (ok dm)
    then show ?thesis
      using i by (auto simp: manifest_ok_def fs_def)
  next
    case (full msg)
    then show ?thesis
      using i by (auto simp: fs_def intro!: exI[of _ "le_manifest e"])
  qed
  then show "\<exists>m. e' = e\<lparr>le_tiers := ?tiers, le_manifest := m, le_files := fs\<rparr>"
    "r = Inr () \<and> manifest_ok e' \<and> manifest_fits ?tiers \<or> (\<exists>msg. r = Inl (RuntimeError msg)) \<and> \<not> manifest_fits ?tiers"
    by auto
qed

lemma Compact_install_ok:
  assumes inv: "mem_inv env (new_tables new_sst) e" and job: "compaction_picked job e" "compaction_result job new_sst"
    and next_id: "le_next_sstable_id e \<le> INT64_MAX" and r: "LSM_Compact_install env job new_sst e = (r, e')"
  shows "r = Inr () \<and> mem_inv env [] e' \<and> manifest_ok e' \<or> (\<exists>msg. r = Inl (RuntimeError msg))"
    "lsm_map e' = lsm_map e" "same_logs e e'" "le_next_sstable_id e' = le_next_sstable_id e"
    "LSM_NumSSTables e' + length (cj_tables job) = LSM_NumSSTables e + length (new_tables new_sst)"
    "sum_list (map length (lsm_runs e')) \<le> sum_list (map length (lsm_runs e))"
proof -
  obtain A fresh B where tiers: "le_tiers e = A @ (fresh @ cj_tables job) # B" "cj_tier job = length A"
    and low: "cj_bottommost job \<longrightarrow> concat B = []"
    using job(1) by (auto simp: compaction_picked_def)
  have tabs: "engine_tables_ok (new_tables new_sst) e"
    using inv by (simp add: mem_inv_def)
  note res = install_result[OF tiers tabs next_id r]
  from res(1) obtain m where e': "e' = e\<lparr>le_tiers := compacted A fresh new_sst B, le_manifest := m,
      le_files := fold (\<lambda>sst. AList.delete (sst_path sst)) (cj_tables job) (le_files e)\<rparr>"
    by blast
  have "wal_ok e'"
    using inv by (intro wal_ok_tables[of e e']) (auto simp: e' mem_inv_def keys_fold_delete)
  then have "mem_inv env [] e'"
    using inv res(2) by (simp add: mem_inv_def e')
  with res(3) show "r = Inr () \<and> mem_inv env [] e' \<and> manifest_ok e' \<or> (\<exists>msg. r = Inl (RuntimeError msg))"
    by blast
  show "lsm_map e' = lsm_map e"
    using compaction_keeps_map[where N = "map sst_entries (new_tables new_sst)" and T = "map sst_entries (cj_tables job)"
        and bottommost = "cj_bottommost job" and R = "map sst_entries (concat B)"
        and P = "mt_entries (le_active_memtable e) # map sst_entries (concat A @ fresh)"] low job(2)
    by (auto simp: compaction_result_def fun_eq_iff lsm_map_def lsm_runs_def e' concat_compacted tiers(1))
  show "LSM_NumSSTables e' + length (cj_tables job) = LSM_NumSSTables e + length (new_tables new_sst)"
    by (simp add: LSM_NumSSTables_def length_concat[symmetric] e' concat_compacted tiers(1) del: length_concat)
  show "sum_list (map length (lsm_runs e')) \<le> sum_list (map length (lsm_runs e))"
    using job(2) by (simp add: compaction_result_def lsm_runs_def e' concat_compacted tiers(1) comp_def)
qed (use install_tiers r in \<open>auto simp: same_logs_def LSM_Compact_install_def LSM_PersistManifestLocked_def Let_def
    split: prod.splits if_splits sum.splits\<close>)

text \<open>Picking a tier, and merging what was picked.\<close>

lemma find_tier_Some:
  "LSM_find_tier th n tiers = Some t \<Longrightarrow> n \<le> t \<and> t - n < length tiers \<and> int (length (tiers ! (t - n))) \<ge> th"
proof (induction tiers arbitrary: n)
  case (Cons tier tiers)
  show ?case
    using Cons.prems Cons.IH[of "n + 1"] by (auto simp: nth_Cons' split: if_splits)
qed simp

lemma Compact_pick_ok:
  assumes "LSM_Compact_pick e = Some job"
  shows "compaction_picked job e" "int (length (cj_tables job)) \<ge> le_tier_threshold e"
proof -
  obtain t where t: "LSM_find_tier (le_tier_threshold e) 0 (le_tiers e) = Some t"
    and job: "cj_tier job = t" "cj_tables job = le_tiers e ! t"
      "cj_bottommost job = list_all (\<lambda>t. t = []) (drop (t + 1) (le_tiers e))"
    using assms by (auto simp: LSM_Compact_pick_def LSM_FindTierNeedingCompactionLocked_def split: option.splits)
  have len: "t < length (le_tiers e)" "int (length (le_tiers e ! t)) \<ge> le_tier_threshold e"
    using find_tier_Some[OF t] by simp_all
  show "int (length (cj_tables job)) \<ge> le_tier_threshold e"
    using len(2) job by simp
  have "le_tiers e = take t (le_tiers e) @ ([] @ cj_tables job) # drop (t + 1) (le_tiers e)"
    using id_take_nth_drop[OF len(1)] by (simp add: job)
  moreover have "cj_bottommost job \<longrightarrow> concat (drop (t + 1) (le_tiers e)) = []"
    by (simp add: job list_all_iff)
  moreover have "cj_tier job = length (take t (le_tiers e))"
    using len job by simp
  ultimately show "compaction_picked job e"
    unfolding compaction_picked_def by blast
qed

lemma first_hit_single [simp]: "first_hit [es] k = map_of es k"
  by (simp split: option.split)

lemma sum_list_append_nat: "sum_list (map f (A @ B)) = sum_list (map f A) + (sum_list (map f B) :: nat)"
  by simp

lemma picked_weight:
  "compaction_picked job e \<Longrightarrow> sum_list (map (length \<circ> sst_entries) (cj_tables job)) \<le> sum_list (map length (lsm_runs e))"
  by (auto simp: compaction_picked_def lsm_runs_def comp_def)

lemma new_table_inv:
  assumes inv: "mem_inv env extra e" and es: "asc es" "\<forall>x\<in>set es. entry_fits x" "length es < 2 ^ 30"
  obtains img sst where
    "LSM_new_table env es e =
       (Inr sst, e\<lparr>le_next_sstable_id := le_next_sstable_id e + 1,
                   le_files := AList.update (SSTablePath (le_db_path e) (le_next_sstable_id e)) img (le_files e)\<rparr>)"
    "mem_inv env (extra @ [sst]) (e\<lparr>le_next_sstable_id := le_next_sstable_id e + 1,
                   le_files := AList.update (SSTablePath (le_db_path e) (le_next_sstable_id e)) img (le_files e)\<rparr>)"
    "sst_entries sst = es"
proof -
  have env: "env_ok env" and tabs: "engine_tables_ok extra e" and wal: "wal_ok e"
    using inv by (auto simp: mem_inv_def)
  let ?fs = "\<lambda>img. AList.update (SSTablePath (le_db_path e) (le_next_sstable_id e)) img (le_files e)"
  obtain img sst where n: "LSM_new_table env es e = (Inr sst, e\<lparr>le_next_sstable_id := le_next_sstable_id e + 1, le_files := ?fs img\<rparr>)"
    "tables_ok (le_db_path e) (le_next_sstable_id e + 1) (?fs img) ((concat (le_tiers e) @ extra) @ [sst])" "sst_entries sst = es"
    by (rule new_table_ok[OF env tabs es])
  have "wal_ok (e\<lparr>le_next_sstable_id := le_next_sstable_id e + 1, le_files := ?fs img\<rparr>)"
    by (rule wal_ok_tables[OF wal]) (auto simp: SSTablePath_plain)
  then show ?thesis
    using that[OF n(1) _ n(3)] inv n(2) by (simp add: mem_inv_def)
qed

lemma Compact_merge_ok:
  assumes inv: "mem_inv env [] e" and job: "compaction_picked job e" and small: "sum_list (map length (lsm_runs e)) < 2 ^ 30"
  obtains new_sst fs n where
    "LSM_Compact_merge env job e = (Inr new_sst, e\<lparr>le_next_sstable_id := n, le_files := fs\<rparr>)"
    "mem_inv env (new_tables new_sst) (e\<lparr>le_next_sstable_id := n, le_files := fs\<rparr>)"
    "compaction_result job new_sst" "n \<le> le_next_sstable_id e + 1"
proof -
  have "\<forall>sst\<in>set (concat (le_tiers e)). sst_inv sst" "set (cj_tables job) \<subseteq> set (concat (le_tiers e))"
    using mem_inv_readable[OF inv] job by (auto simp: readable_def compaction_picked_def)
  then have "\<forall>sst\<in>set (cj_tables job). sst_inv sst"
    by blast
  from merged_ok[OF this] obtain merged where m: "LSM_merged job = Inr merged" "asc merged"
    "\<And>k. map_of merged k = (case first_hit (map sst_entries (cj_tables job)) k of
        Some v \<Rightarrow> if lv_deleted v \<and> cj_bottommost job then None else Some v | None \<Rightarrow> None)"
    "length merged \<le> sum_list (map (length \<circ> sst_entries) (cj_tables job))" "\<forall>x\<in>set merged. entry_fits x"
    by blast
  show ?thesis
  proof (cases "merged = []")
    case True
    then have "compaction_result job None"
      using m(3) by (simp add: compaction_result_def new_tables_def)
    moreover have "LSM_Compact_merge env job e =
        (Inr None, e\<lparr>le_next_sstable_id := le_next_sstable_id e, le_files := le_files e\<rparr>)"
      using True m(1) by (simp add: LSM_Compact_merge_def)
    ultimately show ?thesis
      using that[of None "le_files e" "le_next_sstable_id e"] inv by (simp add: new_tables_def)
  next
    case False
    have "length merged < 2 ^ 30"
      using m(4) picked_weight[OF job] small by linarith
    from new_table_inv[OF inv m(2,5) this] obtain img sst where n:
      "LSM_new_table env merged e = (Inr sst, e\<lparr>le_next_sstable_id := le_next_sstable_id e + 1,
         le_files := AList.update (SSTablePath (le_db_path e) (le_next_sstable_id e)) img (le_files e)\<rparr>)"
      "mem_inv env [sst] (e\<lparr>le_next_sstable_id := le_next_sstable_id e + 1,
         le_files := AList.update (SSTablePath (le_db_path e) (le_next_sstable_id e)) img (le_files e)\<rparr>)"
      "sst_entries sst = merged"
      by (metis append_Nil)
    have "compaction_result job (Some sst)"
      using m(3,4) n(3) by (simp add: compaction_result_def new_tables_def del: first_hit.simps)
    then show ?thesis
      using that[of "Some sst"] n False m(1) by (simp add: LSM_Compact_merge_def new_tables_def)
  qed
qed

lemma lsm_runs_frame [simp]:
  "lsm_runs (e\<lparr>le_next_sstable_id := n\<rparr>) = lsm_runs e" "lsm_runs (e\<lparr>le_files := fs\<rparr>) = lsm_runs e"
  "lsm_runs (e\<lparr>le_manifest := dm\<rparr>) = lsm_runs e" "lsm_runs (e\<lparr>le_next_wal_generation := n\<rparr>) = lsm_runs e"
  "lsm_runs (e\<lparr>le_memtable_wal := wal\<rparr>) = lsm_runs e" "lsm_runs (e\<lparr>le_compaction_running := b\<rparr>) = lsm_runs e"
  "lsm_runs (e\<lparr>le_stop := b\<rparr>) = lsm_runs e"
  by (simp_all add: lsm_runs_def)

lemma NumSSTables_frame [simp]:
  "LSM_NumSSTables (e\<lparr>le_next_sstable_id := n\<rparr>) = LSM_NumSSTables e" "LSM_NumSSTables (e\<lparr>le_files := fs\<rparr>) = LSM_NumSSTables e"
  by (simp_all add: LSM_NumSSTables_def)

lemma lsm_map_runs: "lsm_runs e = lsm_runs e' \<Longrightarrow> lsm_map e = lsm_map e'"
  by (simp add: lsm_map_def fun_eq_iff)

lemma picked_files [simp]:
  "compaction_picked job (e\<lparr>le_next_sstable_id := n, le_files := fs\<rparr>) = compaction_picked job e"
  by (simp add: compaction_picked_def)

text \<open>One compaction, with nothing else going on.\<close>

lemma CompactOneTier_ok:
  assumes inv: "lsm_inv env e" and small: "sum_list (map length (lsm_runs e)) < 2 ^ 30"
    and next_id: "le_next_sstable_id e + 1 \<le> INT64_MAX" and r: "LSM_CompactOneTierIfNeeded env e = (r, e')"
  shows "(\<exists>b. r = Inr b) \<and> lsm_inv env e' \<or> (\<exists>msg. r = Inl (RuntimeError msg))"
    "lsm_map e' = lsm_map e" "same_logs e e'" "le_next_sstable_id e' \<le> le_next_sstable_id e + 1"
    "sum_list (map length (lsm_runs e')) \<le> sum_list (map length (lsm_runs e))"
    "r = Inr True \<Longrightarrow> int (LSM_NumSSTables e') + le_tier_threshold e \<le> int (LSM_NumSSTables e) + 1"
    "r = Inr False \<Longrightarrow> LSM_FindTierNeedingCompactionLocked e = None \<and> e' = e"
proof -
  have mem: "mem_inv env [] e" and idle: "\<not> le_compaction_running e"
    using inv by (auto simp: lsm_inv_def)
  have "((\<exists>b. r = Inr b) \<and> lsm_inv env e' \<or> (\<exists>msg. r = Inl (RuntimeError msg))) \<and> lsm_map e' = lsm_map e \<and> same_logs e e' \<and>
    le_next_sstable_id e' \<le> le_next_sstable_id e + 1 \<and> sum_list (map length (lsm_runs e')) \<le> sum_list (map length (lsm_runs e)) \<and>
    (r = Inr True \<longrightarrow> int (LSM_NumSSTables e') + le_tier_threshold e \<le> int (LSM_NumSSTables e) + 1) \<and>
    (r = Inr False \<longrightarrow> LSM_FindTierNeedingCompactionLocked e = None \<and> e' = e)"
  proof (cases "LSM_Compact_pick e")
    case None
    then show ?thesis
      using r inv idle
      by (auto simp: LSM_CompactOneTierIfNeeded_def same_logs_def LSM_Compact_pick_def split: option.splits)
  next
    case (Some job)
    note job = Compact_pick_ok[OF Some]
    obtain new_sst fs n where m: "LSM_Compact_merge env job e = (Inr new_sst, e\<lparr>le_next_sstable_id := n, le_files := fs\<rparr>)"
      "mem_inv env (new_tables new_sst) (e\<lparr>le_next_sstable_id := n, le_files := fs\<rparr>)"
      "compaction_result job new_sst" "n \<le> le_next_sstable_id e + 1"
      by (rule Compact_merge_ok[OF mem job(1) small])
    let ?e = "e\<lparr>le_next_sstable_id := n, le_files := fs\<rparr>"
    obtain ri where ri: "LSM_Compact_install env job new_sst ?e = (ri, e')" "r = map_sum id (\<lambda>_. True) ri"
      using r idle Some m(1) by (auto simp: LSM_CompactOneTierIfNeeded_def split: prod.splits sum.splits)
    have "le_next_sstable_id ?e \<le> INT64_MAX"
      using m(4) next_id by simp
    note i = Compact_install_ok[OF m(2) _ m(3) this ri(1), simplified, OF job(1)]
    have "length (new_tables new_sst) \<le> 1"
      by (auto simp: new_tables_def split: option.split)
    then have "int (LSM_NumSSTables e') + le_tier_threshold e \<le> int (LSM_NumSSTables e) + 1"
      using i(5) job(2) by (simp add: LSM_NumSSTables_def)
    moreover have "lsm_map ?e = lsm_map e"
      by (rule lsm_map_runs) simp
    ultimately show ?thesis
      using i m(4) idle ri(2) by (auto simp: lsm_inv_def same_logs_def)
  qed
  then show "(\<exists>b. r = Inr b) \<and> lsm_inv env e' \<or> (\<exists>msg. r = Inl (RuntimeError msg))"
    "lsm_map e' = lsm_map e" "same_logs e e'" "le_next_sstable_id e' \<le> le_next_sstable_id e + 1"
    "sum_list (map length (lsm_runs e')) \<le> sum_list (map length (lsm_runs e))"
    "r = Inr True \<Longrightarrow> int (LSM_NumSSTables e') + le_tier_threshold e \<le> int (LSM_NumSSTables e) + 1"
    "r = Inr False \<Longrightarrow> LSM_FindTierNeedingCompactionLocked e = None \<and> e' = e"
    by blast+
qed

section \<open>Flush\<close>

lemma tables_ok_frame:
  assumes "tables_ok db n fs ssts" "\<And>i. map_of fs' (SSTablePath db i) = map_of fs (SSTablePath db i)" "distinct_keys fs'"
  shows "tables_ok db n fs' ssts"
proof -
  have t: "\<forall>sst\<in>set ssts. table_ok db n fs sst" "distinct (map sst_id ssts)" "0 \<le> n"
    "\<forall>i\<ge>n. map_of fs (SSTablePath db i) = None"
    using assms(1) by (auto simp: tables_ok_def map_of_eq_None_keys)
  have "\<forall>sst\<in>set ssts. table_ok db n fs' sst"
    using t(1,3) assms(2) table_ok_frame[of db n fs _ n fs'] by auto
  then show ?thesis
    using t assms(2,3) by (simp add: tables_ok_def map_of_eq_None_keys[symmetric] del: map_of_eq_None_keys)
qed

text \<open>The fields a flush leaves alone.\<close>

definition same_config :: "lsm_engine \<Rightarrow> lsm_engine \<Rightarrow> bool" where
  "same_config e e' \<longleftrightarrow> le_db_path e' = le_db_path e \<and> le_wal_enabled e' = le_wal_enabled e \<and>
     le_flush_threshold_bytes e' = le_flush_threshold_bytes e \<and> le_tier_threshold e' = le_tier_threshold e \<and>
     le_stop e' = le_stop e \<and> le_compaction_running e' = le_compaction_running e"

lemma same_config_trans: "same_config a b \<Longrightarrow> same_config b c \<Longrightarrow> same_config a c"
  by (simp add: same_config_def)

lemma same_logs_config: "same_logs a b \<Longrightarrow> same_config a b"
  by (simp add: same_config_def same_logs_def)

text \<open>After the swap, once the old log is gone, the engine is as if the old memtable had never been.\<close>

definition empty_log :: "lsm_engine \<Rightarrow> bool" where
  "empty_log e \<longleftrightarrow> (\<forall>lm. le_memtable_wal e = Some lm \<longrightarrow> lm_next_lsn lm = 0)"

lemma Flush_swap_wal:
  assumes inv: "mem_inv env extra e" and wal: "le_wal_enabled e"
  obtains fs lm where
    "LSM_Flush_swap e =
       (Inr \<lparr>fj_memtable = le_active_memtable e, fj_wal_path = Some (MemWALPath (le_db_path e) (le_next_wal_generation e - 1))\<rparr>,
        e\<lparr>le_active_memtable := MemTable, le_next_wal_generation := le_next_wal_generation e + 1, le_files := fs,
          le_memtable_wal := Some lm\<rparr>)"
    "lm_holds lm []" "AList.delete (MemWALPath (le_db_path e) (le_next_wal_generation e - 1)) fs = le_files e"
proof -
  let ?db = "le_db_path e" and ?g = "le_next_wal_generation e"
  let ?old = "MemWALPath ?db (?g - 1)" and ?new = "MemWALPath ?db ?g"
  obtain lm0 where g: "0 < ?g" and lm0: "le_memtable_wal e = Some lm0"
    and plain: "keys_of (le_files e) \<subseteq> Collect (plain_file ?db)"
    using inv wal by (auto simp: mem_inv_def wal_ok_def)
  let ?fs = "AList.update ?old (dm_file (lm_disk_manager lm0)) (le_files e)"
  have "generation_suffix ?db ?old = Some (to_string (?g - 1))" "generation_suffix ?db ?new = Some (to_string ?g)"
    using g generation_suffix_MemWALPath[of "?g - 1" ?db] generation_suffix_MemWALPath[of ?g ?db] by simp_all
  then have fresh: "?old \<notin> keys_of (le_files e)" "?new \<notin> keys_of (le_files e)"
    using plain by (auto simp: plain_file_def)
  have "?old \<noteq> ?new"
    using g MemWALPath_inj[of "?g - 1" ?g ?db] by simp
  then have read: "fs_read ?new ?fs = []"
    using fs_read_missing[OF fresh(2)] by simp
  obtain lm where lm: "LogManager_open [] = Inr lm" "lm_holds lm []"
    using lm_holds_fresh by blast
  have "AList.delete ?old (AList.delete ?new ?fs) = le_files e"
    using fresh \<open>?old \<noteq> ?new\<close> by (simp add: AList.delete_update AList.delete_update_same)
  then show ?thesis
    using that[of lm "AList.delete ?new ?fs"] lm wal lm0 read
    by (simp add: LSM_Flush_swap_def Let_def)
qed

lemma Flush_swap_ok:
  assumes inv: "mem_inv env extra e"
  obtains job e1 where "LSM_Flush_swap e = (Inr job, e1)" "fj_memtable job = le_active_memtable e"
    "mem_inv env extra (remove_wal (fj_wal_path job) e1)" "le_active_memtable e1 = MemTable" "le_tiers e1 = le_tiers e"
    "le_next_sstable_id e1 = le_next_sstable_id e" "le_manifest e1 = le_manifest e" "same_config e e1"
    "le_next_wal_generation e1 \<le> le_next_wal_generation e + 1" "empty_log e1"
    "fj_wal_path job \<noteq> Some (SSTablePath (le_db_path e) (le_next_sstable_id e))"
proof (cases "le_wal_enabled e")
  case True
  let ?old = "MemWALPath (le_db_path e) (le_next_wal_generation e - 1)"
  obtain fs lm where s: "LSM_Flush_swap e = (Inr \<lparr>fj_memtable = le_active_memtable e, fj_wal_path = Some ?old\<rparr>,
        e\<lparr>le_active_memtable := MemTable, le_next_wal_generation := le_next_wal_generation e + 1, le_files := fs,
          le_memtable_wal := Some lm\<rparr>)" "lm_holds lm []" "AList.delete ?old fs = le_files e"
    by (rule Flush_swap_wal[OF inv True])
  let ?e1 = "e\<lparr>le_active_memtable := MemTable, le_next_wal_generation := le_next_wal_generation e + 1, le_files := fs,
          le_memtable_wal := Some lm\<rparr>"
  have g: "0 < le_next_wal_generation e" and w: "keys_of (le_files e) \<subseteq> Collect (plain_file (le_db_path e))"
    using inv True by (auto simp: mem_inv_def wal_ok_def)
  have "wal_ok (remove_wal (Some ?old) ?e1)"
    using g w s(2,3) True by (auto simp: wal_ok_def remove_wal_def MemTable_init intro!: exI[of _ "[]"])
  then have "mem_inv env extra (remove_wal (Some ?old) ?e1)"
    using inv s(3) by (simp add: mem_inv_def remove_wal_def MemTable_init)
  then show ?thesis
    using that[OF s(1)] s(2) paths_differ(1)[of "le_next_wal_generation e - 1" "le_db_path e" "le_next_sstable_id e"] g
    by (simp add: same_config_def empty_log_def lm_holds_def)
next
  case False
  then have "LSM_Flush_swap e =
      (Inr \<lparr>fj_memtable = le_active_memtable e, fj_wal_path = None\<rparr>, e\<lparr>le_active_memtable := MemTable\<rparr>)"
    by (simp add: LSM_Flush_swap_def Let_def)
  moreover have "le_memtable_wal e = None"
    using inv False by (simp add: mem_inv_def wal_ok_def)
  ultimately show ?thesis
    using that inv False by (simp add: mem_inv_def wal_ok_def remove_wal_def MemTable_init same_config_def empty_log_def)
qed

lemma remove_wal_fields [simp]:
  "le_tiers (remove_wal p e) = le_tiers e" "le_active_memtable (remove_wal p e) = le_active_memtable e"
  "le_next_sstable_id (remove_wal p e) = le_next_sstable_id e" "le_db_path (remove_wal p e) = le_db_path e"
  "le_manifest (remove_wal p e) = le_manifest e" "le_memtable_wal (remove_wal p e) = le_memtable_wal e"
  "le_next_wal_generation (remove_wal p e) = le_next_wal_generation e" "same_config e (remove_wal p e)"
  by (auto simp: remove_wal_def same_config_def split: option.split)

text \<open>Building the table before or after the old log is removed is the same.\<close>

lemma new_table_remove_wal:
  assumes "p \<noteq> Some (SSTablePath (le_db_path e) (le_next_sstable_id e))"
    "LSM_new_table env es (remove_wal p e) = (Inr sst, e')"
  shows "\<exists>e1. LSM_new_table env es e = (Inr sst, e1) \<and> remove_wal p e1 = e'"
proof (cases p)
  case None
  then show ?thesis
    using assms(2) by (simp add: remove_wal_def)
next
  case (Some q)
  then show ?thesis
    using assms
    by (auto simp: LSM_new_table_def remove_wal_def Let_def AList.delete_update split: sum.splits)
qed

lemma Flush_install_ok:
  assumes inv: "mem_inv env (extra @ [sst]) e" and next_id: "le_next_sstable_id e \<le> INT64_MAX"
    and r: "LSM_Flush_install env sst e = (r, e')"
  shows "(\<exists>b. r = Inr b) \<and> mem_inv env extra e' \<and> manifest_ok e' \<or> (\<exists>msg. r = Inl (RuntimeError msg))"
    "\<exists>m. e' = e\<lparr>le_tiers := (sst # concat (take 1 (le_tiers e))) # drop 1 (le_tiers e), le_manifest := m\<rparr>"
proof -
  let ?tiers = "(sst # concat (take 1 (le_tiers e))) # drop 1 (le_tiers e)"
  let ?e1 = "e\<lparr>le_tiers := ?tiers\<rparr>"
  have tiers: "(if le_tiers e = [] then [[]] else le_tiers e)[0 := sst # (if le_tiers e = [] then [[]] else le_tiers e) ! 0] = ?tiers"
    by (cases "le_tiers e") auto
  have conc: "concat ?tiers = sst # concat (le_tiers e)"
    by (cases "le_tiers e") auto
  have "tables_ok (le_db_path e) (le_next_sstable_id e) (le_files e) (concat (le_tiers e) @ extra @ [sst])"
    using inv by (simp add: mem_inv_def)
  then have tabs: "tables_ok (le_db_path e) (le_next_sstable_id e) (le_files e) (concat ?tiers @ extra)"
    unfolding conc by (rule tables_ok_perm) simp
  then have mem: "mem_inv env extra (?e1\<lparr>le_manifest := m\<rparr>)" for m
    using inv by (auto simp: mem_inv_def wal_ok_def)
  have t1: "tables_ok (le_db_path ?e1) (le_next_sstable_id ?e1) (le_files e) (concat (le_tiers ?e1))"
    using tables_ok_prefix[OF tabs] by simp
  have n1: "le_next_sstable_id ?e1 \<le> INT64_MAX"
    using next_id by simp
  have "((\<exists>b. r = Inr b) \<and> mem_inv env extra e' \<and> manifest_ok e' \<or> (\<exists>msg. r = Inl (RuntimeError msg))) \<and>
    (\<exists>m. e' = ?e1\<lparr>le_manifest := m\<rparr>)"
    using t1 n1
  proof (cases rule: Persist_cases[where env = env])
    case (ok dm)
    then show ?thesis
      using r mem unfolding LSM_Flush_install_def Let_def tiers by auto
  next
    case (full msg)
    then show ?thesis
      using r unfolding LSM_Flush_install_def Let_def tiers by (auto intro!: exI[of _ "le_manifest e"])
  qed
  then show "(\<exists>b. r = Inr b) \<and> mem_inv env extra e' \<and> manifest_ok e' \<or> (\<exists>msg. r = Inl (RuntimeError msg))"
    "\<exists>m. e' = e\<lparr>le_tiers := ?tiers, le_manifest := m\<rparr>"
    by auto
qed

lemma mt_entries_asc:
  assumes "mt_inv m"
  shows "asc (mt_entries m)"
proof -
  obtain ns where ok: "sl_ok (mt_list m) ns"
    using assms by (auto simp: mt_inv_def sl_inv_def)
  then have "mt_cursor_inv (m, first_of ns)"
    unfolding mt_cursor_inv_def by (intro exI[of _ "[]"] exI[of _ ns]) simp
  from memtable_cursor.rest_asc[OF this] show ?thesis
    using mt_cursor_rest_eq[of m "[]" ns] ok by (simp add: mt_entries_def sl_entries_eq(2)[OF ok])
qed

text \<open>A flush with a table to build: everything up to the installation.\<close>

lemma Flush_build_ok:
  assumes inv: "mem_inv env extra e" and small: "length (mt_entries (le_active_memtable e)) < 2 ^ 30"
  obtains job e1 sst e2 where "LSM_Flush_swap e = (Inr job, e1)" "fj_memtable job = le_active_memtable e"
    "LSM_Flush_build env job e1 = (Inr sst, e2)" "mem_inv env (extra @ [sst]) e2"
    "sst_entries sst = mt_entries (le_active_memtable e)" "le_active_memtable e2 = MemTable" "le_tiers e2 = le_tiers e"
    "le_next_sstable_id e2 = le_next_sstable_id e + 1" "same_config e e2"
    "le_next_wal_generation e2 \<le> le_next_wal_generation e + 1" "empty_log e2"
proof -
  let ?es = "mt_entries (le_active_memtable e)"
  obtain job e1 where s: "LSM_Flush_swap e = (Inr job, e1)" "fj_memtable job = le_active_memtable e"
    "mem_inv env extra (remove_wal (fj_wal_path job) e1)" "le_active_memtable e1 = MemTable" "le_tiers e1 = le_tiers e"
    "le_next_sstable_id e1 = le_next_sstable_id e" "le_manifest e1 = le_manifest e" "same_config e e1"
    "le_next_wal_generation e1 \<le> le_next_wal_generation e + 1" "empty_log e1"
    "fj_wal_path job \<noteq> Some (SSTablePath (le_db_path e) (le_next_sstable_id e))"
    by (rule Flush_swap_ok[OF inv])
  let ?ew = "remove_wal (fj_wal_path job) e1"
  have es: "mt_inv (le_active_memtable e)" "\<forall>x\<in>set ?es. entry_fits x"
    using inv by (auto simp: mem_inv_def)
  obtain img sst where n: "LSM_new_table env ?es ?ew = (Inr sst, ?ew\<lparr>le_next_sstable_id := le_next_sstable_id ?ew + 1,
      le_files := AList.update (SSTablePath (le_db_path ?ew) (le_next_sstable_id ?ew)) img (le_files ?ew)\<rparr>)"
    "mem_inv env (extra @ [sst]) (?ew\<lparr>le_next_sstable_id := le_next_sstable_id ?ew + 1,
      le_files := AList.update (SSTablePath (le_db_path ?ew) (le_next_sstable_id ?ew)) img (le_files ?ew)\<rparr>)"
    "sst_entries sst = ?es"
    by (rule new_table_inv[OF s(3) mt_entries_asc[OF es(1)] es(2) small])
  let ?e2 = "?ew\<lparr>le_next_sstable_id := le_next_sstable_id ?ew + 1,
      le_files := AList.update (SSTablePath (le_db_path ?ew) (le_next_sstable_id ?ew)) img (le_files ?ew)\<rparr>"
  have "fj_wal_path job \<noteq> Some (SSTablePath (le_db_path e1) (le_next_sstable_id e1))"
    using s(6,8,11) by (simp add: same_config_def)
  from new_table_remove_wal[OF this n(1)] obtain e3 where
    "LSM_new_table env ?es e1 = (Inr sst, e3)" "remove_wal (fj_wal_path job) e3 = ?e2"
    by blast
  then have "LSM_Flush_build env job e1 = (Inr sst, ?e2)"
    using s(2) MemTable_Begin_spec[OF es(1)] by (simp add: LSM_Flush_build_def)
  moreover have "same_config e ?e2"
    using same_config_trans[OF s(8) remove_wal_fields(8)[of e1 "fj_wal_path job"]] by (simp add: same_config_def)
  ultimately show ?thesis
    using that[OF s(1,2)] n(2,3) s(4,5,6,9,10) by (simp add: empty_log_def)
qed

lemma picked_insert:
  assumes "compaction_picked job e"
  shows "compaction_picked job (e\<lparr>le_tiers := (sst # concat (take 1 (le_tiers e))) # drop 1 (le_tiers e), le_manifest := m\<rparr>)"
proof -
  obtain A fresh B where tiers: "le_tiers e = A @ (fresh @ cj_tables job) # B" "cj_tier job = length A"
    "cj_bottommost job \<longrightarrow> concat B = []"
    using assms by (auto simp: compaction_picked_def)
  show ?thesis
  proof (cases A)
    case Nil
    then show ?thesis
      using tiers unfolding compaction_picked_def
      by (intro exI[of _ "[]"] exI[of _ "sst # fresh"] exI[of _ B]) simp
  next
    case (Cons a A')
    then show ?thesis
      using tiers unfolding compaction_picked_def
      by (intro exI[of _ "(sst # a) # A'"] exI[of _ fresh] exI[of _ B]) simp
  qed
qed

text \<open>
  The invariant while a compaction may be under way: the tables in \<open>extra\<close> are its result that is
  not installed yet; without one the manifest on disk is up to date.
\<close>

definition phase_inv :: "lsm_env \<Rightarrow> sstable list \<Rightarrow> lsm_engine \<Rightarrow> bool" where
  "phase_inv env extra e \<longleftrightarrow> mem_inv env extra e \<and> (le_compaction_running e \<or> extra = [] \<and> manifest_ok e)"

lemma lsm_inv_phase: "lsm_inv env e \<longleftrightarrow> phase_inv env [] e \<and> \<not> le_compaction_running e"
  by (auto simp: lsm_inv_def phase_inv_def)

text \<open>What a flush does to the engine.\<close>

definition flushed :: "lsm_env \<Rightarrow> sstable list \<Rightarrow> lsm_engine \<Rightarrow> lsm_engine \<Rightarrow> bool" where
  "flushed env extra e e' \<longleftrightarrow> phase_inv env extra e' \<and> lsm_map e' = lsm_map e \<and> same_config e e' \<and>
     le_next_sstable_id e' \<le> le_next_sstable_id e + 2 \<and> le_next_wal_generation e' \<le> le_next_wal_generation e + 1 \<and>
     sum_list (map length (lsm_runs e')) \<le> sum_list (map length (lsm_runs e)) \<and> (empty_log e' \<or> le_memtable_wal e' = le_memtable_wal e) \<and>
     (le_compaction_running e \<longrightarrow> (\<forall>job. compaction_picked job e \<longrightarrow> compaction_picked job e'))"

lemma flush_help:
  assumes inv: "phase_inv env extra e" "sum_list (map length (lsm_runs e)) < 2 ^ 30" "le_next_sstable_id e + 1 \<le> INT64_MAX"
    and r: "LSM_CompactOneTierIfNeeded env e = (r, e')"
  shows "(\<exists>msg. r = Inl (RuntimeError msg)) \<or> (\<exists>b. r = Inr b) \<and> phase_inv env extra e' \<and> lsm_map e' = lsm_map e \<and> same_logs e e' \<and>
    le_next_sstable_id e' \<le> le_next_sstable_id e + 1 \<and> sum_list (map length (lsm_runs e')) \<le> sum_list (map length (lsm_runs e)) \<and>
    (le_compaction_running e \<longrightarrow> e' = e)"
proof (cases "le_compaction_running e")
  case True
  then show ?thesis
    using r inv by (auto simp: LSM_CompactOneTierIfNeeded_def same_logs_def)
next
  case False
  then have "lsm_inv env e" "extra = []"
    using inv(1) by (auto simp: lsm_inv_def phase_inv_def)
  from CompactOneTier_ok[OF this(1) inv(2,3) r] show ?thesis
    using \<open>extra = []\<close> False by (auto simp: lsm_inv_phase)
qed

lemma lsm_runs_fresh:
  "le_active_memtable e = MemTable \<Longrightarrow> lsm_runs e = [] # map sst_entries (concat (le_tiers e))"
  by (simp add: lsm_runs_def MemTable_init)

lemma first_hit_Nil_Cons [simp]: "first_hit ([] # ess) k = first_hit ess k"
  by simp

lemma Flush_empty:
  assumes inv: "phase_inv env extra e" and empty: "MemTable_EntryCount (le_active_memtable e) = 0"
    and r: "LSM_FlushActiveMemtable env e = (r, e')"
  shows "r = Inr () \<and> flushed env extra e e'"
proof -
  have mem: "mem_inv env extra e"
    using inv by (simp add: phase_inv_def)
  then have es: "mt_entries (le_active_memtable e) = []"
    using empty by (simp add: mem_inv_def MemTable_EntryCount_spec)
  obtain job e1 where s: "LSM_Flush_swap e = (Inr job, e1)" "fj_memtable job = le_active_memtable e"
    "mem_inv env extra (remove_wal (fj_wal_path job) e1)" "le_active_memtable e1 = MemTable" "le_tiers e1 = le_tiers e"
    "le_next_sstable_id e1 = le_next_sstable_id e" "le_manifest e1 = le_manifest e" "same_config e e1"
    "le_next_wal_generation e1 \<le> le_next_wal_generation e + 1" "empty_log e1"
    by (rule Flush_swap_ok[OF mem])
  let ?ew = "remove_wal (fj_wal_path job) e1"
  have e': "r = Inr ()" "e' = ?ew"
    using r s(1,2) empty by (auto simp: LSM_FlushActiveMemtable_def)
  have runs: "lsm_runs ?ew = lsm_runs e"
    using es s(4,5) by (simp add: lsm_runs_def MemTable_init)
  have conf: "same_config e ?ew"
    by (rule same_config_trans[OF s(8) remove_wal_fields(8)])
  then have "phase_inv env extra ?ew"
    using inv s(3,5,6,7) by (auto simp: phase_inv_def manifest_ok_def same_config_def)
  moreover have "\<forall>job. compaction_picked job e \<longrightarrow> compaction_picked job ?ew"
    using s(5) by (simp add: compaction_picked_def)
  ultimately show ?thesis
    using e' runs lsm_map_runs[OF runs] conf s(6,9,10) by (simp add: flushed_def empty_log_def)
qed

lemma Flush_ok:
  assumes inv: "phase_inv env extra e" and small: "sum_list (map length (lsm_runs e)) < 2 ^ 30"
    and next_id: "le_next_sstable_id e + 2 \<le> INT64_MAX" and r: "LSM_FlushActiveMemtable env e = (r, e')"
  shows "(\<exists>msg. r = Inl (RuntimeError msg)) \<or> r = Inr () \<and> flushed env extra e e'"
proof (cases "MemTable_EntryCount (le_active_memtable e) = 0")
  case True
  from Flush_empty[OF inv this r] show ?thesis
    by blast
next
  case False
  have mem: "mem_inv env extra e"
    using inv by (simp add: phase_inv_def)
  have "length (mt_entries (le_active_memtable e)) < 2 ^ 30"
    using small by (simp add: lsm_runs_def)
  from Flush_build_ok[OF mem this] obtain job e1 sst e2 where b: "LSM_Flush_swap e = (Inr job, e1)"
    "fj_memtable job = le_active_memtable e" "LSM_Flush_build env job e1 = (Inr sst, e2)" "mem_inv env (extra @ [sst]) e2"
    "sst_entries sst = mt_entries (le_active_memtable e)" "le_active_memtable e2 = MemTable" "le_tiers e2 = le_tiers e"
    "le_next_sstable_id e2 = le_next_sstable_id e + 1" "same_config e e2"
    "le_next_wal_generation e2 \<le> le_next_wal_generation e + 1" "empty_log e2"
    by blast
  obtain ri e3 where ri: "LSM_Flush_install env sst e2 = (ri, e3)"
    by fastforce
  have n2: "le_next_sstable_id e2 \<le> INT64_MAX"
    using b(8) next_id by simp
  note i = Flush_install_ok[OF b(4) n2 ri]
  from i(2) obtain m where e3: "e3 = e2\<lparr>le_tiers := (sst # concat (take 1 (le_tiers e2))) # drop 1 (le_tiers e2), le_manifest := m\<rparr>"
    by blast
  show ?thesis
  proof (cases ri)
    case (Inl err)
    then show ?thesis
      using i(1) r b(1-3) ri False by (auto simp: LSM_FlushActiveMemtable_def)
  next
    case (Inr backlogged)
    have runs3: "lsm_runs e3 = [] # lsm_runs e"
      using b(5-7) by (cases "le_tiers e") (simp_all add: e3 lsm_runs_def MemTable_init)
    then have map3: "lsm_map e3 = lsm_map e" and w3: "sum_list (map length (lsm_runs e3)) = sum_list (map length (lsm_runs e))"
      by (simp_all add: lsm_map_def fun_eq_iff del: first_hit.simps)
    have conf3: "same_config e e3"
      using b(9) by (simp add: e3 same_config_def)
    have p3: "phase_inv env extra e3"
      using i(1) Inr inv b(9) by (auto simp: phase_inv_def e3 same_config_def)
    have picked2: "compaction_picked job e2 = compaction_picked job e" for job
      by (simp add: compaction_picked_def b(7))
    have picked3: "\<forall>job. compaction_picked job e \<longrightarrow> compaction_picked job e3"
      using picked_insert[where e = e2 and sst = sst and m = m] picked2 unfolding e3 by blast
    have n3: "le_next_sstable_id e3 + 1 \<le> INT64_MAX"
      using b(8) next_id by (simp add: e3)
    obtain rc e4 where rc: "LSM_CompactOneTierIfNeeded env e3 = (rc, e4)"
      by fastforce
    note hlp = flush_help[OF p3 _ n3 rc]
    have flushed3: "flushed env extra e e3"
      using p3 map3 conf3 picked3 w3 b(8,10,11) by (simp add: flushed_def e3 empty_log_def)
    have flushed4: "flushed env extra e e4" if "\<exists>b. rc = Inr b"
      using hlp small w3 that flushed3 b(8)
      by (auto simp: flushed_def same_logs_def same_config_def empty_log_def e3)
    show ?thesis
      using r b(1-3) ri Inr False rc hlp small w3 flushed3 flushed4
      by (auto simp: LSM_FlushActiveMemtable_def split: if_splits sum.splits)
  qed
qed

section \<open>Put and Delete\<close>

lemma length_upsert: "length (upsert k v es) \<le> length es + 1"
proof -
  have "length (filter (\<lambda>e. fst e < k) es) + length (filter (\<lambda>e. k < fst e) es) \<le> length es"
    by (induction es) auto
  then show ?thesis
    by (simp add: upsert_def)
qed

lemma set_upsert: "set (upsert k v es) \<subseteq> insert (k, v) (set es)"
  by (auto simp: upsert_def)

lemma replay_record_lsn [simp]: "replay_record (r\<lparr>lr_lsn := n\<rparr>) = replay_record r"
  by (simp add: replay_record_def fun_eq_iff)

lemma is_int64_small: "is_int64 (- 1)" "is_int64 0"
  by (simp_all add: is_int64_def INVALID_KEY_def INT64_MAX_def)

lemma put_record_ok:
  "is_int64 k \<Longrightarrow> length v \<le> MAX_VALUE_SIZE \<Longrightarrow> record_fits (put_record k v)"
  "replay_record (put_record k v) m = m(k \<mapsto> LSMValue_Value v)"
  by (simp_all add: put_record_def LogRecord_SetNewValue_def LogRecord_def record_fits_def replay_record_def
      is_int64_small MAX_VALUE_SIZE_def)

lemma delete_record_ok:
  "is_int64 k \<Longrightarrow> record_fits (delete_record k)"
  "replay_record (delete_record k) m = m(k \<mapsto> LSMValue_Tombstone)"
  by (simp_all add: delete_record_def LogRecord_def record_fits_def replay_record_def is_int64_small)

text \<open>A write of the memtable after it was logged.\<close>

lemma logged_write:
  assumes inv: "phase_inv env extra e" and room: "lsm_room e 1" and rec: "record_fits rec"
    and mt: "mt_inv mt" "mt_entries mt = upsert k v (mt_entries (le_active_memtable e))"
      "\<And>m. replay_record rec m = m(k \<mapsto> v)" "entry_fits (k, v)"
  obtains wal where "LSM_log rec e = Inr (e\<lparr>le_memtable_wal := wal\<rparr>)"
    "phase_inv env extra (e\<lparr>le_memtable_wal := wal, le_active_memtable := mt\<rparr>)"
    "\<forall>lm. wal = Some lm \<longrightarrow> (\<exists>lm0. le_memtable_wal e = Some lm0 \<and> lm_next_lsn lm = lm_next_lsn lm0 + 1)"
proof -
  have mem: "mem_inv env extra e" and wal: "wal_ok e"
    using inv by (auto simp: phase_inv_def mem_inv_def)
  have fits: "\<forall>x\<in>set (mt_entries mt). entry_fits x"
    using mem set_upsert[of k v "mt_entries (le_active_memtable e)"] mt(4) unfolding mt(2) mem_inv_def by blast
  have fin: "phase_inv env extra (e\<lparr>le_memtable_wal := w, le_active_memtable := mt\<rparr>)"
    if "wal_ok (e\<lparr>le_memtable_wal := w, le_active_memtable := mt\<rparr>)" for w
    using inv fits mt(1) that by (auto simp: phase_inv_def mem_inv_def manifest_ok_def)
  show ?thesis
  proof (cases "le_wal_enabled e")
    case False
    then have "LSM_log rec e = Inr (e\<lparr>le_memtable_wal := None\<rparr>)" "wal_ok (e\<lparr>le_memtable_wal := None, le_active_memtable := mt\<rparr>)"
      using wal by (auto simp: LSM_log_def wal_ok_def)
    then show ?thesis
      using that[of None] fin by simp
  next
    case True
    then obtain lm recs where lm: "le_memtable_wal e = Some lm" "lm_holds lm recs"
      "map_of (mt_entries (le_active_memtable e)) = fold replay_record recs Map.empty"
      using wal by (auto simp: wal_ok_def)
    have n: "lm_next_lsn lm = int (length recs)"
      using lm(2) by (auto simp: lm_holds_def)
    then have "int (length recs) \<le> INT64_MAX"
      using room lm(1) by (simp add: lsm_room_def)
    from Append_holds[OF lm(2) rec this] obtain lm1 where lm1: "LogManager_Append rec lm = Inr (int (length recs), lm1)"
      "lm_holds lm1 (recs @ [rec\<lparr>lr_lsn := int (length recs)\<rparr>])"
      by blast
    let ?w = "Some (LogManager_Flush lm1)"
    have "lm_next_lsn (LogManager_Flush lm1) = lm_next_lsn lm + 1"
      using lm1(2) n by (auto simp: lm_holds_def LogManager_Flush_def)
    moreover have "wal_ok (e\<lparr>le_memtable_wal := ?w, le_active_memtable := mt\<rparr>)"
      using wal True Flush_holds[OF lm1(2)] lm(3) mt(2,3)
      by (auto simp: wal_ok_def intro!: exI[of _ "recs @ [rec\<lparr>lr_lsn := int (length recs)\<rparr>]"])
    moreover have "LSM_log rec e = Inr (e\<lparr>le_memtable_wal := ?w\<rparr>)"
      using True lm(1) lm1(1) by (simp add: LSM_log_def)
    ultimately show ?thesis
      using that[of ?w] fin lm(1) by auto
  qed
qed

text \<open>What a write of key \<open>k\<close> does.\<close>

definition wrote :: "lsm_env \<Rightarrow> sstable list \<Rightarrow> KeyType \<Rightarrow> string option \<Rightarrow> lsm_engine \<Rightarrow> lsm_engine \<Rightarrow> bool" where
  "wrote env extra k v e e' \<longleftrightarrow> phase_inv env extra e' \<and> lsm_map e' = (lsm_map e)(k := v) \<and> same_config e e' \<and>
     (\<forall>n. lsm_room e (Suc n) \<longrightarrow> lsm_room e' n) \<and>
     (le_compaction_running e \<longrightarrow> (\<forall>job. compaction_picked job e \<longrightarrow> compaction_picked job e'))"

lemma maybe_flush_ok:
  assumes inv: "phase_inv env extra e" and small: "sum_list (map length (lsm_runs e)) < 2 ^ 30"
    and next_id: "le_next_sstable_id e + 2 \<le> INT64_MAX" and r: "LSM_maybe_flush env e = (r, e')"
  shows "(\<exists>msg. r = Inl (RuntimeError msg)) \<or> r = Inr () \<and> flushed env extra e e'"
proof (cases "MemTable_ApproximateSizeBytes (le_active_memtable e) \<ge> le_flush_threshold_bytes e")
  case True
  then show ?thesis
    using Flush_ok[OF inv small next_id] r by (simp add: LSM_maybe_flush_def)
next
  case False
  then show ?thesis
    using r inv by (simp add: LSM_maybe_flush_def flushed_def same_config_def)
qed

lemma write_then_flush:
  assumes inv: "phase_inv env extra e" and room: "lsm_room e 1"
    and w: "phase_inv env extra (e\<lparr>le_memtable_wal := wal, le_active_memtable := mt\<rparr>)"
      "\<forall>lm. wal = Some lm \<longrightarrow> (\<exists>lm0. le_memtable_wal e = Some lm0 \<and> lm_next_lsn lm = lm_next_lsn lm0 + 1)"
      "mt_entries mt = upsert k v (mt_entries (le_active_memtable e))"
    and r: "LSM_maybe_flush env (e\<lparr>le_memtable_wal := wal, le_active_memtable := mt\<rparr>) = (r, e')"
  shows "(\<exists>msg. r = Inl (RuntimeError msg)) \<or> r = Inr () \<and> wrote env extra k (visible (Some v)) e e'"
proof -
  let ?e1 = "e\<lparr>le_memtable_wal := wal, le_active_memtable := mt\<rparr>"
  have weight: "sum_list (map length (lsm_runs ?e1)) \<le> sum_list (map length (lsm_runs e)) + 1"
    using length_upsert[of k v "mt_entries (le_active_memtable e)"] by (simp add: lsm_runs_def w(3))
  have map1: "lsm_map ?e1 = (lsm_map e)(k := visible (Some v))"
    by (auto simp: fun_eq_iff lsm_map_def lsm_runs_def w(3))
  have small: "sum_list (map length (lsm_runs ?e1)) < 2 ^ 30" "le_next_sstable_id ?e1 + 2 \<le> INT64_MAX"
    using weight room by (auto simp: lsm_room_def)
  have picked: "compaction_picked job ?e1 = compaction_picked job e" for job
    by (simp add: compaction_picked_def)
  from maybe_flush_ok[OF w(1) small r] show ?thesis
  proof (elim disjE)
    assume f: "r = Inr () \<and> flushed env extra ?e1 e'"
    have "lsm_room e' n" if n: "lsm_room e (Suc n)" for n
    proof -
      have "int n \<le> INT64_MAX"
        using n by (simp add: lsm_room_def INT64_MAX_def)
      then have "lm_next_lsn lm + int n \<le> INT64_MAX" if "le_memtable_wal e' = Some lm" for lm
        using f that n w(2) by (auto simp: flushed_def empty_log_def lsm_room_def)
      then show ?thesis
        using f n weight by (auto simp: flushed_def lsm_room_def)
    qed
    then show ?thesis
      using f map1 picked by (simp add: wrote_def flushed_def same_config_def)
  qed blast
qed

lemma Put_ok:
  assumes inv: "phase_inv env extra e" and room: "lsm_room e 1" and k: "is_int64 k" and v: "length v \<le> MAX_VALUE_SIZE"
    and r: "LSM_Put env k v e = (r, e')"
  shows "(\<exists>msg. r = Inl (RuntimeError msg)) \<or> r = Inr () \<and> wrote env extra k (Some v) e e'"
proof -
  have "mt_inv (le_active_memtable e)"
    using inv by (simp add: phase_inv_def mem_inv_def)
  from MemTable_Put_spec[OF this, of "env_coins env 0" k v] obtain mt where mt:
    "MemTable_Put (env_coins env 0) k v (le_active_memtable e) = Inr mt" "mt_inv mt"
    "mt_entries mt = upsert k (LSMValue_Value v) (mt_entries (le_active_memtable e))"
    by blast
  have "entry_fits (k, LSMValue_Value v)"
    using k v by (simp add: entry_fits_def LSMValue_Value_def)
  from logged_write[OF inv room put_record_ok(1)[OF k v] mt(2,3) put_record_ok(2) this] obtain wal where w:
    "LSM_log (put_record k v) e = Inr (e\<lparr>le_memtable_wal := wal\<rparr>)"
    "phase_inv env extra (e\<lparr>le_memtable_wal := wal, le_active_memtable := mt\<rparr>)"
    "\<forall>lm. wal = Some lm \<longrightarrow> (\<exists>lm0. le_memtable_wal e = Some lm0 \<and> lm_next_lsn lm = lm_next_lsn lm0 + 1)"
    by blast
  have "LSM_maybe_flush env (e\<lparr>le_memtable_wal := wal, le_active_memtable := mt\<rparr>) = (r, e')"
    using r v w(1) mt(1) by (simp add: LSM_Put_def)
  from write_then_flush[OF inv room w(2,3) mt(3) this] show ?thesis
    by (simp add: LSMValue_Value_def)
qed

lemma Delete_ok:
  assumes inv: "phase_inv env extra e" and room: "lsm_room e 1" and k: "is_int64 k" and r: "LSM_Delete env k e = (r, e')"
  shows "(\<exists>msg. r = Inl (RuntimeError msg)) \<or> r = Inr (lsm_map e k \<noteq> None) \<and> wrote env extra k None e e'"
proof -
  have "mt_inv (le_active_memtable e)" and mem: "mem_inv env extra e"
    using inv by (auto simp: phase_inv_def mem_inv_def)
  from MemTable_Delete_spec[OF this(1), of "env_coins env 0" k] obtain mt where mt:
    "MemTable_Delete (env_coins env 0) k (le_active_memtable e) = Inr mt" "mt_inv mt"
    "mt_entries mt = upsert k LSMValue_Tombstone (mt_entries (le_active_memtable e))"
    by blast
  have "entry_fits (k, LSMValue_Tombstone)"
    using k by (simp add: entry_fits_def LSMValue_Tombstone_def)
  from logged_write[OF inv room delete_record_ok(1)[OF k] mt(2,3) delete_record_ok(2) this] obtain wal where w:
    "LSM_log (delete_record k) e = Inr (e\<lparr>le_memtable_wal := wal\<rparr>)"
    "phase_inv env extra (e\<lparr>le_memtable_wal := wal, le_active_memtable := mt\<rparr>)"
    "\<forall>lm. wal = Some lm \<longrightarrow> (\<exists>lm0. le_memtable_wal e = Some lm0 \<and> lm_next_lsn lm = lm_next_lsn lm0 + 1)"
    by blast
  obtain rf ef where f: "LSM_maybe_flush env (e\<lparr>le_memtable_wal := wal, le_active_memtable := mt\<rparr>) = (rf, ef)"
    by fastforce
  have "(r, e') = (case rf of Inl err \<Rightarrow> (Inl err, ef) | Inr _ \<Rightarrow> (Inr (lsm_map e k \<noteq> None), ef))"
    using r LSM_Get_ok[OF mem_inv_readable[OF mem], of k] w(1) mt(1) f by (simp add: LSM_Delete_def)
  then show ?thesis
    using write_then_flush[OF inv room w(2,3) mt(3) f] by (auto simp: LSMValue_Tombstone_def)
qed

lemma Put_too_long: "length v > MAX_VALUE_SIZE \<Longrightarrow> \<exists>msg. LSM_Put env k v e = (Inl (InvalidArgument msg), e)"
  by (simp add: LSM_Put_def)

end
