(* ===== verification/LSM_Recovery.thy ===== *)
theory LSM_Recovery
  imports LSM_Writes
begin

text \<open>
  Starting the LSM-tree engine: on an empty directory, and on what an earlier engine left there, be
  it after a clean shutdown or at the death of the process. The manifest brings the tables back and
  the memtable's log the memtable.
\<close>

section \<open>The manifest brings the tables back\<close>

definition trim :: "'a list list \<Rightarrow> 'a list list" where
  "trim xss = rev (dropWhile (\<lambda>xs. xs = []) (rev xss))"

lemma trim_split: "\<exists>j. xss = trim xss @ replicate j []"
proof -
  have "rev xss = takeWhile (\<lambda>xs. xs = []) (rev xss) @ dropWhile (\<lambda>xs. xs = []) (rev xss)"
    by simp
  moreover have "takeWhile (\<lambda>xs. xs = []) (rev xss) = replicate (length (takeWhile (\<lambda>xs. xs = []) (rev xss))) []"
    by (rule replicate_eqI) (auto dest: set_takeWhileD)
  ultimately have "xss = trim xss @ replicate (length (takeWhile (\<lambda>xs. xs = []) (rev xss))) []"
    unfolding trim_def by (metis rev_append rev_replicate rev_rev_ident)
  then show ?thesis
    by blast
qed

lemma concat_trim [simp]: "concat (trim xss) = concat xss"
proof -
  obtain j where "xss = trim xss @ replicate j []"
    using trim_split by blast
  then have "concat xss = concat (trim xss) @ concat (replicate j [])"
    by (metis concat_append)
  then show ?thesis
    by simp
qed

lemma trim_take: "trim xss = take (length (trim xss)) xss"
  using trim_split[of xss] by (metis append_eq_conv_conj)

lemma length_trim: "length (trim xss) \<le> length xss"
  using trim_split[of xss] by (metis length_append le_add1)

lemma pad_to_replicate: "length xs + j \<le> n \<Longrightarrow> pad_to n x (xs @ replicate j x) = pad_to n x xs"
  by (simp add: pad_to_def replicate_add[symmetric] del: replicate_add)

lemma Manifest_of_trim: "length tiers \<le> kMaxManifestTiers \<Longrightarrow> Manifest_of n (trim tiers) = Manifest_of n tiers"
proof -
  assume len: "length tiers \<le> kMaxManifestTiers"
  obtain j where j: "tiers = trim tiers @ replicate j []"
    using trim_split by blast
  have "length (trim tiers) + j \<le> kMaxManifestTiers"
    using len j by (metis length_append length_replicate)
  then have "Manifest_of n (trim tiers @ replicate j []) = Manifest_of n (trim tiers)"
    by (simp add: Manifest_of_def pad_to_replicate) (simp add: pad_to_def replicate_add[symmetric] del: replicate_add)
  then show ?thesis
    using j by simp
qed

text \<open>The manifest depends on the ids of the tables only.\<close>

lemma Manifest_of_ids: "map (map sst_id) tiers = map (map sst_id) tiers' \<Longrightarrow> Manifest_of n tiers = Manifest_of n tiers'"
proof -
  assume ids: "map (map sst_id) tiers = map (map sst_id) tiers'"
  have "map (\<lambda>tier. int (length tier)) ts = map (int \<circ> length) (map (map sst_id) ts)"
    "map (\<lambda>tier. pad_to kMaxSSTablesPerManifestTier 0 (map sst_id tier)) ts =
      map (pad_to kMaxSSTablesPerManifestTier 0) (map (map sst_id) ts)" for ts
    by simp_all
  then show ?thesis
    unfolding Manifest_of_def using ids by metis
qed

lemma dropWhile_counts:
  "length (dropWhile (\<lambda>c. \<not> (c :: int) > 0) (map (\<lambda>t. int (length t)) xss)) = length (dropWhile (\<lambda>xs. xs = []) xss)"
  by (induction xss) auto

lemma dropWhile_replicate_zero: "dropWhile (\<lambda>c. \<not> (c :: int) > 0) (replicate j 0 @ xs) = dropWhile (\<lambda>c. \<not> c > 0) xs"
  by (induction j) auto

lemma Manifest_tiers_of:
  assumes "manifest_fits tiers"
  shows "Manifest_tiers (Manifest_of n tiers) = Inr (map (map sst_id) (trim tiers))"
proof -
  let ?mp = "Manifest_of n tiers"
  have len: "length tiers \<le> kMaxManifestTiers" and szs: "\<forall>t\<in>set tiers. length t \<le> kMaxSSTablesPerManifestTier"
    using assms by (auto simp: manifest_fits_def)
  have cnt: "length (rev (dropWhile (\<lambda>c. \<not> c > 0) (rev (mp_tier_count ?mp)))) = length (trim tiers)"
    using dropWhile_counts[of "rev tiers"]
    by (simp add: Manifest_of_def pad_to_def dropWhile_replicate_zero[simplified] trim_def rev_map)
  have ok: "\<not> (\<exists>c\<in>set (mp_tier_count ?mp). c > int kMaxSSTablesPerManifestTier)"
    using szs by (auto simp: Manifest_of_def pad_to_def)
  have row: "take (nat (mp_tier_count ?mp ! t)) (mp_tier_ids ?mp ! t) = map sst_id (tiers ! t)" if "t < length tiers" for t
    using that by (simp add: Manifest_of_def pad_to_def nth_append)
  have "map (\<lambda>t. take (nat (mp_tier_count ?mp ! t)) (mp_tier_ids ?mp ! t)) [0..<length (trim tiers)] =
      map (\<lambda>t. map sst_id (tiers ! t)) [0..<length (trim tiers)]"
    by (rule map_cong) (use row length_trim[of tiers] in auto)
  also have "\<dots> = map (map sst_id) (take (length (trim tiers)) tiers)"
    by (rule nth_equalityI) (use length_trim[of tiers] in auto)
  finally show ?thesis
    unfolding Manifest_tiers_def Let_def cnt using ok trim_take[of tiers] by simp
qed

text \<open>Loading a tier: the same tables, as far as ids and entries go.\<close>

definition same_tables :: "sstable list \<Rightarrow> sstable list \<Rightarrow> bool" where
  "same_tables ssts ssts' \<longleftrightarrow> map sst_id ssts' = map sst_id ssts \<and> map sst_entries ssts' = map sst_entries ssts"

lemma fs_create_present: "p \<in> keys_of fs \<Longrightarrow> distinct_keys fs \<Longrightarrow> fs_create p fs = fs"
proof -
  assume "p \<in> keys_of fs" "distinct_keys fs"
  then obtain v where "map_of fs p = Some v"
    using map_of_eq_None_keys[of fs p] by auto
  then show ?thesis
    by (simp add: fs_create_def fs_read_def AList.update_triv)
qed

lemma table_reopened:
  assumes "table_ok db n fs sst"
  obtains s where "SSTable_Open (SSTablePath db (sst_id sst)) (fs_read (SSTablePath db (sst_id sst)) fs) = Inr s"
    "table_ok db n fs (SSTable_SetId (sst_id sst) s)" "sst_entries (SSTable_SetId (sst_id sst) s) = sst_entries sst"
proof -
  obtain s where s: "SSTable_Open (sst_path sst) (fs_read (sst_path sst) fs) = Inr s" "sst_holds s (sst_entries sst)"
    "sst_path s = sst_path sst" "\<not> sst_obsolete s"
    and t: "sst_path sst = SSTablePath db (sst_id sst)" "0 \<le> sst_id sst" "sst_id sst < n" "sst_path sst \<in> keys_of fs"
    using assms unfolding table_ok_def by blast
  let ?s = "SSTable_SetId (sst_id sst) s"
  have es: "sst_entries ?s = sst_entries sst"
    using sst_entries_eq[of ?s "sst_entries sst"] s(2) by simp
  then have "sst_inv ?s"
    using s(2) by (simp add: sst_inv_def)
  then have "table_ok db n fs ?s"
    using s t es by (auto simp: table_ok_def)
  then show ?thesis
    using that[of s] s(1) t(1) es by simp
qed

lemma Load_tier_ok:
  assumes "\<forall>sst\<in>set ssts. table_ok db n fs sst" "distinct_keys fs"
  shows "\<exists>ssts'. Load_tier db (map sst_id ssts) fs = Inr (ssts', fs) \<and> (\<forall>sst\<in>set ssts'. table_ok db n fs sst) \<and> same_tables ssts ssts'"
  using assms
proof (induction ssts)
  case (Cons sst ssts)
  obtain s where s: "SSTable_Open (SSTablePath db (sst_id sst)) (fs_read (SSTablePath db (sst_id sst)) fs) = Inr s"
    "table_ok db n fs (SSTable_SetId (sst_id sst) s)" "sst_entries (SSTable_SetId (sst_id sst) s) = sst_entries sst"
    using Cons.prems(1) table_reopened[of db n fs sst] by (metis list.set_intros(1))
  have "SSTablePath db (sst_id sst) \<in> keys_of fs"
    using Cons.prems(1) unfolding table_ok_def by (metis list.set_intros(1))
  then have c: "fs_create (SSTablePath db (sst_id sst)) fs = fs"
    using Cons.prems(2) by (rule fs_create_present)
  obtain ssts' where l: "Load_tier db (map sst_id ssts) fs = Inr (ssts', fs)" "\<forall>sst\<in>set ssts'. table_ok db n fs sst"
    "same_tables ssts ssts'"
    using Cons by auto
  show ?case
    using s c l by (simp add: Let_def same_tables_def)
qed (simp add: same_tables_def)

lemma Load_tiers_ok:
  assumes "\<forall>sst\<in>set (concat tiers). table_ok db n fs sst" "distinct_keys fs"
  shows "\<exists>tiers'. Load_tiers db (map (map sst_id) tiers) fs = Inr (tiers', fs) \<and>
    (\<forall>sst\<in>set (concat tiers'). table_ok db n fs sst) \<and> map (map sst_id) tiers' = map (map sst_id) tiers \<and>
    map (map sst_entries) tiers' = map (map sst_entries) tiers"
  using assms
proof (induction tiers)
  case (Cons tier tiers)
  obtain ssts' where t: "Load_tier db (map sst_id tier) fs = Inr (ssts', fs)" "\<forall>sst\<in>set ssts'. table_ok db n fs sst"
    "same_tables tier ssts'"
    using Load_tier_ok[of tier db n fs] Cons.prems by auto
  obtain tiers' where l: "Load_tiers db (map (map sst_id) tiers) fs = Inr (tiers', fs)"
    "\<forall>sst\<in>set (concat tiers'). table_ok db n fs sst" "map (map sst_id) tiers' = map (map sst_id) tiers"
    "map (map sst_entries) tiers' = map (map sst_entries) tiers"
    using Cons.IH Cons.prems by auto
  show ?case
    using t l by (auto simp: same_tables_def)
qed simp

text \<open>The manifest of an engine, with the files beside it.\<close>

definition manifest_file_ok :: "byte list \<Rightarrow> int \<Rightarrow> sstable list list \<Rightarrow> bool" where
  "manifest_file_ok bs n tiers \<longleftrightarrow> manifest_fits tiers \<and> bs \<noteq> [] \<and>
     ManifestPage_read (disk_page (DiskManager_open bs) 0) = Manifest_of n tiers"

lemma manifest_ok_file: "manifest_ok e \<Longrightarrow> manifest_file_ok (dm_file (le_manifest e)) (le_next_sstable_id e) (le_tiers e)"
  by (simp add: manifest_ok_def manifest_file_ok_def)

lemma GetNumPages_open: "bs \<noteq> [] \<Longrightarrow> DiskManager_GetNumPages (DiskManager_open bs) \<noteq> 0"
proof -
  assume "bs \<noteq> []"
  then have "PAGE_SIZE \<le> length bs + PAGE_SIZE - 1"
    by (cases bs) auto
  then have "1 \<le> (length bs + PAGE_SIZE - 1) div PAGE_SIZE"
    by (metis PAGE_SIZE_pos div_greater_zero_iff One_nat_def Suc_leI)
  then show ?thesis
    by (simp add: DiskManager_GetNumPages_def DiskManager_open_def)
qed

lemma manifest_fits_lengths:
  "manifest_fits tiers \<longleftrightarrow> length (map length tiers) \<le> kMaxManifestTiers \<and>
     (\<forall>n\<in>set (map length tiers). n \<le> kMaxSSTablesPerManifestTier)"
  by (simp add: manifest_fits_def)

lemma set_trim: "set (trim xss) \<subseteq> set xss"
  by (auto simp: trim_def dest: set_dropWhileD)

lemma manifest_fits_trim: "manifest_fits tiers \<Longrightarrow> manifest_fits (trim tiers)"
  using length_trim[of tiers] set_trim[of tiers] by (auto simp: manifest_fits_def)

lemma LoadManifest_tables:
  assumes mf: "manifest_file_ok (fs_read db fs) n tiers"
    and tabs: "\<forall>sst\<in>set (concat tiers). table_ok db n (AList.delete db fs) sst" "distinct_keys (AList.delete db fs)"
  obtains dm tiers' where "LSM_LoadManifestOrInitialize env db fs = Inr (dm, n, tiers', AList.delete db fs)"
    "\<forall>sst\<in>set (concat tiers'). table_ok db n (AList.delete db fs) sst"
    "map sst_id (concat tiers') = map sst_id (concat tiers)" "map sst_entries (concat tiers') = map sst_entries (concat tiers)"
    "manifest_fits tiers'" "dm_file dm \<noteq> []" "ManifestPage_read (disk_page dm 0) = Manifest_of n tiers'"
proof -
  let ?dm = "DiskManager_open (fs_read db fs)" and ?fs = "AList.delete db fs"
  have fits: "manifest_fits tiers" and ne: "fs_read db fs \<noteq> []"
    and pg: "ManifestPage_read (disk_page ?dm 0) = Manifest_of n tiers"
    using mf by (auto simp: manifest_file_ok_def)
  have "\<forall>sst\<in>set (concat (trim tiers)). table_ok db n ?fs sst"
    using tabs(1) by simp
  from Load_tiers_ok[OF this tabs(2)] obtain tiers' where l: "Load_tiers db (map (map sst_id) (trim tiers)) ?fs = Inr (tiers', ?fs)"
    "\<forall>sst\<in>set (concat tiers'). table_ok db n ?fs sst" "map (map sst_id) tiers' = map (map sst_id) (trim tiers)"
    "map (map sst_entries) tiers' = map (map sst_entries) (trim tiers)"
    by blast
  have ids: "map sst_id (concat tiers') = map sst_id (concat tiers)"
    using l(3) by (metis map_concat concat_trim)
  have es: "map sst_entries (concat tiers') = map sst_entries (concat tiers)"
    using l(4) by (metis map_concat concat_trim)
  have "Manifest_of n tiers' = Manifest_of n (trim tiers)"
    by (rule Manifest_of_ids[OF l(3)])
  then have mo: "Manifest_of n tiers' = Manifest_of n tiers"
    using Manifest_of_trim[of tiers n] fits by (simp add: manifest_fits_def)
  have "map length tiers' = map length (trim tiers)"
    using arg_cong[OF l(3), of "map length"] by (simp add: comp_def)
  then have fits': "manifest_fits tiers'"
    using manifest_fits_trim[OF fits] unfolding manifest_fits_lengths by metis
  have "LSM_LoadManifestOrInitialize env db fs = Inr (?dm\<lparr>dm_num_reads := dm_num_reads ?dm + 1\<rparr>, n, tiers', ?fs)"
    using GetNumPages_open[OF ne] ReadPage_eq[of 0 ?dm] pg Manifest_tiers_of[OF fits] l(1)
    by (simp add: LSM_LoadManifestOrInitialize_def Let_def Manifest_of_def)
  moreover have "dm_file ?dm = fs_read db fs"
    by (simp add: DiskManager_open_def)
  ultimately show ?thesis
    using that ids es ne pg mo l(2) fits' by simp
qed

lemma LoadManifest_ok:
  assumes mf: "manifest_file_ok (fs_read db fs) n tiers"
    and tabs: "tables_ok db n (AList.delete db fs) (concat tiers)"
  obtains dm tiers' where "LSM_LoadManifestOrInitialize env db fs = Inr (dm, n, tiers', AList.delete db fs)"
    "tables_ok db n (AList.delete db fs) (concat tiers')" "map sst_entries (concat tiers') = map sst_entries (concat tiers)"
    "manifest_fits tiers'" "dm_file dm \<noteq> []" "ManifestPage_read (disk_page dm 0) = Manifest_of n tiers'"
proof (rule LoadManifest_tables[OF mf, of env])
  show "\<forall>sst\<in>set (concat tiers). table_ok db n (AList.delete db fs) sst" "distinct_keys (AList.delete db fs)"
    using tabs by (auto simp: tables_ok_def)
qed (use that tabs in \<open>simp add: tables_ok_def\<close>)

section \<open>The log brings the memtable back\<close>

lemma Recover_replay_ok:
  assumes "mt_inv mt" "\<forall>x\<in>set (mt_entries mt). entry_fits x" "lm_holds wal old" "\<forall>r\<in>set recs. record_fits r"
    "int (length old + length recs) \<le> INT64_MAX" "map_of (mt_entries mt) = fold replay_record old Map.empty"
  shows "\<exists>mt' wal' new. Recover_replay env recs mt wal = Inr (mt', wal') \<and> mt_inv mt' \<and>
    (\<forall>x\<in>set (mt_entries mt'). entry_fits x) \<and> lm_holds wal' new \<and> length new = length old + length recs \<and>
    map_of (mt_entries mt') = fold replay_record new Map.empty \<and>
    map_of (mt_entries mt') = fold replay_record recs (map_of (mt_entries mt))"
  using assms
proof (induction recs arbitrary: mt wal old)
  case (Cons r recs)
  have r: "record_fits r" "is_int64 (lr_key r)" "length (lr_new_value r) \<le> MAX_VALUE_SIZE"
    using Cons.prems(4) by (auto simp: record_fits_def)
  let ?op = "if lr_op r = PUT then MemTable_Put (env_coins env (length recs)) (lr_key r) (lr_new_value r) mt
            else if lr_op r = DELETE then MemTable_Delete (env_coins env (length recs)) (lr_key r) mt else Inr mt"
  have "\<exists>mt1. ?op = Inr mt1 \<and> mt_inv mt1 \<and> (\<forall>x\<in>set (mt_entries mt1). entry_fits x) \<and>
      map_of (mt_entries mt1) = replay_record r (map_of (mt_entries mt))"
  proof -
    consider "lr_op r = PUT" | "lr_op r = DELETE" | "lr_op r \<noteq> PUT" "lr_op r \<noteq> DELETE"
      by blast
    then show ?thesis
    proof cases
      case 1
      obtain mt1 where "MemTable_Put (env_coins env (length recs)) (lr_key r) (lr_new_value r) mt = Inr mt1" "mt_inv mt1"
        "mt_entries mt1 = upsert (lr_key r) (LSMValue_Value (lr_new_value r)) (mt_entries mt)"
        using MemTable_Put_spec[OF Cons.prems(1)] by blast
      then show ?thesis
        using 1 r(2,3) Cons.prems(2) set_upsert[of "lr_key r" "LSMValue_Value (lr_new_value r)" "mt_entries mt"]
        by (auto simp: replay_record_def entry_fits_def LSMValue_Value_def)
    next
      case 2
      obtain mt1 where "MemTable_Delete (env_coins env (length recs)) (lr_key r) mt = Inr mt1" "mt_inv mt1"
        "mt_entries mt1 = upsert (lr_key r) LSMValue_Tombstone (mt_entries mt)"
        using MemTable_Delete_spec[OF Cons.prems(1)] by blast
      then show ?thesis
        using 2 r(2,3) Cons.prems(2) set_upsert[of "lr_key r" LSMValue_Tombstone "mt_entries mt"]
        by (auto simp: replay_record_def entry_fits_def LSMValue_Tombstone_def)
    next
      case 3
      then show ?thesis
        using Cons.prems(1,2) by (simp add: replay_record_def)
    qed
  qed
  then obtain mt1 where m: "?op = Inr mt1" "mt_inv mt1" "\<forall>x\<in>set (mt_entries mt1). entry_fits x"
    "map_of (mt_entries mt1) = replay_record r (map_of (mt_entries mt))"
    by blast
  have "int (length old) \<le> INT64_MAX"
    using Cons.prems(5) by simp
  from Append_holds[OF Cons.prems(3) r(1) this] obtain wal1 where w:
    "LogManager_Append r wal = Inr (int (length old), wal1)" "lm_holds wal1 (old @ [r\<lparr>lr_lsn := int (length old)\<rparr>])"
    by blast
  have "map_of (mt_entries mt1) = fold replay_record (old @ [r\<lparr>lr_lsn := int (length old)\<rparr>]) Map.empty"
    using m(4) Cons.prems(6) by simp
  with Cons.IH[OF m(2,3) w(2)] Cons.prems(4,5) show ?case
    using m(1,4) w(1) by fastforce
qed auto

lemma found_generations_none: "\<forall>p\<in>set ps. generation_suffix db p = None \<Longrightarrow> found_generations db ps = Inr []"
  by (induction ps) auto

lemma found_generations_append:
  "found_generations db ps = Inr gs \<Longrightarrow> found_generations db (ps @ qs) = map_sum id ((@) gs) (found_generations db qs)"
proof (induction ps arbitrary: gs)
  case (Cons p ps)
  then show ?case
    by (cases "found_generations db qs") (auto split: option.splits sum.splits)
qed (cases "found_generations db qs"; simp)

lemma found_one_generation:
  assumes "keys_of fs \<subseteq> Collect (plain_file db)" "0 \<le> g" "g \<le> INT64_MAX"
  shows "found_generations db (map fst (AList.update (MemWALPath db g) bs fs)) = Inr [g]"
proof -
  have "\<forall>p\<in>set (map fst fs). generation_suffix db p = None"
    using assms(1) by (auto simp: plain_file_def)
  note none = found_generations_none[OF this]
  have "MemWALPath db g \<notin> keys_of fs"
    using assms(1) generation_suffix_MemWALPath[OF assms(2), of db] by (auto simp: plain_file_def)
  then have "map fst (AList.update (MemWALPath db g) bs fs) = map fst fs @ [MemWALPath db g]"
    by (simp add: AList.update_keys)
  then show ?thesis
    using found_generations_append[OF none, of "[MemWALPath db g]"] generation_suffix_MemWALPath[OF assms(2), of db]
      stoll_to_string[OF assms(2,3)] by simp
qed

text \<open>Recovery of an engine whose directory holds the log of one generation.\<close>

lemma Recover_ok:
  assumes fs: "le_files e = AList.update (MemWALPath (le_db_path e) g) (dm_file (lm_disk_manager lm)) fs"
    "keys_of fs \<subseteq> Collect (plain_file (le_db_path e))" "distinct_keys fs" "0 \<le> g" "g \<le> INT64_MAX"
    and mt: "le_active_memtable e = MemTable" and lm: "lm_holds lm recs" "int (length recs) \<le> INT64_MAX"
  obtains mt wal where
    "LSM_RecoverMemWALOnStartup env e =
       Inr (e\<lparr>le_files := fs, le_next_wal_generation := g + 1 + 1, le_memtable_wal := Some wal, le_active_memtable := mt\<rparr>)"
    "mt_inv mt" "\<forall>x\<in>set (mt_entries mt). entry_fits x" "map_of (mt_entries mt) = fold replay_record recs Map.empty"
    "\<exists>new. lm_holds wal new \<and> map_of (mt_entries mt) = fold replay_record new Map.empty"
proof -
  let ?db = "le_db_path e" and ?new = "MemWALPath (le_db_path e) (g + 1)"
  have nw: "generation_suffix ?db (MemWALPath ?db (g + 1)) \<noteq> None" "generation_suffix ?db (MemWALPath ?db g) \<noteq> None"
    using generation_suffix_MemWALPath[of "g + 1" ?db] generation_suffix_MemWALPath[of g ?db] fs(4) by auto
  have fresh: "?new \<notin> keys_of (le_files e)" "MemWALPath ?db g \<notin> keys_of fs"
    using nw fs(2) MemWALPath_inj[of "g + 1" g ?db] fs(4) unfolding fs(1) by (auto simp: plain_file_def)
  obtain lm0 where lm0: "LogManager_open [] = Inr lm0" "lm_holds lm0 []"
    using lm_holds_fresh by blast
  obtain old where old: "LogManager_open (dm_file (lm_disk_manager lm)) = Inr old" "lm_holds old recs"
    using reopen_holds[OF lm(1)] by blast
  have fits: "\<forall>r\<in>set recs. record_fits r"
    using lm(1) by (auto simp: lm_holds_def in_set_conv_nth)
  obtain mt1 wal new where rp: "Recover_replay env recs MemTable lm0 = Inr (mt1, wal)" "mt_inv mt1"
    "\<forall>x\<in>set (mt_entries mt1). entry_fits x" "lm_holds wal new" "map_of (mt_entries mt1) = fold replay_record new Map.empty"
    "map_of (mt_entries mt1) = fold replay_record recs (map_of (mt_entries MemTable))"
    using Recover_replay_ok[OF MemTable_init(1) _ lm0(2) fits, of env] lm(2) by (auto simp: MemTable_init)
  have present: "fs_create (MemWALPath ?db g) (le_files e) = le_files e"
    unfolding fs(1) using fs(3) by (intro fs_create_present) auto
  have "LSM_RecoverMemWALOnStartup env e =
      Inr (e\<lparr>le_files := fs, le_next_wal_generation := g + 1 + 1, le_memtable_wal := Some (LogManager_Flush wal), le_active_memtable := mt1\<rparr>)"
    using found_one_generation[OF fs(2,4,5), of "dm_file (lm_disk_manager lm)"] fs_read_missing[OF fresh(1)] fresh lm0(1)
      present old(1) ReadAll_holds[OF old(2)] rp(1)
    by (simp add: LSM_RecoverMemWALOnStartup_def fs(1) mt Let_def AList.delete_update_same)
  moreover have "map_of (mt_entries mt1) = fold replay_record recs Map.empty"
    using rp(6) by (simp add: MemTable_init)
  ultimately show ?thesis
    using that[OF _ rp(2,3)] Flush_holds[OF rp(4)] rp(5) by blast
qed

section \<open>Starting the engine\<close>

lemma Manifest_empty: "Manifest_of 0 [] = \<lparr>mp_next_sstable_id = 0, mp_tier_count = replicate kMaxManifestTiers 0,
    mp_tier_ids = replicate kMaxManifestTiers (replicate kMaxSSTablesPerManifestTier 0)\<rparr>"
  by (simp add: Manifest_of_def pad_to_def)

lemma Load_fresh:
  obtains dm where "LSM_LoadManifestOrInitialize env db [] = Inr (dm, 0, [], [])" "dm_file dm \<noteq> []"
    "ManifestPage_read (disk_page dm 0) = Manifest_of 0 []"
proof -
  let ?pg = "page_image (env_slack env) (ManifestPage_bytes (Manifest_of 0 []))"
  obtain dm0 where n: "DiskManager_GetNumPages (DiskManager_open []) = 0" "DiskManager_AllocatePage (DiskManager_open []) = (0, dm0)"
    using open_empty_next by (simp add: DiskManager_GetNumPages_def DiskManager_AllocatePage_def)
  have mf: "manifest_fits []" "\<forall>sst\<in>set (concat []). is_int64 (sst_id sst)"
    by (auto simp: manifest_fits_def)
  note rt = Manifest_of_round_trip[OF mf(1) is_int64_small(2) mf(2)]
  have len: "length ?pg = PAGE_SIZE"
    using rt(1) by (simp add: PAGE_SIZE_def)
  obtain dm where dm: "DiskManager_WritePage 0 ?pg dm0 = (Inr (), dm)" "disk_page dm 0 = ?pg" "dm_file dm \<noteq> []"
    using WritePage_eq[OF order.refl len, of dm0] by (force simp: PAGE_SIZE_def)
  have "LSM_LoadManifestOrInitialize env db [] = Inr (dm, 0, [], [])"
    using n dm(1) unfolding LSM_LoadManifestOrInitialize_def Let_def Manifest_empty[symmetric]
    by (simp add: fs_read_def)
  then show ?thesis
    using that dm(2,3) rt(2) by simp
qed

text \<open>A fresh engine stands for the empty map.\<close>

lemma LSMTreeEngine_fresh:
  assumes "env_ok env"
  obtains e where "LSMTreeEngine env db ft tt wal [] = Inr e" "lsm_inv env e" "lsm_map e = Map.empty" "lsm_runs e = [[]]"
    "le_next_sstable_id e = 0" "le_next_wal_generation e \<le> 1" "empty_log e" "le_tier_threshold e = tt" "le_wal_enabled e = wal"
    "le_flush_threshold_bytes e = ft" "le_tiers e = []" "\<not> le_stop e" "le_active_memtable e = MemTable" "le_db_path e = db"
proof -
  obtain dm where dm: "LSM_LoadManifestOrInitialize env db [] = Inr (dm, 0, [], [])" "dm_file dm \<noteq> []"
    "ManifestPage_read (disk_page dm 0) = Manifest_of 0 []"
    by (rule Load_fresh)
  define e0 where "e0 = \<lparr>le_files = [], le_db_path = db, le_flush_threshold_bytes = ft, le_tier_threshold = tt, le_manifest = dm,
    le_next_sstable_id = 0, le_wal_enabled = wal, le_next_wal_generation = 0, le_memtable_wal = None,
    le_active_memtable = MemTable, le_tiers = [], le_stop = False, le_compaction_running = False\<rparr>"
  obtain lm0 where lm0: "LogManager_open [] = Inr lm0" "lm_holds lm0 []"
    using lm_holds_fresh by blast
  define e where "e = (if wal then e0\<lparr>le_next_wal_generation := 1, le_memtable_wal := Some (LogManager_Flush lm0)\<rparr> else e0)"
  have "LSM_RecoverMemWALOnStartup env e0 = Inr (e0\<lparr>le_next_wal_generation := 1, le_memtable_wal := Some (LogManager_Flush lm0)\<rparr>)"
    using lm0(1) by (simp add: LSM_RecoverMemWALOnStartup_def e0_def fs_read_def Let_def)
  then have new: "LSMTreeEngine env db ft tt wal [] = Inr e"
    using dm(1) by (cases wal) (simp_all add: LSMTreeEngine_def e0_def e_def Let_def)
  have log: "lm_holds (LogManager_Flush lm0) []" "lm_next_lsn (LogManager_Flush lm0) = 0"
    using Flush_holds[OF lm0(2)] by (auto simp: lm_holds_def)
  have "manifest_fits []"
    by (simp add: manifest_fits_def)
  then have inv: "lsm_inv env e"
    using assms dm(2,3) log(1)
    by (cases wal) (auto simp: e_def e0_def lsm_inv_def mem_inv_def manifest_ok_def wal_ok_def tables_ok_def MemTable_init
        intro!: exI[of _ "[]"])
  have runs: "lsm_runs e = [[]]"
    by (simp add: e_def e0_def lsm_runs_def MemTable_init)
  show ?thesis
    by (rule that[OF new inv])
       (use runs log(2) in \<open>auto simp: lsm_map_def fun_eq_iff empty_log_def e_def e0_def\<close>)
qed

text \<open>
  An engine started on the files of another, while that one is between operations: the tables come
  back, and with the log the memtable too.
\<close>

lemma wal_ok_disk:
  assumes "lsm_inv env e"
  shows "AList.delete (le_db_path e) (LSM_disk e) =
      (case le_memtable_wal e of
         None \<Rightarrow> le_files e
       | Some lm \<Rightarrow> AList.update (MemWALPath (le_db_path e) (le_next_wal_generation e - 1)) (dm_file (lm_disk_manager lm)) (le_files e))"
    "fs_read (le_db_path e) (LSM_disk e) = dm_file (le_manifest e)"
proof -
  have w: "wal_ok e"
    using assms by (simp add: lsm_inv_def mem_inv_def)
  then have "le_db_path e \<notin> keys_of (le_files e)"
    by (auto simp: wal_ok_def plain_file_def)
  moreover have "0 < le_next_wal_generation e" if "le_memtable_wal e = Some lm" for lm
    using w that by (auto simp: wal_ok_def split: if_splits)
  ultimately show "AList.delete (le_db_path e) (LSM_disk e) =
      (case le_memtable_wal e of
         None \<Rightarrow> le_files e
       | Some lm \<Rightarrow> AList.update (MemWALPath (le_db_path e) (le_next_wal_generation e - 1)) (dm_file (lm_disk_manager lm)) (le_files e))"
    using paths_differ(2)[of "le_next_wal_generation e - 1" "le_db_path e"]
    by (auto simp: LSM_disk_def AList.delete_update_same AList.delete_update split: option.split)
  show "fs_read (le_db_path e) (LSM_disk e) = dm_file (le_manifest e)"
    by (simp add: LSM_disk_def)
qed

lemma reopen_ok:
  assumes inv: "lsm_inv env e" and env': "env_ok env'" and gen: "le_next_wal_generation e \<le> INT64_MAX"
    and lsn: "\<forall>lm. le_memtable_wal e = Some lm \<longrightarrow> lm_next_lsn lm \<le> INT64_MAX"
  obtains e' where "LSMTreeEngine env' (le_db_path e) ft tt (le_wal_enabled e) (LSM_disk e) = Inr e'" "lsm_inv env' e'"
    "map sst_entries (concat (le_tiers e')) = map sst_entries (concat (le_tiers e))"
    "map_of (mt_entries (le_active_memtable e')) =
       (if le_wal_enabled e then map_of (mt_entries (le_active_memtable e)) else Map.empty)"
proof -
  let ?db = "le_db_path e" and ?n = "le_next_sstable_id e" and ?fs = "AList.delete (le_db_path e) (LSM_disk e)"
  have w: "wal_ok e" and tabs: "tables_ok ?db ?n (le_files e) (concat (le_tiers e))" and mo: "manifest_ok e"
    using inv by (auto simp: lsm_inv_def mem_inv_def)
  note disk = wal_ok_disk[OF inv]
  have dk: "distinct_keys (le_files e)" and plain: "keys_of (le_files e) \<subseteq> Collect (plain_file ?db)"
    using tabs w by (auto simp: tables_ok_def wal_ok_def)
  have gpos: "0 < le_next_wal_generation e" if "le_memtable_wal e = Some lm" for lm
    using w that by (auto simp: wal_ok_def split: if_splits)
  have "tables_ok ?db ?n ?fs (concat (le_tiers e))"
    by (rule tables_ok_frame[OF tabs])
       (use gpos paths_differ(1)[of "le_next_wal_generation e - 1" ?db, THEN not_sym] dk disk(1) in \<open>auto split: option.splits\<close>)
  from LoadManifest_ok[OF manifest_ok_file[OF mo, folded disk(2)] this, of env'] obtain dm tiers' where l:
    "LSM_LoadManifestOrInitialize env' ?db (LSM_disk e) = Inr (dm, ?n, tiers', ?fs)"
    "tables_ok ?db ?n ?fs (concat tiers')" "map sst_entries (concat tiers') = map sst_entries (concat (le_tiers e))"
    "manifest_fits tiers'" "dm_file dm \<noteq> []" "ManifestPage_read (disk_page dm 0) = Manifest_of ?n tiers'"
    by blast
  define e0 where "e0 = \<lparr>le_files = ?fs, le_db_path = ?db, le_flush_threshold_bytes = ft, le_tier_threshold = tt, le_manifest = dm,
    le_next_sstable_id = ?n, le_wal_enabled = le_wal_enabled e, le_next_wal_generation = 0, le_memtable_wal = None,
    le_active_memtable = MemTable, le_tiers = tiers', le_stop = False, le_compaction_running = False\<rparr>"
  show ?thesis
  proof (cases "le_wal_enabled e")
    case False
    then have "?fs = le_files e"
      using w disk(1) by (simp add: wal_ok_def)
    then have "lsm_inv env' e0"
      using l(2,4-6) env' plain False
      by (auto simp: lsm_inv_def mem_inv_def manifest_ok_def wal_ok_def e0_def MemTable_init)
    then show ?thesis
      using that[of e0] l(1,3) False by (simp add: LSMTreeEngine_def e0_def MemTable_init)
  next
    case True
    then obtain lm recs where lm: "le_memtable_wal e = Some lm" "lm_holds lm recs"
      "map_of (mt_entries (le_active_memtable e)) = fold replay_record recs Map.empty"
      using w by (auto simp: wal_ok_def)
    let ?g = "le_next_wal_generation e - 1"
    have fs: "le_files e0 = AList.update (MemWALPath (le_db_path e0) ?g) (dm_file (lm_disk_manager lm)) (le_files e)"
      "keys_of (le_files e) \<subseteq> Collect (plain_file (le_db_path e0))" "0 \<le> ?g" "?g \<le> INT64_MAX" "le_active_memtable e0 = MemTable"
      using disk(1) lm(1) plain gpos[OF lm(1)] gen by (auto simp: e0_def)
    have "int (length recs) \<le> INT64_MAX"
      using lsn lm(1,2) by (auto simp: lm_holds_def)
    from Recover_ok[OF fs(1,2) dk fs(3-5) lm(2) this, of env'] obtain mt wal where rec:
      "LSM_RecoverMemWALOnStartup env' e0 =
         Inr (e0\<lparr>le_files := le_files e, le_next_wal_generation := ?g + 1 + 1, le_memtable_wal := Some wal, le_active_memtable := mt\<rparr>)"
      "mt_inv mt" "\<forall>x\<in>set (mt_entries mt). entry_fits x" "map_of (mt_entries mt) = fold replay_record recs Map.empty"
      "\<exists>new. lm_holds wal new \<and> map_of (mt_entries mt) = fold replay_record new Map.empty"
      by blast
    let ?e' = "e0\<lparr>le_files := le_files e, le_next_wal_generation := ?g + 1 + 1, le_memtable_wal := Some wal, le_active_memtable := mt\<rparr>"
    have "tables_ok ?db ?n (le_files e) (concat tiers')"
      by (rule tables_ok_frame[OF l(2)])
         (use fs(3) paths_differ(1)[of ?g ?db, THEN not_sym] dk disk(1) lm(1) in \<open>auto split: option.splits\<close>)
    then have "lsm_inv env' ?e'"
      using l(4-6) env' plain True rec(2,3,5) gpos[OF lm(1)]
      by (auto simp: lsm_inv_def mem_inv_def manifest_ok_def wal_ok_def e0_def)
    moreover have "LSMTreeEngine env' ?db ft tt True (LSM_disk e) = Inr ?e'"
      using l(1) rec(1) True by (simp add: LSMTreeEngine_def e0_def)
    ultimately show ?thesis
      using that[of ?e'] True lm(3) rec(4) l(3) by (simp add: e0_def)
  qed
qed

text \<open>With the log, the death of the process between operations loses nothing.\<close>

lemma crash_reopen:
  assumes "lsm_inv env e" "env_ok env'" "le_wal_enabled e" "lsm_room e 0"
  obtains e' where "LSMTreeEngine env' (le_db_path e) ft tt True (LSM_disk e) = Inr e'" "lsm_inv env' e'" "lsm_map e' = lsm_map e"
proof -
  obtain e' where e': "LSMTreeEngine env' (le_db_path e) ft tt (le_wal_enabled e) (LSM_disk e) = Inr e'" "lsm_inv env' e'"
    "map sst_entries (concat (le_tiers e')) = map sst_entries (concat (le_tiers e))"
    "map_of (mt_entries (le_active_memtable e')) =
       (if le_wal_enabled e then map_of (mt_entries (le_active_memtable e)) else Map.empty)"
    using reopen_ok[OF assms(1,2)] assms(4) by (auto simp: lsm_room_def)
  have "lsm_map e' = lsm_map e"
    using e'(3,4) assms(3) by (simp add: fun_eq_iff lsm_map_def lsm_runs_def)
  then show ?thesis
    using that e'(1,2) assms(3) by simp
qed

text \<open>A flush leaves an empty memtable.\<close>

lemma keeps_memtable:
  "LSM_PersistManifestLocked env e = (r, e') \<Longrightarrow> le_active_memtable e' = le_active_memtable e"
  "LSM_new_table env es e = (s, e') \<Longrightarrow> le_active_memtable e' = le_active_memtable e"
  by (auto simp: LSM_PersistManifestLocked_def LSM_new_table_def Let_def split: prod.splits sum.splits if_splits)

lemma Compact_keeps_memtable:
  "LSM_CompactOneTierIfNeeded env e = (r, e') \<Longrightarrow> le_active_memtable e' = le_active_memtable e"
  by (auto simp: LSM_CompactOneTierIfNeeded_def LSM_Compact_merge_def LSM_Compact_install_def Let_def
      split: prod.splits sum.splits if_splits option.splits dest!: keeps_memtable)

lemma Flush_memtable:
  assumes "LSM_FlushActiveMemtable env e = (Inr (), e')"
  shows "le_active_memtable e' = MemTable"
proof -
  obtain job e1 where s: "LSM_Flush_swap e = (Inr job, e1)"
    using assms by (auto simp: LSM_FlushActiveMemtable_def split: prod.splits sum.splits)
  then have m1: "le_active_memtable e1 = MemTable"
    by (auto simp: LSM_Flush_swap_def Let_def split: if_splits sum.splits)
  show ?thesis
    using assms s m1
    by (auto simp: LSM_FlushActiveMemtable_def LSM_Flush_build_def LSM_Flush_install_def Let_def
        split: prod.splits sum.splits if_splits dest!: keeps_memtable Compact_keeps_memtable)
qed

text \<open>A clean shutdown keeps everything with or without the log.\<close>

lemma close_reopen:
  assumes inv: "lsm_inv env e" and env': "env_ok env'" and room: "lsm_room e 1" and c: "LSM_close env e = (r, e1)"
  shows "(\<exists>msg. r = Inl (RuntimeError msg)) \<or>
    r = Inr () \<and> (\<exists>e'. LSMTreeEngine env' (le_db_path e) ft tt (le_wal_enabled e) (LSM_disk e1) = Inr e' \<and>
      lsm_inv env' e' \<and> lsm_map e' = lsm_map e)"
proof -
  let ?e0 = "e\<lparr>le_stop := True\<rparr>"
  have p0: "phase_inv env [] ?e0" and idle: "\<not> le_compaction_running e"
    using inv by (auto simp: lsm_inv_phase phase_inv_def mem_inv_def manifest_ok_def wal_ok_def)
  have map0: "lsm_map ?e0 = lsm_map e"
    by (rule lsm_map_runs) simp
  have fin: "\<exists>e'. LSMTreeEngine env' (le_db_path e) ft tt (le_wal_enabled e) (LSM_disk e1) = Inr e' \<and> lsm_inv env' e' \<and> lsm_map e' = lsm_map e"
    if e1: "lsm_inv env e1" "mt_entries (le_active_memtable e1) = []" "lsm_map e1 = lsm_map e" "same_config ?e0 e1"
      "le_next_wal_generation e1 \<le> INT64_MAX" "\<forall>lm. le_memtable_wal e1 = Some lm \<longrightarrow> lm_next_lsn lm \<le> INT64_MAX"
  proof -
    from reopen_ok[OF e1(1) env' e1(5,6), of ft tt] obtain e' where e':
      "LSMTreeEngine env' (le_db_path e1) ft tt (le_wal_enabled e1) (LSM_disk e1) = Inr e'" "lsm_inv env' e'"
      "map sst_entries (concat (le_tiers e')) = map sst_entries (concat (le_tiers e1))"
      "map_of (mt_entries (le_active_memtable e')) =
        (if le_wal_enabled e1 then map_of (mt_entries (le_active_memtable e1)) else Map.empty)"
      by blast
    have "lsm_map e' = lsm_map e1"
      using e'(3,4) e1(2) by (simp add: fun_eq_iff lsm_map_def lsm_runs_def)
    then show ?thesis
      using e'(1,2) e1(3,4) by (simp add: same_config_def)
  qed
  show ?thesis
  proof (cases "MemTable_EntryCount (le_active_memtable e) > 0")
    case False
    then have "r = Inr ()" "e1 = ?e0"
      using c by (auto simp: LSM_close_def Let_def)
    moreover have "mt_entries (le_active_memtable e) = []"
      using False inv MemTable_EntryCount_spec[of "le_active_memtable e"] by (simp add: lsm_inv_def mem_inv_def)
    moreover have "\<forall>lm. le_memtable_wal e = Some lm \<longrightarrow> lm_next_lsn lm \<le> INT64_MAX"
      using room by (auto simp: lsm_room_def)
    ultimately show ?thesis
      using fin p0 idle map0 room by (simp add: lsm_inv_phase same_config_def lsm_room_def)
  next
    case True
    then have f: "LSM_FlushActiveMemtable env ?e0 = (r, e1)"
      using c by (simp add: LSM_close_def Let_def)
    have small: "sum_list (map length (lsm_runs ?e0)) < 2 ^ 30" "le_next_sstable_id ?e0 + 2 \<le> INT64_MAX"
      using room by (auto simp: lsm_room_def)
    from Flush_ok[OF p0 small f] show ?thesis
    proof (elim disjE conjE)
      assume r: "r = Inr ()" and fl: "flushed env [] ?e0 e1"
      have "mt_entries (le_active_memtable e1) = []"
        using Flush_memtable f r by (auto simp: MemTable_init)
      moreover have "\<forall>lm. le_memtable_wal e1 = Some lm \<longrightarrow> lm_next_lsn lm \<le> INT64_MAX"
        using fl room by (auto simp: flushed_def empty_log_def lsm_room_def INT64_MAX_def)
      ultimately show ?thesis
        using fin r fl idle map0 room by (auto simp: flushed_def lsm_inv_phase same_config_def lsm_room_def)
    qed blast
  qed
qed

end
