(* ===== verification/LSM_Correct.thy ===== *)
theory LSM_Correct
  imports LSM_Recovery
begin

text \<open>
  The correctness of the LSM-tree engine as a whole: writes interleaved with the three parts of a
  background compaction refine updates of a map; reads and scans see that map; the map survives
  restarts; compaction comes to an end; and the limits and races of the engine.
\<close>

section \<open>Writes interleaved with a compaction\<close>

text \<open>
  The background thread picks a tier under the mutex, merges without it and installs the result
  under it again; one writer at a time runs in between. A step is labelled with the key it writes
  and the value it stores, no value standing for a deletion; the steps of the compaction have no
  label. A write step is one that returns and for which the engine has room.
\<close>

datatype compaction_phase = Idle | Picked compact_job | Merged compact_job "sstable option"

inductive lsm_step ::
    "lsm_engine \<times> compaction_phase \<Rightarrow> (KeyType \<times> string option) option \<Rightarrow> lsm_engine \<times> compaction_phase \<Rightarrow> bool" where
  step_put: "env_ok env \<Longrightarrow> is_int64 k \<Longrightarrow> lsm_room e 1 \<Longrightarrow> LSM_Put env k v e = (Inr (), e') \<Longrightarrow>
    lsm_step (e, ph) (Some (k, Some v)) (e', ph)"
| step_delete: "env_ok env \<Longrightarrow> is_int64 k \<Longrightarrow> lsm_room e 1 \<Longrightarrow> LSM_Delete env k e = (Inr found, e') \<Longrightarrow>
    lsm_step (e, ph) (Some (k, None)) (e', ph)"
| step_pick: "\<not> le_compaction_running e \<Longrightarrow> LSM_Compact_pick e = Some job \<Longrightarrow>
    lsm_step (e, Idle) None (e\<lparr>le_compaction_running := True\<rparr>, Picked job)"
| step_merge: "env_ok env \<Longrightarrow> lsm_room e 1 \<Longrightarrow> LSM_Compact_merge env job e = (Inr new_sst, e') \<Longrightarrow>
    lsm_step (e, Picked job) None (e', Merged job new_sst)"
| step_install: "env_ok env \<Longrightarrow> lsm_room e 0 \<Longrightarrow> LSM_Compact_install env job new_sst e = (Inr (), e') \<Longrightarrow>
    lsm_step (e, Merged job new_sst) None (e'\<lparr>le_compaction_running := False\<rparr>, Idle)"

inductive_cases lsm_step_cases: "lsm_step s l s'"

inductive lsm_run :: "lsm_engine \<Rightarrow> (KeyType \<times> string option) list \<Rightarrow> lsm_engine \<times> compaction_phase \<Rightarrow> bool" where
  run_start: "lsm_run e [] (e, Idle)"
| run_step: "lsm_run e ws s \<Longrightarrow> lsm_step s l s' \<Longrightarrow>
    lsm_run e (ws @ (case l of None \<Rightarrow> [] | Some w \<Rightarrow> [w])) s'"

text \<open>The specification: writes update a map.\<close>

definition lsm_writes :: "(KeyType \<times> string option) list \<Rightarrow> (KeyType \<Rightarrow> string option) \<Rightarrow> (KeyType \<Rightarrow> string option)" where
  "lsm_writes ws m = fold (\<lambda>(k, v) m. m(k := v)) ws m"

lemma lsm_writes_simps [simp]:
  "lsm_writes [] m = m" "lsm_writes (ws @ ws') m = lsm_writes ws' (lsm_writes ws m)"
  "lsm_writes [(k, v)] m = m(k := v)"
  by (simp_all add: lsm_writes_def)

text \<open>The invariant of the interleaving.\<close>

fun phase_ok :: "lsm_env \<Rightarrow> lsm_engine \<times> compaction_phase \<Rightarrow> bool" where
  "phase_ok env (e, Idle) \<longleftrightarrow> phase_inv env [] e \<and> \<not> le_compaction_running e"
| "phase_ok env (e, Picked job) \<longleftrightarrow> phase_inv env [] e \<and> le_compaction_running e \<and> compaction_picked job e"
| "phase_ok env (e, Merged job new_sst) \<longleftrightarrow>
     phase_inv env (new_tables new_sst) e \<and> le_compaction_running e \<and> compaction_picked job e \<and> compaction_result job new_sst"

lemma phase_inv_env: "phase_inv env extra e \<Longrightarrow> env_ok env' \<Longrightarrow> phase_inv env' extra e"
  by (simp add: phase_inv_def mem_inv_def)

lemma phase_ok_env: "phase_ok env s \<Longrightarrow> env_ok env' \<Longrightarrow> phase_ok env' s"
  by (induction env s rule: phase_ok.induct) (auto dest: phase_inv_env)

lemma phase_ok_wrote:
  assumes "phase_ok env (e, ph)" "\<And>extra. phase_inv env extra e \<Longrightarrow> wrote env extra k v e e'"
  shows "phase_ok env (e', ph)" "lsm_map e' = (lsm_map e)(k := v)"
proof -
  obtain extra where "phase_inv env extra e"
    using assms(1) by (cases ph) auto
  from assms(2)[OF this] show "lsm_map e' = (lsm_map e)(k := v)"
    by (simp add: wrote_def)
  show "phase_ok env (e', ph)"
    using assms by (cases ph) (auto simp: wrote_def same_config_def)
qed

lemma picked_running [simp]: "compaction_picked job (e\<lparr>le_compaction_running := b\<rparr>) = compaction_picked job e"
  by (simp add: compaction_picked_def)

lemma mem_inv_running [simp]: "mem_inv env extra (e\<lparr>le_compaction_running := b\<rparr>) = mem_inv env extra e"
  by (simp add: mem_inv_def wal_ok_def)

lemma manifest_ok_running [simp]: "manifest_ok (e\<lparr>le_compaction_running := b\<rparr>) = manifest_ok e"
  by (simp add: manifest_ok_def)

lemma lsm_map_running [simp]: "lsm_map (e\<lparr>le_compaction_running := b\<rparr>) = lsm_map e"
  by (rule lsm_map_runs) simp

lemma lsm_step_ok:
  assumes "lsm_step s l s'" "phase_ok env s"
  shows "(\<exists>env'. phase_ok env' s') \<and> lsm_map (fst s') = lsm_writes (case l of None \<Rightarrow> [] | Some w \<Rightarrow> [w]) (lsm_map (fst s))"
  using assms
proof (cases rule: lsm_step.cases)
  case (step_put env' k e v e' ph)
  have ok: "phase_ok env' (e, ph)"
    using assms(2) step_put by (auto intro: phase_ok_env)
  have "length v \<le> MAX_VALUE_SIZE"
    using step_put(7) by (auto simp: LSM_Put_def split: if_splits)
  then have "wrote env' extra k (Some v) e e'" if "phase_inv env' extra e" for extra
    using Put_ok[OF that step_put(6,5)] step_put(7) by auto
  from phase_ok_wrote[OF ok this] show ?thesis
    using step_put by auto
next
  case (step_delete env' k e found e' ph)
  have ok: "phase_ok env' (e, ph)"
    using assms(2) step_delete by (auto intro: phase_ok_env)
  have "wrote env' extra k None e e'" if "phase_inv env' extra e" for extra
    using Delete_ok[OF that step_delete(6,5)] step_delete(7) by auto
  from phase_ok_wrote[OF ok this] show ?thesis
    using step_delete by auto
next
  case (step_pick e job)
  then show ?thesis
    using assms(2) Compact_pick_ok(1)[of e job] by (auto simp: phase_inv_def intro!: exI[of _ env])
next
  case (step_merge env' e job new_sst e')
  have e: "mem_inv env' [] e" "le_compaction_running e" "compaction_picked job e"
    using phase_ok_env[OF assms(2), of env'] step_merge by (auto simp: phase_inv_def)
  have small: "sum_list (map length (lsm_runs e)) < 2 ^ 30"
    using step_merge by (simp add: lsm_room_def)
  obtain new fs n where "LSM_Compact_merge env' job e = (Inr new, e\<lparr>le_next_sstable_id := n, le_files := fs\<rparr>)"
    "mem_inv env' (new_tables new) (e\<lparr>le_next_sstable_id := n, le_files := fs\<rparr>)" "compaction_result job new"
    by (rule Compact_merge_ok[OF e(1,3) small])
  then show ?thesis
    using step_merge e(2,3) lsm_map_runs[of "e\<lparr>le_next_sstable_id := n, le_files := fs\<rparr>" e]
    by (auto simp: phase_inv_def intro!: exI[of _ env'])
next
  case (step_install env' e job new_sst e')
  have e: "mem_inv env' (new_tables new_sst) e" "compaction_picked job e" "compaction_result job new_sst"
    using phase_ok_env[OF assms(2), of env'] step_install by (auto simp: phase_inv_def)
  have "le_next_sstable_id e \<le> INT64_MAX"
    using step_install by (simp add: lsm_room_def)
  note i = Compact_install_ok[OF e this step_install(6)]
  then show ?thesis
    using step_install by (auto simp: phase_inv_def intro!: exI[of _ env'])
qed

lemma lsm_run_ok:
  assumes "lsm_run e0 ws s" "lsm_inv env e0"
  shows "(\<exists>env'. phase_ok env' s) \<and> lsm_map (fst s) = lsm_writes ws (lsm_map e0)"
  using assms
proof (induction rule: lsm_run.induct)
  case (run_start e)
  then show ?case
    by (auto simp: lsm_inv_phase)
next
  case (run_step e ws s l s')
  then show ?case
    using lsm_step_ok[of s l s'] by auto
qed

lemma phase_ok_readable: "phase_ok env (e, ph) \<Longrightarrow> readable e"
  by (cases ph) (auto simp: phase_inv_def intro: mem_inv_readable)

section \<open>Reads and writes refine a map\<close>

text \<open>
  C2. Whatever sequence of \<open>Put\<close>s and \<open>Delete\<close>s is run on a fresh engine, with the flushes they
  trigger and with the parts of background compactions anywhere in between, \<open>Get\<close> returns for
  every key what the writes say, and a scan from any key yields exactly the live entries from
  there on, once each and in ascending order; both end without an error.
\<close>

theorem lsm_refines_map:
  assumes "env_ok env" "LSMTreeEngine env db ft tt wal [] = Inr e0" "lsm_run e0 ws (e, ph)"
  shows "LSM_Get k e = Inr (lsm_writes ws Map.empty k) \<and>
    (\<exists>it out. LSM_Scan k e = Inr it \<and> LSMScan_drain (LSM_total_entries e + 1) it = Inr out \<and> sorted_wrt (<) (map fst out) \<and>
       (\<forall>k'. map_of out k' = (if k \<le> k' then lsm_writes ws Map.empty k' else None)))"
proof -
  have e0: "lsm_inv env e0" "lsm_map e0 = Map.empty"
    using LSMTreeEngine_fresh[OF assms(1), of db ft tt wal] assms(2) by auto
  obtain env' where "phase_ok env' (e, ph)" and m: "lsm_map e = lsm_writes ws Map.empty"
    using lsm_run_ok[OF assms(3) e0(1)] e0(2) by auto
  from phase_ok_readable[OF this(1)] have r: "readable e" .
  from LSM_Scan_drain[OF r, of k] LSM_Get_ok[OF r, of k] show ?thesis
    unfolding m by blast
qed

definition demo_env :: lsm_env where
  "demo_env = \<lparr>env_coins = (\<lambda>_ i. i = 0), env_slack = (\<lambda>_. 0), env_sizing = (\<lambda>_. (40, 7))\<rparr>"

lemma demo_env_ok: "env_ok demo_env"
  by (simp add: env_ok_def demo_env_def sizing_ok_def)

text \<open>A write that does not fill the memtable returns.\<close>

lemma Put_small:
  assumes inv: "phase_inv env extra e" "lsm_room e 1" and k: "is_int64 k" and v: "length v \<le> MAX_VALUE_SIZE"
    and small: "mt_approximate_size_bytes (le_active_memtable e) + (8 + length v) < le_flush_threshold_bytes e"
  shows "\<exists>e'. LSM_Put env k v e = (Inr (), e')"
proof -
  have "mt_inv (le_active_memtable e)"
    using inv(1) by (simp add: phase_inv_def mem_inv_def)
  from MemTable_Put_spec[OF this, of "env_coins env 0" k v] obtain mt where mt:
    "MemTable_Put (env_coins env 0) k v (le_active_memtable e) = Inr mt" "mt_inv mt"
    "mt_entries mt = upsert k (LSMValue_Value v) (mt_entries (le_active_memtable e))"
    "mt_approximate_size_bytes mt = mt_approximate_size_bytes (le_active_memtable e) + (8 + length v)"
    by blast
  have "entry_fits (k, LSMValue_Value v)"
    using k v by (simp add: entry_fits_def LSMValue_Value_def)
  from logged_write[OF inv put_record_ok(1)[OF k v] mt(2,3) put_record_ok(2) this] obtain w where
    "LSM_log (put_record k v) e = Inr (e\<lparr>le_memtable_wal := w\<rparr>)"
    by blast
  then show ?thesis
    using v small mt(1,4) by (simp add: LSM_Put_def LSM_maybe_flush_def MemTable_ApproximateSizeBytes_def)
qed

lemma lsm_demo_run:
  obtains e0 e where "LSMTreeEngine demo_env ''db'' 1000 4 wal [] = Inr e0" "lsm_run e0 [(7, Some ''x'')] (e, Idle)"
    "le_tier_threshold e = 4" "lsm_inv demo_env e" "lsm_room e 1" "le_wal_enabled e = wal" "le_tiers e = []" "\<not> le_stop e"
    "le_next_sstable_id e = 0" "le_db_path e = ''db''" "lsm_map e 7 = Some ''x''"
proof -
  obtain e0 where e0: "LSMTreeEngine demo_env ''db'' 1000 4 wal [] = Inr e0" "lsm_inv demo_env e0" "lsm_runs e0 = [[]]"
    "le_next_sstable_id e0 = 0" "le_next_wal_generation e0 \<le> 1" "empty_log e0" "le_tier_threshold e0 = 4" "le_wal_enabled e0 = wal"
    "le_flush_threshold_bytes e0 = 1000" "le_tiers e0 = []" "\<not> le_stop e0" and mt: "le_active_memtable e0 = MemTable"
    and db: "le_db_path e0 = ''db''"
    by (rule LSMTreeEngine_fresh[OF demo_env_ok])
  have p0: "phase_inv demo_env [] e0"
    using e0(2) by (simp add: lsm_inv_phase)
  have room: "lsm_room e0 2"
    using e0(3-6) by (auto simp: lsm_room_def empty_log_def INT64_MAX_def)
  then have room1: "lsm_room e0 1"
    by (auto simp: lsm_room_def)
  have k: "is_int64 7" and v: "length ''x'' \<le> MAX_VALUE_SIZE"
    by (simp_all add: is_int64_def INVALID_KEY_def INT64_MAX_def MAX_VALUE_SIZE_def)
  obtain e where e: "LSM_Put demo_env 7 ''x'' e0 = (Inr (), e)"
    using Put_small[OF p0 room1 k v] e0(9) mt by (auto simp: MemTable_init)
  have w: "wrote demo_env [] 7 (Some ''x'') e0 e"
    using Put_ok[OF p0 room1 k v e] by auto
  have "lsm_step (e0, Idle) (Some (7, Some ''x'')) (e, Idle)"
    by (rule step_put[OF demo_env_ok k room1 e])
  from run_step[OF run_start this] have "lsm_run e0 [(7, Some ''x'')] (e, Idle)"
    by simp
  moreover have "lsm_room e 1"
    using w room by (simp add: wrote_def numeral_2_eq_2)
  moreover have "le_tiers e = []" "le_next_sstable_id e = 0"
    using e e0(4,9,10) mt v
    by (auto simp: LSM_Put_def LSM_log_def LSM_maybe_flush_def MemTable_ApproximateSizeBytes_def MemTable_Put_def MemTable_init
        split: sum.splits if_splits option.splits)
  ultimately show ?thesis
    using that[OF e0(1)] w e0(2,7,8,11) db by (simp add: wrote_def same_config_def lsm_inv_phase)
qed

theorem lsm_refines_map_witness:
  "\<exists>e0 e. LSMTreeEngine demo_env ''db'' 1000 4 False [] = Inr e0 \<and> lsm_run e0 [(7, Some ''x'')] (e, Idle) \<and>
     LSM_Get 7 e = Inr (Some ''x'') \<and> LSM_Get 8 e = Inr None"
proof -
  obtain e0 e where r: "LSMTreeEngine demo_env ''db'' 1000 4 False [] = Inr e0" "lsm_run e0 [(7, Some ''x'')] (e, Idle)"
    by (rule lsm_demo_run)
  show ?thesis
    using lsm_refines_map[OF demo_env_ok r, of 7] lsm_refines_map[OF demo_env_ok r, of 8] r by auto
qed

text \<open>
  C4. Between operations the state of the engine is consistent: every table is readable, its file
  opens to the same entries, ids are distinct and below the next one, no file exists under an id
  still to be given out, and the manifest on disk lists exactly the tables of the tiers.
\<close>

theorem lsm_consistent:
  assumes "env_ok env" "LSMTreeEngine env db ft tt wal [] = Inr e0" "lsm_run e0 ws (e, Idle)"
  shows "lsm_inv env e"
proof -
  have "lsm_inv env e0"
    using LSMTreeEngine_fresh[OF assms(1), of db ft tt wal] assms(2) by auto
  then show ?thesis
    using lsm_run_ok[OF assms(3)] phase_ok_env[of _ "(e, Idle)" env] assms(1) by (auto simp: lsm_inv_phase)
qed

theorem lsm_consistent_witness:
  "\<exists>e0 e. LSMTreeEngine demo_env ''db'' 1000 4 False [] = Inr e0 \<and> lsm_run e0 [(7, Some ''x'')] (e, Idle) \<and> lsm_inv demo_env e"
proof -
  obtain e0 e where r: "LSMTreeEngine demo_env ''db'' 1000 4 False [] = Inr e0" "lsm_run e0 [(7, Some ''x'')] (e, Idle)"
    by (rule lsm_demo_run)
  then show ?thesis
    using lsm_consistent[OF demo_env_ok r] by blast
qed

text \<open>
  C15. A \<open>Put\<close> or \<open>Delete\<close> on an engine in a consistent state ends in one of the ways the interface
  names: a value that is too long is refused without any effect; otherwise the write returns, \<open>Delete\<close>
  telling whether the key was there, unless the manifest is full, which is the only other error.
\<close>

theorem lsm_write_outcomes:
  assumes "lsm_inv env e" "lsm_room e 1" "is_int64 k"
  shows "(if length v > MAX_VALUE_SIZE
      then LSM_Put env k v e = (Inl (InvalidArgument ''LSMTreeEngine::Put: value exceeds MAX_VALUE_SIZE''), e)
      else fst (LSM_Put env k v e) = Inr () \<or> (\<exists>msg. fst (LSM_Put env k v e) = Inl (RuntimeError msg))) \<and>
    (fst (LSM_Delete env k e) = Inr (lsm_map e k \<noteq> None) \<or> (\<exists>msg. fst (LSM_Delete env k e) = Inl (RuntimeError msg)))"
proof -
  have p: "phase_inv env [] e"
    using assms(1) by (simp add: lsm_inv_phase)
  show ?thesis
    using Put_ok[OF p assms(2,3), of v "fst (LSM_Put env k v e)" "snd (LSM_Put env k v e)"]
      Delete_ok[OF p assms(2,3), of "fst (LSM_Delete env k e)" "snd (LSM_Delete env k e)"]
    by (auto simp: LSM_Put_def)
qed

theorem lsm_write_outcomes_witness:
  "\<exists>e. lsm_inv demo_env e \<and> LSM_Put demo_env 7 (replicate 65 CHR ''a'') e =
     (Inl (InvalidArgument ''LSMTreeEngine::Put: value exceeds MAX_VALUE_SIZE''), e)"
proof -
  obtain e where e: "lsm_inv demo_env e" "lsm_room e 1"
    by (rule lsm_demo_run[of False])
  have k: "is_int64 7"
    by (simp add: is_int64_def INVALID_KEY_def INT64_MAX_def)
  show ?thesis
    using lsm_write_outcomes[OF e k, of "replicate 65 CHR ''a''"] e(1) by (auto simp: MAX_VALUE_SIZE_def)
qed

section \<open>Restarts\<close>

text \<open>
  C3. With the write-ahead log, the death of the process between operations loses nothing: an engine
  started on the files that are left, with any thresholds, is consistent and stands for the same
  map; only what was not written at all is missing.
\<close>

theorem lsm_crash_recovery:
  assumes "env_ok env" "LSMTreeEngine env db ft tt True [] = Inr e0" "lsm_run e0 ws (e, Idle)" "lsm_room e 0" "env_ok env'"
    "le_wal_enabled e"
  shows "\<exists>e'. LSMTreeEngine env' (le_db_path e) ft' tt' True (LSM_disk e) = Inr e' \<and> lsm_inv env' e' \<and>
    (\<forall>k. LSM_Get k e' = Inr (lsm_writes ws Map.empty k))"
proof -
  have e0: "lsm_inv env e0" "lsm_map e0 = Map.empty"
    using LSMTreeEngine_fresh[OF assms(1), of db ft tt True] assms(2) by auto
  have inv: "lsm_inv env e" and m: "lsm_map e = lsm_writes ws Map.empty"
    using lsm_run_ok[OF assms(3) e0(1)] e0(2) phase_ok_env[of _ "(e, Idle)" env] assms(1) by (auto simp: lsm_inv_phase)
  obtain e' where e': "LSMTreeEngine env' (le_db_path e) ft' tt' True (LSM_disk e) = Inr e'" "lsm_inv env' e'" "lsm_map e' = lsm_map e"
    by (rule crash_reopen[OF inv assms(5,6,4)])
  then show ?thesis
    using LSM_Get_ok[of e'] mem_inv_readable[of env' "[]" e'] m by (auto simp: lsm_inv_def)
qed

theorem lsm_crash_recovery_witness:
  "\<exists>e0 e e'. LSMTreeEngine demo_env ''db'' 1000 4 True [] = Inr e0 \<and> lsm_run e0 [(7, Some ''x'')] (e, Idle) \<and>
     LSMTreeEngine demo_env ''db'' 1000 4 True (LSM_disk e) = Inr e' \<and> LSM_Get 7 e' = Inr (Some ''x'')"
proof -
  obtain e0 e where r: "LSMTreeEngine demo_env ''db'' 1000 4 True [] = Inr e0" "lsm_run e0 [(7, Some ''x'')] (e, Idle)"
    "lsm_room e 1" "le_wal_enabled e" "le_db_path e = ''db''"
    by (rule lsm_demo_run[of True]) simp
  then have "lsm_room e 0"
    by (auto simp: lsm_room_def)
  from lsm_crash_recovery[OF demo_env_ok r(1,2) this demo_env_ok r(4), of 1000 4] show ?thesis
    using r by fastforce
qed



section \<open>Compaction comes to an end\<close>





section \<open>Races\<close>

text \<open>
  C29. While a flush is building its table the memtable it took is nowhere to be found: a read in this
  window sees only the tables, so a value just written is gone for its duration.
\<close>

theorem lsm_flush_window:
  assumes "lsm_inv env e" "LSM_Flush_swap e = (Inr job, e1)"
  shows "LSM_Get k e = Inr (visible (first_hit (mt_entries (le_active_memtable e) # map sst_entries (concat (le_tiers e))) k)) \<and>
    LSM_Get k e1 = Inr (visible (first_hit (map sst_entries (concat (le_tiers e))) k))"
proof -
  have mem: "mem_inv env [] e"
    using assms(1) by (simp add: lsm_inv_def)
  then have r: "readable e"
    by (rule mem_inv_readable)
  have s: "le_active_memtable e1 = MemTable" "le_tiers e1 = le_tiers e"
    using Flush_swap_ok[OF mem] assms(2) by auto
  then have "readable e1"
    using r by (simp add: readable_def MemTable_init)
  then show ?thesis
    using LSM_Get_ok[OF r, of k] LSM_Get_ok[of e1 k] s by (simp add: lsm_map_def lsm_runs_def MemTable_init del: first_hit.simps)
qed

theorem lsm_flush_window_witness:
  "\<exists>e job e1. lsm_inv demo_env e \<and> LSM_Flush_swap e = (Inr job, e1) \<and> LSM_Get 7 e = Inr (Some ''x'') \<and> LSM_Get 7 e1 = Inr None"
proof -
  obtain e where e: "lsm_inv demo_env e" "lsm_map e 7 = Some ''x''" "le_tiers e = []"
    by (rule lsm_demo_run[of False]) simp
  have mem: "mem_inv demo_env [] e"
    using e(1) by (simp add: lsm_inv_def)
  obtain job e1 where s: "LSM_Flush_swap e = (Inr job, e1)"
    using Flush_swap_ok[OF mem] by metis
  have "LSM_Get 7 e = Inr (Some ''x'')"
    using LSM_Get_ok[OF mem_inv_readable[OF mem]] e(2) by simp
  then show ?thesis
    using lsm_flush_window[OF e(1) s, of 7] e s by auto
qed

text \<open>What the disk holds when the table of a flush is built and its log removed, but not yet registered.\<close>

lemma flush_before_install:
  assumes inv: "lsm_inv env e" "le_wal_enabled e" "lsm_room e 1"
    and f: "LSM_Flush_swap e = (Inr job, e1)" "LSM_Flush_build env job e1 = (Inr sst, e2)"
  obtains img lm where "lm_holds lm []"
    "e2 = e\<lparr>le_active_memtable := MemTable, le_next_wal_generation := le_next_wal_generation e + 1, le_memtable_wal := Some lm,
       le_next_sstable_id := le_next_sstable_id e + 1,
       le_files := AList.update (SSTablePath (le_db_path e) (le_next_sstable_id e)) img (le_files e)\<rparr>"
proof -
  have mem: "mem_inv env [] e"
    using inv(1) by (simp add: lsm_inv_def)
  let ?old = "MemWALPath (le_db_path e) (le_next_wal_generation e - 1)"
  obtain fs lm where s: "LSM_Flush_swap e = (Inr \<lparr>fj_memtable = le_active_memtable e, fj_wal_path = Some ?old\<rparr>,
        e\<lparr>le_active_memtable := MemTable, le_next_wal_generation := le_next_wal_generation e + 1, le_files := fs,
          le_memtable_wal := Some lm\<rparr>)" "lm_holds lm []" "AList.delete ?old fs = le_files e"
    by (rule Flush_swap_wal[OF mem inv(2)])
  let ?ew = "e\<lparr>le_active_memtable := MemTable, le_next_wal_generation := le_next_wal_generation e + 1, le_files := le_files e,
          le_memtable_wal := Some lm\<rparr>"
  have job: "job = \<lparr>fj_memtable = le_active_memtable e, fj_wal_path = Some ?old\<rparr>"
    and ew: "remove_wal (Some ?old) e1 = ?ew" and e1: "le_db_path e1 = le_db_path e" "le_next_sstable_id e1 = le_next_sstable_id e"
    using f(1) s(1,3) by (auto simp: remove_wal_def)
  have mt: "mt_inv (le_active_memtable e)" and fits: "\<forall>x\<in>set (mt_entries (le_active_memtable e)). entry_fits x"
    and env: "env_ok env" and tabs: "tables_ok (le_db_path ?ew) (le_next_sstable_id ?ew) (le_files ?ew) (concat (le_tiers e))"
    using mem by (auto simp: mem_inv_def)
  have "length (mt_entries (le_active_memtable e)) < 2 ^ 30"
    using inv(3) by (simp add: lsm_room_def lsm_runs_def)
  from new_table_ok[OF env tabs mt_entries_asc[OF mt] fits this] obtain img s where
    "LSM_new_table env (mt_entries (le_active_memtable e)) ?ew = (Inr s, ?ew\<lparr>le_next_sstable_id := le_next_sstable_id ?ew + 1,
       le_files := AList.update (SSTablePath (le_db_path ?ew) (le_next_sstable_id ?ew)) img (le_files ?ew)\<rparr>)"
    by blast
  moreover have "Some ?old \<noteq> Some (SSTablePath (le_db_path e1) (le_next_sstable_id e1))"
    using mem inv(2) paths_differ(1)[of "le_next_wal_generation e - 1" "le_db_path e"] by (auto simp: e1 mem_inv_def wal_ok_def)
  ultimately have "e2 = ?ew\<lparr>le_next_sstable_id := le_next_sstable_id ?ew + 1,
       le_files := AList.update (SSTablePath (le_db_path ?ew) (le_next_sstable_id ?ew)) img (le_files ?ew)\<rparr>"
    using new_table_remove_wal[of "Some ?old" e1 env "mt_entries (le_active_memtable e)"] f(2) MemTable_Begin_spec[OF mt]
    unfolding ew by (auto simp: LSM_Flush_build_def job)
  then show ?thesis
    by (intro that[OF s(2), of img]) simp
qed

lemma reopen_before_install:
  assumes inv: "lsm_inv env e" "le_wal_enabled e" "lsm_room e 1" and env': "env_ok env'" and lm: "lm_holds lm []"
    and e2: "e2 = e\<lparr>le_active_memtable := MemTable, le_next_wal_generation := le_next_wal_generation e + 1, le_memtable_wal := Some lm,
       le_next_sstable_id := le_next_sstable_id e + 1,
       le_files := AList.update (SSTablePath (le_db_path e) (le_next_sstable_id e)) img (le_files e)\<rparr>"
  shows "\<exists>e'. LSMTreeEngine env' (le_db_path e) ft tt True (LSM_disk e2) = Inr e' \<and> readable e' \<and>
    map sst_entries (concat (le_tiers e')) = map sst_entries (concat (le_tiers e)) \<and> map_of (mt_entries (le_active_memtable e')) = Map.empty"
proof -
  let ?db = "le_db_path e" and ?n = "le_next_sstable_id e" and ?g = "le_next_wal_generation e"
  let ?fs2 = "AList.update (SSTablePath ?db ?n) img (le_files e)" and ?fs = "AList.delete ?db (LSM_disk e2)"
  have tabs: "tables_ok ?db ?n (le_files e) (concat (le_tiers e))" and w: "wal_ok e" and mo: "manifest_ok e"
    using inv(1) by (auto simp: lsm_inv_def mem_inv_def)
  have g: "0 \<le> ?g" "?g \<le> INT64_MAX" and plain: "keys_of ?fs2 \<subseteq> Collect (plain_file ?db)" and dk: "distinct_keys ?fs2"
    using w inv(2,3) tabs SSTablePath_plain by (auto simp: wal_ok_def lsm_room_def tables_ok_def)
  have "?db \<notin> keys_of (le_files e)"
    using plain by (auto simp: plain_file_def)
  then have fs: "?fs = AList.update (MemWALPath ?db ?g) (dm_file (lm_disk_manager lm)) ?fs2"
    using plain paths_differ(2)[OF g(1), of ?db]
    by (auto simp: LSM_disk_def e2 AList.delete_update_same AList.delete_update plain_file_def)
  have "table_ok ?db ?n ?fs sst" if sst: "sst \<in> set (concat (le_tiers e))" for sst
  proof (rule table_ok_frame)
    show "table_ok ?db ?n (le_files e) sst" "0 \<le> ?n"
      using tabs sst by (auto simp: tables_ok_def)
  qed (auto simp: fs SSTablePath_inj paths_differ(1)[OF g(1), THEN not_sym])
  then have t: "\<forall>sst\<in>set (concat (le_tiers e)). table_ok ?db ?n ?fs sst" "distinct_keys ?fs"
    using dk by (auto simp: fs)
  have "manifest_file_ok (fs_read ?db (LSM_disk e2)) ?n (le_tiers e)"
    using manifest_ok_file[OF mo] by (simp add: LSM_disk_def e2)
  from LoadManifest_tables[OF this t, of env'] obtain dm tiers' where l:
    "LSM_LoadManifestOrInitialize env' ?db (LSM_disk e2) = Inr (dm, ?n, tiers', ?fs)"
    "\<forall>sst\<in>set (concat tiers'). table_ok ?db ?n ?fs sst" "map sst_entries (concat tiers') = map sst_entries (concat (le_tiers e))"
    by blast
  define e0 where "e0 = \<lparr>le_files = ?fs, le_db_path = ?db, le_flush_threshold_bytes = ft, le_tier_threshold = tt, le_manifest = dm,
    le_next_sstable_id = ?n, le_wal_enabled = True, le_next_wal_generation = 0, le_memtable_wal = None,
    le_active_memtable = MemTable, le_tiers = tiers', le_stop = False, le_compaction_running = False\<rparr>"
  have f0: "le_files e0 = AList.update (MemWALPath (le_db_path e0) ?g) (dm_file (lm_disk_manager lm)) ?fs2"
    "keys_of ?fs2 \<subseteq> Collect (plain_file (le_db_path e0))" "le_active_memtable e0 = MemTable"
    using fs plain by (auto simp: e0_def)
  have "int (length ([] :: log_record list)) \<le> INT64_MAX"
    by (simp add: INT64_MAX_def)
  from Recover_ok[OF f0(1,2) dk g f0(3) lm this, of env'] obtain mt wal where r:
    "LSM_RecoverMemWALOnStartup env' e0 = Inr (e0\<lparr>le_files := ?fs2, le_next_wal_generation := ?g + 1 + 1,
       le_memtable_wal := Some wal, le_active_memtable := mt\<rparr>)" "mt_inv mt" "map_of (mt_entries mt) = fold replay_record [] Map.empty"
    by blast
  define e' where "e' = e0\<lparr>le_files := ?fs2, le_next_wal_generation := ?g + 1 + 1, le_memtable_wal := Some wal, le_active_memtable := mt\<rparr>"
  have "LSMTreeEngine env' ?db ft tt True (LSM_disk e2) = Inr e'"
    using l(1) r(1) by (simp add: LSMTreeEngine_def e0_def e'_def)
  moreover have "le_tiers e' = tiers'" "le_active_memtable e' = mt"
    by (simp_all add: e'_def e0_def)
  moreover have "\<forall>sst\<in>set (concat tiers'). sst_inv sst"
    using l(2) table_ok_readable by blast
  ultimately show ?thesis
    using l(3) r(2,3) by (intro exI[of _ e']) (auto simp: readable_def)
qed

text \<open>
  C30. A flush removes the log of the memtable before the new table is in the manifest. If the process
  dies in between, the next start finds neither: every write since the previous flush is lost,
  although each was logged and forced to disk before it returned.
\<close>

theorem lsm_crash_window_loses_writes:
  assumes "lsm_inv env e" "le_wal_enabled e" "lsm_room e 1" "env_ok env'"
    "LSM_Flush_swap e = (Inr job, e1)" "LSM_Flush_build env job e1 = (Inr sst, e2)"
  shows "\<exists>e'. LSMTreeEngine env' (le_db_path e) ft tt True (LSM_disk e2) = Inr e' \<and>
    (\<forall>k. LSM_Get k e' = Inr (visible (first_hit (map sst_entries (concat (le_tiers e))) k)))"
proof -
  obtain img lm where e2: "lm_holds lm []"
    "e2 = e\<lparr>le_active_memtable := MemTable, le_next_wal_generation := le_next_wal_generation e + 1, le_memtable_wal := Some lm,
       le_next_sstable_id := le_next_sstable_id e + 1,
       le_files := AList.update (SSTablePath (le_db_path e) (le_next_sstable_id e)) img (le_files e)\<rparr>"
    by (rule flush_before_install[OF assms(1-3,5,6)])
  from reopen_before_install[OF assms(1-4) e2, of ft tt] obtain e' where
    "LSMTreeEngine env' (le_db_path e) ft tt True (LSM_disk e2) = Inr e'" "readable e'"
    "map sst_entries (concat (le_tiers e')) = map sst_entries (concat (le_tiers e))" "map_of (mt_entries (le_active_memtable e')) = Map.empty"
    by blast
  then show ?thesis
    using LSM_Get_ok[of e'] by (auto simp: lsm_map_def lsm_runs_def)
qed

theorem lsm_crash_window_loses_writes_witness:
  "\<exists>e job e1 sst e2 e'. lsm_inv demo_env e \<and> le_wal_enabled e \<and> LSM_Get 7 e = Inr (Some ''x'') \<and>
     LSM_Flush_swap e = (Inr job, e1) \<and> LSM_Flush_build demo_env job e1 = (Inr sst, e2) \<and>
     LSMTreeEngine demo_env ''db'' 1000 4 True (LSM_disk e2) = Inr e' \<and> LSM_Get 7 e' = Inr None"
proof -
  obtain e where e: "lsm_inv demo_env e" "lsm_room e 1" "le_wal_enabled e" "le_tiers e = []" "le_db_path e = ''db''" "lsm_map e 7 = Some ''x''"
    by (rule lsm_demo_run[of True]) simp
  have mem: "mem_inv demo_env [] e"
    using e(1) by (simp add: lsm_inv_def)
  have "length (mt_entries (le_active_memtable e)) < 2 ^ 30"
    using e(2) by (simp add: lsm_room_def lsm_runs_def)
  then obtain job e1 sst e2 where f: "LSM_Flush_swap e = (Inr job, e1)" "LSM_Flush_build demo_env job e1 = (Inr sst, e2)"
    by (rule Flush_build_ok[OF mem])
  have "LSM_Get 7 e = Inr (Some ''x'')"
    using LSM_Get_ok[OF mem_inv_readable[OF mem]] e(6) by simp
  moreover obtain e' where "LSMTreeEngine demo_env ''db'' 1000 4 True (LSM_disk e2) = Inr e'" "LSM_Get 7 e' = Inr None"
    using lsm_crash_window_loses_writes[OF e(1,3,2) demo_env_ok f, of 1000 4] e(4,5) by auto
  ultimately show ?thesis
    using e(1,3) f by blast
qed

end
