(* ===== verification/LSM_Storage.thy ===== *)
theory LSM_Storage
  imports LSM_Correct Storage_Engine
begin

text \<open>
  The LSM-tree engine as a \<open>StorageEngine\<close>: its methods behind the interface, and that they keep the
  interface's contract when no compaction is under way.
\<close>

definition LSM_StorageEngine :: "lsm_env \<Rightarrow> (lsm_engine, scan_iterator) StorageEngine" where
  "LSM_StorageEngine env =
     \<lparr>se_Get = (\<lambda>k e. (LSM_Get k e, e)), se_Put = LSM_Put env, se_Delete = LSM_Delete env,
      se_Scan = (\<lambda>k e. (LSM_Scan k e, e)), si_IsValid = LSMScan_IsValid, si_Next = (\<lambda>it e. (LSMScan_Next it, e)),
      si_GetKey = (\<lambda>it e. LSMScan_GetKey it), si_GetValue = (\<lambda>it e. LSMScan_GetValue it), si_destroy = (\<lambda>it e. e)\<rparr>"

definition lsm_iter_at :: "lsm_env \<Rightarrow> lsm_engine \<Rightarrow> scan_iterator \<Rightarrow> (KeyType \<times> string) list \<Rightarrow> bool" where
  "lsm_iter_at env e it out \<longleftrightarrow> lsm_inv env e \<and> (\<exists>es. scan_at it es \<and> out = shown es)"

lemma shown_cases:
  assumes "scan_at it es"
  shows "shown es = [] \<longleftrightarrow> es = []"
    "shown es = x # out \<Longrightarrow> \<exists>y ys. es = y # ys \<and> x = (fst y, lv_value (snd y)) \<and> out = shown ys"
  using assms by (cases es; force simp: scan_at_def shown_def)+

lemma lsm_inv_readable: "lsm_inv env e \<Longrightarrow> readable e"
  by (auto simp: lsm_inv_def intro: mem_inv_readable)

lemma first_hit_SomeD: "first_hit runs k = Some x \<Longrightarrow> \<exists>r \<in> set runs. (k, x) \<in> set r"
  by (induction runs) (auto split: option.splits dest: map_of_SomeD)

lemma lsm_map_fits:
  assumes "lsm_inv env e"
  shows "finite (dom (lsm_map e)) \<and> (\<forall>k v. lsm_map e k = Some v \<longrightarrow> is_int64 k \<and> length v \<le> MAX_VALUE_SIZE)"
proof -
  have fits: "\<forall>r \<in> set (lsm_runs e). \<forall>x \<in> set r. entry_fits x"
    using assms sst_inv_fits by (fastforce simp: lsm_inv_def mem_inv_def lsm_runs_def tables_ok_def table_ok_def)
  have hit: "\<exists>x. first_hit (lsm_runs e) k = Some x \<and> v = lv_value x" if "lsm_map e k = Some v" for k v
    using that by (auto simp: lsm_map_def visible_def split: option.splits if_splits)
  have "dom (lsm_map e) \<subseteq> fst ` (\<Union>r \<in> set (lsm_runs e). set r)"
    using hit first_hit_SomeD by (force simp: image_iff)
  then have "finite (dom (lsm_map e))"
    by (rule finite_subset) simp
  then show ?thesis
    using hit first_hit_SomeD fits by (fastforce simp: entry_fits_def)
qed

lemma lsm_wrote:
  assumes "wrote env [] k v e e'" "lsm_inv env e"
  shows "lsm_inv env e' \<and> lsm_map e' = (lsm_map e)(k := v) \<and> (\<forall>n. lsm_room e (Suc n) \<longrightarrow> lsm_room e' n)"
  using assms by (simp add: wrote_def lsm_inv_phase same_config_def)

lemma lsm_room_1: "lsm_room e (Suc n) \<Longrightarrow> lsm_room e 1"
  by (auto simp: lsm_room_def)

interpretation lsm: storage_engine "LSM_StorageEngine env" "lsm_inv env" lsm_map lsm_room "lsm_iter_at env" for env
proof (unfold_locales, goal_cases)
  case (1 e)
  then show ?case
    using lsm_map_fits by blast
next
  case (2 e n m)
  then show ?case
    by (auto simp: lsm_room_def)
next
  case (3 e k)
  then show ?case
    using LSM_Get_ok[OF lsm_inv_readable] by (simp add: LSM_StorageEngine_def)
next
  case (4 e n k v)
  have p: "phase_inv env [] e"
    using 4(1) by (simp add: lsm_inv_phase)
  obtain r e' where put: "LSM_Put env k v e = (r, e')"
    by fastforce
  show ?case
    using Put_ok[OF p lsm_room_1[OF 4(2)] 4(3,4) put] lsm_wrote[OF _ 4(1)] 4(2) put
    by (auto simp: LSM_StorageEngine_def capacity_error_def)
next
  case (5 e v k)
  then show ?case
    using Put_too_long[OF 5(2), of env k e] by (auto simp: LSM_StorageEngine_def)
next
  case (6 e n k)
  have p: "phase_inv env [] e"
    using 6(1) by (simp add: lsm_inv_phase)
  obtain r e' where del: "LSM_Delete env k e = (r, e')"
    by fastforce
  show ?case
    using Delete_ok[OF p lsm_room_1[OF 6(2)] 6(3) del] lsm_wrote[OF _ 6(1)] 6(2) del
    by (auto simp: LSM_StorageEngine_def capacity_error_def)
next
  case (7 e k)
  obtain it es where it: "LSM_Scan k e = Inr it" "scan_at it (dropWhile (\<lambda>e. lv_deleted (snd e)) es)" "asc es"
    "\<forall>k'. map_of es k' = (if k \<le> k' then first_hit (lsm_runs e) k' else None)"
    using LSM_Scan_ok[OF lsm_inv_readable[OF 7], of k] by blast
  have "lsm_iter_at env e it (shown es)"
    unfolding lsm_iter_at_def using 7 it(2) shown_dropWhile[of es] by metis
  then show ?case
    using it(1,4) asc_shown[OF it(3)] map_of_shown[OF it(3)]
    by (intro exI[of _ it] exI[of _ e] exI[of _ "shown es"]) (simp add: LSM_StorageEngine_def lsm_map_def)
next
  case (8 e it out)
  then obtain es where "scan_at it es" "out = shown es"
    by (auto simp: lsm_iter_at_def)
  then show ?case
    using scan_at_cases[of it es] shown_cases(1)[of it es] by (cases es) (auto simp: LSM_StorageEngine_def)
next
  case (9 e it x out)
  then obtain es where es: "scan_at it es" "shown es = x # out" "lsm_inv env e"
    by (auto simp: lsm_iter_at_def)
  then obtain y ys where y: "es = y # ys" "x = (fst y, lv_value (snd y))" "out = shown ys"
    using shown_cases(2) by blast
  from scan_at_cases(2)[OF es(1) y(1)] obtain it' where "LSMScan_GetKey it = fst y" "LSMScan_GetValue it = lv_value (snd y)"
    "LSMScan_Next it = Inr it'" "scan_at it' (dropWhile (\<lambda>e. lv_deleted (snd e)) ys)"
    by blast
  moreover from this have "lsm_iter_at env e it' out"
    unfolding lsm_iter_at_def using es(3) y(3) shown_dropWhile[of ys] by metis
  ultimately show ?case
    using y(2) by (auto simp: LSM_StorageEngine_def)
next
  case (10 e it out)
  then show ?case
    by (simp add: LSM_StorageEngine_def lsm_iter_at_def)
qed

end
