(* ===== verification/Sql_Correct.thy ===== *)
theory Sql_Correct
  imports Sql_Database LSM_Storage
begin

text \<open>
  SQL sessions: sequences of texts given to \<open>Execute\<close> with the answers it gave. A session over any
  engine that keeps the contract answers as the abstract tables do; the properties state this for a
  database on the LSM-tree engine, together with the two ways in which the front end departs from
  it, a primary key out of range in a point lookup and the wrap-around of table ids.
\<close>

section \<open>Sessions\<close>

text \<open>A session stops at a statement that exhausts a capacity of the engine.\<close>

inductive sql_session :: "('s, 'i) StorageEngine \<Rightarrow> 's Database \<Rightarrow> (string \<times> QueryResult result) list \<Rightarrow> 's Database \<Rightarrow> bool"
  for ops :: "('s, 'i) StorageEngine" where
  session_nil: "sql_session ops db [] db"
| session_step: "Database_Execute ops sql db = Some (r, db1) \<Longrightarrow> (\<forall>e. r = Inl e \<longrightarrow> \<not> capacity_error e) \<Longrightarrow>
    sql_session ops db1 h db2 \<Longrightarrow> sql_session ops db ((sql, r) # h) db2"

inductive_simps sql_session_simps [simp]: "sql_session ops db [] db'" "sql_session ops db (x # h) db'"

text \<open>
  The answers the abstract tables give. A text that does not parse changes nothing; the
  specification is binding up to the first statement that is out of range.
\<close>

fun spec_answers :: "(string \<times> QueryResult result) list \<Rightarrow> sql_state \<Rightarrow> bool" where
  "spec_answers [] st \<longleftrightarrow> True"
| "spec_answers ((sql, r) # h) st \<longleftrightarrow>
     (case Parser_Parse sql of
        Inl e \<Rightarrow> r = Inl e \<and> spec_answers h st
      | Inr stmt \<Rightarrow>
          in_range stmt st \<longrightarrow>
          (case spec_exec stmt st of
             None \<Rightarrow> (\<exists>msg. r = Inl (SqlException msg)) \<and> spec_answers h st
           | Some (q, st') \<Rightarrow> r = Inr q \<and> spec_answers h st'))"

context storage_engine
begin

lemma session_ok:
  assumes "sql_session ops db h db'" "db_inv inv amap db" "db_room amap room db (length h)"
  shows "spec_answers h (db_abs amap db)"
  using assms
proof (induction h arbitrary: db)
  case (Cons x h)
  obtain sql r where x: "x = (sql, r)"
    by fastforce
  obtain db1 where s: "Database_Execute ops sql db = Some (r, db1)" "\<forall>e. r = Inl e \<longrightarrow> \<not> capacity_error e" "sql_session ops db1 h db'"
    using Cons.prems(1) x by auto
  have room: "db_room amap room db (Suc (length h))"
    using Cons.prems(3) by simp
  show ?case
  proof (cases "Parser_Parse sql")
    case (Inl e)
    then show ?thesis
      using s Cons.IH[OF s(3)] Cons.prems(2) room_after[OF room] x by (simp add: Database_Execute_def)
  next
    case (Inr stmt)
    have ok: "stmt_ok stmt"
      using Parse_ok[of sql] Inr by simp
    show ?thesis
    proof (cases "in_range stmt (db_abs amap db)")
      case True
      have "answers (\<lambda>d. db_inv inv amap d \<and> db_room amap room d (length h)) (db_abs amap) stmt (db_abs amap db) (r, db1)"
        using Execute_answers[OF Cons.prems(2) room ok True] s(1) Inr by (simp add: Database_Execute_def)
      then show ?thesis
        using s(2) Cons.IH[OF s(3)] Inr True x by (auto simp: answers_def split: option.splits)
    qed (simp add: Inr x)
  qed
qed simp

lemma new_database: "inv e \<Longrightarrow> amap e = Map.empty \<Longrightarrow> db_inv inv amap (Database_new e) \<and> db_abs amap (Database_new e) = Map.empty"
  by (simp add: db_inv_def db_abs_def Database_new_def db_map_ok_def catalog_inv_init)
    (simp add: tables_abs_def Catalog_init_def fun_eq_iff)

end

section \<open>A database on the LSM-tree engine\<close>

text \<open>The LSM branch of \<open>MakeEngine\<close>, with the default arguments of the constructor.\<close>

definition Database_LSM :: "lsm_env \<Rightarrow> string \<Rightarrow> files \<Rightarrow> lsm_engine Database result" where
  "Database_LSM env db_path fs = and_then (LSMTreeEngine env db_path (2 ^ 20) 4 False fs) (\<lambda>e. Inr (Database_new e))"

lemma Database_LSM_fresh:
  assumes "env_ok env" "Database_LSM env db_path [] = Inr db"
  shows "db_inv (lsm_inv env) lsm_map db" "db_abs lsm_map db = Map.empty" "n < 2 ^ 29 \<Longrightarrow> db_room lsm_map lsm_room db n"
proof -
  obtain e where e: "LSMTreeEngine env db_path (2 ^ 20) 4 False [] = Inr e" "lsm_inv env e" "lsm_map e = Map.empty" "lsm_runs e = [[]]"
    "le_next_sstable_id e = 0" "le_next_wal_generation e \<le> 1" "empty_log e" "le_wal_enabled e = False"
    using LSMTreeEngine_fresh[OF assms(1)] by metis
  then have db: "db = Database_new e"
    using assms(2) by (simp add: Database_LSM_def)
  show "db_inv (lsm_inv env) lsm_map db" "db_abs lsm_map db = Map.empty"
    using lsm.new_database[OF e(2,3)] db by simp_all
  have "le_memtable_wal e = None"
    using e(2,8) by (simp add: lsm_inv_def mem_inv_def wal_ok_def)
  then show "db_room lsm_map lsm_room db n" if "n < 2 ^ 29"
    using that e by (simp add: db db_room_def Database_new_def lsm_room_def INT64_MAX_def)
qed

text \<open>A table created, a row inserted and the table read back.\<close>

definition session_create :: Statement where
  "session_create = CreateTableStmt ''t'' [\<lparr>ca_name = ''id'', ca_type = INTEGER\<rparr>]"

definition session_insert :: Statement where
  "session_insert = InsertStmt ''t'' [IntV 7]"

definition session_query :: Statement where
  "session_query = SelectStmt ''t'' True [] []"

lemma session_stmts_ok: "stmt_ok session_create" "stmt_ok session_insert" "stmt_ok session_query"
  by (simp_all add: session_create_def session_insert_def session_query_def stmt_ok_def column_ok_def value_ok_def is_ident_def
      starts_identifier_def continues_identifier_def isalnum_def isalpha_def islower_def less_eq_char_def is_int64_def
      INVALID_KEY_def INT64_MAX_def)

lemma session_texts:
  "Parser_Parse (stmt_text session_create) = Inr session_create" "Parser_Parse (stmt_text session_insert) = Inr session_insert"
  "Parser_Parse (stmt_text session_query) = Inr session_query"
  by (rule Parse_stmt_text, rule session_stmts_ok)+

lemmas lsm_exec = storage_engine.Execute_answers[OF lsm.storage_engine_axioms]
lemmas lsm_select = storage_engine.Select_answers[OF lsm.storage_engine_axioms]

text \<open>A statement whose execution is known not to exhaust a capacity.\<close>

lemma session_exec:
  assumes "db_inv (lsm_inv env) lsm_map db" "db_room lsm_map lsm_room db (Suc n)" "stmt_ok stmt" "in_range stmt (db_abs lsm_map db)"
    "spec_exec stmt (db_abs lsm_map db) = Some (q, st)"
    "\<forall>e. fst (the (Execute_statement (LSM_StorageEngine env) stmt db)) = Inl e \<longrightarrow> \<not> capacity_error e"
  obtains db' where "Execute_statement (LSM_StorageEngine env) stmt db = Some (Inr q, db')" "db_inv (lsm_inv env) lsm_map db'"
    "db_room lsm_map lsm_room db' n" "db_abs lsm_map db' = st"
proof -
  obtain r db' where x: "Execute_statement (LSM_StorageEngine env) stmt db = Some (r, db')"
    "answers (\<lambda>d. db_inv (lsm_inv env) lsm_map d \<and> db_room lsm_map lsm_room d n) (db_abs lsm_map) stmt (db_abs lsm_map db) (r, db')"
    using lsm_exec[OF assms(1-4)] by auto
  then show ?thesis
    using that[of db'] assms(5,6) by (auto simp: answers_def)
qed

lemma create_no_capacity: "\<forall>e. fst (ExecuteCreateTable name cols db) = Inl e \<longrightarrow> \<not> capacity_error e"
  by (auto simp: ExecuteCreateTable_def Catalog_CreateTable_def Let_def)

lemma insert_small:
  assumes db: "db_inv (lsm_inv env) lsm_map db" "db_room lsm_map lsm_room db (Suc n)"
    and small: "mt_approximate_size_bytes (le_active_memtable (db_engine db)) + 8 + MAX_VALUE_SIZE < le_flush_threshold_bytes (db_engine db)"
  shows "\<forall>e. fst (ExecuteInsert (LSM_StorageEngine env) name vals db) = Inl e \<longrightarrow> \<not> capacity_error e"
proof -
  have inv: "phase_inv env [] (db_engine db)" and room: "lsm_room (db_engine db) 1"
    using db lsm.room_mono[of "db_engine db" _ 1] by (auto simp: db_inv_def lsm_inv_phase db_room_def)
  have put: "\<exists>e'. LSM_Put env (EncodeKey t pk) payload (db_engine db) = (Inr (), e')" if "EncodeRow schema vals = Inr payload" for schema t pk payload
  proof -
    have l: "length payload \<le> MAX_VALUE_SIZE"
      using that by (auto simp: EncodeRow_def and_then_eq_Inr split: if_splits)
    then show ?thesis
      using Put_small[OF inv room EncodeKey_int64 l] small by simp
  qed
  show ?thesis
  proof (cases "map_of (cat_tables (db_catalog db)) name")
    case (Some schema)
    show ?thesis
    proof (cases "EncodeRow schema vals")
      case (Inl e)
      then show ?thesis
        using Some EncodeRow_errors[OF Inl]
        by (auto simp: ExecuteInsert_def Catalog_GetTable_def split: list.split Value.split)
    next
      case (Inr payload)
      obtain e' where "LSM_Put env (EncodeKey (ts_table_id schema) (case hd vals of IntV pk \<Rightarrow> pk | TextV _ \<Rightarrow> 0)) payload (db_engine db) = (Inr (), e')"
        using put[OF Inr] by blast
      then show ?thesis
        using Some Inr by (auto simp: ExecuteInsert_def Catalog_GetTable_def LSM_StorageEngine_def split: list.split Value.split)
    qed
  qed (simp add: ExecuteInsert_def Catalog_GetTable_def)
qed

text \<open>A table created, a row inserted, and the table read.\<close>

lemma session_demo:
  obtains db0 r1 r2 r3 db2 db where "Database_LSM demo_env ''db'' [] = Inr db0" "db_inv (lsm_inv demo_env) lsm_map db2"
    "db_room lsm_map lsm_room db2 (Suc 0)" "db_abs lsm_map db2 ''t'' = Some ([\<lparr>col_name = ''id'', col_type = INTEGER\<rparr>], [7 \<mapsto> [IntV 7]])"
    "sql_session (LSM_StorageEngine demo_env) db0
       [(stmt_text session_create, r1), (stmt_text session_insert, r2), (stmt_text session_query, r3)] db"
proof -
  obtain e where e: "LSMTreeEngine demo_env ''db'' (2 ^ 20) 4 False [] = Inr e" "le_flush_threshold_bytes e = 2 ^ 20" "le_active_memtable e = MemTable"
    using LSMTreeEngine_fresh[OF demo_env_ok, of "''db''" "2 ^ 20" 4 False] by metis
  define db0 where "db0 = Database_new e"
  have db0: "Database_LSM demo_env ''db'' [] = Inr db0"
    using e(1) by (simp add: Database_LSM_def db0_def)
  note f = Database_LSM_fresh[OF demo_env_ok db0]
  have room: "db_room lsm_map lsm_room db0 (Suc (Suc (Suc 0)))"
    by (rule f(3)) simp
  have small: "mt_approximate_size_bytes (le_active_memtable e) + 8 + MAX_VALUE_SIZE < le_flush_threshold_bytes e"
    by (simp add: e MemTable_def MAX_VALUE_SIZE_def)
  obtain q1 st1 where spec1: "in_range session_create Map.empty" "spec_exec session_create Map.empty = Some (q1, st1)"
    "st1 ''t'' = Some ([\<lparr>col_name = ''id'', col_type = INTEGER\<rparr>], Map.empty)"
    by (simp add: session_create_def in_range_def spec_exec_def key_consts ast_schema_def)
  obtain db1 where x1: "Execute_statement (LSM_StorageEngine demo_env) session_create db0 = Some (Inr q1, db1)"
    "db_inv (lsm_inv demo_env) lsm_map db1" "db_room lsm_map lsm_room db1 (Suc (Suc 0))" "db_abs lsm_map db1 = st1"
    by (rule session_exec[OF f(1) room session_stmts_ok(1)])
      (use spec1 f(2) create_no_capacity[of _ _ db0] in \<open>auto simp: Execute_statement_def session_create_def\<close>)
  have e1: "db_engine db1 = e"
    using x1(1) by (auto simp: Execute_statement_def session_create_def ExecuteCreateTable_def db0_def Database_new_def split: prod.splits sum.splits)
  obtain q2 st2 where spec2: "in_range session_insert st1" "spec_exec session_insert st1 = Some (q2, st2)"
    "st2 ''t'' = Some ([\<lparr>col_name = ''id'', col_type = INTEGER\<rparr>], [7 \<mapsto> [IntV 7]])"
    using spec1(3) by (simp add: session_insert_def in_range_def spec_exec_def row_insertable_def key_consts)
  obtain db2 where x2: "Execute_statement (LSM_StorageEngine demo_env) session_insert db1 = Some (Inr q2, db2)"
    "db_inv (lsm_inv demo_env) lsm_map db2" "db_room lsm_map lsm_room db2 (Suc 0)" "db_abs lsm_map db2 = st2"
    by (rule session_exec[OF x1(2,3) session_stmts_ok(2)])
      (use spec2 x1(4) insert_small[OF x1(2,3)] small e1 in \<open>auto simp: Execute_statement_def session_insert_def\<close>)
  have "in_range session_query st2"
    by (simp add: session_query_def in_range_def pk_literals_ok_def split: option.split)
  then obtain r3 db3 where x3: "Execute_statement (LSM_StorageEngine demo_env) session_query db2 = Some (r3, db3)"
    "\<forall>e. r3 = Inl e \<longrightarrow> \<not> capacity_error e"
    using lsm_select[OF x2(2,3)] x2(4) by (fastforce simp: Execute_statement_def session_query_def)
  show ?thesis
    by (rule that[OF db0 x2(2,3), of "Inr q1" "Inr q2" r3 db3]) (use x1(1) x2(1,4) spec2(3) x3 in \<open>simp_all add: Database_Execute_def session_texts\<close>)
qed

text \<open>
  C1. A SQL session is a refinement of an abstract database of tables: on a new database over the
  LSM-tree engine, whatever texts are executed, every answer is the one the specification gives,
  rows in the order of the primary key, rejected statements included, up to the first statement that
  compares the primary key for equality with a number that is no primary key or creates table 65537.
\<close>

theorem sql_refines_tables:
  assumes "env_ok env" "Database_LSM env db_path [] = Inr db0" "sql_session (LSM_StorageEngine env) db0 h db" "length h < 2 ^ 29"
  shows "spec_answers h Map.empty"
  using lsm.session_ok[OF assms(3) Database_LSM_fresh(1,3)[OF assms(1,2)]] assms(4) Database_LSM_fresh(2)[OF assms(1,2)] by simp

theorem sql_refines_tables_witness:
  "\<exists>db0 r1 r2 r3 db. Database_LSM demo_env ''db'' [] = Inr db0 \<and>
     sql_session (LSM_StorageEngine demo_env) db0
       [(stmt_text session_create, r1), (stmt_text session_insert, r2), (stmt_text session_query, r3)] db \<and>
     r2 = Inr (QueryResult_empty\<lparr>rows_affected := 1, message := ''INSERT 1''\<rparr>) \<and>
     r3 = Inr \<lparr>column_names = [''id''], rows = [[IntV 7]], rows_affected = 1, message = ''SELECT 1''\<rparr>"
proof -
  obtain db0 r1 r2 r3 db where d: "Database_LSM demo_env ''db'' [] = Inr db0"
    "sql_session (LSM_StorageEngine demo_env) db0
       [(stmt_text session_create, r1), (stmt_text session_insert, r2), (stmt_text session_query, r3)] db"
    by (rule session_demo)
  have one: "to_string 1 = ''1''"
    by code_simp
  have "spec_answers [(stmt_text session_create, r1), (stmt_text session_insert, r2), (stmt_text session_query, r3)] Map.empty"
    by (rule sql_refines_tables[OF demo_env_ok d]) simp
  then have "r2 = Inr (QueryResult_empty\<lparr>rows_affected := 1, message := ''INSERT 1''\<rparr>)"
    "r3 = Inr \<lparr>column_names = [''id''], rows = [[IntV 7]], rows_affected = 1, message = ''SELECT 1''\<rparr>"
    using session_texts unfolding session_create_def session_insert_def session_query_def
    by (simp_all add: in_range_def spec_exec_def key_consts ast_schema_def row_insertable_def spec_select_def where_valid_def where_rows_def pks_where_def projection_of_def pk_literals_ok_def one)
  then show ?thesis
    using d by blast
qed



section \<open>A point lookup outside of the key range\<close>

lemma DecodeRow_loop_acc: "DecodeRow_loop cols p off acc = and_then (DecodeRow_loop cols p off []) (\<lambda>r. Inr (acc @ r))"
proof (induction cols arbitrary: off acc)
  case (Cons c cols)
  show ?case
    using Cons[of _ "acc @ [v]" for v] Cons[of _ "[v]" for v]
    by (cases "col_type c") (auto simp: and_then_def split: sum.split)
qed simp

lemma DecodeRow_pk: "DecodeRow schema pk payload = Inr row \<Longrightarrow> DecodeRow schema v payload = Inr (IntV v # tl row)"
  unfolding DecodeRow_def
  by (subst (asm) DecodeRow_loop_acc, subst DecodeRow_loop_acc) (auto simp: and_then_eq_Inr)

text \<open>
  C31. The planner accepts any integer as the key of a point lookup, and the key encoding masks it: a
  query for the primary key \<open>v\<close> returns the row stored under \<open>v mod 2 ^ 48\<close>, with \<open>v\<close> as its primary key.
\<close>

theorem sql_point_lookup_masks_key:
  assumes inv: "lsm_inv env e" and stored: "rows_stored (lsm_map e) schema" "schema_ok schema"
    and row: "table_of (lsm_map e) schema (v mod 2 ^ 48) = Some row"
  shows "\<exists>plan. PlanQuery schema [\<lparr>cmp_column = col_name (hd (ts_columns schema)), cmp_op = EQ, cmp_literal = IntV v\<rparr>] = Inr plan \<and>
    (\<exists>e'. ExecuteFetch (LSM_StorageEngine env) schema plan e = Some (Inr [IntV v # tl row], e'))"
proof -
  let ?plan = "Plan_default\<lparr>access_path := POINT_LOOKUP, point_key := v, residual := []\<rparr>"
  obtain payload where p: "lsm_map e (EncodeKey (ts_table_id schema) (v mod 2 ^ 48)) = Some payload" "DecodeRow schema (v mod 2 ^ 48) payload = Inr row"
    using table_of_SomeD(5)[OF stored(1) row] by blast
  have k: "EncodeKey (ts_table_id schema) (v mod 2 ^ 48) = EncodeKey (ts_table_id schema) v"
    by (simp add: EncodeKey_eq)
  have "PlanQuery schema [\<lparr>cmp_column = col_name (hd (ts_columns schema)), cmp_op = EQ, cmp_literal = IntV v\<rparr>] = Inr ?plan"
    using stored(2) by (cases "ts_columns schema")
      (simp_all add: PlanQuery_def ValidateComparison_def ColumnIndex_def vec_at_def schema_ok_def get_int_def)
  moreover obtain e' where "se_Get (LSM_StorageEngine env) (EncodeKey (ts_table_id schema) v) e = (Inr (Some payload), e')"
    using lsm.Get_ok[OF inv] p(1) k by metis
  ultimately show ?thesis
    using DecodeRow_pk[OF p(2)] by (auto simp: ExecuteFetch_def)
qed

theorem sql_point_lookup_masks_key_witness:
  "\<exists>e schema plan e'. PlanQuery schema [\<lparr>cmp_column = ''id'', cmp_op = EQ, cmp_literal = IntV (2 ^ 48 + 7)\<rparr>] = Inr plan \<and>
     table_of (lsm_map e) schema 7 = Some [IntV 7] \<and>
     ExecuteFetch (LSM_StorageEngine demo_env) schema plan e = Some (Inr [[IntV (2 ^ 48 + 7)]], e')"
proof -
  obtain db where d: "db_inv (lsm_inv demo_env) lsm_map db"
    "db_abs lsm_map db ''t'' = Some ([\<lparr>col_name = ''id'', col_type = INTEGER\<rparr>], [7 \<mapsto> [IntV 7]])"
    by (rule session_demo)
  then obtain schema where s: "map_of (cat_tables (db_catalog db)) ''t'' = Some schema"
    "ts_columns schema = [\<lparr>col_name = ''id'', col_type = INTEGER\<rparr>]" "table_of (lsm_map (db_engine db)) schema = [7 \<mapsto> [IntV 7]]"
    by (auto simp: db_abs_def tables_abs_def)
  have m: "db_map_ok (db_catalog db) (lsm_map (db_engine db))" and inv: "lsm_inv demo_env (db_engine db)"
    using d(1) by (simp_all add: db_inv_def)
  have "table_of (lsm_map (db_engine db)) schema ((2 ^ 48 + 7) mod 2 ^ 48) = Some [IntV 7]"
    by (simp add: s)
  from sql_point_lookup_masks_key[OF inv db_schema(2,1)[OF m s(1)] this] s show ?thesis
    by (intro exI[of _ "db_engine db"] exI[of _ schema]) simp
qed

end
