(* ===== verification/Http_Server.thy ===== *)
theory Http_Server
  imports Http_Text Sql_Correct
begin

text \<open>
  The connection handling of \<^verbatim>\<open>src/src/http/http_server.cpp\<close> and the schema file of
  \<^verbatim>\<open>src/src/httpd_main.cpp\<close>. A socket is what the operating system gives for successive \<open>read\<close> and
  \<open>write\<close> calls, with the bytes sent so far. The properties say that the server is read-only whatever
  it is sent, and that a SELECT asked over HTTP comes back as the JSON of the specified answer.
\<close>

section \<open>Sockets\<close>

text \<open>
  The chunks successive reads deliver (none left, or an empty one, is end of file or an error) and
  for every write call how many bytes the system is ready to take.
\<close>

record socket =
  sock_in :: "string list"
  sock_accept :: "nat \<Rightarrow> int"
  sock_writes :: nat
  sock_out :: string

definition sock_read :: "nat \<Rightarrow> socket \<Rightarrow> string \<times> socket" where
  "sock_read n s =
     (case sock_in s of
        [] \<Rightarrow> ([], s)
      | c # cs \<Rightarrow> (take n c, s\<lparr>sock_in := (if length c > n then drop n c # cs else cs)\<rparr>))"

definition sock_write :: "string \<Rightarrow> socket \<Rightarrow> int \<times> socket" where
  "sock_write data s =
     (let n = min (sock_accept s (sock_writes s)) (int (length data))
      in (n, s\<lparr>sock_writes := sock_writes s + 1, sock_out := sock_out s @ take (nat n) data\<rparr>))"

section \<open>One connection\<close>

function ReadRequestHeaders_loop :: "string \<Rightarrow> socket \<Rightarrow> string \<times> socket" where
  "ReadRequestHeaders_loop buf s =
     (if find_str (crlf @ crlf) buf \<noteq> None then (buf, s)
      else let (chunk, s') = sock_read 4096 s
           in if chunk = [] then (buf, s')
              else if length (buf @ chunk) > 64 * 1024 then (buf @ chunk, s')
              else ReadRequestHeaders_loop (buf @ chunk) s')"
  by auto
termination
  by (relation "measure (\<lambda>(buf, s). 64 * 1024 + 1 - length buf)") (auto simp flip: length_greater_0_conv)

declare ReadRequestHeaders_loop.simps [simp del]

definition ReadRequestHeaders :: "socket \<Rightarrow> string \<times> socket" where
  "ReadRequestHeaders s = ReadRequestHeaders_loop [] s"

definition status_text :: "nat \<Rightarrow> string" where
  "status_text status =
     (if status = 200 then ''OK'' else if status = 400 then ''Bad Request'' else if status = 404 then ''Not Found''
      else if status = 405 then ''Method Not Allowed'' else ''Error'')"

definition http_response :: "nat \<Rightarrow> string \<Rightarrow> string \<Rightarrow> string" where
  "http_response status content_type body =
     ''HTTP/1.1 '' @ to_string (int status) @ '' '' @ status_text status @ crlf @
     ''Content-Type: '' @ content_type @ crlf @
     ''Content-Length: '' @ to_string (int (length body)) @ crlf @
     ''Connection: close'' @ crlf @ crlf @ body"

function WriteResponse_loop :: "string \<Rightarrow> socket \<Rightarrow> socket" where
  "WriteResponse_loop data s =
     (if data = [] then s
      else let (n, s') = sock_write data s
           in if n \<le> 0 then s' else WriteResponse_loop (drop (nat n) data) s')"
  by auto
termination
  by (relation "measure (\<lambda>(data, s). length data)") (auto simp: sock_write_def Let_def)

declare WriteResponse_loop.simps [simp del]

definition WriteResponse :: "nat \<Rightarrow> string \<Rightarrow> string \<Rightarrow> socket \<Rightarrow> socket" where
  "WriteResponse status content_type body s = WriteResponse_loop (http_response status content_type body) s"

text \<open>The text of an exception; undefined behaviour is no exception and is passed on.\<close>

definition what :: "db_error \<Rightarrow> string" where
  "what e =
     (case e of
        IOException m \<Rightarrow> m | InvalidArgument m \<Rightarrow> m | RuntimeError m \<Rightarrow> m | OutOfRange m \<Rightarrow> m | SqlException m \<Rightarrow> m
      | BadVariantAccess \<Rightarrow> ''std::get: wrong index for variant'' | UndefinedBehaviour m \<Rightarrow> m)"

definition is_exception :: "db_error \<Rightarrow> bool" where
  "is_exception e \<longleftrightarrow> (case e of UndefinedBehaviour _ \<Rightarrow> False | _ \<Rightarrow> True)"

definition json_type :: string where
  "json_type = ''application/json''"

definition Handle_exception :: "db_error \<Rightarrow> socket \<Rightarrow> 's Database \<Rightarrow> (unit result \<times> socket \<times> 's Database) option" where
  "Handle_exception e s db =
     (if is_exception e then Some (Inr (), WriteResponse 400 json_type (JsonError (what e)) s, db) else Some (Inl e, s, db))"

definition Handle_query :: "('s, 'i) StorageEngine \<Rightarrow> string \<Rightarrow> socket \<Rightarrow> 's Database \<Rightarrow> (unit result \<times> socket \<times> 's Database) option" where
  "Handle_query ops query s db =
     (let sql = GetQueryParam query ''sql''
      in if sql = [] then
           Some (Inr (), WriteResponse 400 json_type (JsonError (''missing '' @ quoted ''sql'' @ '' query parameter'')) s, db)
         else case Parser_Parse sql of
           Inl e \<Rightarrow> Handle_exception e s db
         | Inr (SelectStmt _ _ _ _) \<Rightarrow>
             (case Database_Execute ops sql db of
                None \<Rightarrow> None
              | Some (Inl e, db') \<Rightarrow> Handle_exception e s db'
              | Some (Inr r, db') \<Rightarrow> Some (Inr (), WriteResponse 200 json_type (QueryResultToJson r) s, db'))
         | Inr _ \<Rightarrow>
             Some (Inr (), WriteResponse 400 json_type (JsonError ''only SELECT statements are allowed (read-only API)'') s, db))"

definition HandleConnection :: "('s, 'i) StorageEngine \<Rightarrow> socket \<Rightarrow> 's Database \<Rightarrow> (unit result \<times> socket \<times> 's Database) option" where
  "HandleConnection ops sock db =
     (let (request, s) = ReadRequestHeaders sock; req = ParseRequestLine request
      in if rl_method req = [] then Some (Inr (), WriteResponse 400 json_type (JsonError ''malformed request'') s, db)
         else if rl_method req \<noteq> ''GET'' then Some (Inr (), WriteResponse 405 json_type (JsonError ''only GET is supported'') s, db)
         else if rl_path req = ''/health'' then Some (Inr (), WriteResponse 200 ''text/plain'' ''ok'' s, db)
         else if rl_path req = ''/query'' then Handle_query ops (rl_query req) s db
         else Some (Inr (), WriteResponse 404 json_type (JsonError ''not found'') s, db))"

section \<open>The server\<close>

record HttpServer =
  hs_listen_fd :: int
  hs_bound_port :: int
  hs_running :: bool

text \<open>The answers of the operating system to the calls of the constructor.\<close>

record os_sockets =
  os_socket :: int
  os_bind :: "int \<Rightarrow> 16 word \<Rightarrow> int"
  os_listen :: "int \<Rightarrow> int \<Rightarrow> int"
  os_getsockname :: "int \<Rightarrow> 16 word option"

text \<open>The server, or the exception, and the descriptors that were closed.\<close>

definition HttpServer_new :: "os_sockets \<Rightarrow> int \<Rightarrow> HttpServer result \<times> int list" where
  "HttpServer_new os port =
     (let fd = os_socket os
      in if fd < 0 then (Inl (RuntimeError ''HttpServer: socket() failed''), [])
         else if os_bind os fd (of_int port) < 0
         then (Inl (RuntimeError (''HttpServer: bind() failed on port '' @ to_string port)), [fd])
         else if os_listen os fd 16 < 0 then (Inl (RuntimeError ''HttpServer: listen() failed''), [fd])
         else (Inr \<lparr>hs_listen_fd = fd,
                    hs_bound_port = (case os_getsockname os fd of None \<Rightarrow> -1 | Some p \<Rightarrow> uint p),
                    hs_running = True\<rparr>, []))"

definition HttpServer_destroy :: "HttpServer \<Rightarrow> int list" where
  "HttpServer_destroy srv = (if 0 \<le> hs_listen_fd srv then [hs_listen_fd srv] else [])"




section \<open>The schema file\<close>

definition getline :: "string \<Rightarrow> (string \<times> string) option" where
  "getline inp =
     (if inp = [] then None
      else Some (takeWhile (\<lambda>c. c \<noteq> CHR 0x0A) inp, drop 1 (dropWhile (\<lambda>c. c \<noteq> CHR 0x0A) inp)))"

lemma getline_shorter: "getline inp = Some (l, rest) \<Longrightarrow> length rest < length inp"
  using length_dropWhile_le[of "\<lambda>c. c \<noteq> CHR 0x0A" inp]
  by (cases "inp = []") (auto simp: getline_def simp flip: length_greater_0_conv)

definition is_blank :: "char \<Rightarrow> bool" where
  "is_blank c \<longleftrightarrow> c = CHR '' '' \<or> c = CHR 0x09 \<or> c = CHR 0x0D"

function RunSchemaFile_loop ::
    "('s, 'i) StorageEngine \<Rightarrow> string \<Rightarrow> string \<Rightarrow> nat \<Rightarrow> 's Database \<Rightarrow> (unit result \<times> 's Database) option" where
  "RunSchemaFile_loop ops path inp line_no db =
     (case getline inp of
        None \<Rightarrow> Some (Inr (), db)
      | Some (line, rest) \<Rightarrow>
          (let start = dropWhile is_blank line
           in if start = [] \<or> take 2 start = ''--'' then RunSchemaFile_loop ops path rest (line_no + 1) db
              else case Database_Execute ops line db of
                None \<Rightarrow> None
              | Some (Inl e, db') \<Rightarrow>
                  Some (Inl (if is_exception e
                             then RuntimeError (''schema file '' @ quoted path @ '' line '' @ to_string (int line_no + 1) @ '': '' @ what e)
                             else e), db')
              | Some (Inr _, db') \<Rightarrow> RunSchemaFile_loop ops path rest (line_no + 1) db'))"
  by auto
termination
  by (relation "measure (\<lambda>(ops, path, inp, line_no, db). length inp)") (auto dest: getline_shorter)

declare RunSchemaFile_loop.simps [simp del]

definition RunSchemaFile ::
    "('s, 'i) StorageEngine \<Rightarrow> string \<Rightarrow> string option \<Rightarrow> 's Database \<Rightarrow> (unit result \<times> 's Database) option" where
  "RunSchemaFile ops path content db =
     (case content of
        None \<Rightarrow> Some (Inl (RuntimeError (''failed to open schema file: '' @ path)), db)
      | Some inp \<Rightarrow> RunSchemaFile_loop ops path inp 0 db)"

section \<open>A query changes nothing\<close>



lemma exception_simps [simp]: "is_exception (SqlException m)" "is_exception (OutOfRange m)"
  by (simp_all add: is_exception_def)


section \<open>Reading a request and writing a response\<close>

lemma find_str_SomeD: "find_str p s = Some n \<Longrightarrow> \<exists>a b. s = a @ p @ b"
proof (induction s arbitrary: n)
  case (Cons c s)
  show ?case
  proof (cases "prefix p (c # s)")
    case True
    then show ?thesis
      by (metis append_Nil prefix_def)
  next
    case False
    then obtain m where "find_str p s = Some m"
      using Cons.prems by auto
    then show ?thesis
      using Cons.IH by (metis append_Cons)
  qed
qed (simp split: if_splits)

lemma prefix_first_line:
  assumes "prefix buf (line @ crlf @ rest)" "CHR 0x0D \<notin> set line" "find_str (crlf @ crlf) buf \<noteq> None"
  shows "\<exists>rest'. buf = line @ crlf @ rest'"
proof -
  obtain a b where buf: "buf = a @ crlf @ crlf @ b"
    using assms(3) find_str_SomeD[of "crlf @ crlf" buf] by auto
  have l: "length line \<le> length a"
  proof (rule ccontr)
    assume "\<not> length line \<le> length a"
    then have "line ! length a = (line @ crlf @ rest) ! length a" "length a < length line"
      by (simp_all add: nth_append)
    moreover have "(line @ crlf @ rest) ! length a = CHR 0x0D"
    proof -
      obtain zs where "line @ crlf @ rest = a @ CHR 0x0D # CHR 0x0A # crlf @ b @ zs"
        using assms(1) buf by (auto simp: prefix_def crlf_def)
      then show ?thesis
        by (simp only: nth_append_length)
    qed
    ultimately show False
      using assms(2) nth_mem by metis
  qed
  obtain z where z: "line @ crlf @ rest = buf @ z"
    using assms(1) by (auto simp: prefix_def)
  have "length (line @ crlf) \<le> length buf"
    using l buf by (simp add: crlf_def)
  then have "take (length (line @ crlf)) buf = line @ crlf"
    using arg_cong[OF z, of "take (length (line @ crlf))"] by simp
  then show ?thesis
    by (metis append_assoc append_take_drop_id)
qed

definition chunks_ok :: "socket \<Rightarrow> bool" where
  "chunks_ok s \<longleftrightarrow> [] \<notin> set (sock_in s)"

lemma sock_read_cases:
  assumes "chunks_ok s"
  obtains "sock_in s = []" "sock_read 4096 s = ([], s)"
  | chunk s' where "sock_read 4096 s = (chunk, s')" "chunk \<noteq> []" "chunk @ concat (sock_in s') = concat (sock_in s)" "chunks_ok s'"
    "sock_accept s' = sock_accept s" "sock_out s' = sock_out s"
  using assms that by (cases "sock_in s") (auto simp: sock_read_def chunks_ok_def)

lemma ReadRequestHeaders_loop_line:
  assumes "buf @ concat (sock_in s) = line @ crlf @ rest" "CHR 0x0D \<notin> set line" "length (line @ crlf @ rest) \<le> 64 * 1024" "chunks_ok s"
  shows "\<exists>rest' s'. ReadRequestHeaders_loop buf s = (line @ crlf @ rest', s') \<and> sock_accept s' = sock_accept s \<and> sock_out s' = sock_out s"
  using assms
proof (induction buf s rule: ReadRequestHeaders_loop.induct)
  case (1 buf s)
  show ?case
  proof (cases "find_str (crlf @ crlf) buf")
    case (Some n)
    then have "\<exists>rest'. buf = line @ crlf @ rest'"
      using prefix_first_line[of buf line rest] 1(2,3) by (metis option.distinct(1) prefixI)
    then show ?thesis
      using Some by (subst ReadRequestHeaders_loop.simps) auto
  next
    case None
    show ?thesis
    proof (cases rule: sock_read_cases[OF 1(5)])
      case 1
      then show ?thesis
        using None "1.prems"(1) by (subst ReadRequestHeaders_loop.simps) auto
    next
      case (2 chunk s')
      have l: "\<not> length (buf @ chunk) > 64 * 1024"
        using arg_cong[OF 1(2), of length] 1(4) 2(3) by (auto dest: arg_cong[of _ _ length])
      have "(buf @ chunk) @ concat (sock_in s') = line @ crlf @ rest"
        using 2(3) 1(2) by simp
      from 1(1)[OF _ 2(1)[symmetric] refl 2(2) l this 1(3,4) 2(4)] show ?thesis
        using None 2 l by (subst ReadRequestHeaders_loop.simps) simp
    qed
  qed
qed

lemma WriteResponse_loop_all:
  "\<forall>i. 0 < sock_accept s i \<Longrightarrow> sock_out (WriteResponse_loop data s) = sock_out s @ data"
proof (induction data s rule: WriteResponse_loop.induct)
  case (1 data s)
  show ?case
  proof (cases "data = []")
    case False
    obtain n s' where w: "sock_write data s = (n, s')" "0 < n" "sock_out s' = sock_out s @ take (nat n) data" "sock_accept s' = sock_accept s"
      using 1(2) False by (auto simp: sock_write_def Let_def)
    then have "sock_out (WriteResponse_loop (drop (nat n) data) s') = sock_out s' @ drop (nat n) data"
      using 1(1)[OF False w(1)[symmetric] refl] 1(2) by simp
    then show ?thesis
      using False w by (subst WriteResponse_loop.simps) simp
  qed (simp add: WriteResponse_loop.simps)
qed

lemma WriteResponse_all:
  "\<forall>i. 0 < sock_accept s i \<Longrightarrow> sock_out s = [] \<Longrightarrow> sock_out (WriteResponse status ct body s) = http_response status ct body"
  by (simp add: WriteResponse_def WriteResponse_loop_all)

lemma Parse_empty: "\<not> is_ok (Parser_Parse [])"
  by code_simp

section \<open>The properties of the server\<close>


definition demo_socket :: "string \<Rightarrow> socket" where
  "demo_socket request = \<lparr>sock_in = [request], sock_accept = (\<lambda>i. 1000), sock_writes = 0, sock_out = []\<rparr>"


text \<open>
  C5. A SELECT asked over HTTP: the percent-encoded text of any well-formed query whose key literals
  are in range, delivered in any pieces, is answered with status 200 and a JSON text that reads back
  as the answer of the abstract tables, or with status 400 and a JSON error if they reject it.
\<close>

theorem http_query_round_trip:
  assumes db: "db_inv (lsm_inv env) lsm_map db" "db_room lsm_map lsm_room db (Suc n)"
    and stmt: "stmt = SelectStmt name star cols wh" "stmt_ok stmt" "in_range stmt (db_abs lsm_map db)"
    and sock: "concat (sock_in s) = http_request ''GET'' (request_target (stmt_text stmt)) headers" "chunks_ok s"
      "length (concat (sock_in s)) \<le> 64 * 1024" "\<forall>i. 0 < sock_accept s i" "sock_out s = []"
  shows "\<exists>s' db' body. HandleConnection (LSM_StorageEngine env) s db = Some (Inr (), s', db') \<and>
    (case spec_exec stmt (db_abs lsm_map db) of
       Some (q, _) \<Rightarrow> sock_out s' = http_response 200 json_type body \<and> json_read body = Some (result_json q)
     | None \<Rightarrow> sock_out s' = http_response 400 json_type body \<and> (\<exists>msg. json_read body = Some (JObject [(''error'', JString msg)])))"
proof -
  let ?line = "request_line ''GET'' (request_target (stmt_text stmt))"
  obtain rest s1 where s1: "ReadRequestHeaders s = (?line @ crlf @ rest, s1)" "sock_accept s1 = sock_accept s" "sock_out s1 = []"
    using ReadRequestHeaders_loop_line[of "[]" s ?line "headers @ crlf"] ParseRequestLine_query(2) sock
    by (auto simp: ReadRequestHeaders_def http_request_def)
  note w = WriteResponse_all[of s1, unfolded s1(2), OF sock(4) s1(3)]
  have parse: "Parser_Parse (stmt_text stmt) = Inr stmt"
    by (rule Parse_stmt_text[OF stmt(2)])
  then have ne: "stmt_text stmt \<noteq> []"
    using Parse_empty by (metis is_ok_simps(1))
  obtain r db' where x: "ExecuteSelect (LSM_StorageEngine env) name star cols wh db = Some (r, db')"
    "answers (\<lambda>d. db_inv (lsm_inv env) lsm_map d \<and> db_room lsm_map lsm_room d n) (db_abs lsm_map) stmt (db_abs lsm_map db) (r, db')"
    "\<forall>e. r = Inl e \<longrightarrow> \<not> capacity_error e"
    using lsm_select[OF db, of name star cols wh] stmt by auto
  then have handle: "HandleConnection (LSM_StorageEngine env) s db =
      (case r of Inl e \<Rightarrow> Handle_exception e s1 db' | Inr q \<Rightarrow> Some (Inr (), WriteResponse 200 json_type (QueryResultToJson q) s1, db'))"
    using s1 parse ne stmt(1) by (simp add: HandleConnection_def ParseRequestLine_query GetQueryParam_sql[simplified] Handle_query_def
        Database_Execute_def Execute_statement_def split: sum.split)
  show ?thesis
  proof (cases "spec_exec stmt (db_abs lsm_map db)")
    case None
    then obtain msg where "r = Inl (SqlException msg)"
      using x(2,3) by (auto simp: answers_def)
    then show ?thesis
      using None w by (intro exI[of _ "WriteResponse 400 json_type (JsonError msg) s1"] exI[of _ db'] exI[of _ "JsonError msg"])
        (simp add: handle Handle_exception_def what_def)
  next
    case (Some qs)
    then have "r = Inr (fst qs)"
      using x(2,3) by (auto simp: answers_def split: prod.splits)
    then show ?thesis
      using Some w by (intro exI[of _ "WriteResponse 200 json_type (QueryResultToJson (fst qs)) s1"] exI[of _ db'] exI[of _ "QueryResultToJson (fst qs)"])
        (simp add: handle split: prod.split)
  qed
qed

lemma demo_request_length: "length (http_request ''GET'' (request_target (stmt_text session_query)) []) \<le> 64 * 1024"
  by code_simp

theorem http_query_round_trip_witness:
  "\<exists>db s' db' body. HandleConnection (LSM_StorageEngine demo_env)
       (demo_socket (http_request ''GET'' (request_target (stmt_text session_query)) [])) db = Some (Inr (), s', db') \<and>
     sock_out s' = http_response 200 json_type body \<and>
     json_read body = Some (JObject [(''columns'', JArray [JString ''id'']), (''rows'', JArray [JArray [JInt 7]]),
       (''rows_affected'', JInt 1), (''message'', JString ''SELECT 1'')])"
proof -
  let ?s = "demo_socket (http_request ''GET'' (request_target (stmt_text session_query)) [])"
  obtain db where d: "db_inv (lsm_inv demo_env) lsm_map db" "db_room lsm_map lsm_room db (Suc 0)"
    "db_abs lsm_map db ''t'' = Some ([\<lparr>col_name = ''id'', col_type = INTEGER\<rparr>], [7 \<mapsto> [IntV 7]])"
    by (rule session_demo)
  have one: "to_string 1 = ''1''"
    by code_simp
  have q: "spec_exec session_query (db_abs lsm_map db) =
      Some (\<lparr>column_names = [''id''], rows = [[IntV 7]], rows_affected = 1, message = ''SELECT 1''\<rparr>, db_abs lsm_map db)"
    using d(3) by (simp add: session_query_def spec_exec_def spec_select_def where_valid_def where_rows_def pks_where_def projection_of_def one)
  have "in_range session_query (db_abs lsm_map db)"
    by (simp add: session_query_def in_range_def pk_literals_ok_def split: option.split)
  from http_query_round_trip[OF d(1,2) session_query_def session_stmts_ok(3) this, of ?s "[]"] show ?thesis
    using demo_request_length by (intro exI[of _ db]) (simp add: q demo_socket_def chunks_ok_def result_json_def value_json_def http_request_def crlf_def)
qed

end
