(* ===== verification/BPlus_Page.thy ===== *)
theory BPlus_Page
  imports Page_Codec
begin

text \<open>
  \<^verbatim>\<open>src/src/index/b_plus_tree_page.h\<close>, \<^verbatim>\<open>leaf_page.{h,cpp}\<close> and the parts of \<^verbatim>\<open>internal_page.{h,cpp}\<close> that
  touch only the node's own page. The classes are overlaid on the bytes of a page; a page is decoded
  into the record of the class, the method works on the record, and the record is encoded again. The
  arrays are kept whole, the slots past the size included, and indexing outside of them is undefined
  behaviour. The loops that shift entries are written as the code has them; the lemmas give the
  effect of every method on the list of live entries.
\<close>

section \<open>Layout\<close>

record BPlusTreePage =
  tp_page_type :: int
  tp_size :: int
  tp_max_size :: int
  tp_parent_page_id :: page_id_t

definition PageType_LEAF :: int where "PageType_LEAF = 1"

definition PageType_INTERNAL :: int where "PageType_INTERNAL = 2"

definition IsLeafPage :: "'a BPlusTreePage_scheme \<Rightarrow> bool" where
  "IsLeafPage pg \<longleftrightarrow> tp_page_type pg = PageType_LEAF"

definition GetMinSize :: "'a BPlusTreePage_scheme \<Rightarrow> int" where
  "GetMinSize pg = c_div (tp_max_size pg + 1) 2"

definition IsRootPage :: "'a BPlusTreePage_scheme \<Rightarrow> bool" where
  "IsRootPage pg \<longleftrightarrow> tp_parent_page_id pg = INVALID_PAGE_ID"

record Entry =
  en_key :: KeyType
  en_value_len :: nat
  en_value :: "byte list"

record LeafPage = BPlusTreePage +
  lp_next_page_id :: page_id_t
  lp_array :: "Entry list"

record InternalPage = BPlusTreePage +
  ip_array :: "(KeyType \<times> page_id_t) list"

definition sizeof_BPlusTreePage :: nat where "sizeof_BPlusTreePage = 24"

definition sizeof_Entry :: nat where "sizeof_Entry = 80"

definition sizeof_MappingType :: nat where "sizeof_MappingType = 16"

definition LeafPage_Capacity :: nat where
  "LeafPage_Capacity = (PAGE_SIZE - sizeof_BPlusTreePage - 8) div sizeof_Entry"

definition InternalPage_Capacity :: nat where
  "InternalPage_Capacity = (PAGE_SIZE - sizeof_BPlusTreePage) div sizeof_MappingType"

definition header_bytes :: "'a BPlusTreePage_scheme \<Rightarrow> byte list" where
  "header_bytes pg = le_bytes 4 (tp_page_type pg) @ le_bytes 4 (tp_size pg) @ le_bytes 4 (tp_max_size pg) @
     replicate 4 0 @ le_bytes 8 (tp_parent_page_id pg)"

definition header_of :: "byte list \<Rightarrow> BPlusTreePage" where
  "header_of bs = \<lparr>tp_page_type = le_sint (field 0 4 bs), tp_size = le_sint (field 4 4 bs),
     tp_max_size = le_sint (field 8 4 bs), tp_parent_page_id = le_sint (field 16 8 bs)\<rparr>"

definition entry_bytes :: "Entry \<Rightarrow> byte list" where
  "entry_bytes e = le_bytes 8 (en_key e) @ le_bytes 2 (int (en_value_len e)) @ en_value e @ replicate 6 0"

definition entry_of :: "byte list \<Rightarrow> Entry" where
  "entry_of bs = \<lparr>en_key = le_sint (field 0 8 bs), en_value_len = nat (le_uint (field 8 2 bs)), en_value = field 10 MAX_VALUE_SIZE bs\<rparr>"

definition leaf_bytes :: "LeafPage \<Rightarrow> byte list" where
  "leaf_bytes l = header_bytes l @ le_bytes 8 (lp_next_page_id l) @ concat (map entry_bytes (lp_array l)) @ replicate 64 0"

definition leaf_of :: "byte list \<Rightarrow> LeafPage" where
  "leaf_of bs = BPlusTreePage.extend (header_of bs)
     \<lparr>lp_next_page_id = le_sint (field 24 8 bs),
      lp_array = map (\<lambda>i. entry_of (field (32 + sizeof_Entry * i) sizeof_Entry bs)) [0..<LeafPage_Capacity]\<rparr>"

definition mapping_bytes :: "KeyType \<times> page_id_t \<Rightarrow> byte list" where
  "mapping_bytes m = le_bytes 8 (fst m) @ le_bytes 8 (snd m)"

definition mapping_of :: "byte list \<Rightarrow> KeyType \<times> page_id_t" where
  "mapping_of bs = (le_sint (field 0 8 bs), le_sint (field 8 8 bs))"

definition internal_bytes :: "InternalPage \<Rightarrow> byte list" where
  "internal_bytes n = header_bytes n @ concat (map mapping_bytes (ip_array n)) @ replicate 8 0"

definition internal_of :: "byte list \<Rightarrow> InternalPage" where
  "internal_of bs = BPlusTreePage.extend (header_of bs)
     \<lparr>ip_array = map (\<lambda>i. mapping_of (field (24 + sizeof_MappingType * i) sizeof_MappingType bs)) [0..<InternalPage_Capacity]\<rparr>"

text \<open>\<open>SetParentPageId\<close> through the common header, whatever the page is.\<close>

definition SetParentPageId :: "page_id_t \<Rightarrow> byte list \<Rightarrow> byte list" where
  "SetParentPageId parent bs = take 16 bs @ le_bytes 8 parent @ drop 24 bs"

section \<open>Loops over the arrays\<close>

text \<open>\<^verbatim>\<open>for (i = n; i > idx; --i) a[i] = a[i - 1]\<close> and \<^verbatim>\<open>for (i = idx; i < n - 1; ++i) a[i] = a[i + 1]\<close>.\<close>

fun shift_right :: "nat \<Rightarrow> nat \<Rightarrow> 'a list \<Rightarrow> 'a list" where
  "shift_right idx i a = (if idx < i then shift_right idx (i - 1) (a[i := a ! (i - 1)]) else a)"

function shift_left :: "nat \<Rightarrow> nat \<Rightarrow> 'a list \<Rightarrow> 'a list" where
  "shift_left i n a = (if i + 1 < n then shift_left (i + 1) n (a[i := a ! (i + 1)]) else a)"
  by auto
termination
  by (relation "measure (\<lambda>(i, n, a). n - i)") auto

text \<open>\<^verbatim>\<open>for (i = 0; i < count; ++i) dst[base + i] = src[start + i]\<close>.\<close>

fun copy_entries :: "nat \<Rightarrow> nat \<Rightarrow> nat \<Rightarrow> 'a list \<Rightarrow> 'a list \<Rightarrow> 'a list" where
  "copy_entries base start 0 src dst = dst"
| "copy_entries base start (Suc n) src dst = copy_entries (base + 1) (start + 1) n src (dst[base := src ! start])"

declare shift_right.simps [simp del] shift_left.simps [simp del]

section \<open>Leaf pages\<close>

abbreviation page_ub :: "'a result" where
  "page_ub \<equiv> Inl (UndefinedBehaviour ''array_ indexed out of range'')"

definition LeafPage_Init :: "page_id_t \<Rightarrow> int \<Rightarrow> LeafPage \<Rightarrow> LeafPage" where
  "LeafPage_Init parent max_size l =
     l\<lparr>tp_page_type := PageType_LEAF, tp_size := 0, tp_max_size := max_size, tp_parent_page_id := parent,
       lp_next_page_id := INVALID_PAGE_ID\<rparr>"

definition LeafPage_entry :: "LeafPage \<Rightarrow> int \<Rightarrow> Entry result" where
  "LeafPage_entry l i = (if 0 \<le> i \<and> nat i < length (lp_array l) then Inr (lp_array l ! nat i) else page_ub)"

definition LeafPage_KeyAt :: "LeafPage \<Rightarrow> int \<Rightarrow> KeyType result" where
  "LeafPage_KeyAt l i = map_sum id en_key (LeafPage_entry l i)"

definition entry_value :: "Entry \<Rightarrow> string" where
  "entry_value e = string_of (take (en_value_len e) (en_value e))"

definition LeafPage_ValueAt :: "LeafPage \<Rightarrow> int \<Rightarrow> string result" where
  "LeafPage_ValueAt l i = map_sum id entry_value (LeafPage_entry l i)"

definition leaf_live :: "LeafPage \<Rightarrow> Entry list" where
  "leaf_live l = take (nat (tp_size l)) (lp_array l)"

text \<open>\<open>std::lower_bound\<close> on the live entries, which are sorted: the entries before the key.\<close>

definition LeafPage_KeyIndex :: "KeyType \<Rightarrow> LeafPage \<Rightarrow> nat" where
  "LeafPage_KeyIndex key l = length (takeWhile (\<lambda>e. en_key e < key) (leaf_live l))"

definition leaf_has_key :: "KeyType \<Rightarrow> LeafPage \<Rightarrow> bool" where
  "leaf_has_key key l \<longleftrightarrow>
     (let idx = LeafPage_KeyIndex key l in int idx < tp_size l \<and> en_key (lp_array l ! idx) = key)"

definition LeafPage_Lookup :: "KeyType \<Rightarrow> LeafPage \<Rightarrow> string option" where
  "LeafPage_Lookup key l =
     (if leaf_has_key key l then Some (entry_value (lp_array l ! LeafPage_KeyIndex key l)) else None)"

text \<open>The assignments to the length and the first bytes of the value.\<close>

definition set_value :: "string \<Rightarrow> Entry \<Rightarrow> Entry" where
  "set_value v e = e\<lparr>en_value_len := length v, en_value := bytes_of v @ drop (length v) (en_value e)\<rparr>"

definition LeafPage_Insert :: "KeyType \<Rightarrow> string \<Rightarrow> LeafPage \<Rightarrow> (int \<times> LeafPage) result" where
  "LeafPage_Insert key v l =
     (if length v > MAX_VALUE_SIZE then Inl (InvalidArgument ''LeafPage::Insert: value exceeds MAX_VALUE_SIZE'')
      else let idx = LeafPage_KeyIndex key l
           in if leaf_has_key key l
              then Inr (tp_size l, l\<lparr>lp_array := (lp_array l)[idx := set_value v (lp_array l ! idx)]\<rparr>)
              else if \<not> (0 \<le> tp_size l \<and> nat (tp_size l) < length (lp_array l)) then page_ub
              else let a = shift_right idx (nat (tp_size l)) (lp_array l);
                       a = a[idx := set_value v ((a ! idx)\<lparr>en_key := key\<rparr>)]
                   in Inr (tp_size l + 1, l\<lparr>lp_array := a, tp_size := tp_size l + 1\<rparr>))"

definition LeafPage_Remove :: "KeyType \<Rightarrow> LeafPage \<Rightarrow> bool \<times> LeafPage" where
  "LeafPage_Remove key l =
     (if \<not> leaf_has_key key l then (False, l)
      else (True, l\<lparr>lp_array := shift_left (LeafPage_KeyIndex key l) (nat (tp_size l)) (lp_array l),
                    tp_size := tp_size l - 1\<rparr>))"

text \<open>The moves between two leaves return this leaf and the recipient.\<close>

definition LeafPage_MoveHalfTo :: "page_id_t \<Rightarrow> LeafPage \<Rightarrow> LeafPage \<Rightarrow> LeafPage \<times> LeafPage" where
  "LeafPage_MoveHalfTo rid l r =
     (let start = nat (tp_size l) div 2; count = nat (tp_size l) - start
      in (l\<lparr>tp_size := int start, lp_next_page_id := rid\<rparr>,
          r\<lparr>lp_array := copy_entries 0 start count (lp_array l) (lp_array r), tp_size := int count,
            lp_next_page_id := lp_next_page_id l\<rparr>))"

definition LeafPage_MoveAllTo :: "LeafPage \<Rightarrow> LeafPage \<Rightarrow> (LeafPage \<times> LeafPage) result" where
  "LeafPage_MoveAllTo l r =
     (if nat (tp_size r) + nat (tp_size l) > length (lp_array r) then page_ub
      else Inr (l\<lparr>tp_size := 0\<rparr>,
                r\<lparr>lp_array := copy_entries (nat (tp_size r)) 0 (nat (tp_size l)) (lp_array l) (lp_array r),
                  tp_size := tp_size r + tp_size l, lp_next_page_id := lp_next_page_id l\<rparr>))"

definition LeafPage_MoveFirstToEndOf :: "LeafPage \<Rightarrow> LeafPage \<Rightarrow> (LeafPage \<times> LeafPage) result" where
  "LeafPage_MoveFirstToEndOf l r =
     (if nat (tp_size r) \<ge> length (lp_array r) then page_ub
      else Inr (l\<lparr>lp_array := shift_left 0 (nat (tp_size l)) (lp_array l), tp_size := tp_size l - 1\<rparr>,
                r\<lparr>lp_array := (lp_array r)[nat (tp_size r) := lp_array l ! 0], tp_size := tp_size r + 1\<rparr>))"

definition LeafPage_MoveLastToFrontOf :: "LeafPage \<Rightarrow> LeafPage \<Rightarrow> (LeafPage \<times> LeafPage) result" where
  "LeafPage_MoveLastToFrontOf l r =
     (if tp_size l \<le> 0 \<or> nat (tp_size r) \<ge> length (lp_array r) then page_ub
      else Inr (l\<lparr>tp_size := tp_size l - 1\<rparr>,
                r\<lparr>lp_array := (shift_right 0 (nat (tp_size r)) (lp_array r))[0 := lp_array l ! nat (tp_size l - 1)],
                  tp_size := tp_size r + 1\<rparr>))"

section \<open>Internal pages\<close>

definition InternalPage_Init :: "page_id_t \<Rightarrow> int \<Rightarrow> InternalPage \<Rightarrow> InternalPage" where
  "InternalPage_Init parent max_size n =
     n\<lparr>tp_page_type := PageType_INTERNAL, tp_size := 0, tp_max_size := max_size, tp_parent_page_id := parent\<rparr>"

definition InternalPage_at :: "InternalPage \<Rightarrow> int \<Rightarrow> (KeyType \<times> page_id_t) result" where
  "InternalPage_at n i = (if 0 \<le> i \<and> nat i < length (ip_array n) then Inr (ip_array n ! nat i) else page_ub)"

definition InternalPage_KeyAt :: "InternalPage \<Rightarrow> int \<Rightarrow> KeyType result" where
  "InternalPage_KeyAt n i = map_sum id fst (InternalPage_at n i)"

definition InternalPage_ValueAt :: "InternalPage \<Rightarrow> int \<Rightarrow> page_id_t result" where
  "InternalPage_ValueAt n i = map_sum id snd (InternalPage_at n i)"

definition InternalPage_SetKeyAt :: "int \<Rightarrow> KeyType \<Rightarrow> InternalPage \<Rightarrow> InternalPage result" where
  "InternalPage_SetKeyAt i key n =
     (if 0 \<le> i \<and> nat i < length (ip_array n)
      then Inr (n\<lparr>ip_array := (ip_array n)[nat i := (key, snd (ip_array n ! nat i))]\<rparr>) else page_ub)"

definition internal_live :: "InternalPage \<Rightarrow> (KeyType \<times> page_id_t) list" where
  "internal_live n = take (nat (tp_size n)) (ip_array n)"

definition InternalPage_ValueIndex :: "page_id_t \<Rightarrow> InternalPage \<Rightarrow> int" where
  "InternalPage_ValueIndex p n =
     (let i = length (takeWhile (\<lambda>m. snd m \<noteq> p) (internal_live n))
      in if i < length (internal_live n) then int i else -1)"

text \<open>\<open>std::upper_bound\<close> from the second entry on, then one entry back.\<close>

definition InternalPage_Lookup :: "KeyType \<Rightarrow> InternalPage \<Rightarrow> page_id_t" where
  "InternalPage_Lookup key n =
     snd (ip_array n ! length (takeWhile (\<lambda>m. fst m \<le> key) (tl (internal_live n))))"

definition InternalPage_PopulateNewRoot :: "page_id_t \<Rightarrow> KeyType \<Rightarrow> page_id_t \<Rightarrow> InternalPage \<Rightarrow> InternalPage" where
  "InternalPage_PopulateNewRoot old_value new_key new_value n =
     n\<lparr>ip_array := (ip_array n)[0 := (fst (ip_array n ! 0), old_value), 1 := (new_key, new_value)], tp_size := 2\<rparr>"

definition InternalPage_InsertNodeAfter :: "page_id_t \<Rightarrow> KeyType \<Rightarrow> page_id_t \<Rightarrow> InternalPage \<Rightarrow> (int \<times> InternalPage) result" where
  "InternalPage_InsertNodeAfter old_value new_key new_value n =
     (if nat (tp_size n) \<ge> length (ip_array n) then page_ub
      else let idx = nat (InternalPage_ValueIndex old_value n + 1);
               a = shift_right idx (nat (tp_size n)) (ip_array n)
           in Inr (tp_size n + 1, n\<lparr>ip_array := a[idx := (new_key, new_value)], tp_size := tp_size n + 1\<rparr>))"

definition InternalPage_Remove :: "int \<Rightarrow> InternalPage \<Rightarrow> InternalPage" where
  "InternalPage_Remove i n =
     n\<lparr>ip_array := shift_left (nat i) (nat (tp_size n)) (ip_array n), tp_size := tp_size n - 1\<rparr>"

definition InternalPage_RemoveAndReturnOnlyChild :: "InternalPage \<Rightarrow> page_id_t \<times> InternalPage" where
  "InternalPage_RemoveAndReturnOnlyChild n = (snd (ip_array n ! 0), n\<lparr>tp_size := 0\<rparr>)"

text \<open>
  The moves between two internal pages, without the updates of the children's parent pointers: this
  page, the recipient and the children that moved, in the order in which they are updated.
\<close>

definition InternalPage_MoveHalfTo :: "InternalPage \<Rightarrow> InternalPage \<Rightarrow> InternalPage \<times> InternalPage \<times> page_id_t list" where
  "InternalPage_MoveHalfTo n r =
     (let start = nat (tp_size n) div 2; count = nat (tp_size n) - start
      in (n\<lparr>tp_size := int start\<rparr>,
          r\<lparr>ip_array := copy_entries 0 start count (ip_array n) (ip_array r), tp_size := int count\<rparr>,
          map snd (drop start (internal_live n))))"

definition InternalPage_MoveAllTo :: "KeyType \<Rightarrow> InternalPage \<Rightarrow> InternalPage \<Rightarrow> (InternalPage \<times> InternalPage \<times> page_id_t list) result" where
  "InternalPage_MoveAllTo middle_key n r =
     (if nat (tp_size r) + nat (tp_size n) > length (ip_array r) then page_ub
      else let a = (ip_array n)[0 := (middle_key, snd (ip_array n ! 0))]
           in Inr (n\<lparr>ip_array := a, tp_size := 0\<rparr>,
                   r\<lparr>ip_array := copy_entries (nat (tp_size r)) 0 (nat (tp_size n)) a (ip_array r), tp_size := tp_size r + tp_size n\<rparr>,
                   map snd (internal_live n)))"

definition InternalPage_MoveFirstToEndOf :: "KeyType \<Rightarrow> InternalPage \<Rightarrow> InternalPage \<Rightarrow> (InternalPage \<times> InternalPage \<times> page_id_t list) result" where
  "InternalPage_MoveFirstToEndOf middle_key n r =
     (if nat (tp_size r) \<ge> length (ip_array r) then page_ub
      else let first = ip_array n ! 0
           in Inr (n\<lparr>ip_array := shift_left 0 (nat (tp_size n)) (ip_array n), tp_size := tp_size n - 1\<rparr>,
                   r\<lparr>ip_array := (ip_array r)[nat (tp_size r) := (middle_key, snd first)], tp_size := tp_size r + 1\<rparr>,
                   [snd first]))"

definition InternalPage_MoveLastToFrontOf :: "KeyType \<Rightarrow> InternalPage \<Rightarrow> InternalPage \<Rightarrow> (InternalPage \<times> InternalPage \<times> page_id_t list) result" where
  "InternalPage_MoveLastToFrontOf middle_key n r =
     (if tp_size n \<le> 0 \<or> nat (tp_size r) \<ge> length (ip_array r) then page_ub
      else let last = ip_array n ! nat (tp_size n - 1);
               a = shift_right 0 (nat (tp_size r)) (ip_array r);
               a = a[0 := (fst (a ! 0), snd last)];
               a = a[1 := (middle_key, snd (a ! 1))]
           in Inr (n\<lparr>tp_size := tp_size n - 1\<rparr>, r\<lparr>ip_array := a, tp_size := tp_size r + 1\<rparr>, [snd last]))"

section \<open>The effect of the loops\<close>

lemma Capacity_simps [simp]: "LeafPage_Capacity = 50" "InternalPage_Capacity = 254"
  by (simp_all add: LeafPage_Capacity_def InternalPage_Capacity_def PAGE_SIZE_def sizeof_BPlusTreePage_def sizeof_Entry_def
      sizeof_MappingType_def)

lemma length_shift [simp]:
  "length (shift_right idx i a) = length a" "length (shift_left idx n a) = length a"
  "length (copy_entries b s n src a) = length a"
proof -
  show "length (shift_right idx i a) = length a"
    by (induction idx i a rule: shift_right.induct) (subst shift_right.simps, simp)
  show "length (shift_left idx n a) = length a"
    by (induction idx n a rule: shift_left.induct) (subst shift_left.simps, simp)
  show "length (copy_entries b s n src a) = length a"
    by (induction b s n src a rule: copy_entries.induct) simp_all
qed

lemma shift_right_nth:
  "i < length a \<Longrightarrow> idx \<le> i \<Longrightarrow> j < length a \<Longrightarrow>
    shift_right idx i a ! j = (if idx < j \<and> j \<le> i then a ! (j - 1) else a ! j)"
proof (induction idx i a rule: shift_right.induct)
  case (1 idx i a)
  show ?case
  proof (cases "idx < i")
    case True
    have "shift_right idx (i - 1) (a[i := a ! (i - 1)]) ! j =
        (if idx < j \<and> j \<le> i - 1 then a[i := a ! (i - 1)] ! (j - 1) else a[i := a ! (i - 1)] ! j)"
      using 1 True by (intro "1.IH") auto
    then show ?thesis
      using True "1.prems" by (subst shift_right.simps) (auto simp: nth_list_update)
  next
    case False
    then show ?thesis
      using "1.prems" by (subst shift_right.simps) auto
  qed
qed

lemma shift_left_nth:
  "n \<le> length a \<Longrightarrow> j < length a \<Longrightarrow>
    shift_left i n a ! j = (if i \<le> j \<and> j + 1 < n then a ! (j + 1) else a ! j)"
proof (induction i n a rule: shift_left.induct)
  case (1 i n a)
  show ?case
  proof (cases "i + 1 < n")
    case True
    have "shift_left (i + 1) n (a[i := a ! (i + 1)]) ! j =
        (if i + 1 \<le> j \<and> j + 1 < n then a[i := a ! (i + 1)] ! (j + 1) else a[i := a ! (i + 1)] ! j)"
      using 1 True by (intro "1.IH") auto
    then show ?thesis
      using True "1.prems" by (subst shift_left.simps) (auto simp: nth_list_update)
  next
    case False
    then show ?thesis
      using "1.prems" by (subst shift_left.simps) auto
  qed
qed

lemma copy_entries_nth:
  "b + n \<le> length a \<Longrightarrow> j < length a \<Longrightarrow>
    copy_entries b s n src a ! j = (if b \<le> j \<and> j < b + n then src ! (s + (j - b)) else a ! j)"
proof (induction b s n src a rule: copy_entries.induct)
  case (2 b s n src a)
  have "Suc (s + j - Suc b) = s + j - b" if "Suc b \<le> j"
    using that by simp
  with 2 show ?case
    by (auto simp: nth_list_update)
qed auto

text \<open>On the live prefix the loops insert, delete and append.\<close>

lemma insert_live:
  assumes "n < length a" "idx \<le> n"
  shows "take (Suc n) ((shift_right idx n a)[idx := x]) = take idx (take n a) @ x # drop idx (take n a)"
proof (rule nth_equalityI)
  fix i
  assume "i < length (take (Suc n) ((shift_right idx n a)[idx := x]))"
  then have i: "i < Suc n" "i < length a"
    by auto
  consider "i < idx" | "i = idx" | m where "i = Suc (idx + m)"
    by (metis less_imp_Suc_add linorder_neqE_nat)
  then show "take (Suc n) ((shift_right idx n a)[idx := x]) ! i = (take idx (take n a) @ x # drop idx (take n a)) ! i"
    using assms i by cases (auto simp: shift_right_nth nth_append min_def)
qed (use assms in simp)

lemma remove_live:
  assumes "n \<le> length a" "idx < n"
  shows "take (n - 1) (shift_left idx n a) = take idx (take n a) @ drop (Suc idx) (take n a)"
proof (rule nth_equalityI)
  fix i
  assume "i < length (take (n - 1) (shift_left idx n a))"
  then have i: "i < n - 1"
    by simp
  then show "take (n - 1) (shift_left idx n a) ! i = (take idx (take n a) @ drop (Suc idx) (take n a)) ! i"
    using assms by (auto simp: shift_left_nth nth_append min_def)
qed (use assms in simp)

lemma copy_live:
  assumes "b + n \<le> length a" "s + n \<le> length src"
  shows "take (b + n) (copy_entries b s n src a) = take b a @ take n (drop s src)"
  using assms by (intro nth_equalityI) (auto simp: copy_entries_nth nth_append)

lemma set_shift_right: "i < length a \<Longrightarrow> idx \<le> i \<Longrightarrow> set (shift_right idx i a) \<subseteq> set a"
  by (fastforce simp: set_conv_nth shift_right_nth)

lemma set_shift_left: "n \<le> length a \<Longrightarrow> set (shift_left i n a) \<subseteq> set a"
  by (fastforce simp: set_conv_nth shift_left_nth)

lemma set_copy_entries: "b + n \<le> length a \<Longrightarrow> s + n \<le> length src \<Longrightarrow> set (copy_entries b s n src a) \<subseteq> set a \<union> set src"
  by (fastforce simp: set_conv_nth copy_entries_nth)

section \<open>Encoded pages are read back\<close>

definition is_int32 :: "int \<Rightarrow> bool" where
  "is_int32 x \<longleftrightarrow> - (2 ^ 31) \<le> x \<and> x < 2 ^ 31"

definition header_enc :: "'a BPlusTreePage_scheme \<Rightarrow> bool" where
  "header_enc pg \<longleftrightarrow> is_int32 (tp_page_type pg) \<and> is_int32 (tp_size pg) \<and> is_int32 (tp_max_size pg) \<and> is_int64 (tp_parent_page_id pg)"

definition entry_enc :: "Entry \<Rightarrow> bool" where
  "entry_enc e \<longleftrightarrow> is_int64 (en_key e) \<and> en_value_len e < 65536 \<and> length (en_value e) = MAX_VALUE_SIZE"

definition leaf_enc :: "LeafPage \<Rightarrow> bool" where
  "leaf_enc l \<longleftrightarrow> header_enc l \<and> is_int64 (lp_next_page_id l) \<and> length (lp_array l) = LeafPage_Capacity \<and> (\<forall>e \<in> set (lp_array l). entry_enc e)"

definition internal_enc :: "InternalPage \<Rightarrow> bool" where
  "internal_enc n \<longleftrightarrow> header_enc n \<and> length (ip_array n) = InternalPage_Capacity \<and> (\<forall>m \<in> set (ip_array n). is_int64 (fst m) \<and> is_int64 (snd m))"

lemma le_sint_int32 [codec]: "is_int32 x \<Longrightarrow> le_sint (le_bytes 4 x) = x"
  by (rule le_sint_le_bytes) (auto simp: is_int32_def)

lemma le_uint_bound: "0 \<le> le_uint bs \<and> le_uint bs < 256 ^ length bs"
proof (induction bs)
  case (Cons b bs)
  have "0 \<le> uint b" "uint b < 256"
    using uint_lt2p[of b] by simp_all
  with Cons show ?case
    by simp
qed simp

lemma le_sint_bound: "- (256 ^ length bs) \<le> 2 * le_sint bs \<and> 2 * le_sint bs < 256 ^ length bs"
  using le_uint_bound[of bs] by (auto simp: le_sint_def Let_def)

lemma le_sint_8: "length bs = 8 \<Longrightarrow> is_int64 (le_sint bs)"
  using le_sint_bound[of bs] by (auto simp: is_int64_def INVALID_KEY_def INT64_MAX_def)

lemma length_header_bytes [simp]: "length (header_bytes pg) = 24"
  by (simp add: header_bytes_def)

lemma header_of_bytes:
  assumes "header_enc pg"
  shows "header_of (header_bytes pg @ rest) = BPlusTreePage.truncate pg"
  using assms by (simp add: header_of_def header_bytes_def header_enc_def codec BPlusTreePage.defs)

lemma length_entry_bytes: "entry_enc e \<Longrightarrow> length (entry_bytes e) = sizeof_Entry"
  by (simp add: entry_bytes_def entry_enc_def MAX_VALUE_SIZE_def sizeof_Entry_def)

lemma entry_of_bytes: "entry_enc e \<Longrightarrow> entry_of (entry_bytes e) = e"
  by (simp add: entry_of_def entry_bytes_def entry_enc_def codec MAX_VALUE_SIZE_def)

lemma length_mapping_bytes [simp]: "length (mapping_bytes m) = sizeof_MappingType"
  by (simp add: mapping_bytes_def sizeof_MappingType_def)

lemma mapping_of_bytes: "is_int64 (fst m) \<Longrightarrow> is_int64 (snd m) \<Longrightarrow> mapping_of (mapping_bytes m) = m"
  by (simp add: mapping_of_def mapping_bytes_def codec)

lemma length_leaf_bytes [simp]: "leaf_enc l \<Longrightarrow> length (leaf_bytes l) = PAGE_SIZE"
  using length_concat_map[of "lp_array l" entry_bytes sizeof_Entry] length_entry_bytes
  by (simp add: leaf_enc_def leaf_bytes_def PAGE_SIZE_def sizeof_Entry_def)

lemma length_internal_bytes [simp]: "internal_enc n \<Longrightarrow> length (internal_bytes n) = PAGE_SIZE"
  using length_concat_map[of "ip_array n" mapping_bytes sizeof_MappingType]
  by (simp add: internal_enc_def internal_bytes_def PAGE_SIZE_def sizeof_MappingType_def)

lemma leaf_of_bytes [simp]:
  assumes "leaf_enc l"
  shows "leaf_of (leaf_bytes l) = l"
proof -
  have "field (32 + sizeof_Entry * i) sizeof_Entry (leaf_bytes l) = entry_bytes (lp_array l ! i)" if "i < 50" for i
  proof -
    have "field (32 + sizeof_Entry * i) sizeof_Entry (leaf_bytes l) =
        field (sizeof_Entry * i) sizeof_Entry (concat (map entry_bytes (lp_array l)) @ replicate 64 0)"
      by (simp add: leaf_bytes_def field_def)
    also have "\<dots> = entry_bytes (lp_array l ! i)"
      using assms that length_entry_bytes by (intro field_concat) (auto simp: leaf_enc_def)
    finally show ?thesis .
  qed
  then have "map (\<lambda>i. entry_of (field (32 + sizeof_Entry * i) sizeof_Entry (leaf_bytes l))) [0..<50] = lp_array l"
    using assms by (intro nth_equalityI) (simp_all add: leaf_enc_def entry_of_bytes)
  moreover have "le_sint (field 24 8 (leaf_bytes l)) = lp_next_page_id l"
    using assms by (simp add: leaf_bytes_def leaf_enc_def codec)
  ultimately show ?thesis
    using assms header_of_bytes[of l] by (simp add: leaf_of_def leaf_bytes_def leaf_enc_def BPlusTreePage.defs)
qed

lemma internal_of_bytes [simp]:
  assumes "internal_enc n"
  shows "internal_of (internal_bytes n) = n"
proof -
  have "field (24 + sizeof_MappingType * i) sizeof_MappingType (internal_bytes n) = mapping_bytes (ip_array n ! i)" if "i < 254" for i
  proof -
    have "field (24 + sizeof_MappingType * i) sizeof_MappingType (internal_bytes n) =
        field (sizeof_MappingType * i) sizeof_MappingType (concat (map mapping_bytes (ip_array n)) @ replicate 8 0)"
      by (simp add: internal_bytes_def field_def)
    also have "\<dots> = mapping_bytes (ip_array n ! i)"
      using assms that by (intro field_concat) (auto simp: internal_enc_def)
    finally show ?thesis .
  qed
  then have "map (\<lambda>i. mapping_of (field (24 + sizeof_MappingType * i) sizeof_MappingType (internal_bytes n))) [0..<254] = ip_array n"
    using assms by (intro nth_equalityI) (simp_all add: internal_enc_def mapping_of_bytes)
  then show ?thesis
    using assms header_of_bytes[of n] by (simp add: internal_of_def internal_bytes_def internal_enc_def BPlusTreePage.defs)
qed

lemma header_of_page [simp]:
  "leaf_enc l \<Longrightarrow> header_of (leaf_bytes l) = BPlusTreePage.truncate l"
  "internal_enc n \<Longrightarrow> header_of (internal_bytes n) = BPlusTreePage.truncate n"
  by (simp_all add: leaf_bytes_def internal_bytes_def leaf_enc_def internal_enc_def header_of_bytes)

lemma SetParentPageId_page [simp]:
  "SetParentPageId p (leaf_bytes l) = leaf_bytes (l\<lparr>tp_parent_page_id := p\<rparr>)"
  "SetParentPageId p (internal_bytes n) = internal_bytes (n\<lparr>tp_parent_page_id := p\<rparr>)"
  by (simp_all add: SetParentPageId_def leaf_bytes_def internal_bytes_def header_bytes_def)

text \<open>Whatever the bytes of a page, the decoded arrays can be encoded again.\<close>

lemma leaf_of_any:
  assumes "length bs = PAGE_SIZE"
  shows "length (lp_array (leaf_of bs)) = LeafPage_Capacity" "\<forall>e \<in> set (lp_array (leaf_of bs)). entry_enc e"
proof -
  show "length (lp_array (leaf_of bs)) = LeafPage_Capacity"
    by (simp add: leaf_of_def BPlusTreePage.defs)
  have "entry_enc (entry_of b)" if "length b = sizeof_Entry" for b
    using that le_uint_bound[of "field 8 2 b"] le_sint_8[of "field 0 8 b"]
    by (simp add: entry_of_def entry_enc_def sizeof_Entry_def MAX_VALUE_SIZE_def nat_less_iff)
  then show "\<forall>e \<in> set (lp_array (leaf_of bs)). entry_enc e"
    using assms by (simp add: leaf_of_def BPlusTreePage.defs sizeof_Entry_def PAGE_SIZE_def)
qed

lemma internal_of_any:
  assumes "length bs = PAGE_SIZE"
  shows "length (ip_array (internal_of bs)) = InternalPage_Capacity" "\<forall>m \<in> set (ip_array (internal_of bs)). is_int64 (fst m) \<and> is_int64 (snd m)"
proof -
  show "length (ip_array (internal_of bs)) = InternalPage_Capacity"
    by (simp add: internal_of_def BPlusTreePage.defs)
  have "is_int64 (fst (mapping_of b)) \<and> is_int64 (snd (mapping_of b))" if "length b = sizeof_MappingType" for b
    using that by (simp add: mapping_of_def sizeof_MappingType_def le_sint_8)
  then show "\<forall>m \<in> set (ip_array (internal_of bs)). is_int64 (fst m) \<and> is_int64 (snd m)"
    using assms by (simp add: internal_of_def BPlusTreePage.defs sizeof_MappingType_def PAGE_SIZE_def)
qed

section \<open>Leaf pages as sorted lists of entries\<close>

definition leaf_ok :: "LeafPage \<Rightarrow> bool" where
  "leaf_ok l \<longleftrightarrow> leaf_enc l \<and> tp_page_type l = PageType_LEAF \<and> 0 \<le> tp_size l \<and> tp_size l \<le> int LeafPage_Capacity \<and>
     (\<forall>e \<in> set (leaf_live l). en_value_len e \<le> MAX_VALUE_SIZE)"

definition entry_kv :: "Entry \<Rightarrow> KeyType \<times> string" where
  "entry_kv e = (en_key e, entry_value e)"

definition leaf_kvs :: "LeafPage \<Rightarrow> (KeyType \<times> string) list" where
  "leaf_kvs l = map entry_kv (leaf_live l)"

abbreviation sorted_kvs :: "(KeyType \<times> 'a) list \<Rightarrow> bool" where
  "sorted_kvs kvs \<equiv> sorted_wrt (<) (map fst kvs)"

definition kv_put :: "KeyType \<Rightarrow> 'a \<Rightarrow> (KeyType \<times> 'a) list \<Rightarrow> (KeyType \<times> 'a) list" where
  "kv_put k v kvs = takeWhile (\<lambda>x. fst x < k) kvs @ (k, v) # dropWhile (\<lambda>x. fst x \<le> k) kvs"

definition kv_del :: "KeyType \<Rightarrow> (KeyType \<times> 'a) list \<Rightarrow> (KeyType \<times> 'a) list" where
  "kv_del k kvs = takeWhile (\<lambda>x. fst x < k) kvs @ dropWhile (\<lambda>x. fst x \<le> k) kvs"

text \<open>Where a key stands in a sorted list.\<close>

lemma sorted_position:
  fixes f :: "'a \<Rightarrow> KeyType"
  assumes "sorted_wrt (<) (map f xs)" and i: "i = length (takeWhile (\<lambda>x. f x < k) xs)"
  shows "take i xs = takeWhile (\<lambda>x. f x < k) xs" "i \<le> length xs"
    "i < length xs \<Longrightarrow> f (xs ! i) = k \<Longrightarrow> drop (Suc i) xs = dropWhile (\<lambda>x. f x \<le> k) xs"
    "\<not> (i < length xs \<and> f (xs ! i) = k) \<Longrightarrow> drop i xs = dropWhile (\<lambda>x. f x \<le> k) xs"
    "i < length xs \<and> f (xs ! i) = k \<longleftrightarrow> k \<in> f ` set xs"
proof -
  show "take i xs = takeWhile (\<lambda>x. f x < k) xs" "i \<le> length xs"
    using i by (simp_all add: takeWhile_eq_take[symmetric] length_takeWhile_le)
  have "(i < length xs \<and> f (xs ! i) = k \<longleftrightarrow> k \<in> f ` set xs) \<and>
      (i < length xs \<and> f (xs ! i) = k \<longrightarrow> drop (Suc i) xs = dropWhile (\<lambda>x. f x \<le> k) xs) \<and>
      (\<not> (i < length xs \<and> f (xs ! i) = k) \<longrightarrow> drop i xs = dropWhile (\<lambda>x. f x \<le> k) xs)"
    using assms
  proof (induction xs arbitrary: i)
    case (Cons x xs)
    show ?case
    proof (cases "f x < k")
      case True
      then show ?thesis
        using Cons by auto
    next
      case False
      have "dropWhile (\<lambda>x. f x \<le> k) xs = xs" if "f x = k"
        using Cons.prems(1) that by (cases xs) auto
      then show ?thesis
        using Cons.prems False by auto
    qed
  qed simp
  then show "i < length xs \<Longrightarrow> f (xs ! i) = k \<Longrightarrow> drop (Suc i) xs = dropWhile (\<lambda>x. f x \<le> k) xs"
    "\<not> (i < length xs \<and> f (xs ! i) = k) \<Longrightarrow> drop i xs = dropWhile (\<lambda>x. f x \<le> k) xs"
    "i < length xs \<and> f (xs ! i) = k \<longleftrightarrow> k \<in> f ` set xs"
    by blast+
qed

lemma entry_kv_simps [simp]: "fst (entry_kv e) = en_key e" "snd (entry_kv e) = entry_value e"
  by (simp_all add: entry_kv_def)

lemma fst_entry_kv: "fst \<circ> entry_kv = en_key"
  by (simp add: fun_eq_iff)

lemma leaf_kvs_keys [simp]: "map fst (leaf_kvs l) = map en_key (leaf_live l)"
  by (simp add: leaf_kvs_def fst_entry_kv)

lemma leaf_live_length: "leaf_ok l \<Longrightarrow> length (leaf_live l) = nat (tp_size l)"
  by (auto simp: leaf_live_def leaf_ok_def leaf_enc_def min_def)

lemma leaf_size: "leaf_ok l \<Longrightarrow> tp_size l = int (length (leaf_kvs l))"
  using leaf_live_length[of l] by (simp add: leaf_kvs_def leaf_ok_def)

lemma leaf_live_nth: "i < length (leaf_live l) \<Longrightarrow> lp_array l ! i = leaf_live l ! i"
  by (simp add: leaf_live_def)

lemma kv_while:
  "map entry_kv (takeWhile (\<lambda>e. en_key e < k) es) = takeWhile (\<lambda>x. fst x < k) (map entry_kv es)"
  "map entry_kv (dropWhile (\<lambda>e. en_key e \<le> k) es) = dropWhile (\<lambda>x. fst x \<le> k) (map entry_kv es)"
  by (induction es) simp_all

lemma leaf_has_key_iff:
  assumes "leaf_ok l"
  shows "leaf_has_key k l \<longleftrightarrow>
    (let i = LeafPage_KeyIndex k l in i < length (leaf_live l) \<and> en_key (leaf_live l ! i) = k)"
  using leaf_live_length[OF assms] leaf_live_nth[of _ l] assms
  by (auto simp: leaf_has_key_def Let_def leaf_ok_def)

lemma leaf_has_key_kvs:
  assumes "leaf_ok l" "sorted_kvs (leaf_kvs l)"
  shows "leaf_has_key k l \<longleftrightarrow> k \<in> fst ` set (leaf_kvs l)"
  using leaf_has_key_iff[OF assms(1)] sorted_position(5)[of en_key "leaf_live l", OF _ refl] assms(2)
  by (simp add: LeafPage_KeyIndex_def Let_def leaf_kvs_def image_image fst_entry_kv)

lemma LeafPage_Lookup_kvs:
  assumes "leaf_ok l" "sorted_kvs (leaf_kvs l)"
  shows "LeafPage_Lookup k l = map_of (leaf_kvs l) k"
proof (cases "leaf_has_key k l")
  case True
  let ?i = "LeafPage_KeyIndex k l"
  have i: "?i < length (leaf_live l)" "en_key (leaf_live l ! ?i) = k"
    using True leaf_has_key_iff[OF assms(1)] by (simp_all add: Let_def)
  then have "(k, entry_value (leaf_live l ! ?i)) \<in> set (leaf_kvs l)"
    by (force simp: leaf_kvs_def entry_kv_def)
  moreover have "distinct (map fst (leaf_kvs l))"
    using assms(2) by (simp add: strict_sorted_iff)
  ultimately show ?thesis
    using True i leaf_live_nth[OF i(1)] by (simp add: LeafPage_Lookup_def)
next
  case False
  then have "map_of (leaf_kvs l) k = None"
    using leaf_has_key_kvs[OF assms] by (simp add: map_of_eq_None_iff)
  then show ?thesis
    using False by (simp add: LeafPage_Lookup_def)
qed

text \<open>A leaf with other live entries, the rest of the page still encodable.\<close>

lemma leaf_okI:
  assumes "leaf_ok l" "length (lp_array l') = LeafPage_Capacity" "\<forall>e \<in> set (lp_array l'). entry_enc e"
    "tp_page_type l' = PageType_LEAF" "0 \<le> tp_size l'" "tp_size l' \<le> int LeafPage_Capacity" "tp_max_size l' = tp_max_size l"
    "is_int64 (tp_parent_page_id l')" "is_int64 (lp_next_page_id l')" "\<forall>e \<in> set (leaf_live l'). en_value_len e \<le> MAX_VALUE_SIZE"
  shows "leaf_ok l'"
  using assms by (auto simp: leaf_ok_def leaf_enc_def header_enc_def is_int32_def)

lemma leaf_ok_enc:
  assumes "leaf_ok l"
  shows "length (lp_array l) = 50" "\<forall>e \<in> set (lp_array l). entry_enc e" "tp_page_type l = PageType_LEAF" "0 \<le> tp_size l"
    "tp_size l \<le> 50" "is_int64 (tp_parent_page_id l)" "is_int64 (lp_next_page_id l)" "\<forall>e \<in> set (leaf_live l). en_value_len e \<le> MAX_VALUE_SIZE"
    "leaf_enc l"
  using assms by (auto simp: leaf_ok_def leaf_enc_def header_enc_def)

lemma set_value_simps:
  assumes "entry_enc e" "length v \<le> MAX_VALUE_SIZE"
  shows "entry_enc (set_value v e)" "en_value_len (set_value v e) \<le> MAX_VALUE_SIZE" "entry_kv (set_value v e) = (en_key e, v)"
  using assms by (simp_all add: set_value_def entry_enc_def entry_kv_def entry_value_def MAX_VALUE_SIZE_def)

lemma set_insert_live:
  "n < length a \<Longrightarrow> idx \<le> n \<Longrightarrow> set ((shift_right idx n a)[idx := x]) \<subseteq> insert x (set a)"
  using set_shift_right[of n a idx] set_update_subset_insert[of "shift_right idx n a" idx x] by blast

lemma LeafPage_Insert_ok:
  assumes l: "leaf_ok l" "sorted_kvs (leaf_kvs l)" "tp_size l < int LeafPage_Capacity" and v: "length v \<le> MAX_VALUE_SIZE" "is_int64 k"
  obtains l' where "LeafPage_Insert k v l = Inr (int (length (kv_put k v (leaf_kvs l))), l')" "leaf_ok l'"
    "leaf_kvs l' = kv_put k v (leaf_kvs l)" "tp_parent_page_id l' = tp_parent_page_id l" "lp_next_page_id l' = lp_next_page_id l"
    "tp_max_size l' = tp_max_size l"
proof -
  let ?i = "LeafPage_KeyIndex k l" and ?a = "lp_array l" and ?n = "nat (tp_size l)" and ?es = "leaf_live l"
  note e = leaf_ok_enc[OF l(1)] and len = leaf_live_length[OF l(1)]
  note pos = sorted_position[of en_key ?es ?i k, OF l(2)[unfolded leaf_kvs_keys] LeafPage_KeyIndex_def]
  have ent: "entry_enc (?a ! j)" if "j < 50" for j
    using e(1,2) that by simp
  have kv: "map entry_kv (takeWhile (\<lambda>e. en_key e < k) ?es) @ (k, v) # map entry_kv (dropWhile (\<lambda>e. en_key e \<le> k) ?es) = kv_put k v (leaf_kvs l)"
    by (simp add: kv_put_def leaf_kvs_def kv_while)
  show ?thesis
  proof (cases "leaf_has_key k l")
    case True
    then have i: "?i < length ?es" "en_key (?es ! ?i) = k"
      using leaf_has_key_iff[OF l(1)] by (simp_all add: Let_def)
    have sv: "entry_enc (set_value v (?a ! ?i))" "en_value_len (set_value v (?a ! ?i)) \<le> MAX_VALUE_SIZE" "entry_kv (set_value v (?a ! ?i)) = (k, v)"
      using set_value_simps[OF ent v(1), of ?i] i leaf_live_nth[OF i(1)] len e(5) by simp_all
    let ?l = "l\<lparr>lp_array := ?a[?i := set_value v (?a ! ?i)]\<rparr>"
    have live: "leaf_live ?l = ?es[?i := set_value v (?a ! ?i)]"
      by (simp add: leaf_live_def take_update_swap)
    have "leaf_ok ?l"
      by (rule leaf_okI[OF l(1)]) (use e sv live in \<open>auto dest!: set_update_subset_insert[THEN subsetD]\<close>)
    moreover have kvs: "leaf_kvs ?l = kv_put k v (leaf_kvs l)"
      using kv i pos(1,3) sv(3) live by (simp add: upd_conv_take_nth_drop leaf_kvs_def)
    moreover have "tp_size l = int (length (leaf_kvs ?l))"
      using leaf_size[OF \<open>leaf_ok ?l\<close>] by simp
    ultimately show ?thesis
      using True v that[of ?l] by (simp add: LeafPage_Insert_def Let_def)
  next
    case False
    then have i: "\<not> (?i < length ?es \<and> en_key (?es ! ?i) = k)"
      using leaf_has_key_iff[OF l(1)] by (simp add: Let_def)
    have n: "?n < 50" "?i \<le> ?n"
      using l(3) e(4) pos(2) len by simp_all
    define x where "x = set_value v ((shift_right ?i ?n ?a ! ?i)\<lparr>en_key := k\<rparr>)"
    have "entry_enc ((shift_right ?i ?n ?a ! ?i)\<lparr>en_key := k\<rparr>)"
      using ent[of ?i] n e(1) v(2) by (simp add: shift_right_nth entry_enc_def)
    from set_value_simps[OF this v(1)] have x: "entry_enc x" "en_value_len x \<le> MAX_VALUE_SIZE" "entry_kv x = (k, v)"
      by (simp_all add: x_def)
    let ?l = "l\<lparr>lp_array := (shift_right ?i ?n ?a)[?i := x], tp_size := tp_size l + 1\<rparr>"
    have live: "leaf_live ?l = take ?i ?es @ x # drop ?i ?es"
      using insert_live[of ?n ?a ?i x] n e by (simp add: leaf_live_def nat_add_distrib)
    have "leaf_ok ?l"
      by (rule leaf_okI[OF l(1)])
        (use e x live n set_insert_live[of ?n ?a ?i x] in \<open>auto dest: in_set_takeD in_set_dropD\<close>)
    moreover have kvs: "leaf_kvs ?l = kv_put k v (leaf_kvs l)"
      using kv pos(1) pos(4)[OF i] x(3) live by (simp add: leaf_kvs_def)
    ultimately show ?thesis
      using False v n e leaf_size[OF \<open>leaf_ok ?l\<close>] that[of ?l] by (simp add: LeafPage_Insert_def Let_def x_def)
  qed
qed

text \<open>A leaf page with given fields and live entries.\<close>

definition leaf_is :: "LeafPage \<Rightarrow> page_id_t \<Rightarrow> page_id_t \<Rightarrow> int \<Rightarrow> (KeyType \<times> string) list \<Rightarrow> bool" where
  "leaf_is l parent nxt mx kvs \<longleftrightarrow> leaf_ok l \<and> tp_parent_page_id l = parent \<and> lp_next_page_id l = nxt \<and>
     tp_max_size l = mx \<and> leaf_kvs l = kvs"

lemma leaf_isD:
  assumes "leaf_is l parent nxt mx kvs"
  shows "leaf_ok l" "tp_parent_page_id l = parent" "lp_next_page_id l = nxt" "tp_max_size l = mx" "leaf_kvs l = kvs"
    "tp_size l = int (length kvs)" "length kvs \<le> 50" "leaf_enc l" "IsLeafPage l"
  using assms leaf_size[of l] leaf_ok_enc[of l] by (auto simp: leaf_is_def IsLeafPage_def)

lemma leaf_is_Init:
  assumes "length bs = PAGE_SIZE" "is_int64 parent" "is_int32 mx"
  shows "leaf_is (LeafPage_Init parent mx (leaf_of bs)) parent INVALID_PAGE_ID mx []"
  using assms leaf_of_any[OF assms(1)]
  by (simp add: leaf_is_def LeafPage_Init_def leaf_ok_def leaf_enc_def header_enc_def is_int32_def PageType_LEAF_def
      leaf_live_def leaf_kvs_def is_int64_def INVALID_PAGE_ID_def INVALID_KEY_def INT64_MAX_def)

lemma leaf_is_Insert:
  assumes "leaf_is l parent nxt mx kvs" "sorted_kvs kvs" "length kvs < 50" "length v \<le> MAX_VALUE_SIZE" "is_int64 k"
  obtains l' where "LeafPage_Insert k v l = Inr (int (length (kv_put k v kvs)), l')" "leaf_is l' parent nxt mx (kv_put k v kvs)"
  using LeafPage_Insert_ok[of l v k] assms leaf_isD[OF assms(1)] by (auto simp: leaf_is_def)

lemma leaf_is_Lookup: "leaf_is l parent nxt mx kvs \<Longrightarrow> sorted_kvs kvs \<Longrightarrow> LeafPage_Lookup k l = map_of kvs k"
  using LeafPage_Lookup_kvs by (auto simp: leaf_is_def)

lemma leaf_is_Remove:
  assumes l: "leaf_is l parent nxt mx kvs" "sorted_kvs kvs"
  obtains "k \<notin> fst ` set kvs" "LeafPage_Remove k l = (False, l)"
  | l' where "k \<in> fst ` set kvs" "LeafPage_Remove k l = (True, l')" "leaf_is l' parent nxt mx (kv_del k kvs)"
proof (cases "leaf_has_key k l")
  case True
  let ?i = "LeafPage_KeyIndex k l" and ?a = "lp_array l" and ?n = "nat (tp_size l)" and ?es = "leaf_live l"
  note d = leaf_isD[OF l(1)] and e = leaf_ok_enc[OF leaf_isD(1)[OF l(1)]] and len = leaf_live_length[OF leaf_isD(1)[OF l(1)]]
  have "sorted_wrt (<) (map en_key ?es)"
    using l(2) d(5) leaf_kvs_keys[of l] by simp
  note pos = sorted_position[OF this LeafPage_KeyIndex_def]
  have i: "?i < length ?es" "en_key (?es ! ?i) = k"
    using True leaf_has_key_iff[OF d(1)] by (simp_all add: Let_def)
  let ?l = "l\<lparr>lp_array := shift_left ?i ?n ?a, tp_size := tp_size l - 1\<rparr>"
  have live: "leaf_live ?l = take ?i ?es @ drop (Suc ?i) ?es"
    using remove_live[of ?n ?a ?i] i len e by (simp add: leaf_live_def nat_diff_distrib)
  have n: "?n \<le> length ?a"
    using e by simp
  have "leaf_ok ?l"
    by (rule leaf_okI[OF d(1)])
      (use e live i len set_shift_left[OF n, of ?i] in \<open>auto dest: in_set_takeD in_set_dropD\<close>)
  moreover have "leaf_kvs ?l = kv_del k kvs"
    using d(5) live pos(1,3) i by (auto simp: leaf_kvs_def kv_del_def kv_while)
  ultimately show ?thesis
    using that(2)[of ?l] True leaf_has_key_kvs[OF d(1), of k] d l(2) by (simp add: LeafPage_Remove_def leaf_is_def)
next
  case False
  then show ?thesis
    using that(1) leaf_has_key_kvs[of l k] l leaf_isD(1,5)[OF l(1)] by (simp add: LeafPage_Remove_def)
qed

lemma leaf_live_size: "0 \<le> n \<Longrightarrow> leaf_live (l\<lparr>tp_size := n\<rparr>) = take (nat n) (lp_array l)"
  by (simp add: leaf_live_def)

lemma leaf_is_MoveHalfTo:
  assumes l: "leaf_is l parent nxt mx kvs" and r: "leaf_is r parent' nxt' mx' []" and rid: "is_int64 rid"
  obtains l' r' where "LeafPage_MoveHalfTo rid l r = (l', r')" "leaf_is l' parent rid mx (take (length kvs div 2) kvs)"
    "leaf_is r' parent' nxt mx' (drop (length kvs div 2) kvs)"
proof -
  note d = leaf_isD[OF l] and e = leaf_ok_enc[OF leaf_isD(1)[OF l]] and d' = leaf_isD[OF r] and e' = leaf_ok_enc[OF leaf_isD(1)[OF r]]
  let ?n = "length kvs" and ?s = "length kvs div 2"
  define l' r' where "l' = l\<lparr>tp_size := int ?s, lp_next_page_id := rid\<rparr>"
    and "r' = r\<lparr>lp_array := copy_entries 0 ?s (?n - ?s) (lp_array l) (lp_array r), tp_size := int (?n - ?s), lp_next_page_id := lp_next_page_id l\<rparr>"
  have ll: "leaf_live l' = take ?s (leaf_live l)"
    using d(6) by (simp add: l'_def leaf_live_def min_def)
  have "?s + (?n - ?s) \<le> length (lp_array l)" "0 + (?n - ?s) \<le> length (lp_array r)"
    using d(7) e(1) e'(1) by simp_all
  from copy_live[OF this(2,1)] have lr: "leaf_live r' = drop ?s (leaf_live l)"
    using d(6,7) e(1) by (simp add: r'_def leaf_live_def drop_take del: of_nat_diff)
  have "leaf_ok l'"
    by (rule leaf_okI[OF d(1)]) (use e ll rid d in \<open>auto simp: l'_def dest: in_set_takeD\<close>)
  moreover have "leaf_ok r'"
    by (rule leaf_okI[OF d'(1)])
      (use e e' lr d set_copy_entries[of 0 "?n - ?s" "lp_array r" ?s "lp_array l"] in \<open>auto simp: r'_def dest: in_set_dropD\<close>)
  ultimately have "leaf_is l' parent rid mx (take ?s kvs)" "leaf_is r' parent' nxt mx' (drop ?s kvs)"
    using d(2-5) d'(2-4) ll lr by (auto simp: leaf_is_def leaf_kvs_def l'_def r'_def take_map drop_map)
  moreover have "LeafPage_MoveHalfTo rid l r = (l', r')"
    using d(6) by (simp add: LeafPage_MoveHalfTo_def Let_def l'_def r'_def)
  ultimately show ?thesis
    using that by blast
qed

lemma leaf_is_MoveAllTo:
  assumes l: "leaf_is l parent nxt mx kvs" and r: "leaf_is r parent' nxt' mx' kvs'" and fit: "length kvs + length kvs' \<le> 50"
  obtains l' r' where "LeafPage_MoveAllTo l r = Inr (l', r')" "leaf_is l' parent nxt mx []" "leaf_is r' parent' nxt mx' (kvs' @ kvs)"
proof -
  note d = leaf_isD[OF l] and e = leaf_ok_enc[OF leaf_isD(1)[OF l]] and d' = leaf_isD[OF r] and e' = leaf_ok_enc[OF leaf_isD(1)[OF r]]
  let ?n = "length kvs" and ?b = "length kvs'"
  define l' r' where "l' = l\<lparr>tp_size := 0\<rparr>"
    and "r' = r\<lparr>lp_array := copy_entries ?b 0 ?n (lp_array l) (lp_array r), tp_size := int (?b + ?n), lp_next_page_id := lp_next_page_id l\<rparr>"
  have ll: "leaf_live l' = []"
    by (simp add: l'_def leaf_live_def)
  have b: "?b + ?n \<le> length (lp_array r)" "0 + ?n \<le> length (lp_array l)"
    using fit e(1) e'(1) by simp_all
  from copy_live[OF this] have lr: "leaf_live r' = leaf_live r @ leaf_live l"
    using d(6) d'(6) by (simp add: r'_def leaf_live_def del: of_nat_add)
  have "leaf_ok l'"
    by (rule leaf_okI[OF d(1)]) (use e ll in \<open>auto simp: l'_def\<close>)
  moreover have "leaf_ok r'"
    by (rule leaf_okI[OF d'(1)]) (use e e' lr fit set_copy_entries[OF b] in \<open>auto simp: r'_def\<close>)
  ultimately have "leaf_is l' parent nxt mx []" "leaf_is r' parent' nxt mx' (kvs' @ kvs)"
    using d(2-5) d'(2-5) ll lr by (auto simp: leaf_is_def leaf_kvs_def l'_def r'_def)
  moreover have "LeafPage_MoveAllTo l r = Inr (l', r')"
    using d(6) d'(6) b by (simp add: LeafPage_MoveAllTo_def l'_def r'_def)
  ultimately show ?thesis
    using that by blast
qed

lemma leaf_is_MoveFirstToEndOf:
  assumes l: "leaf_is l parent nxt mx (kv # kvs)" and r: "leaf_is r parent' nxt' mx' kvs'" and fit: "length kvs' < 50"
  obtains l' r' where "LeafPage_MoveFirstToEndOf l r = Inr (l', r')" "leaf_is l' parent nxt mx kvs" "leaf_is r' parent' nxt' mx' (kvs' @ [kv])"
proof -
  note d = leaf_isD[OF l] and e = leaf_ok_enc[OF leaf_isD(1)[OF l]] and d' = leaf_isD[OF r] and e' = leaf_ok_enc[OF leaf_isD(1)[OF r]]
  let ?n = "Suc (length kvs)" and ?b = "length kvs'"
  define l' r' where "l' = l\<lparr>lp_array := shift_left 0 ?n (lp_array l), tp_size := int (length kvs)\<rparr>"
    and "r' = r\<lparr>lp_array := (lp_array r)[?b := lp_array l ! 0], tp_size := int (Suc ?b)\<rparr>"
  have n: "?n \<le> length (lp_array l)" "?b < length (lp_array r)"
    using d(7) e(1) e'(1) fit by simp_all
  have sz: "nat (tp_size l) = ?n"
    using d(6) by simp
  have first: "lp_array l ! 0 = hd (leaf_live l)" "leaf_live l \<noteq> []"
    using sz n(1) by (cases "lp_array l"; auto simp: leaf_live_def)+
  have ll: "leaf_live l' = drop 1 (leaf_live l)"
    using remove_live[OF n(1), of 0] sz by (simp add: l'_def leaf_live_def)
  have lr: "leaf_live r' = leaf_live r @ [hd (leaf_live l)]"
    using d'(6) n(2) first by (simp add: r'_def leaf_live_def take_Suc_conv_app_nth del: of_nat_Suc)
  have hd: "entry_enc (hd (leaf_live l))" "en_value_len (hd (leaf_live l)) \<le> MAX_VALUE_SIZE"
    using e(2,8) first n(1) by (metis length_greater_0_conv less_le_trans nth_mem zero_less_Suc) (use e(8) first(2) in simp)
  have "leaf_ok l'"
    by (rule leaf_okI[OF d(1)]) (use e ll n d set_shift_left[OF n(1), of 0] in \<open>auto simp: l'_def dest: in_set_dropD\<close>)
  moreover have "leaf_ok r'"
    by (rule leaf_okI[OF d'(1)])
      (use e e' lr fit hd first set_update_subset_insert[of "lp_array r" ?b "lp_array l ! 0"] in \<open>auto simp: r'_def\<close>)
  moreover have "map entry_kv (leaf_live l) = kv # kvs"
    using d(5) by (simp add: leaf_kvs_def)
  ultimately have "leaf_is l' parent nxt mx kvs" "leaf_is r' parent' nxt' mx' (kvs' @ [kv])"
    using d(2-4) d'(2-5) ll lr by (auto simp: leaf_is_def leaf_kvs_def l'_def r'_def drop_map[symmetric])
  moreover have "LeafPage_MoveFirstToEndOf l r = Inr (l', r')"
    using d(6) d'(6) n sz by (simp add: LeafPage_MoveFirstToEndOf_def l'_def r'_def nat_add_distrib)
  ultimately show ?thesis
    using that by blast
qed

lemma leaf_is_MoveLastToFrontOf:
  assumes l: "leaf_is l parent nxt mx (kvs @ [kv])" and r: "leaf_is r parent' nxt' mx' kvs'" and fit: "length kvs' < 50"
  obtains l' r' where "LeafPage_MoveLastToFrontOf l r = Inr (l', r')" "leaf_is l' parent nxt mx kvs" "leaf_is r' parent' nxt' mx' (kv # kvs')"
proof -
  note d = leaf_isD[OF l] and e = leaf_ok_enc[OF leaf_isD(1)[OF l]] and d' = leaf_isD[OF r] and e' = leaf_ok_enc[OF leaf_isD(1)[OF r]]
  let ?n = "length kvs" and ?b = "length kvs'"
  define x where "x = lp_array l ! ?n"
  define l' r' where "l' = l\<lparr>tp_size := int ?n\<rparr>"
    and "r' = r\<lparr>lp_array := (shift_right 0 ?b (lp_array r))[0 := x], tp_size := int (Suc ?b)\<rparr>"
  have n: "?n < length (lp_array l)" "?b < length (lp_array r)"
    using d(7) e(1) e'(1) fit by simp_all
  have sz: "nat (tp_size l) = Suc ?n"
    using d(6) by simp
  have live: "leaf_live l = leaf_live l' @ [x]"
    using n(1) sz by (simp add: leaf_live_def l'_def x_def take_Suc_conv_app_nth)
  have lr: "leaf_live r' = x # leaf_live r"
    using insert_live[OF n(2), of 0 x] d'(6) by (simp add: r'_def leaf_live_def del: of_nat_Suc)
  have x: "entry_enc x" "en_value_len x \<le> MAX_VALUE_SIZE"
    using e(2,8) n(1) live by (simp_all add: x_def)
  have "leaf_ok l'"
    by (rule leaf_okI[OF d(1)]) (use e live n d in \<open>auto simp: l'_def\<close>)
  moreover have "leaf_ok r'"
    by (rule leaf_okI[OF d'(1)]) (use e' lr fit x set_insert_live[OF n(2), of 0 x] in \<open>auto simp: r'_def\<close>)
  moreover have "map entry_kv (leaf_live l') = kvs" "entry_kv x = kv"
    using d(5) live by (simp_all add: leaf_kvs_def)
  ultimately have "leaf_is l' parent nxt mx kvs" "leaf_is r' parent' nxt' mx' (kv # kvs')"
    using d(2-4) d'(2-5) lr by (auto simp: leaf_is_def leaf_kvs_def l'_def r'_def)
  moreover have "LeafPage_MoveLastToFrontOf l r = Inr (l', r')"
    using d(6) d'(6) n by (simp add: LeafPage_MoveLastToFrontOf_def l'_def r'_def x_def)
  ultimately show ?thesis
    using that by blast
qed

lemma leaf_is_parent: "leaf_is l parent nxt mx kvs \<Longrightarrow> is_int64 parent' \<Longrightarrow> leaf_is (l\<lparr>tp_parent_page_id := parent'\<rparr>) parent' nxt mx kvs"
  by (auto simp: leaf_is_def leaf_ok_def leaf_enc_def header_enc_def leaf_live_def leaf_kvs_def)

section \<open>Internal pages as lists of children\<close>

definition internal_ok :: "InternalPage \<Rightarrow> bool" where
  "internal_ok n \<longleftrightarrow> internal_enc n \<and> tp_page_type n = PageType_INTERNAL \<and> 0 \<le> tp_size n \<and> tp_size n \<le> int InternalPage_Capacity"

definition internal_is :: "InternalPage \<Rightarrow> page_id_t \<Rightarrow> int \<Rightarrow> (KeyType \<times> page_id_t) list \<Rightarrow> bool" where
  "internal_is n parent mx es \<longleftrightarrow> internal_ok n \<and> tp_parent_page_id n = parent \<and> tp_max_size n = mx \<and> internal_live n = es"

lemma internal_ok_enc:
  assumes "internal_ok n"
  shows "length (ip_array n) = 254" "\<forall>m \<in> set (ip_array n). is_int64 (fst m) \<and> is_int64 (snd m)" "tp_page_type n = PageType_INTERNAL"
    "0 \<le> tp_size n" "tp_size n \<le> 254" "is_int64 (tp_parent_page_id n)" "internal_enc n" "length (internal_live n) = nat (tp_size n)"
  using assms by (auto simp: internal_ok_def internal_enc_def header_enc_def internal_live_def min_def)

lemma internal_isD:
  assumes "internal_is n parent mx es"
  shows "internal_ok n" "tp_parent_page_id n = parent" "tp_max_size n = mx" "internal_live n = es" "tp_size n = int (length es)"
    "length es \<le> 254" "internal_enc n" "\<not> IsLeafPage n" "length (ip_array n) = 254" "take (length es) (ip_array n) = es"
    "i < length es \<Longrightarrow> ip_array n ! i = es ! i"
  using assms internal_ok_enc[of n]
  by (auto simp: internal_is_def IsLeafPage_def PageType_INTERNAL_def PageType_LEAF_def internal_live_def)

lemma internal_isI:
  assumes "internal_ok n" "length (ip_array n') = 254" "\<forall>m \<in> set (ip_array n'). is_int64 (fst m) \<and> is_int64 (snd m)"
    "tp_page_type n' = PageType_INTERNAL" "tp_size n' = int (length es)" "length es \<le> 254" "tp_max_size n' = tp_max_size n"
    "is_int64 (tp_parent_page_id n')" "take (length es) (ip_array n') = es"
  shows "internal_is n' (tp_parent_page_id n') (tp_max_size n) es"
  using assms by (auto simp: internal_is_def internal_ok_def internal_enc_def header_enc_def is_int32_def internal_live_def)

lemma internal_is_Init:
  assumes "length bs = PAGE_SIZE" "is_int64 parent" "is_int32 mx"
  shows "internal_is (InternalPage_Init parent mx (internal_of bs)) parent mx []"
  using assms internal_of_any[OF assms(1)]
  by (simp add: internal_is_def InternalPage_Init_def internal_ok_def internal_enc_def header_enc_def is_int32_def
      PageType_INTERNAL_def internal_live_def)

lemma internal_is_parent: "internal_is n parent mx es \<Longrightarrow> is_int64 parent' \<Longrightarrow> internal_is (n\<lparr>tp_parent_page_id := parent'\<rparr>) parent' mx es"
  by (auto simp: internal_is_def internal_ok_def internal_enc_def header_enc_def internal_live_def)

lemma internal_is_int64: "internal_is n parent mx es \<Longrightarrow> x \<in> set es \<Longrightarrow> is_int64 (fst x) \<and> is_int64 (snd x)"
  using internal_ok_enc(2)[of n] by (auto simp: internal_is_def internal_live_def dest!: in_set_takeD)

lemma internal_is_at: "internal_is n parent mx es \<Longrightarrow> i < length es \<Longrightarrow> InternalPage_at n (int i) = Inr (es ! i)"
  using internal_isD[of n parent mx es] by (simp add: InternalPage_at_def)

lemma internal_is_ValueIndex:
  assumes "internal_is n parent mx (es @ (k, p) # es')" "p \<notin> snd ` set es"
  shows "InternalPage_ValueIndex p n = int (length es)"
proof -
  have "takeWhile (\<lambda>m. snd m \<noteq> p) (es @ (k, p) # es') = es"
    using assms(2) by (induction es) auto
  then show ?thesis
    using internal_isD(4)[OF assms(1)] by (simp add: InternalPage_ValueIndex_def)
qed

lemma internal_is_Lookup:
  assumes "internal_is n parent mx es" "es \<noteq> []"
  shows "InternalPage_Lookup k n = snd (es ! length (takeWhile (\<lambda>m. fst m \<le> k) (tl es)))"
proof -
  have "length (takeWhile (\<lambda>m. fst m \<le> k) (tl es)) < length es"
    using assms(2) length_takeWhile_le[of "\<lambda>m. fst m \<le> k" "tl es"] by (cases es) auto
  then show ?thesis
    using internal_isD(4,11)[OF assms(1)] by (simp add: InternalPage_Lookup_def)
qed

lemma internal_is_PopulateNewRoot:
  assumes "internal_is n parent mx []" "is_int64 p" "is_int64 k" "is_int64 q"
  obtains k0 n' where "InternalPage_PopulateNewRoot p k q n = n'" "internal_is n' parent mx [(k0, p), (k, q)]"
proof -
  note d = internal_isD[OF assms(1)] and e = internal_ok_enc[OF internal_isD(1)[OF assms(1)]]
  let ?n = "InternalPage_PopulateNewRoot p k q n"
  have "is_int64 (fst (ip_array n ! 0))"
    using e(1,2) by simp
  then have s: "\<forall>m \<in> set (ip_array ?n). is_int64 (fst m) \<and> is_int64 (snd m)"
    using assms e(2) by (auto simp: InternalPage_PopulateNewRoot_def dest!: set_update_subset_insert[THEN subsetD])
  obtain a0 a1 a where a: "ip_array n = a0 # a1 # a"
    using e(1) by (cases "ip_array n"; cases "tl (ip_array n)") auto
  have "internal_is ?n (tp_parent_page_id ?n) (tp_max_size n) [(fst a0, p), (k, q)]"
    by (rule internal_isI[OF d(1)]) (use d e s a in \<open>simp_all add: InternalPage_PopulateNewRoot_def\<close>)
  then show ?thesis
    using that[OF refl] d(2,3) by (simp add: InternalPage_PopulateNewRoot_def)
qed

lemma internal_is_InsertNodeAfter:
  assumes n: "internal_is n parent mx (es @ (k, p) # es')" "p \<notin> snd ` set es" "length (es @ (k, p) # es') < 254" "is_int64 k'" "is_int64 p'"
  obtains n' where "InternalPage_InsertNodeAfter p k' p' n = Inr (int (length es + length es' + 2), n')"
    "internal_is n' parent mx (es @ (k, p) # (k', p') # es')"
proof -
  note d = internal_isD[OF n(1)] and e = internal_ok_enc[OF internal_isD(1)[OF n(1)]]
  let ?i = "Suc (length es)" and ?n = "length (es @ (k, p) # es')" and ?a = "ip_array n"
  define n' where "n' = n\<lparr>ip_array := (shift_right ?i ?n ?a)[?i := (k', p')], tp_size := int (Suc ?n)\<rparr>"
  have l: "?n < length ?a" "?i \<le> ?n"
    using n(3) e(1) by simp_all
  have "take (Suc ?n) ((shift_right ?i ?n ?a)[?i := (k', p')]) = es @ (k, p) # (k', p') # es'"
    unfolding insert_live[OF l] d(10) by simp
  moreover have "\<forall>m \<in> set ((shift_right ?i ?n ?a)[?i := (k', p')]). is_int64 (fst m) \<and> is_int64 (snd m)"
    using set_insert_live[OF l, of "(k', p')"] e(2) n(4,5) by auto
  ultimately have "internal_is n' (tp_parent_page_id n') (tp_max_size n) (es @ (k, p) # (k', p') # es')"
    using n(3) e by (intro internal_isI[OF d(1)]) (simp_all add: n'_def)
  moreover have "InternalPage_InsertNodeAfter p k' p' n = Inr (int (length es + length es' + 2), n')"
    using internal_is_ValueIndex[OF n(1,2)] d(5) l(1) by (simp add: InternalPage_InsertNodeAfter_def n'_def Let_def nat_add_distrib)
  ultimately show ?thesis
    using that d(2,3) by (simp add: n'_def)
qed

lemma internal_is_Remove:
  assumes n: "internal_is n parent mx (es @ x # es')"
  shows "internal_is (InternalPage_Remove (int (length es)) n) parent mx (es @ es')"
proof -
  note d = internal_isD[OF n] and e = internal_ok_enc[OF internal_isD(1)[OF n]]
  let ?n = "length (es @ x # es')" and ?a = "ip_array n"
  define n' where "n' = n\<lparr>ip_array := shift_left (length es) ?n ?a, tp_size := int (?n - 1)\<rparr>"
  have l: "?n \<le> length ?a" "length es < ?n"
    using d(6) e(1) by simp_all
  have "take (?n - 1) (shift_left (length es) ?n ?a) = es @ es'"
    unfolding remove_live[OF l] d(10) by simp
  then have "internal_is n' (tp_parent_page_id n') (tp_max_size n) (es @ es')"
    using set_shift_left[OF l(1), of "length es"] e d(6) by (intro internal_isI[OF d(1)]) (auto simp: n'_def)
  moreover have "InternalPage_Remove (int (length es)) n = n'"
    using d(5) by (simp add: InternalPage_Remove_def n'_def nat_add_distrib)
  ultimately show ?thesis
    using d(2,3) by (simp add: n'_def)
qed

lemma internal_is_SetKeyAt:
  assumes n: "internal_is n parent mx es" "i < length es" "is_int64 k"
  obtains n' where "InternalPage_SetKeyAt (int i) k n = Inr n'" "internal_is n' parent mx (es[i := (k, snd (es ! i))])"
proof -
  note d = internal_isD[OF n(1)] and e = internal_ok_enc[OF internal_isD(1)[OF n(1)]]
  define n' where "n' = n\<lparr>ip_array := (ip_array n)[i := (k, snd (es ! i))]\<rparr>"
  have "is_int64 (snd (es ! i))"
    using internal_is_int64[OF n(1)] n(2) by simp
  then have "internal_is n' (tp_parent_page_id n') (tp_max_size n) (es[i := (k, snd (es ! i))])"
    using set_update_subset_insert[of "ip_array n" i "(k, snd (es ! i))"] n(3) e d(5,6,10)
    by (intro internal_isI[OF d(1)]) (auto simp: n'_def take_update_swap)
  moreover have "InternalPage_SetKeyAt (int i) k n = Inr n'"
    using d(6,9,11) n(2) by (simp add: InternalPage_SetKeyAt_def n'_def)
  ultimately show ?thesis
    using that d(2,3) by (simp add: n'_def)
qed

lemma internal_is_OnlyChild:
  assumes "internal_is n parent mx [e]"
  obtains n' where "InternalPage_RemoveAndReturnOnlyChild n = (snd e, n')" "internal_is n' parent mx []"
proof -
  note d = internal_isD[OF assms] and e = internal_ok_enc[OF internal_isD(1)[OF assms]]
  have "internal_is (n\<lparr>tp_size := 0\<rparr>) (tp_parent_page_id (n\<lparr>tp_size := 0\<rparr>)) (tp_max_size n) []"
    using e by (intro internal_isI[OF d(1)]) simp_all
  then show ?thesis
    using that d(2,3) d(11)[of 0] by (simp add: InternalPage_RemoveAndReturnOnlyChild_def)
qed

lemma internal_is_MoveHalfTo:
  assumes n: "internal_is n parent mx es" and r: "internal_is r parent' mx' []"
  obtains n' r' where "InternalPage_MoveHalfTo n r = (n', r', map snd (drop (length es div 2) es))"
    "internal_is n' parent mx (take (length es div 2) es)" "internal_is r' parent' mx' (drop (length es div 2) es)"
proof -
  note d = internal_isD[OF n] and e = internal_ok_enc[OF internal_isD(1)[OF n]] and d' = internal_isD[OF r] and e' = internal_ok_enc[OF internal_isD(1)[OF r]]
  let ?n = "length es" and ?s = "length es div 2"
  define n' r' where "n' = n\<lparr>tp_size := int ?s\<rparr>"
    and "r' = r\<lparr>ip_array := copy_entries 0 ?s (?n - ?s) (ip_array n) (ip_array r), tp_size := int (?n - ?s)\<rparr>"
  have l: "0 + (?n - ?s) \<le> length (ip_array r)" "?s + (?n - ?s) \<le> length (ip_array n)"
    using d(6) e(1) e'(1) by simp_all
  have "take (?n - ?s) (copy_entries 0 ?s (?n - ?s) (ip_array n) (ip_array r)) = drop ?s es"
    using copy_live[OF l] d(10) by (metis add_0 append_Nil drop_take take_0)
  then have "internal_is r' (tp_parent_page_id r') (tp_max_size r) (drop ?s es)"
    using set_copy_entries[OF l] e e' d(6) by (intro internal_isI[OF d'(1)]) (auto simp: r'_def)
  moreover have "take ?s (ip_array n) = take ?s (take ?n (ip_array n))" "length (take ?s es) = ?s"
    by (simp_all add: min.absorb1 min.absorb2)
  then have "internal_is n' (tp_parent_page_id n') (tp_max_size n) (take ?s es)"
    using e d(6) unfolding d(10) by (intro internal_isI[OF d(1)]) (simp_all add: n'_def)
  moreover have "InternalPage_MoveHalfTo n r = (n', r', map snd (drop ?s es))"
    using d(4,5) by (simp add: InternalPage_MoveHalfTo_def Let_def n'_def r'_def)
  ultimately show ?thesis
    using that d(2,3) d'(2,3) by (simp add: n'_def r'_def)
qed

lemma internal_is_MoveAllTo:
  assumes n: "internal_is n parent mx (x # es)" and r: "internal_is r parent' mx' es'" and fit: "Suc (length es + length es') \<le> 254" and mk: "is_int64 mk"
  obtains n' r' where "InternalPage_MoveAllTo mk n r = Inr (n', r', map snd (x # es))"
    "internal_is n' parent mx []" "internal_is r' parent' mx' (es' @ (mk, snd x) # es)"
proof -
  note d = internal_isD[OF n] and e = internal_ok_enc[OF internal_isD(1)[OF n]] and d' = internal_isD[OF r] and e' = internal_ok_enc[OF internal_isD(1)[OF r]]
  let ?n = "Suc (length es)" and ?b = "length es'"
  define a where "a = (ip_array n)[0 := (mk, snd x)]"
  define n' r' where "n' = n\<lparr>ip_array := a, tp_size := 0\<rparr>"
    and "r' = r\<lparr>ip_array := copy_entries ?b 0 ?n a (ip_array r), tp_size := int (?b + ?n)\<rparr>"
  have l: "?b + ?n \<le> length (ip_array r)" "0 + ?n \<le> length a"
    using fit e(1) e'(1) by (simp_all add: a_def)
  have ta: "take ?n a = (mk, snd x) # es"
    using d(10) by (simp add: a_def take_update_swap)
  have x: "ip_array n ! 0 = x" "is_int64 (snd x)"
    using d(11)[of 0] internal_is_int64[OF n, of x] by simp_all
  have sa: "\<forall>m \<in> set a. is_int64 (fst m) \<and> is_int64 (snd m)"
    using set_update_subset_insert[of "ip_array n" 0 "(mk, snd x)"] e(2) mk x(2) by (auto simp: a_def)
  have "take (?b + ?n) (copy_entries ?b 0 ?n a (ip_array r)) = es' @ (mk, snd x) # es"
    using copy_live[OF l] d'(10) ta by simp
  then have "internal_is r' (tp_parent_page_id r') (tp_max_size r) (es' @ (mk, snd x) # es)"
    using set_copy_entries[OF l] sa e' fit by (intro internal_isI[OF d'(1)]) (auto simp: r'_def)
  moreover have "internal_is n' (tp_parent_page_id n') (tp_max_size n) []"
    using e sa by (intro internal_isI[OF d(1)]) (auto simp: n'_def a_def)
  moreover have "InternalPage_MoveAllTo mk n r = Inr (n', r', map snd (x # es))"
    using d(4,5) d'(5) l x(1) by (simp add: InternalPage_MoveAllTo_def Let_def n'_def r'_def a_def nat_add_distrib)
  ultimately show ?thesis
    using that d(2,3) d'(2,3) by (simp add: n'_def r'_def)
qed

lemma internal_is_MoveFirstToEndOf:
  assumes n: "internal_is n parent mx (x # es)" and r: "internal_is r parent' mx' es'" and fit: "length es' < 254" and mk: "is_int64 mk"
  obtains n' r' where "InternalPage_MoveFirstToEndOf mk n r = Inr (n', r', [snd x])"
    "internal_is n' parent mx es" "internal_is r' parent' mx' (es' @ [(mk, snd x)])"
proof -
  note d = internal_isD[OF n] and e = internal_ok_enc[OF internal_isD(1)[OF n]] and d' = internal_isD[OF r] and e' = internal_ok_enc[OF internal_isD(1)[OF r]]
  let ?n = "Suc (length es)" and ?b = "length es'"
  define n' r' where "n' = n\<lparr>ip_array := shift_left 0 ?n (ip_array n), tp_size := int (length es)\<rparr>"
    and "r' = r\<lparr>ip_array := (ip_array r)[?b := (mk, snd x)], tp_size := int (Suc ?b)\<rparr>"
  have l: "?n \<le> length (ip_array n)" "0 < ?n" "?b < length (ip_array r)"
    using d(6) e(1) e'(1) fit by simp_all
  have x: "ip_array n ! 0 = x" "is_int64 (snd x)"
    using d(11)[of 0] internal_is_int64[OF n, of x] by simp_all
  have "take (length es) (shift_left 0 ?n (ip_array n)) = es"
    using remove_live[OF l(1,2)] d(10) by simp
  then have "internal_is n' (tp_parent_page_id n') (tp_max_size n) es"
    using set_shift_left[OF l(1), of 0] e d(6) by (intro internal_isI[OF d(1)]) (auto simp: n'_def)
  moreover have "take (Suc ?b) ((ip_array r)[?b := (mk, snd x)]) = es' @ [(mk, snd x)]"
    using l(3) d'(10) by (simp add: take_Suc_conv_app_nth)
  then have "internal_is r' (tp_parent_page_id r') (tp_max_size r) (es' @ [(mk, snd x)])"
    using set_update_subset_insert[of "ip_array r" ?b "(mk, snd x)"] e' x(2) mk fit by (intro internal_isI[OF d'(1)]) (auto simp: r'_def)
  moreover have "InternalPage_MoveFirstToEndOf mk n r = Inr (n', r', [snd x])"
    using d(5) d'(5) l x(1) by (simp add: InternalPage_MoveFirstToEndOf_def Let_def n'_def r'_def nat_add_distrib)
  ultimately show ?thesis
    using that d(2,3) d'(2,3) by (simp add: n'_def r'_def)
qed

lemma internal_is_MoveLastToFrontOf:
  assumes n: "internal_is n parent mx (es @ [x])" and r: "internal_is r parent' mx' (y # es')" and fit: "Suc (length es') < 254" and mk: "is_int64 mk"
  obtains n' r' where "InternalPage_MoveLastToFrontOf mk n r = Inr (n', r', [snd x])"
    "internal_is n' parent mx es" "internal_is r' parent' mx' ((fst y, snd x) # (mk, snd y) # es')"
proof -
  note d = internal_isD[OF n] and e = internal_ok_enc[OF internal_isD(1)[OF n]] and d' = internal_isD[OF r] and e' = internal_ok_enc[OF internal_isD(1)[OF r]]
  let ?n = "length es" and ?b = "Suc (length es')" and ?a = "ip_array r"
  define a where "a = (shift_right 0 ?b ?a)[0 := (fst y, snd x)]"
  define n' r' where "n' = n\<lparr>tp_size := int ?n\<rparr>"
    and "r' = r\<lparr>ip_array := a[1 := (mk, snd y)], tp_size := int (Suc ?b)\<rparr>"
  have l: "?n < length (ip_array n)" "?b < length ?a"
    using d(6) e(1) e'(1) fit by simp_all
  have x: "ip_array n ! ?n = x" "is_int64 (snd x)" "?a ! 0 = y" "is_int64 (fst y)" "is_int64 (snd y)"
    using d(11)[of ?n] d'(11)[of 0] internal_is_int64[OF n, of x] internal_is_int64[OF r, of y] by simp_all
  have a: "take (Suc ?b) a = (fst y, snd x) # y # es'"
    using insert_live[OF l(2), of 0 "(fst y, snd x)"] d'(10) by (simp add: a_def)
  have "0 < length ?a"
    using l(2) by linarith
  then have a1: "a ! 1 = y" "shift_right 0 ?b ?a ! 0 = y" "shift_right 0 ?b ?a ! 1 = y"
    using l(2) x(3) shift_right_nth[OF l(2), of 0 0] shift_right_nth[OF l(2), of 0 1] by (auto simp: a_def)
  have "take (Suc ?b) (a[1 := (mk, snd y)]) = (fst y, snd x) # (mk, snd y) # es'"
    using a by (simp add: take_update_swap)
  moreover have "set (a[1 := (mk, snd y)]) \<subseteq> insert (mk, snd y) (insert (fst y, snd x) (set ?a))"
    using set_update_subset_insert[of a 1 "(mk, snd y)"] set_insert_live[OF l(2), of 0 "(fst y, snd x)"] unfolding a_def by blast
  then have "\<forall>m \<in> set (a[1 := (mk, snd y)]). is_int64 (fst m) \<and> is_int64 (snd m)"
    using e'(2) x(2,4,5) mk by (metis (no_types, lifting) fst_conv insert_iff snd_conv subsetD)
  ultimately have "internal_is r' (tp_parent_page_id r') (tp_max_size r) ((fst y, snd x) # (mk, snd y) # es')"
    using e' fit by (intro internal_isI[OF d'(1)]) (auto simp: r'_def a_def)
  moreover have "internal_is n' (tp_parent_page_id n') (tp_max_size n) es"
    using e d(6,10) by (intro internal_isI[OF d(1)]) (auto simp: n'_def min_def dest: arg_cong[of _ _ "take ?n"])
  moreover have "InternalPage_MoveLastToFrontOf mk n r = Inr (n', r', [snd x])"
    using d(5) d'(5) l x(1) a1 by (simp add: InternalPage_MoveLastToFrontOf_def Let_def n'_def r'_def nat_add_distrib a_def[symmetric])
  ultimately show ?thesis
    using that d(2,3) d'(2,3) by (simp add: n'_def r'_def)
qed

end
