(* ===== verification/BPlus_Tree.thy ===== *)
theory BPlus_Tree
  imports BPlus_Page
begin

text \<open>
  \<^verbatim>\<open>src/src/index/b_plus_tree.{h,cpp}\<close> and the child updates of \<^verbatim>\<open>internal_page.cpp\<close>: the tree over a buffer
  pool. The pool is a record of the operations the tree calls, so that the same program runs on the
  real pool and on a plain array of pages. A \<open>Page*\<close> is named by the id of the page it holds, which
  is right as long as the page is pinned; the pool refuses access to a page that is not. A \<open>PageGuard\<close> is
  the pair of page id and dirty flag; where a call may throw, the guards that the C++ unwinding
  would release are listed. The recursions over the tree are partial functions: on arbitrary bytes they
  may not end.
\<close>

section \<open>Programs that may throw or not return\<close>

type_synonym ('s, 'a) comp = "'s \<Rightarrow> ('a result \<times> 's) option"

definition ret :: "'a \<Rightarrow> ('s, 'a) comp" where
  "ret x s = Some (Inr x, s)"

definition throw :: "db_error \<Rightarrow> ('s, 'a) comp" where
  "throw e s = Some (Inl e, s)"

definition from_result :: "'a result \<Rightarrow> ('s, 'a) comp" where
  "from_result r s = Some (r, s)"

definition seq :: "('s, 'a) comp \<Rightarrow> ('a \<Rightarrow> ('s, 'b) comp) \<Rightarrow> ('s, 'b) comp" where
  "seq m k s = Option.bind (m s) (\<lambda>(r, s'). case r of Inl e \<Rightarrow> Some (Inl e, s') | Inr x \<Rightarrow> k x s')"

lemma seq_mono [partial_function_mono]:
  assumes "\<And>s. mono_option (\<lambda>f. m f s)" "\<And>x s. mono_option (\<lambda>f. k f x s)"
  shows "mono_option (\<lambda>f. seq (m f) (k f) s)"
  unfolding seq_def
proof (rule bind_mono[OF assms(1)], clarify)
  fix r s'
  show "mono_option (\<lambda>f. case r of Inl e \<Rightarrow> Some (Inl e, s') | Inr x \<Rightarrow> k f x s')"
    by (cases r) (simp_all add: assms(2) option.const_mono)
qed

lemma applied_mono [partial_function_mono]:
  "mono_option (\<lambda>f. A f s) \<Longrightarrow> mono_option (\<lambda>f. B f s) \<Longrightarrow> mono_option (\<lambda>f. (if c then A f else B f) s)"
  "(\<And>a b. mono_option (\<lambda>f. C f a b s)) \<Longrightarrow> mono_option (\<lambda>f. (case p of (a, b) \<Rightarrow> C f a b) s)"
  "(\<And>a. mono_option (\<lambda>f. D f a s)) \<Longrightarrow> mono_option (\<lambda>f. (let a = v in D f a) s)"
  by (cases c; simp; fail) (cases p; simp; fail | simp add: Let_def)+

section \<open>The buffer pool as the tree uses it\<close>

record 's pager =
  pg_FetchPage :: "page_id_t \<Rightarrow> 's \<Rightarrow> bool result \<times> 's"
  pg_NewPage :: "'s \<Rightarrow> page_id_t option result \<times> 's"
  pg_UnpinPage :: "page_id_t \<Rightarrow> bool \<Rightarrow> 's \<Rightarrow> bool result \<times> 's"
  pg_DropPage :: "page_id_t \<Rightarrow> bool \<Rightarrow> 's \<Rightarrow> bool result \<times> 's"
  pg_GetData :: "page_id_t \<Rightarrow> 's \<Rightarrow> byte list result"
  pg_SetData :: "page_id_t \<Rightarrow> byte list \<Rightarrow> 's \<Rightarrow> unit result \<times> 's"

record 's BPlusTree =
  bt_bpm :: 's
  bt_root_page_id :: page_id_t
  bt_leaf_max_size :: int
  bt_internal_max_size :: int

definition BPlusTree_new :: "'s \<Rightarrow> page_id_t \<Rightarrow> int \<Rightarrow> int \<Rightarrow> 's BPlusTree result" where
  "BPlusTree_new bpm root leaf_max internal_max =
     (if leaf_max < 3 \<or> leaf_max > int LeafPage_Capacity - 1 then Inl (InvalidArgument ''BPlusTree: leaf_max_size out of range'')
      else if internal_max < 3 \<or> internal_max > int InternalPage_Capacity - 1
      then Inl (InvalidArgument ''BPlusTree: internal_max_size out of range'')
      else Inr \<lparr>bt_bpm = bpm, bt_root_page_id = root, bt_leaf_max_size = leaf_max, bt_internal_max_size = internal_max\<rparr>)"

definition on_pool :: "('s \<Rightarrow> 'a result \<times> 's) \<Rightarrow> ('s BPlusTree, 'a) comp" where
  "on_pool f t = (case f (bt_bpm t) of (r, s) \<Rightarrow> Some (r, t\<lparr>bt_bpm := s\<rparr>))"

text \<open>The tree dereferences what \<open>FetchPage\<close> returns without a test; \<open>NewPage\<close> is tested.\<close>

definition Fetch :: "'s pager \<Rightarrow> page_id_t \<Rightarrow> ('s BPlusTree, unit) comp" where
  "Fetch P p = seq (on_pool (pg_FetchPage P p)) (\<lambda>found. if found then ret () else throw (UndefinedBehaviour ''null Page*''))"

definition NewPage :: "'s pager \<Rightarrow> string \<Rightarrow> ('s BPlusTree, page_id_t) comp" where
  "NewPage P msg = seq (on_pool (pg_NewPage P)) (\<lambda>np. case np of None \<Rightarrow> throw (RuntimeError msg) | Some p \<Rightarrow> ret p)"

definition Unpin :: "'s pager \<Rightarrow> page_id_t \<Rightarrow> bool \<Rightarrow> ('s BPlusTree, unit) comp" where
  "Unpin P p dirty = seq (on_pool (pg_UnpinPage P p dirty)) (\<lambda>_. ret ())"

text \<open>A guard is released and its page deleted: the tree always does both at once.\<close>

definition Drop :: "'s pager \<Rightarrow> page_id_t \<Rightarrow> bool \<Rightarrow> ('s BPlusTree, unit) comp" where
  "Drop P p dirty = seq (on_pool (pg_DropPage P p dirty)) (\<lambda>_. ret ())"

definition GetData :: "'s pager \<Rightarrow> page_id_t \<Rightarrow> ('s BPlusTree, byte list) comp" where
  "GetData P p t = Some (pg_GetData P p (bt_bpm t), t)"

definition SetData :: "'s pager \<Rightarrow> page_id_t \<Rightarrow> byte list \<Rightarrow> ('s BPlusTree, unit) comp" where
  "SetData P p bytes = on_pool (pg_SetData P p bytes)"

definition SetRoot :: "page_id_t \<Rightarrow> ('s BPlusTree, unit) comp" where
  "SetRoot p t = Some (Inr (), t\<lparr>bt_root_page_id := p\<rparr>)"

definition with_tree :: "('s BPlusTree \<Rightarrow> ('s BPlusTree, 'a) comp) \<Rightarrow> ('s BPlusTree, 'a) comp" where
  "with_tree f t = f t t"

text \<open>Guards: released one after the other, and by unwinding when a call throws.\<close>

fun Unpin_all :: "'s pager \<Rightarrow> (page_id_t \<times> bool) list \<Rightarrow> ('s BPlusTree, unit) comp" where
  "Unpin_all P [] = ret ()"
| "Unpin_all P ((p, dirty) # gs) = seq (Unpin P p dirty) (\<lambda>_. Unpin_all P gs)"

definition unwind :: "'s pager \<Rightarrow> (page_id_t \<times> bool) list \<Rightarrow> ('s BPlusTree, 'a) comp \<Rightarrow> ('s BPlusTree, 'a) comp" where
  "unwind P gs m t = Option.bind (m t) (\<lambda>(r, t').
     case r of Inl e \<Rightarrow> map_option (\<lambda>(_, t''). (Inl e, t'')) (Unpin_all P gs t') | Inr x \<Rightarrow> Some (Inr x, t'))"

lemma unwind_mono [partial_function_mono]:
  assumes "\<And>t. mono_option (\<lambda>f. m f t)"
  shows "mono_option (\<lambda>f. unwind P gs (m f) t)"
  unfolding unwind_def by (rule bind_mono[OF assms]) (rule option.const_mono)

text \<open>Access to a pinned page through the class that is laid over its bytes.\<close>

definition ReadHeader :: "'s pager \<Rightarrow> page_id_t \<Rightarrow> ('s BPlusTree, BPlusTreePage) comp" where
  "ReadHeader P p = seq (GetData P p) (\<lambda>b. ret (header_of b))"

definition ReadLeaf :: "'s pager \<Rightarrow> page_id_t \<Rightarrow> ('s BPlusTree, LeafPage) comp" where
  "ReadLeaf P p = seq (GetData P p) (\<lambda>b. ret (leaf_of b))"

definition ReadInternal :: "'s pager \<Rightarrow> page_id_t \<Rightarrow> ('s BPlusTree, InternalPage) comp" where
  "ReadInternal P p = seq (GetData P p) (\<lambda>b. ret (internal_of b))"

definition WriteLeaf :: "'s pager \<Rightarrow> page_id_t \<Rightarrow> LeafPage \<Rightarrow> ('s BPlusTree, unit) comp" where
  "WriteLeaf P p l = SetData P p (leaf_bytes l)"

definition WriteInternal :: "'s pager \<Rightarrow> page_id_t \<Rightarrow> InternalPage \<Rightarrow> ('s BPlusTree, unit) comp" where
  "WriteInternal P p n = SetData P p (internal_bytes n)"

definition SetParent :: "'s pager \<Rightarrow> page_id_t \<Rightarrow> page_id_t \<Rightarrow> ('s BPlusTree, unit) comp" where
  "SetParent P p parent = seq (GetData P p) (\<lambda>b. SetData P p (SetParentPageId parent b))"

text \<open>A move between two leaves, and between two internal pages with the update of the moved children.\<close>

definition MoveLeaf :: "'s pager \<Rightarrow> (LeafPage \<Rightarrow> LeafPage \<Rightarrow> (LeafPage \<times> LeafPage) result) \<Rightarrow> page_id_t \<Rightarrow> page_id_t \<Rightarrow> ('s BPlusTree, unit) comp" where
  "MoveLeaf P move this recipient =
     seq (ReadLeaf P this) (\<lambda>l. seq (ReadLeaf P recipient) (\<lambda>r. seq (from_result (move l r)) (\<lambda>(l', r').
       seq (WriteLeaf P this l') (\<lambda>_. WriteLeaf P recipient r'))))"

definition UpdateChildParent :: "'s pager \<Rightarrow> page_id_t \<Rightarrow> page_id_t \<Rightarrow> ('s BPlusTree, unit) comp" where
  "UpdateChildParent P child parent =
     seq (Fetch P child) (\<lambda>_. seq (SetParent P child parent) (\<lambda>_. Unpin P child True))"

fun UpdateChildren :: "'s pager \<Rightarrow> page_id_t list \<Rightarrow> page_id_t \<Rightarrow> ('s BPlusTree, unit) comp" where
  "UpdateChildren P [] parent = ret ()"
| "UpdateChildren P (c # cs) parent = seq (UpdateChildParent P c parent) (\<lambda>_. UpdateChildren P cs parent)"

definition MoveInternal :: "'s pager \<Rightarrow> (InternalPage \<Rightarrow> InternalPage \<Rightarrow> (InternalPage \<times> InternalPage \<times> page_id_t list) result) \<Rightarrow>
    page_id_t \<Rightarrow> page_id_t \<Rightarrow> ('s BPlusTree, unit) comp" where
  "MoveInternal P move this recipient =
     seq (ReadInternal P this) (\<lambda>n. seq (ReadInternal P recipient) (\<lambda>r. seq (from_result (move n r)) (\<lambda>(n', r', children).
       seq (WriteInternal P this n') (\<lambda>_. seq (WriteInternal P recipient r') (\<lambda>_. UpdateChildren P children recipient)))))"

section \<open>Lookup\<close>

partial_function (option) FindLeaf_loop ::
    "'s pager \<Rightarrow> KeyType \<Rightarrow> bool \<Rightarrow> page_id_t \<Rightarrow> 's BPlusTree \<Rightarrow> (page_id_t result \<times> 's BPlusTree) option" where
  "FindLeaf_loop P key leftmost cur t =
     seq (ReadHeader P cur) (\<lambda>h.
       if IsLeafPage h then ret cur
       else seq (ReadInternal P cur) (\<lambda>n.
         seq (if leftmost then from_result (InternalPage_ValueAt n 0) else ret (InternalPage_Lookup key n)) (\<lambda>child.
           seq (Fetch P child) (\<lambda>_. seq (Unpin P cur False) (\<lambda>_. FindLeaf_loop P key leftmost child))))) t"

definition FindLeafPageGuard :: "'s pager \<Rightarrow> KeyType \<Rightarrow> bool \<Rightarrow> ('s BPlusTree, page_id_t) comp" where
  "FindLeafPageGuard P key leftmost = with_tree (\<lambda>t.
     seq (Fetch P (bt_root_page_id t)) (\<lambda>_. FindLeaf_loop P key leftmost (bt_root_page_id t)))"

definition BPlusTree_IsEmpty :: "'s BPlusTree \<Rightarrow> bool" where
  "BPlusTree_IsEmpty t \<longleftrightarrow> bt_root_page_id t = INVALID_PAGE_ID"

definition BPlusTree_GetValue :: "'s pager \<Rightarrow> KeyType \<Rightarrow> ('s BPlusTree, string option) comp" where
  "BPlusTree_GetValue P key = with_tree (\<lambda>t.
     if BPlusTree_IsEmpty t then ret None
     else seq (FindLeafPageGuard P key False) (\<lambda>leaf_id.
       seq (ReadLeaf P leaf_id) (\<lambda>l. seq (Unpin P leaf_id False) (\<lambda>_. ret (LeafPage_Lookup key l)))))"

section \<open>Insert\<close>

definition Create_root :: "'s pager \<Rightarrow> page_id_t \<Rightarrow> KeyType \<Rightarrow> page_id_t \<Rightarrow> ('s BPlusTree, unit) comp" where
  "Create_root P left_id middle_key right_id = with_tree (\<lambda>t.
     seq (unwind P [(left_id, False)] (NewPage P ''BPlusTree::InsertIntoParent: buffer pool exhausted creating root'')) (\<lambda>new_root_id.
     seq (ReadInternal P new_root_id) (\<lambda>n.
     seq (WriteInternal P new_root_id
            (InternalPage_PopulateNewRoot left_id middle_key right_id (InternalPage_Init INVALID_PAGE_ID (bt_internal_max_size t) n))) (\<lambda>_.
     seq (Unpin P new_root_id True) (\<lambda>_.
     seq (SetParent P left_id new_root_id) (\<lambda>_.
     seq (unwind P [(left_id, True)] (Fetch P right_id)) (\<lambda>_.
     seq (SetParent P right_id new_root_id) (\<lambda>_.
     seq (Unpin P right_id True) (\<lambda>_.
     seq (SetRoot new_root_id) (\<lambda>_. Unpin P left_id True))))))))))"

text \<open>The split of an overfull parent: the new page and the key that goes up.\<close>

definition Split_internal :: "'s pager \<Rightarrow> (page_id_t \<times> bool) list \<Rightarrow> page_id_t \<Rightarrow> ('s BPlusTree, KeyType \<times> page_id_t) comp" where
  "Split_internal P guards parent_id = with_tree (\<lambda>t.
     seq (unwind P guards (NewPage P ''BPlusTree::InsertIntoParent: buffer pool exhausted splitting internal node'')) (\<lambda>new_id.
     seq (ReadInternal P parent_id) (\<lambda>parent.
     seq (ReadInternal P new_id) (\<lambda>n.
     seq (WriteInternal P new_id (InternalPage_Init (tp_parent_page_id parent) (bt_internal_max_size t) n)) (\<lambda>_.
     seq (unwind P guards (MoveInternal P (\<lambda>n r. Inr (InternalPage_MoveHalfTo n r)) parent_id new_id)) (\<lambda>_.
     seq (ReadInternal P new_id) (\<lambda>n.
     seq (from_result (InternalPage_KeyAt n 0)) (\<lambda>up_key.
     seq (Unpin P new_id True) (\<lambda>_. ret (up_key, new_id))))))))))"

partial_function (option) InsertIntoParent ::
    "'s pager \<Rightarrow> page_id_t \<Rightarrow> KeyType \<Rightarrow> page_id_t \<Rightarrow> 's BPlusTree \<Rightarrow> (unit result \<times> 's BPlusTree) option" where
  "InsertIntoParent P left_id middle_key right_id t =
     seq (Fetch P left_id) (\<lambda>_. seq (ReadHeader P left_id) (\<lambda>h.
       let parent_id = tp_parent_page_id h; guards = [(parent_id, True), (left_id, False)]
       in if parent_id = INVALID_PAGE_ID then Create_root P left_id middle_key right_id
          else seq (unwind P [(left_id, False)] (Fetch P parent_id)) (\<lambda>_.
            seq (ReadInternal P parent_id) (\<lambda>n.
            seq (from_result (InternalPage_InsertNodeAfter left_id middle_key right_id n)) (\<lambda>(new_size, n').
            seq (WriteInternal P parent_id n') (\<lambda>_.
              if new_size > bt_internal_max_size t
              then seq (Split_internal P guards parent_id) (\<lambda>(up_key, new_id).
                seq (unwind P guards (InsertIntoParent P parent_id up_key new_id)) (\<lambda>_. Unpin_all P guards))
              else Unpin_all P guards)))))) t"

definition Split_leaf :: "'s pager \<Rightarrow> page_id_t \<Rightarrow> ('s BPlusTree, unit) comp" where
  "Split_leaf P leaf_id = with_tree (\<lambda>t.
     seq (unwind P [(leaf_id, True)] (NewPage P ''BPlusTree::Insert: buffer pool exhausted splitting leaf'')) (\<lambda>new_leaf_id.
     seq (ReadLeaf P leaf_id) (\<lambda>leaf.
     seq (ReadLeaf P new_leaf_id) (\<lambda>l.
     seq (WriteLeaf P new_leaf_id (LeafPage_Init (tp_parent_page_id leaf) (bt_leaf_max_size t) l)) (\<lambda>_.
     seq (MoveLeaf P (\<lambda>l r. Inr (LeafPage_MoveHalfTo new_leaf_id l r)) leaf_id new_leaf_id) (\<lambda>_.
     seq (ReadLeaf P new_leaf_id) (\<lambda>new_leaf.
     seq (from_result (LeafPage_KeyAt new_leaf 0)) (\<lambda>middle_key.
     seq (unwind P [(new_leaf_id, True), (leaf_id, True)] (InsertIntoParent P leaf_id middle_key new_leaf_id)) (\<lambda>_.
       Unpin P new_leaf_id True)))))))))"

definition BPlusTree_Insert :: "'s pager \<Rightarrow> KeyType \<Rightarrow> string \<Rightarrow> ('s BPlusTree, bool) comp" where
  "BPlusTree_Insert P key v = with_tree (\<lambda>t.
     if BPlusTree_IsEmpty t then
       seq (NewPage P ''BPlusTree::Insert: buffer pool exhausted creating root'') (\<lambda>new_page_id.
       seq (ReadLeaf P new_page_id) (\<lambda>l.
       seq (WriteLeaf P new_page_id (LeafPage_Init INVALID_PAGE_ID (bt_leaf_max_size t) l)) (\<lambda>_.
       seq (ReadLeaf P new_page_id) (\<lambda>l.
       seq (from_result (LeafPage_Insert key v l)) (\<lambda>(_, l').
       seq (WriteLeaf P new_page_id l') (\<lambda>_.
       seq (Unpin P new_page_id True) (\<lambda>_.
       seq (SetRoot new_page_id) (\<lambda>_. ret True))))))))
     else
       seq (FindLeafPageGuard P key False) (\<lambda>leaf_id.
       seq (ReadLeaf P leaf_id) (\<lambda>l.
       seq (unwind P [(leaf_id, False)] (from_result (LeafPage_Insert key v l))) (\<lambda>(new_size, l').
       seq (WriteLeaf P leaf_id l') (\<lambda>_.
       seq (if new_size > bt_leaf_max_size t then Split_leaf P leaf_id else ret ()) (\<lambda>_.
       seq (Unpin P leaf_id True) (\<lambda>_. ret (new_size > tp_size l))))))))"

section \<open>Remove\<close>

definition HandleRootUnderflow :: "'s pager \<Rightarrow> page_id_t \<Rightarrow> bool \<Rightarrow> ('s BPlusTree, unit) comp" where
  "HandleRootUnderflow P node_id dirty =
     seq (ReadHeader P node_id) (\<lambda>h.
       if IsLeafPage h then
         if tp_size h = 0
         then seq (Drop P node_id dirty) (\<lambda>_. SetRoot INVALID_PAGE_ID)
         else Unpin P node_id dirty
       else seq (ReadInternal P node_id) (\<lambda>n.
         if tp_size n = 1 then
           case InternalPage_RemoveAndReturnOnlyChild n of (only_child, n') \<Rightarrow>
             seq (WriteInternal P node_id n') (\<lambda>_.
             seq (Drop P node_id dirty) (\<lambda>_.
             seq (Fetch P only_child) (\<lambda>_.
             seq (SetParent P only_child INVALID_PAGE_ID) (\<lambda>_.
             seq (Unpin P only_child True) (\<lambda>_. SetRoot only_child)))))
         else Unpin P node_id dirty))"

definition ParentValueAt :: "'s pager \<Rightarrow> page_id_t \<Rightarrow> int \<Rightarrow> ('s BPlusTree, page_id_t) comp" where
  "ParentValueAt P parent_id i = seq (ReadInternal P parent_id) (\<lambda>n. from_result (InternalPage_ValueAt n i))"

definition ParentKeyAt :: "'s pager \<Rightarrow> page_id_t \<Rightarrow> int \<Rightarrow> ('s BPlusTree, KeyType) comp" where
  "ParentKeyAt P parent_id i = seq (ReadInternal P parent_id) (\<lambda>n. from_result (InternalPage_KeyAt n i))"

definition ParentSetKeyAt :: "'s pager \<Rightarrow> page_id_t \<Rightarrow> int \<Rightarrow> KeyType \<Rightarrow> ('s BPlusTree, unit) comp" where
  "ParentSetKeyAt P parent_id i key =
     seq (ReadInternal P parent_id) (\<lambda>n. seq (from_result (InternalPage_SetKeyAt i key n)) (\<lambda>n'. WriteInternal P parent_id n'))"

definition ParentRemove :: "'s pager \<Rightarrow> page_id_t \<Rightarrow> int \<Rightarrow> ('s BPlusTree, unit) comp" where
  "ParentRemove P parent_id i =
     seq (ReadInternal P parent_id) (\<lambda>n. WriteInternal P parent_id (InternalPage_Remove i n))"

text \<open>
  The branches of \<open>HandleUnderflow\<close> for a leaf with the parent's guard held. Borrowing tells whether it
  was possible; a merge deletes the page that was emptied and releases every guard.
\<close>

definition Borrow_left_leaf :: "'s pager \<Rightarrow> page_id_t \<Rightarrow> bool \<Rightarrow> page_id_t \<Rightarrow> int \<Rightarrow> ('s BPlusTree, bool) comp" where
  "Borrow_left_leaf P node_id dirty parent_id idx =
     seq (ParentValueAt P parent_id (idx - 1)) (\<lambda>left_id.
     seq (unwind P [(parent_id, False), (node_id, dirty)] (Fetch P left_id)) (\<lambda>_.
     seq (ReadLeaf P left_id) (\<lambda>left.
       if tp_size left > GetMinSize left then
         seq (MoveLeaf P LeafPage_MoveLastToFrontOf left_id node_id) (\<lambda>_.
         seq (ReadLeaf P node_id) (\<lambda>leaf.
         seq (from_result (LeafPage_KeyAt leaf 0)) (\<lambda>key.
         seq (ParentSetKeyAt P parent_id idx key) (\<lambda>_.
         seq (Unpin_all P [(left_id, True), (parent_id, True), (node_id, True)]) (\<lambda>_. ret True)))))
       else seq (Unpin P left_id False) (\<lambda>_. ret False))))"

definition Borrow_right_leaf :: "'s pager \<Rightarrow> page_id_t \<Rightarrow> bool \<Rightarrow> page_id_t \<Rightarrow> int \<Rightarrow> ('s BPlusTree, bool) comp" where
  "Borrow_right_leaf P node_id dirty parent_id idx =
     seq (ParentValueAt P parent_id (idx + 1)) (\<lambda>right_id.
     seq (unwind P [(parent_id, False), (node_id, dirty)] (Fetch P right_id)) (\<lambda>_.
     seq (ReadLeaf P right_id) (\<lambda>right.
       if tp_size right > GetMinSize right then
         seq (MoveLeaf P LeafPage_MoveFirstToEndOf right_id node_id) (\<lambda>_.
         seq (ReadLeaf P right_id) (\<lambda>right'.
         seq (from_result (LeafPage_KeyAt right' 0)) (\<lambda>key.
         seq (ParentSetKeyAt P parent_id (idx + 1) key) (\<lambda>_.
         seq (Unpin_all P [(right_id, True), (parent_id, True), (node_id, True)]) (\<lambda>_. ret True)))))
       else seq (Unpin P right_id False) (\<lambda>_. ret False))))"

definition Merge_left_leaf :: "'s pager \<Rightarrow> page_id_t \<Rightarrow> bool \<Rightarrow> page_id_t \<Rightarrow> int \<Rightarrow> ('s BPlusTree, unit) comp" where
  "Merge_left_leaf P node_id dirty parent_id idx =
     seq (ParentValueAt P parent_id (idx - 1)) (\<lambda>left_id.
     seq (unwind P [(parent_id, False), (node_id, dirty)] (Fetch P left_id)) (\<lambda>_.
     seq (MoveLeaf P LeafPage_MoveAllTo node_id left_id) (\<lambda>_.
     seq (ParentRemove P parent_id idx) (\<lambda>_.
     seq (Drop P node_id dirty) (\<lambda>_.
       Unpin_all P [(left_id, True), (parent_id, True)])))))"

definition Merge_right_leaf :: "'s pager \<Rightarrow> page_id_t \<Rightarrow> bool \<Rightarrow> page_id_t \<Rightarrow> int \<Rightarrow> ('s BPlusTree, unit) comp" where
  "Merge_right_leaf P node_id dirty parent_id idx =
     seq (ParentValueAt P parent_id (idx + 1)) (\<lambda>right_id.
     seq (unwind P [(parent_id, False), (node_id, dirty)] (Fetch P right_id)) (\<lambda>_.
     seq (MoveLeaf P LeafPage_MoveAllTo right_id node_id) (\<lambda>_.
     seq (ParentRemove P parent_id (idx + 1)) (\<lambda>_.
     seq (Drop P right_id False) (\<lambda>_.
       Unpin_all P [(node_id, True), (parent_id, True)])))))"

definition Underflow_leaf :: "'s pager \<Rightarrow> page_id_t \<Rightarrow> bool \<Rightarrow> page_id_t \<Rightarrow> int \<Rightarrow> bool \<Rightarrow> bool \<Rightarrow> ('s BPlusTree, bool) comp" where
  "Underflow_leaf P node_id dirty parent_id idx has_left has_right =
     seq (if has_left then Borrow_left_leaf P node_id dirty parent_id idx else ret False) (\<lambda>borrowed.
       if borrowed then ret False
       else seq (if has_right then Borrow_right_leaf P node_id dirty parent_id idx else ret False) (\<lambda>borrowed.
         if borrowed then ret False
         else if has_left then seq (Merge_left_leaf P node_id dirty parent_id idx) (\<lambda>_. ret True)
         else seq (Merge_right_leaf P node_id dirty parent_id idx) (\<lambda>_. ret True)))"

text \<open>The same branches for an internal node.\<close>

definition Borrow_left_internal :: "'s pager \<Rightarrow> page_id_t \<Rightarrow> bool \<Rightarrow> page_id_t \<Rightarrow> int \<Rightarrow> ('s BPlusTree, bool) comp" where
  "Borrow_left_internal P node_id dirty parent_id idx =
     (let guards = [(parent_id, False), (node_id, dirty)]
      in seq (ParentValueAt P parent_id (idx - 1)) (\<lambda>left_id.
         seq (unwind P guards (Fetch P left_id)) (\<lambda>_.
         seq (ReadInternal P left_id) (\<lambda>left.
           if tp_size left > GetMinSize left then
             seq (from_result (InternalPage_KeyAt left (tp_size left - 1))) (\<lambda>new_separator.
             seq (ParentKeyAt P parent_id idx) (\<lambda>middle_key.
             seq (unwind P ((left_id, False) # guards) (MoveInternal P (InternalPage_MoveLastToFrontOf middle_key) left_id node_id)) (\<lambda>_.
             seq (ParentSetKeyAt P parent_id idx new_separator) (\<lambda>_.
             seq (Unpin_all P [(left_id, True), (parent_id, True), (node_id, True)]) (\<lambda>_. ret True)))))
           else seq (Unpin P left_id False) (\<lambda>_. ret False)))))"

definition Borrow_right_internal :: "'s pager \<Rightarrow> page_id_t \<Rightarrow> bool \<Rightarrow> page_id_t \<Rightarrow> int \<Rightarrow> ('s BPlusTree, bool) comp" where
  "Borrow_right_internal P node_id dirty parent_id idx =
     (let guards = [(parent_id, False), (node_id, dirty)]
      in seq (ParentValueAt P parent_id (idx + 1)) (\<lambda>right_id.
         seq (unwind P guards (Fetch P right_id)) (\<lambda>_.
         seq (ReadInternal P right_id) (\<lambda>right.
           if tp_size right > GetMinSize right then
             seq (from_result (InternalPage_KeyAt right 1)) (\<lambda>new_separator.
             seq (ParentKeyAt P parent_id (idx + 1)) (\<lambda>middle_key.
             seq (unwind P ((right_id, False) # guards) (MoveInternal P (InternalPage_MoveFirstToEndOf middle_key) right_id node_id)) (\<lambda>_.
             seq (ParentSetKeyAt P parent_id (idx + 1) new_separator) (\<lambda>_.
             seq (Unpin_all P [(right_id, True), (parent_id, True), (node_id, True)]) (\<lambda>_. ret True)))))
           else seq (Unpin P right_id False) (\<lambda>_. ret False)))))"

definition Merge_left_internal :: "'s pager \<Rightarrow> page_id_t \<Rightarrow> bool \<Rightarrow> page_id_t \<Rightarrow> int \<Rightarrow> ('s BPlusTree, unit) comp" where
  "Merge_left_internal P node_id dirty parent_id idx =
     (let guards = [(parent_id, False), (node_id, dirty)]
      in seq (ParentValueAt P parent_id (idx - 1)) (\<lambda>left_id.
         seq (unwind P guards (Fetch P left_id)) (\<lambda>_.
         seq (ParentKeyAt P parent_id idx) (\<lambda>middle_key.
         seq (unwind P ((left_id, False) # guards) (MoveInternal P (InternalPage_MoveAllTo middle_key) node_id left_id)) (\<lambda>_.
         seq (ParentRemove P parent_id idx) (\<lambda>_.
         seq (Drop P node_id dirty) (\<lambda>_.
           Unpin_all P [(left_id, True), (parent_id, True)])))))))"

definition Merge_right_internal :: "'s pager \<Rightarrow> page_id_t \<Rightarrow> bool \<Rightarrow> page_id_t \<Rightarrow> int \<Rightarrow> ('s BPlusTree, unit) comp" where
  "Merge_right_internal P node_id dirty parent_id idx =
     (let guards = [(parent_id, False), (node_id, dirty)]
      in seq (ParentValueAt P parent_id (idx + 1)) (\<lambda>right_id.
         seq (unwind P guards (Fetch P right_id)) (\<lambda>_.
         seq (ParentKeyAt P parent_id (idx + 1)) (\<lambda>middle_key.
         seq (unwind P ((right_id, False) # guards) (MoveInternal P (InternalPage_MoveAllTo middle_key) right_id node_id)) (\<lambda>_.
         seq (ParentRemove P parent_id (idx + 1)) (\<lambda>_.
         seq (Drop P right_id False) (\<lambda>_.
           Unpin_all P [(node_id, True), (parent_id, True)])))))))"

definition Underflow_internal :: "'s pager \<Rightarrow> page_id_t \<Rightarrow> bool \<Rightarrow> page_id_t \<Rightarrow> int \<Rightarrow> bool \<Rightarrow> bool \<Rightarrow> ('s BPlusTree, bool) comp" where
  "Underflow_internal P node_id dirty parent_id idx has_left has_right =
     seq (if has_left then Borrow_left_internal P node_id dirty parent_id idx else ret False) (\<lambda>borrowed.
       if borrowed then ret False
       else seq (if has_right then Borrow_right_internal P node_id dirty parent_id idx else ret False) (\<lambda>borrowed.
         if borrowed then ret False
         else if has_left then seq (Merge_left_internal P node_id dirty parent_id idx) (\<lambda>_. ret True)
         else seq (Merge_right_internal P node_id dirty parent_id idx) (\<lambda>_. ret True)))"

partial_function (option) HandleUnderflow ::
    "'s pager \<Rightarrow> page_id_t \<Rightarrow> bool \<Rightarrow> 's BPlusTree \<Rightarrow> (unit result \<times> 's BPlusTree) option" where
  "HandleUnderflow P node_id dirty t =
     seq (ReadHeader P node_id) (\<lambda>h.
       if IsRootPage h then HandleRootUnderflow P node_id dirty
       else if tp_size h \<ge> GetMinSize h then Unpin P node_id dirty
       else let parent_id = tp_parent_page_id h
            in seq (unwind P [(node_id, dirty)] (Fetch P parent_id)) (\<lambda>_.
               seq (ReadInternal P parent_id) (\<lambda>parent.
               let idx = InternalPage_ValueIndex node_id parent; has_left = 0 < idx; has_right = idx < tp_size parent - 1
               in seq (if IsLeafPage h then Underflow_leaf P node_id dirty parent_id idx has_left has_right
                       else Underflow_internal P node_id dirty parent_id idx has_left has_right) (\<lambda>merged.
                    if merged then seq (Fetch P parent_id) (\<lambda>_. HandleUnderflow P parent_id False) else ret ())))) t"

definition BPlusTree_Remove :: "'s pager \<Rightarrow> KeyType \<Rightarrow> ('s BPlusTree, bool) comp" where
  "BPlusTree_Remove P key = with_tree (\<lambda>t.
     if BPlusTree_IsEmpty t then ret False
     else seq (FindLeafPageGuard P key False) (\<lambda>leaf_id.
       seq (ReadLeaf P leaf_id) (\<lambda>l.
         case LeafPage_Remove key l of (removed, l') \<Rightarrow>
           if \<not> removed then seq (Unpin P leaf_id False) (\<lambda>_. ret False)
           else seq (WriteLeaf P leaf_id l') (\<lambda>_. seq (HandleUnderflow P leaf_id True) (\<lambda>_. ret True)))))"

section \<open>Iterators\<close>

text \<open>\<open>page_\<close> is null exactly when there is no page.\<close>

record Iterator =
  it_page_id :: page_id_t
  it_page :: "page_id_t option"
  it_index :: int

definition Iterator_end :: Iterator where
  "Iterator_end = \<lparr>it_page_id = INVALID_PAGE_ID, it_page = None, it_index = 0\<rparr>"

definition Iterator_IsEnd :: "Iterator \<Rightarrow> bool" where
  "Iterator_IsEnd it \<longleftrightarrow> it_page it = None"

definition Iterator_Release :: "'s pager \<Rightarrow> Iterator \<Rightarrow> ('s BPlusTree, Iterator) comp" where
  "Iterator_Release P it =
     (case it_page it of
        None \<Rightarrow> ret it
      | Some p \<Rightarrow> seq (Unpin P (it_page_id it) False) (\<lambda>_. ret (it\<lparr>it_page := None\<rparr>)))"

definition Iterator_leaf :: "'s pager \<Rightarrow> Iterator \<Rightarrow> 's \<Rightarrow> LeafPage result" where
  "Iterator_leaf P it s =
     (case it_page it of
        None \<Rightarrow> Inl (UndefinedBehaviour ''null Page*'')
      | Some p \<Rightarrow> map_sum id leaf_of (pg_GetData P p s))"

definition Iterator_GetKey :: "'s pager \<Rightarrow> Iterator \<Rightarrow> 's \<Rightarrow> KeyType result" where
  "Iterator_GetKey P it s =
     (case Iterator_leaf P it s of Inl e \<Rightarrow> Inl e | Inr l \<Rightarrow> LeafPage_KeyAt l (it_index it))"

definition Iterator_GetValue :: "'s pager \<Rightarrow> Iterator \<Rightarrow> 's \<Rightarrow> string result" where
  "Iterator_GetValue P it s =
     (case Iterator_leaf P it s of Inl e \<Rightarrow> Inl e | Inr l \<Rightarrow> LeafPage_ValueAt l (it_index it))"

definition Iterator_next :: "'s pager \<Rightarrow> Iterator \<Rightarrow> ('s BPlusTree, Iterator) comp" where
  "Iterator_next P it = with_tree (\<lambda>t.
     seq (from_result (Iterator_leaf P it (bt_bpm t))) (\<lambda>leaf.
       let index = it_index it + 1
       in if index \<ge> tp_size leaf then
            seq (Unpin P (it_page_id it) False) (\<lambda>_.
              if lp_next_page_id leaf \<noteq> INVALID_PAGE_ID
              then seq (on_pool (pg_FetchPage P (lp_next_page_id leaf))) (\<lambda>found.
                ret \<lparr>it_page_id = lp_next_page_id leaf,
                     it_page = (if found then Some (lp_next_page_id leaf) else None), it_index = 0\<rparr>)
              else ret \<lparr>it_page_id = INVALID_PAGE_ID, it_page = None, it_index = index\<rparr>)
          else ret (it\<lparr>it_index := index\<rparr>)))"

definition BPlusTree_Begin :: "'s pager \<Rightarrow> ('s BPlusTree, Iterator) comp" where
  "BPlusTree_Begin P = with_tree (\<lambda>t.
     if BPlusTree_IsEmpty t then ret Iterator_end
     else seq (FindLeafPageGuard P INVALID_KEY True) (\<lambda>page_id.
       ret \<lparr>it_page_id = page_id, it_page = Some page_id, it_index = 0\<rparr>))"

definition BPlusTree_Begin_at :: "'s pager \<Rightarrow> KeyType \<Rightarrow> ('s BPlusTree, Iterator) comp" where
  "BPlusTree_Begin_at P key = with_tree (\<lambda>t.
     if BPlusTree_IsEmpty t then ret Iterator_end
     else seq (FindLeafPageGuard P key False) (\<lambda>page_id.
       seq (ReadLeaf P page_id) (\<lambda>leaf.
         let idx = int (LeafPage_KeyIndex key leaf)
         in if idx \<ge> tp_size leaf then
              seq (Unpin P page_id False) (\<lambda>_.
                if lp_next_page_id leaf = INVALID_PAGE_ID then ret Iterator_end
                else seq (on_pool (pg_FetchPage P (lp_next_page_id leaf))) (\<lambda>found.
                  ret \<lparr>it_page_id = lp_next_page_id leaf,
                       it_page = (if found then Some (lp_next_page_id leaf) else None), it_index = 0\<rparr>))
            else ret \<lparr>it_page_id = page_id, it_page = Some page_id, it_index = idx\<rparr>)))"

end
