(* ===== verification/Spec2Isabelle.thy ===== *)
theory Spec2Isabelle
  imports Buffer_Pool_Client MVCC_Isolation Http_Server BPlus_Tree
begin

text \<open>
  \<^bold>\<open>A verification development of cpp-database-engine.\<close>

  \<^bold>\<open>The program.\<close> The engine stores byte strings under 64-bit keys and answers a small SQL dialect on
  top of that. A disk manager (src/src/storage/disk) reads and writes 4096-byte pages of one file; a
  buffer pool (src/src/buffer) caches pages in frames and asks a replacer (LRU or LRU-K) for a
  victim; a log manager (src/src/wal) packs log records into pages and syncs them. The LSM-tree
  engine (src/src/lsm) keeps a skip-list memtable and tiers of immutable sorted files with Bloom
  filters and a manifest page, and merges them with cursors. The MVCC store (src/src/mvcc) is a
  transactional store in memory. The SQL layer (src/src/sql) is a lexer, a parser, a catalog that
  encodes rows and keys, a planner, an executor and a database class, over any storage engine.

  \<^bold>\<open>Conventions.\<close> A class is a record of its members, an enum a datatype, a method Class::Method the
  definition \<open>Class_Method\<close> (or the method's name where that is unambiguous) on the record. A method
  that may throw returns \<open>'a result = db_error + 'a\<close>; one that may throw after it changed the state
  returns the result and the state. Undefined behaviour of C++ (an index outside an array, a null
  dereference) is the error \<open>UndefinedBehaviour\<close>, so that its absence is part of every theorem that
  gives a result. int64_t values whose range matters are words or integers with their range stated;
  bytes are \<open>8 word\<close>. An unordered_map is an association list, whose order stands for the unspecified
  iteration order. Abstract classes are records of their virtual methods; what a caller relies on
  is a locale over such a record, interpreted for every class that implements it. A mutex makes the
  code it guards one step; where the code releases it, the model has a step boundary.

  \<^bold>\<open>Theories.\<close>
  \<^item> \<open>Base\<close>: constants and exceptions (common/config.h, common/exception.h), named collections and
    shared list, map and word lemmas. \<open>Page_Codec\<close>: integers and arrays as bytes in a page.
    \<open>Decimal\<close>, \<open>C_Text\<close>: std::to_string, std::stoll, the character classes of the C locale.
  \<^item> \<open>Disk_Manager\<close>: the file as a byte sequence, page reads, writes and allocation.
  \<^item> \<open>Replacer\<close> (the interface with the locale \<open>replacer\<close>), \<open>LRUK_Replacer\<close>, \<open>LRU_Replacer\<close> (its two
    interpretations), \<open>Buffer_Pool\<close> (the pool over any replacer, with its invariant),
    \<open>Buffer_Pool_Client\<close> (sessions of calls compared with an array of pages).
  \<^item> \<open>Log_Manager\<close>: log records and log pages to the byte, append, flush, reopen, read.
  \<^item> \<open>Bloom_Filter\<close>, \<open>Skip_List\<close>, \<open>MemTable\<close>, \<open>Merge_Iterator\<close> (the cursor interface, its locale and the
    k-way merge), \<open>SSTable\<close> and \<open>SSTable_Reads\<close> (files of sorted runs, building and reading),
    \<open>LSM_Engine\<close> (the engine's operations over a file system), \<open>LSM_Reads\<close>, \<open>LSM_Writes\<close>,
    \<open>LSM_Recovery\<close> (their correctness), \<open>LSM_Correct\<close> (the properties of the engine).
  \<^item> \<open>MVCC_Store\<close> (version chains, transactions, garbage collection), \<open>MVCC_Isolation\<close> (runs of
    interleaved transactions and the isolation properties).
  \<^item> \<open>Storage_Engine\<close>: the abstract class with the locale \<open>storage_engine\<close>; \<open>LSM_Storage\<close> interprets
    it for the LSM-tree engine.
  \<^item> \<open>Sql_Lexer\<close>, \<open>Sql_Parser\<close>, \<open>Sql_Catalog\<close>, \<open>Sql_Planner\<close>, \<open>Sql_Executor\<close>, \<open>Sql_Database\<close>: the SQL
    layer in the order of its passes; \<open>Sql_Correct\<close>: its properties over the LSM-tree engine.

  \<^bold>\<open>What is shown.\<close> The buffer pool refines an array of pages for any number of frames and either
  policy, and fetching says exactly when it fails. The log gives back what was appended, also after a
  crash. Memtable, sorted files, Bloom filters and merge refine sorted maps, down to the bytes. The
  LSM-tree engine refines a map under every interleaving of writes and compaction steps; it recovers
  the map from its files after a crash between operations and after a clean shutdown; its files,
  tables and manifest stay consistent; its compaction loop settles. The MVCC store gives snapshot
  isolation and serializability, reads its own writes, leaves no trace of aborted transactions, and
  its garbage collection is invisible. The SQL parser accepts exactly the printed statements and never
  leaves its token vector; key and row encodings are injective and order-preserving; the plan is
  equivalent to the WHERE clause; every session of SQL texts is answered as by abstract tables, and
  every execution returns. Some properties are counterexamples to what the code means to do (a frame
  leak, a lost version, a lost flush window, a masked key): they are marked as such where they stand.

  \<^bold>\<open>Bounds and termination.\<close> Every loop of the code is a total recursive function, with two exceptions.
  The scan loop of the executor runs over an iterator of an abstract class and is a
  \<open>partial_function\<close>; that it returns is proved from the contract of the engine. The loops of the skip
  list and of the merge run on a fuel that is the number of remaining entries, and the theorems show
  it suffices. Hypotheses of the theorems on sizes (file, tier and table counts) are those at which
  the code itself reports an error.

  \<^bold>\<open>Not modelled.\<close> Memory management (destructors that only free, moves), the mutexes as objects, the
  wall clock and the benchmark counters' use. Floating-point sizing of the Bloom filter is a
  parameter. The B+-tree with its page classes, the write-ahead-logged engine over it, the HTTP
  server, the interactive shell and the two main programs are outside the development.
\<close>

end
